(* ===== verification/Prelude.thy ===== *)
theory Prelude
  imports Main "HOL-Library.Word" "HOL-Library.Char_ord"
begin

text \<open>
  Shared vocabulary of the development: names for the Go types that recur in every component,
  the outcome of a Go call that may panic, the simplification collections, and the generic lemmas
  about lists, maps and words that the component theories rely on.

  Conventions. A Go uint32 or uint64 is a word of that width, so addition wraps as it does in Go.
  A nil pointer is \<^term>\<open>None\<close>. A Go error value is a \<^typ>\<open>string\<close>, and a function that returns
  an error has a sum type with the error on the left. A loop that may not end is a
  partial_function, whose value \<^term>\<open>None\<close> means that it does not return.
\<close>

named_theorems dll_simps \<open>evaluation of the pointer operations of a linked list\<close>

text \<open>Names for the Go types used everywhere.\<close>

type_synonym ptr = nat
type_synonym err = string
type_synonym uint16 = "16 word"
type_synonym uint32 = "32 word"
type_synonym uint64 = "64 word"
type_synonym pubkey = string

text \<open>The outcome of a terminating Go call: a value, or a run-time panic.\<close>

datatype 'a outcome = Ret 'a | Panic

text \<open>The first and the last element of a list of addresses, as pointers.\<close>

fun hd_or :: "'a list \<Rightarrow> 'a option \<Rightarrow> 'a option" where
  "hd_or [] d = d"
| "hd_or (x # xs) d = Some x"

fun last_or :: "'a option \<Rightarrow> 'a list \<Rightarrow> 'a option" where
  "last_or d [] = d"
| "last_or d (x # xs) = last_or (Some x) xs"

lemma hd_or_append [simp]: "hd_or (xs @ ys) d = hd_or xs (hd_or ys d)"
  by (cases xs) auto

lemma last_or_append [simp]: "last_or d (xs @ ys) = last_or (last_or d xs) ys"
  by (induction xs arbitrary: d) auto

lemma hd_or_None [simp]: "hd_or xs None = None \<longleftrightarrow> xs = []"
  by (cases xs) auto

lemma last_or_Some_ne [simp]: "last_or (Some x) xs \<noteq> None"
  by (induction xs arbitrary: x) auto

lemma last_or_None [simp]: "last_or None xs = None \<longleftrightarrow> xs = []"
  by (cases xs) auto

lemma last_or_set: "last_or d xs = Some a \<Longrightarrow> xs = [] \<and> d = Some a \<or> (\<exists>ys. xs = ys @ [a])"
  by (cases xs rule: rev_cases) auto

lemma hd_or_set: "hd_or xs None = Some a \<Longrightarrow> \<exists>ys. xs = a # ys"
  by (cases xs) auto


lemma map_filter_all:
  "(\<And>x. x \<in> set xs \<Longrightarrow> f x = Some (k x)) \<Longrightarrow> List.map_filter f xs = map k xs"
  by (induction xs) (auto simp: List.map_filter_simps)

lemma map_filter_cong: "(\<And>x. x \<in> set xs \<Longrightarrow> f x = g x) \<Longrightarrow> List.map_filter f xs = List.map_filter g xs"
  by (induction xs) (auto simp: List.map_filter_simps split: option.splits)

lemma map_filter_append: "List.map_filter f (xs @ ys) = List.map_filter f xs @ List.map_filter f ys"
  by (induction xs) (auto simp: List.map_filter_simps split: option.splits)

lemma map_filter_length:
  "(\<And>x. x \<in> set xs \<Longrightarrow> f x \<noteq> None) \<Longrightarrow> length (List.map_filter f xs) = length xs"
  by (induction xs) (auto simp: List.map_filter_simps split: option.splits)

lemma option_eqI: "(\<And>x. a = Some x \<longleftrightarrow> b = Some x) \<Longrightarrow> a = b"
  by (cases a; cases b) auto

lemma mod_shift_neq: "0 < a \<Longrightarrow> a < n \<Longrightarrow> p < n \<Longrightarrow> (a + p) mod n \<noteq> (p :: nat)"
  by (cases "a + p < n") (auto simp: mod_if)

section \<open>Machine words\<close>

lemma unat_add64: "unat (a :: uint64) + unat b < 2 ^ 64 \<Longrightarrow> unat (a + b) = unat a + unat b"
  by (simp add: unat_word_ariths)

lemma unat_mod64: "unat ((a :: uint64) mod b) = unat a mod unat b"
  by (rule unat_mod_distrib)

lemma unat_of_nat64: "n < 2 ^ 64 \<Longrightarrow> unat (of_nat n :: uint64) = n"
  by (simp add: unat_of_nat take_bit_nat_eq_self)

lemma unat_pred64: "0 < unat (a :: uint64) \<Longrightarrow> unat (a - 1) = unat a - 1"
  by (metis gr_implies_not0 unat_0 unat_minus_one)

section \<open>Bounded queues\<close>

text \<open>
  The contract shared by the ring buffer and by a buffered Go channel: a push is accepted exactly
  when the queue is below its capacity, a pop returns the oldest accepted value. The lemmas below
  speak of an arbitrary interleaving of pushes and pops.
\<close>

datatype 'a queue_op = Push 'a | Take

fun queue_run :: "('a \<Rightarrow> 's \<Rightarrow> 's option) \<Rightarrow> ('s \<Rightarrow> ('a \<times> 's) option) \<Rightarrow> 'a queue_op list \<Rightarrow> 's
    \<Rightarrow> 'a list \<times> 'a list \<times> 's" where
  "queue_run push pop [] s = ([], [], s)"
| "queue_run push pop (Push v # cs) s =
     (case push v s of
        None \<Rightarrow> queue_run push pop cs s
      | Some s' \<Rightarrow> (case queue_run push pop cs s' of (acc, out, t) \<Rightarrow> (v # acc, out, t)))"
| "queue_run push pop (Take # cs) s =
     (case pop s of
        None \<Rightarrow> queue_run push pop cs s
      | Some (v, s') \<Rightarrow> (case queue_run push pop cs s' of (acc, out, t) \<Rightarrow> (acc, v # out, t)))"

locale bounded_queue =
  fixes inv :: "'s \<Rightarrow> bool"
    and seqn :: "'s \<Rightarrow> 'a list"
    and cap :: "'s \<Rightarrow> nat"
    and push :: "'a \<Rightarrow> 's \<Rightarrow> 's option"
    and pop :: "'s \<Rightarrow> ('a \<times> 's) option"
  assumes bounded: "inv s \<Longrightarrow> length (seqn s) \<le> cap s"
    and push_full: "inv s \<Longrightarrow> push v s = None \<longleftrightarrow> length (seqn s) = cap s"
    and push_ok: "inv s \<Longrightarrow> push v s = Some t \<Longrightarrow> inv t \<and> seqn t = seqn s @ [v] \<and> cap t = cap s"
    and pop_empty: "inv s \<Longrightarrow> pop s = None \<longleftrightarrow> seqn s = []"
    and pop_ok: "inv s \<Longrightarrow> pop s = Some (v, t) \<Longrightarrow> inv t \<and> seqn s = v # seqn t \<and> cap t = cap s"
begin

lemma push_accepts: "inv s \<Longrightarrow> length (seqn s) < cap s \<Longrightarrow> \<exists>t. push v s = Some t"
  using push_full [of s v] by (cases "push v s") auto

lemma fifo: "inv s \<Longrightarrow> queue_run push pop cs s = (acc, out, t) \<Longrightarrow>
    inv t \<and> cap t = cap s \<and> seqn s @ acc = out @ seqn t"
proof (induction cs arbitrary: s acc out)
  case (Cons c cs)
  show ?case
  proof (cases c)
    case (Push v)
    with Cons show ?thesis
      by (cases "push v s") (fastforce split: prod.splits dest: push_ok)+
  next
    case Take
    with Cons show ?thesis
      by (cases "pop s") (fastforce split: prod.splits dest: pop_ok)+
  qed
qed simp

end

section \<open>Buffered channels\<close>

text \<open>
  A buffered Go channel: its buffer, oldest value first, and its capacity. A send into a full
  channel and a receive from an empty one would block, which is \<^term>\<open>None\<close> here.
\<close>

record 'a chan =
  cbuf :: "'a list"
  ccap :: nat

definition make_chan :: "nat \<Rightarrow> 'a chan" where
  "make_chan n = \<lparr>cbuf = [], ccap = n\<rparr>"

definition chan_send :: "'a \<Rightarrow> 'a chan \<Rightarrow> 'a chan option" where
  "chan_send v c = (if length (cbuf c) < ccap c then Some (c\<lparr>cbuf := cbuf c @ [v]\<rparr>) else None)"

definition chan_recv :: "'a chan \<Rightarrow> ('a \<times> 'a chan) option" where
  "chan_recv c = (case cbuf c of [] \<Rightarrow> None | v # r \<Rightarrow> Some (v, c\<lparr>cbuf := r\<rparr>))"

definition chan_inv :: "'a chan \<Rightarrow> bool" where
  "chan_inv c \<longleftrightarrow> length (cbuf c) \<le> ccap c"

interpretation chan: bounded_queue chan_inv cbuf ccap chan_send chan_recv
  by unfold_locales (auto simp: chan_inv_def chan_send_def chan_recv_def split: if_splits list.splits)

text \<open>Decimal digits, as fmt prints an int.\<close>

function dec_nat :: "nat \<Rightarrow> string" where
  "dec_nat n = (if n < 10 then [char_of (48 + n)] else dec_nat (n div 10) @ [char_of (48 + n mod 10)])"
  by auto
termination
  by (relation "measure id") auto

declare dec_nat.simps [simp del]

definition dec_int :: "int \<Rightarrow> string" where
  "dec_int i = (if i < 0 then CHR ''-'' # dec_nat (nat (- i)) else dec_nat (nat i))"

text \<open>The zero key, as sgo.PublicKey prints it.\<close>

definition Zero :: pubkey where
  "Zero = replicate 32 CHR ''1''"

text \<open>
  Runs of a labelled system whose steps may be disabled: the interleavings of a group of goroutines.
\<close>

fun run_steps :: "('l \<Rightarrow> 's \<Rightarrow> 's option) \<Rightarrow> 'l list \<Rightarrow> 's \<Rightarrow> 's option" where
  "run_steps step [] s = Some s"
| "run_steps step (l # ls) s = (case step l s of None \<Rightarrow> None | Some s' \<Rightarrow> run_steps step ls s')"

lemma run_steps_invariant:
  assumes "run_steps step ls s = Some s'" "I s"
    "\<And>l s s'. l \<in> set ls \<Longrightarrow> I s \<Longrightarrow> step l s = Some s' \<Longrightarrow> I s'"
  shows "I s'"
  using assms
proof (induction ls arbitrary: s)
  case (Cons l ls)
  from Cons.prems(1) obtain s1 where st: "step l s = Some s1" "run_steps step ls s1 = Some s'"
    by (auto split: option.splits)
  have "I s1" by (rule Cons.prems(3) [OF _ Cons.prems(2) st(1)]) simp
  then show ?case using Cons.IH [OF st(2)] Cons.prems(3) by (meson list.set_intros(2))
qed simp

lemma run_steps_append:
  "run_steps step (xs @ ys) s = (case run_steps step xs s of None \<Rightarrow> None | Some s' \<Rightarrow> run_steps step ys s')"
  by (induction xs arbitrary: s) (auto split: option.split)

end
