(* ===== verification/LinkedList.thy ===== *)
theory LinkedList
  imports Prelude
begin

text \<open>
  The doubly linked list of ds/list/list.go. Nodes live in a heap from addresses to node records,
  and the list holds its size counter and its head and tail pointers, exactly the fields of the
  Go struct. Every operation follows the pointer assignments of the source in their order. The
  loops follow node pointers, so they need not end, and are partial functions.

  The abstraction of a list is the sequence of the addresses of its nodes with their values. The
  interface locale states what a client of the list may rely on.
\<close>

section \<open>State\<close>

record 'a Node =
  next_node :: "ptr option"
  prev_node :: "ptr option"
  node_value :: 'a

text \<open>The last two fields stand for the Go heap: the allocated nodes and the next free address.\<close>

record 'a Generic =
  Size :: uint32
  head :: "ptr option"
  tail :: "ptr option"
  heap :: "ptr \<rightharpoonup> 'a Node"
  brk :: ptr

definition CreateGeneric :: "'a Generic" where
  "CreateGeneric = \<lparr>Size = 0, head = None, tail = None, heap = Map.empty, brk = 0\<rparr>"

text \<open>Allocation of a node, and assignment to a field of a node behind a non-nil pointer.\<close>

definition alloc :: "'a Node \<Rightarrow> 'a Generic \<Rightarrow> ptr \<times> 'a Generic" where
  "alloc n g = (brk g, g\<lparr>heap := (heap g)(brk g \<mapsto> n), brk := Suc (brk g)\<rparr>)"

definition set_next :: "ptr \<Rightarrow> ptr option \<Rightarrow> 'a Generic \<Rightarrow> 'a Generic" where
  "set_next p q g = g\<lparr>heap := (heap g)(p := map_option (\<lambda>n. n\<lparr>next_node := q\<rparr>) (heap g p))\<rparr>"

definition set_prev :: "ptr \<Rightarrow> ptr option \<Rightarrow> 'a Generic \<Rightarrow> 'a Generic" where
  "set_prev p q g = g\<lparr>heap := (heap g)(p := map_option (\<lambda>n. n\<lparr>prev_node := q\<rparr>) (heap g p))\<rparr>"

definition Next :: "ptr \<Rightarrow> 'a Generic \<Rightarrow> ptr option" where
  "Next p g = Option.bind (heap g p) next_node"

definition Prev :: "ptr \<Rightarrow> 'a Generic \<Rightarrow> ptr option" where
  "Prev p g = Option.bind (heap g p) prev_node"

definition Value :: "ptr \<Rightarrow> 'a Generic \<Rightarrow> 'a option" where
  "Value p g = map_option node_value (heap g p)"

definition ChangeValue :: "ptr \<Rightarrow> 'a \<Rightarrow> 'a Generic \<Rightarrow> 'a Generic" where
  "ChangeValue p v g =
     g\<lparr>heap := (heap g)(p := map_option (\<lambda>n. n\<lparr>node_value := v\<rparr>) (heap g p))\<rparr>"

section \<open>Operations\<close>

definition Append :: "'a \<Rightarrow> 'a Generic \<Rightarrow> ptr \<times> 'a Generic" where
  "Append obj g =
     (let g1 = g\<lparr>Size := Size g + 1\<rparr>;
          (node, g2) = alloc \<lparr>next_node = None, prev_node = None, node_value = obj\<rparr> g1
      in case tail g2 of
           None \<Rightarrow> (node, g2\<lparr>head := Some node, tail := Some node\<rparr>)
         | Some oldTail \<Rightarrow>
             (node, (set_next oldTail (Some node) (set_prev node (Some oldTail) g2))
                      \<lparr>tail := Some node\<rparr>))"

definition Prepend :: "'a \<Rightarrow> 'a Generic \<Rightarrow> ptr \<times> 'a Generic" where
  "Prepend obj g =
     (let g1 = g\<lparr>Size := Size g + 1\<rparr>;
          (node, g2) = alloc \<lparr>next_node = None, prev_node = None, node_value = obj\<rparr> g1;
          oldHead = head g2;
          g3 = g2\<lparr>head := Some node\<rparr>;
          g4 = set_next node (head g3) g3
      in case oldHead of
           None \<Rightarrow> (node, g4)
         | Some h \<Rightarrow> (node, set_prev h (Some node) g4))"

definition Head :: "'a Generic \<Rightarrow> 'a option" where
  "Head g = (case head g of None \<Rightarrow> None | Some p \<Rightarrow> Value p g)"

definition HeadNode :: "'a Generic \<Rightarrow> ptr option" where
  "HeadNode g = head g"

definition TailNode :: "'a Generic \<Rightarrow> ptr option" where
  "TailNode g = tail g"

definition Tail :: "'a Generic \<Rightarrow> 'a option" where
  "Tail g = (case tail g of None \<Rightarrow> None | Some p \<Rightarrow> Value p g)"

definition Remove :: "ptr option \<Rightarrow> 'a Generic \<Rightarrow> 'a Generic" where
  "Remove node g =
     (case node of
        None \<Rightarrow> g
      | Some n \<Rightarrow>
          (let prevNode = Prev n g; nextNode = Next n g; g1 = g\<lparr>Size := Size g - 1\<rparr>
           in case (prevNode, nextNode) of
                (None, None) \<Rightarrow> g1\<lparr>head := None, tail := None\<rparr>
              | (None, Some q) \<Rightarrow> set_prev q None (g1\<lparr>head := nextNode\<rparr>)
              | (Some p, None) \<Rightarrow> set_next p None (g1\<lparr>tail := prevNode\<rparr>)
              | (Some p, Some q) \<Rightarrow> set_prev q prevNode (set_next p nextNode g1)))"

definition Pop :: "'a Generic \<Rightarrow> 'a option \<times> 'a Generic" where
  "Pop g = (case head g of None \<Rightarrow> (None, g) | Some h \<Rightarrow> (Value h g, Remove (Some h) g))"

text \<open>
  Insert after a node. The outer option is a nil dereference (the source writes oldTail.next
  without a check), the inner one the nil result of the refused call.
\<close>

definition Insert :: "'a \<Rightarrow> ptr option \<Rightarrow> 'a Generic \<Rightarrow> (ptr option \<times> 'a Generic) outcome" where
  "Insert v prevNode g =
     (case prevNode of
        None \<Rightarrow>
          (if 0 < Size g then Ret (None, g)
           else case Append v g of (n, g') \<Rightarrow> Ret (Some n, g'))
      | Some p \<Rightarrow>
          (let (middle, g1) = alloc \<lparr>next_node = None, prev_node = None, node_value = v\<rparr> g;
               g2 = g1\<lparr>Size := Size g1 + 1\<rparr>
           in case Next p g2 of
                None \<Rightarrow>
                  (let oldTail = tail g2; g3 = set_prev middle oldTail (g2\<lparr>tail := Some middle\<rparr>)
                   in case oldTail of
                        None \<Rightarrow> Panic
                      | Some t \<Rightarrow> Ret (Some middle, set_next t (Some middle) g3))
              | Some q \<Rightarrow>
                  Ret (Some middle,
                       set_prev q (Some middle)
                         (set_next p (Some middle)
                           (set_next middle (Some q) (set_prev middle (Some p) g2))))))"

text \<open>
  Iteration. The callback gets the value, the index and its own captured state; it answers with
  the new state, how often it called its delete closure, and its error.
\<close>

type_synonym ('a, 's) callback = "'a \<Rightarrow> uint32 \<Rightarrow> 's \<Rightarrow> 's \<times> nat \<times> err option"

partial_function (option) iterate_loop ::
  "('a, 's) callback \<Rightarrow> ptr option \<Rightarrow> uint32 \<Rightarrow> 'a Generic \<Rightarrow> 's
   \<Rightarrow> ('a Generic \<times> 's \<times> err option) option" where
  "iterate_loop cb node i g s =
     (case node of
        None \<Rightarrow> Some (g, s, None)
      | Some p \<Rightarrow>
          (case Value p g of
             None \<Rightarrow> None
           | Some v \<Rightarrow>
               (case cb v i s of
                  (s', k, e) \<Rightarrow>
                    (let g' = (Remove (Some p) ^^ k) g
                     in if e \<noteq> None then Some (g', s', e)
                        else iterate_loop cb (Next p g') (i + 1) g' s'))))"

definition Iterate ::
  "('a, 's) callback \<Rightarrow> 'a Generic \<Rightarrow> 's \<Rightarrow> ('a Generic \<times> 's \<times> err option) option" where
  "Iterate cb g s = iterate_loop cb (head g) 0 g s"

partial_function (option) iterate_reverse_loop ::
  "('a, 's) callback \<Rightarrow> ptr option \<Rightarrow> uint32 \<Rightarrow> 'a Generic \<Rightarrow> 's
   \<Rightarrow> ('a Generic \<times> 's \<times> err option) option" where
  "iterate_reverse_loop cb node i g s =
     (case node of
        None \<Rightarrow> Some (g, s, None)
      | Some p \<Rightarrow>
          (case Value p g of
             None \<Rightarrow> None
           | Some v \<Rightarrow>
               (case cb v i s of
                  (s', k, e) \<Rightarrow>
                    (let g' = (Remove (Some p) ^^ k) g
                     in if e \<noteq> None then Some (g', s', e)
                        else iterate_reverse_loop cb (Prev p g') (i - 1) g' s'))))"

definition IterateReverse ::
  "('a, 's) callback \<Rightarrow> 'a Generic \<Rightarrow> 's \<Rightarrow> ('a Generic \<times> 's \<times> err option) option" where
  "IterateReverse cb g s = iterate_reverse_loop cb (tail g) (Size g - 1) g s"

text \<open>
  Array allocates a slice of length Size filled with the zero value of the type and stores each
  value at its index; an index outside the slice is a panic, which ends the iteration.
\<close>

definition array_callback :: "('a, 'a list) callback" where
  "array_callback v i ans =
     (if unat i < length ans then (ans[unat i := v], 0, None)
      else (ans, 0, Some ''index out of range''))"

definition Array :: "'a \<Rightarrow> 'a Generic \<Rightarrow> 'a list outcome option" where
  "Array zero g =
     (case Iterate array_callback g (replicate (unat (Size g)) zero) of
        None \<Rightarrow> None
      | Some (_, ans, None) \<Rightarrow> Some (Ret ans)
      | Some (_, ans, Some _) \<Rightarrow> Some Panic)"

text \<open>The ordering callback of InsertSorted sees the two neighbouring nodes and the new item.\<close>

type_synonym 'a insert_ok = "'a Generic \<Rightarrow> ptr option \<Rightarrow> ptr option \<Rightarrow> 'a \<Rightarrow> bool"

partial_function (option) insert_sorted_loop ::
  "'a insert_ok \<Rightarrow> 'a \<Rightarrow> ptr option \<Rightarrow> 'a Generic \<Rightarrow> (ptr option \<times> 'a Generic) outcome option" where
  "insert_sorted_loop insertOk newItem node g =
     (case node of
        None \<Rightarrow> (case Append newItem g of (n, g') \<Rightarrow> Some (Ret (Some n, g')))
      | Some p \<Rightarrow>
          (if insertOk g (Some p) (Next p g) newItem then Some (Insert newItem (Some p) g)
           else insert_sorted_loop insertOk newItem (Next p g) g))"

definition InsertSorted ::
  "'a \<Rightarrow> 'a insert_ok \<Rightarrow> 'a Generic \<Rightarrow> (ptr option \<times> 'a Generic) outcome option" where
  "InsertSorted newItem insertOk g =
     (if insertOk g None (HeadNode g) newItem
      then (case Prepend newItem g of (n, g') \<Rightarrow> Some (Ret (Some n, g')))
      else insert_sorted_loop insertOk newItem (HeadNode g) g)"

text \<open>
  Comparison of two public keys, byte by byte. Reading a byte past the end of the second key is a
  panic; two Solana keys have the same length.
\<close>

fun ComparePublicKey :: "8 word list \<Rightarrow> 8 word list \<Rightarrow> int outcome" where
  "ComparePublicKey [] ys = Ret 0"
| "ComparePublicKey (x # xs) [] = Panic"
| "ComparePublicKey (x # xs) (y # ys) =
     (if x < y then Ret (-1) else if x > y then Ret 1 else ComparePublicKey xs ys)"

section \<open>The invariant\<close>

text \<open>
  A segment of the list: the nodes at the addresses \<open>ps\<close>, linked in both directions, between the
  pointers \<open>pr\<close> before and \<open>nx\<close> after them.
\<close>

fun seg :: "(ptr \<rightharpoonup> 'a Node) \<Rightarrow> ptr option \<Rightarrow> ptr list \<Rightarrow> ptr option \<Rightarrow> bool" where
  "seg h pr [] nx = True"
| "seg h pr (a # ps) nx =
     ((case h a of None \<Rightarrow> False
       | Some n \<Rightarrow> prev_node n = pr \<and> next_node n = hd_or ps nx) \<and> seg h (Some a) ps nx)"

definition linked :: "'a Generic \<Rightarrow> ptr list \<Rightarrow> bool" where
  "linked g ps \<longleftrightarrow>
     seg (heap g) None ps None \<and> distinct ps \<and> head g = hd_or ps None \<and> tail g = last_or None ps
     \<and> Size g = of_nat (length ps) \<and> (\<forall>a \<ge> brk g. heap g a = None)"

definition list_inv :: "'a Generic \<Rightarrow> bool" where
  "list_inv g \<longleftrightarrow> (\<exists>ps. linked g ps)"

text \<open>The addresses of a list, read off by following the next pointers for at most n nodes.\<close>

fun walk :: "nat \<Rightarrow> (ptr \<rightharpoonup> 'a Node) \<Rightarrow> ptr option \<Rightarrow> ptr list" where
  "walk 0 h p = []"
| "walk (Suc n) h None = []"
| "walk (Suc n) h (Some p) = p # walk n h (Option.bind (h p) next_node)"

definition nodes :: "'a Generic \<Rightarrow> ptr list" where
  "nodes g = walk (brk g) (heap g) (head g)"

definition items :: "'a Generic \<Rightarrow> (ptr \<times> 'a) list" where
  "items g = List.map_filter (\<lambda>p. map_option (\<lambda>n. (p, node_value n)) (heap g p)) (nodes g)"

definition contents :: "'a Generic \<Rightarrow> 'a list" where
  "contents g = map snd (items g)"


lemma seg_append:
  "seg h pr (xs @ ys) nx \<longleftrightarrow> seg h pr xs (hd_or ys nx) \<and> seg h (last_or pr xs) ys nx"
  by (induction xs arbitrary: pr) (auto split: option.splits)

lemma seg_cong: "(\<And>a. a \<in> set ps \<Longrightarrow> h a = h' a) \<Longrightarrow> seg h pr ps nx = seg h' pr ps nx"
  by (induction ps arbitrary: pr) (auto split: option.splits)

lemma seg_frame [simp]: "a \<notin> set ps \<Longrightarrow> seg (h(a := x)) pr ps nx = seg h pr ps nx"
  by (rule seg_cong) auto

lemma seg_allocated: "seg h pr ps nx \<Longrightarrow> a \<in> set ps \<Longrightarrow> \<exists>n. h a = Some n"
  by (induction ps arbitrary: pr) (auto split: option.splits)

lemma linkedD:
  assumes "linked g ps"
  shows linked_seg: "seg (heap g) None ps None" and linked_distinct: "distinct ps"
    and linked_head: "head g = hd_or ps None" and linked_tail: "tail g = last_or None ps"
    and linked_size: "Size g = of_nat (length ps)"
    and linked_free: "brk g \<le> a \<Longrightarrow> heap g a = None"
  using assms by (auto simp: linked_def)

lemma linked_below: "linked g ps \<Longrightarrow> a \<in> set ps \<Longrightarrow> a < brk g"
  by (metis linked_free linked_seg not_le option.distinct(1) seg_allocated)

lemma linked_heap: "linked g ps \<Longrightarrow> a \<in> set ps \<Longrightarrow> \<exists>n. heap g a = Some n"
  by (rule seg_allocated [OF linked_seg])

lemma linked_length: assumes "linked g ps" shows "length ps \<le> brk g"
proof -
  have "set ps \<subseteq> {..<brk g}"
    using linked_below [OF assms] by auto
  then have "card (set ps) \<le> brk g"
    by (metis card_lessThan card_mono finite_lessThan)
  then show ?thesis
    by (simp add: distinct_card [OF linked_distinct [OF assms]])
qed

lemma walk_seg: "seg h pr ps None \<Longrightarrow> length ps \<le> n \<Longrightarrow> walk n h (hd_or ps None) = ps"
proof (induction ps arbitrary: pr n)
  case Nil
  then show ?case by (cases n) auto
next
  case (Cons a ps)
  then show ?case by (cases n) (auto split: option.splits)
qed

lemma nodes_linked: "linked g ps \<Longrightarrow> nodes g = ps"
  by (simp add: nodes_def linked_head walk_seg [OF linked_seg linked_length])

lemma list_inv_linked: "list_inv g \<longleftrightarrow> linked g (nodes g)"
  unfolding list_inv_def using nodes_linked by metis

definition item_at :: "'a Generic \<Rightarrow> ptr \<Rightarrow> ptr \<times> 'a" where
  "item_at g p = (p, the (Value p g))"

lemma items_linked: "linked g ps \<Longrightarrow> items g = map (item_at g) ps"
  unfolding items_def
  by (auto simp: nodes_linked item_at_def Value_def dest!: linked_heap intro!: map_filter_all)

lemma fst_items [simp]: "list_inv g \<Longrightarrow> map fst (items g) = nodes g"
  by (simp add: list_inv_linked items_linked o_def item_at_def)

lemma ptr_ops [dll_simps]:
  "Size (set_next p q g) = Size g" "head (set_next p q g) = head g" "tail (set_next p q g) = tail g"
  "brk (set_next p q g) = brk g"
  "Size (set_prev p q g) = Size g" "head (set_prev p q g) = head g" "tail (set_prev p q g) = tail g"
  "brk (set_prev p q g) = brk g"
  "heap (set_next p q g) = (heap g)(p := map_option (\<lambda>n. n\<lparr>next_node := q\<rparr>) (heap g p))"
  "heap (set_prev p q g) = (heap g)(p := map_option (\<lambda>n. n\<lparr>prev_node := q\<rparr>) (heap g p))"
  by (auto simp: set_next_def set_prev_def)

lemma linked_Create: "linked CreateGeneric []"
  by (simp add: linked_def CreateGeneric_def)

lemma linked_Append:
  assumes "linked g ps"
  shows "fst (Append v g) = brk g" and "linked (snd (Append v g)) (ps @ [brk g])"
    and "items (snd (Append v g)) = items g @ [(brk g, v)]"
proof -
  let ?g = "snd (Append v g)"
  have fresh: "brk g \<notin> set ps"
    using linked_below [OF assms] by auto
  show "fst (Append v g) = brk g"
    by (simp add: Append_def alloc_def Let_def split: option.splits)
  show l: "linked ?g (ps @ [brk g])"
    using assms fresh
    by (cases ps rule: rev_cases)
      (auto simp: linked_def Append_def alloc_def seg_append dll_simps split: option.splits)
  have "\<forall>p \<in> set ps. item_at ?g p = item_at g p" and "item_at ?g (brk g) = (brk g, v)"
    using assms fresh
    by (cases ps rule: rev_cases;
      auto simp: linked_def Append_def alloc_def seg_append item_at_def Value_def dll_simps
        split: option.splits)+
  then show "items ?g = items g @ [(brk g, v)]"
    by (simp add: items_linked [OF l] items_linked [OF assms])
qed

lemma linked_split:
  assumes "linked g (xs @ p # ys)"
  shows "Prev p g = last_or None xs" and "Next p g = hd_or ys None"
    and "p \<notin> set xs" and "p \<notin> set ys"
  using assms by (auto simp: linked_def Prev_def Next_def seg_append split: option.splits)

lemma Remove_eqs:
  "Prev p g = None \<Longrightarrow> Next p g = None \<Longrightarrow>
     Remove (Some p) g = g\<lparr>Size := Size g - 1, head := None, tail := None\<rparr>"
  "Prev p g = None \<Longrightarrow> Next p g = Some b \<Longrightarrow>
     Remove (Some p) g = set_prev b None (g\<lparr>Size := Size g - 1, head := Some b\<rparr>)"
  "Prev p g = Some a \<Longrightarrow> Next p g = None \<Longrightarrow>
     Remove (Some p) g = set_next a None (g\<lparr>Size := Size g - 1, tail := Some a\<rparr>)"
  "Prev p g = Some a \<Longrightarrow> Next p g = Some b \<Longrightarrow>
     Remove (Some p) g = set_prev b (Some a) (set_next a (Some b) (g\<lparr>Size := Size g - 1\<rparr>))"
  by (simp_all add: Remove_def Let_def)

lemma Remove_ends:
  assumes "linked g (xs @ p # ys)"
  shows "Size (Remove (Some p) g) = of_nat (length (xs @ ys))"
    and "head (Remove (Some p) g) = hd_or (xs @ ys) None"
    and "tail (Remove (Some p) g) = last_or None (xs @ ys)"
    and "brk (Remove (Some p) g) = brk g"
  using linked_split [OF assms] linkedD [OF assms]
  by (cases xs rule: rev_cases; cases ys; simp add: Remove_eqs dll_simps)+

lemma Remove_heap:
  assumes "linked g (xs @ p # ys)"
  shows "seg (heap (Remove (Some p) g)) None (xs @ ys) None"
  using linked_split [OF assms] linkedD(1,2) [OF assms]
  by (cases xs rule: rev_cases; cases ys)
    (auto simp: Remove_eqs seg_append dll_simps split: option.splits)

lemma Remove_values:
  assumes "linked g (xs @ p # ys)"
  shows "Value a (Remove (Some p) g) = Value a g"
  using linked_split [OF assms]
  by (cases xs rule: rev_cases; cases ys)
    (auto simp: Remove_eqs Value_def dll_simps option.map_comp o_def)

lemma Remove_self:
  assumes "linked g (xs @ p # ys)"
  shows "heap (Remove (Some p) g) p = heap g p"
  using linked_split [OF assms]
  by (cases xs rule: rev_cases; cases ys) (auto simp: Remove_eqs dll_simps)

lemma Remove_free:
  assumes "linked g (xs @ p # ys)" and "brk g \<le> a"
  shows "heap (Remove (Some p) g) a = None"
  using linked_split [OF assms(1)] linkedD(6) [OF assms(1), of a] assms(2)
  by (cases xs rule: rev_cases; cases ys) (auto simp: Remove_eqs dll_simps)

lemma linked_Remove:
  assumes "linked g (xs @ p # ys)"
  shows "linked (Remove (Some p) g) (xs @ ys)"
    and "items (Remove (Some p) g) = map (item_at g) (xs @ ys)"
proof -
  show l: "linked (Remove (Some p) g) (xs @ ys)"
    unfolding linked_def
    using Remove_ends [OF assms] Remove_heap [OF assms] Remove_free [OF assms]
      linked_distinct [OF assms] by simp
  show "items (Remove (Some p) g) = map (item_at g) (xs @ ys)"
    by (simp add: items_linked [OF l] item_at_def Remove_values [OF assms])
qed

lemma linked_ChangeValue:
  assumes "linked g ps"
  shows "linked (ChangeValue p v g) ps"
    and "p \<in> set ps \<Longrightarrow> items (ChangeValue p v g) = map (\<lambda>(q, x). (q, if q = p then v else x)) (items g)"
proof -
  have sg: "seg (heap (ChangeValue p v g)) pr qs nx = seg (heap g) pr qs nx" for pr qs nx
    by (induction qs arbitrary: pr) (auto simp: ChangeValue_def split: option.splits)
  show l: "linked (ChangeValue p v g) ps"
    using assms unfolding linked_def sg by (auto simp: ChangeValue_def)
  show "items (ChangeValue p v g) = map (\<lambda>(q, x). (q, if q = p then v else x)) (items g)"
    if "p \<in> set ps"
    using linked_heap [OF assms that] unfolding items_linked [OF l] items_linked [OF assms]
    by (auto simp: item_at_def Value_def ChangeValue_def)
qed

text \<open>Insertion after a node: the new node of both branches has the same neighbours.\<close>

lemma Insert_eqs:
  assumes "linked g (xs @ p # ys)"
  shows "ys = [] \<Longrightarrow> Insert v (Some p) g =
      Ret (Some (brk g), set_next p (Some (brk g)) (set_prev (brk g) (Some p)
        ((snd (alloc \<lparr>next_node = None, prev_node = None, node_value = v\<rparr> g))
          \<lparr>Size := Size g + 1, tail := Some (brk g)\<rparr>)))"
    and "ys = b # zs \<Longrightarrow> Insert v (Some p) g =
      Ret (Some (brk g), set_prev b (Some (brk g)) (set_next p (Some (brk g))
        (set_next (brk g) (Some b) (set_prev (brk g) (Some p)
        ((snd (alloc \<lparr>next_node = None, prev_node = None, node_value = v\<rparr> g))
          \<lparr>Size := Size g + 1\<rparr>)))))"
proof -
  have "p \<noteq> brk g"
    using linked_below [OF assms] by auto
  moreover have "heap g p = Some n \<Longrightarrow> next_node n = hd_or ys None" for n
    using linked_split(2) [OF assms] by (simp add: Next_def)
  moreover obtain n where "heap g p = Some n"
    using linked_heap [OF assms] by auto
  ultimately show "ys = [] \<Longrightarrow> Insert v (Some p) g =
      Ret (Some (brk g), set_next p (Some (brk g)) (set_prev (brk g) (Some p)
        ((snd (alloc \<lparr>next_node = None, prev_node = None, node_value = v\<rparr> g))
          \<lparr>Size := Size g + 1, tail := Some (brk g)\<rparr>)))"
    and "ys = b # zs \<Longrightarrow> Insert v (Some p) g =
      Ret (Some (brk g), set_prev b (Some (brk g)) (set_next p (Some (brk g))
        (set_next (brk g) (Some b) (set_prev (brk g) (Some p)
        ((snd (alloc \<lparr>next_node = None, prev_node = None, node_value = v\<rparr> g))
          \<lparr>Size := Size g + 1\<rparr>)))))"
    using linked_tail [OF assms]
    by (simp_all add: Insert_def alloc_def Let_def Next_def)
qed

lemma linked_Insert:
  assumes "linked g (xs @ p # ys)"
  obtains g' where "Insert v (Some p) g = Ret (Some (brk g), g')"
    and "linked g' (xs @ p # brk g # ys)"
    and "items g' = map (item_at g) (xs @ [p]) @ (brk g, v) # map (item_at g) ys"
proof -
  have fresh: "brk g \<notin> set xs" "brk g \<notin> set ys" "brk g \<noteq> p"
    using linked_below [OF assms] by auto
  obtain g' where g': "Insert v (Some p) g = Ret (Some (brk g), g')"
    using Insert_eqs [OF assms] by (cases ys) auto
  have l: "linked g' (xs @ p # brk g # ys)"
    using assms g' fresh
    by (cases ys) (auto simp: Insert_eqs [OF assms] alloc_def linked_def seg_append dll_simps
        split: option.splits)
  have v: "q \<noteq> brk g \<Longrightarrow> Value q g' = Value q g" "Value (brk g) g' = Some v" for q
    using g' fresh
    by (cases ys; auto simp: Insert_eqs [OF assms] alloc_def Value_def dll_simps
        option.map_comp o_def)+
  have "q \<in> set (xs @ p # ys) \<Longrightarrow> item_at g' q = item_at g q" for q
    using v(1) [of q] fresh by (metis Un_iff item_at_def list.set_intros(1) set_ConsD set_append)
  then have "items g' = map (item_at g) (xs @ [p]) @ (brk g, v) # map (item_at g) ys"
    using v(2) by (auto simp: items_linked [OF l] item_at_def)
  with g' l show ?thesis by (rule that)
qed

section \<open>The interface of the list\<close>

text \<open>
  What the rest of the program relies on: appending at the end yields a fresh handle, popping takes
  the first value, and a handle can be removed. The abstract state is the sequence of handles with
  their values.
\<close>

locale node_seq =
  fixes inv :: "'s \<Rightarrow> bool"
    and seqn :: "'s \<Rightarrow> ('p \<times> 'a) list"
    and create :: 's
    and append :: "'a \<Rightarrow> 's \<Rightarrow> 'p \<times> 's"
    and pop :: "'s \<Rightarrow> 'a option \<times> 's"
    and remove :: "'p \<Rightarrow> 's \<Rightarrow> 's"
  assumes create_inv: "inv create"
    and create_seq: "seqn create = []"
    and handles: "inv s \<Longrightarrow> distinct (map fst (seqn s))"
    and append_inv: "inv s \<Longrightarrow> inv (snd (append v s))"
    and append_seq: "inv s \<Longrightarrow> seqn (snd (append v s)) = seqn s @ [(fst (append v s), v)]"
    and pop_inv: "inv s \<Longrightarrow> inv (snd (pop s))"
    and pop_value: "inv s \<Longrightarrow> fst (pop s) = map_option snd (hd_or (seqn s) None)"
    and pop_seq: "inv s \<Longrightarrow> seqn (snd (pop s)) = tl (seqn s)"
    and remove_inv: "inv s \<Longrightarrow> p \<in> fst ` set (seqn s) \<Longrightarrow> inv (remove p s)"
    and remove_seq: "inv s \<Longrightarrow> p \<in> fst ` set (seqn s) \<Longrightarrow>
          seqn (remove p s) = filter (\<lambda>x. fst x \<noteq> p) (seqn s)"
begin

lemma append_fresh: "inv s \<Longrightarrow> fst (append v s) \<notin> fst ` set (seqn s)"
  using handles [OF append_inv, of s v] by (simp add: append_seq)

lemma append_all: "inv s \<Longrightarrow>
    inv (fold (\<lambda>v s. snd (append v s)) vs s) \<and>
    map snd (seqn (fold (\<lambda>v s. snd (append v s)) vs s)) = map snd (seqn s) @ vs"
  by (induction vs arbitrary: s) (auto simp: append_inv append_seq)

lemma remove_appended: "inv s \<Longrightarrow>
    seqn (remove (fst (append v s)) (snd (append v s))) = seqn s"
  using append_fresh [of s v]
  by (subst remove_seq) (auto simp: append_inv append_seq filter_id_conv image_iff)

text \<open>Draining: popping as often as there are values returns them in order and empties the list.\<close>

primrec drain :: "nat \<Rightarrow> 's \<Rightarrow> 'a option list \<times> 's" where
  "drain 0 s = ([], s)"
| "drain (Suc n) s =
     (case pop s of (v, s') \<Rightarrow> case drain n s' of (vs, s'') \<Rightarrow> (v # vs, s''))"

lemma drain_all: "inv s \<Longrightarrow> n = length (seqn s) \<Longrightarrow>
    fst (drain n s) = map (Some \<circ> snd) (seqn s) \<and> seqn (snd (drain n s)) = []"
proof (induction n arbitrary: s)
  case (Suc n)
  then obtain p v r where r: "seqn s = (p, v) # r" by (cases "seqn s") auto
  then have "inv (snd (pop s))" "seqn (snd (pop s)) = r" "fst (pop s) = Some v"
    using Suc.prems by (auto simp: pop_inv pop_seq pop_value)
  with Suc.IH [of "snd (pop s)"] Suc.prems r show ?case by (auto split: prod.splits)
qed simp

end

lemma linked_nodes_split:
  assumes "list_inv g" and "p \<in> fst ` set (items g)"
  obtains xs ys where "linked g (xs @ p # ys)"
proof -
  have l: "linked g (nodes g)" using assms(1) by (simp add: list_inv_linked)
  then have "p \<in> set (nodes g)"
    using assms(2) by (auto simp: items_linked item_at_def)
  then obtain xs ys where "nodes g = xs @ p # ys" by (meson split_list)
  with l that show ?thesis by simp
qed

lemma inv_Append:
  assumes "list_inv g"
  shows "list_inv (snd (Append v g))"
    and "items (snd (Append v g)) = items g @ [(fst (Append v g), v)]"
  using linked_Append [of g "nodes g" v] assms list_inv_linked [of g]
  unfolding list_inv_def [of "snd (Append v g)"] by auto

lemma inv_Remove:
  assumes "list_inv g" and "p \<in> fst ` set (items g)"
  shows "list_inv (Remove (Some p) g)"
    and "items (Remove (Some p) g) = filter (\<lambda>x. fst x \<noteq> p) (items g)"
proof -
  obtain xs ys where l: "linked g (xs @ p # ys)" using linked_nodes_split [OF assms] .
  show "list_inv (Remove (Some p) g)"
    using linked_Remove(1) [OF l] by (auto simp: list_inv_def)
  have "p \<notin> set xs" "p \<notin> set ys" using linked_split [OF l] by auto
  then have "filter (\<lambda>x. x \<noteq> p) xs = xs" "filter (\<lambda>x. x \<noteq> p) ys = ys"
    by (auto simp: filter_id_conv)
  then show "items (Remove (Some p) g) = filter (\<lambda>x. fst x \<noteq> p) (items g)"
    by (simp add: linked_Remove(2) [OF l] items_linked [OF l] filter_map o_def item_at_def)
qed

lemma Pop_cases:
  assumes "linked g ps"
  shows "ps = [] \<Longrightarrow> Pop g = (None, g)"
    and "ps = p # qs \<Longrightarrow> Pop g = (Value p g, Remove (Some p) g)"
  using assms by (auto simp: Pop_def linked_head)

lemma inv_Pop:
  assumes "list_inv g"
  shows "list_inv (snd (Pop g))" and "items (snd (Pop g)) = tl (items g)"
    and "fst (Pop g) = map_option snd (hd_or (items g) None)"
proof -
  have l: "linked g (nodes g)" using assms by (simp add: list_inv_linked)
  have "list_inv (snd (Pop g)) \<and> items (snd (Pop g)) = tl (items g)
      \<and> fst (Pop g) = map_option snd (hd_or (items g) None)"
  proof (cases "nodes g")
    case Nil
    then show ?thesis
      using Pop_cases(1) [OF l] assms items_linked [OF l] by simp
  next
    case (Cons p qs)
    with l have l': "linked g ([] @ p # qs)" by simp
    moreover obtain n where "heap g p = Some n" using linked_heap [OF l'] by auto
    ultimately show ?thesis
      using Pop_cases(2) [OF l Cons] linked_Remove [OF l'] items_linked [OF l']
      by (auto simp: list_inv_def item_at_def Value_def)
  qed
  then show "list_inv (snd (Pop g))" and "items (snd (Pop g)) = tl (items g)"
    and "fst (Pop g) = map_option snd (hd_or (items g) None)" by auto
qed

interpretation generic: node_seq list_inv items CreateGeneric Append Pop "\<lambda>p. Remove (Some p)"
proof (unfold_locales, goal_cases)
  case 1
  show ?case using linked_Create by (auto simp: list_inv_def)
next
  case 2
  show ?case using items_linked [OF linked_Create] by simp
next
  case (3 g)
  then show ?case by (simp add: list_inv_linked linked_distinct)
qed (simp_all add: inv_Append inv_Pop inv_Remove)

section \<open>Iteration\<close>

text \<open>The specification of an iteration over the items of a list.\<close>

fun visit :: "('a, 's) callback \<Rightarrow> (uint32 \<Rightarrow> uint32) \<Rightarrow> uint32 \<Rightarrow> (ptr \<times> 'a) list \<Rightarrow> 's
    \<Rightarrow> (ptr \<times> 'a) list \<times> 's \<times> err option" where
  "visit cb step i [] s = ([], s, None)"
| "visit cb step i (x # r) s =
     (case cb (snd x) i s of
        (s', k, e) \<Rightarrow>
          (let keep = (if k = 0 then [x] else [])
           in if e \<noteq> None then (keep @ r, s', e)
              else case visit cb step (step i) r s' of (r', s'', e') \<Rightarrow> (keep @ r', s'', e')))"

definition deletes_once :: "('a, 's) callback \<Rightarrow> bool" where
  "deletes_once cb \<longleftrightarrow> (\<forall>v i s. fst (snd (cb v i s)) \<le> 1)"

lemma iteration_step:
  assumes l: "linked g (xs @ p # ys)" and k: "k \<le> 1"
  defines "g' \<equiv> (Remove (Some p) ^^ k) g"
  shows "linked g' (xs @ (if k = 0 then [p] else []) @ ys)"
    and "Next p g' = hd_or ys None" and "Prev p g' = last_or None xs"
    and "item_at g' = item_at g"
proof -
  have k01: "k = 0 \<or> k = 1" using k by linarith
  then show "linked g' (xs @ (if k = 0 then [p] else []) @ ys)"
    using l linked_Remove(1) [OF l] by (auto simp: g'_def)
  have "heap g' p = heap g p"
    using k01 Remove_self [OF l] by (auto simp: g'_def)
  then show "Next p g' = hd_or ys None" "Prev p g' = last_or None xs"
    using linked_split [OF l] by (simp_all add: Next_def Prev_def)
  show "item_at g' = item_at g"
    using k01 Remove_values [OF l] by (auto simp: g'_def item_at_def)
qed

lemma linked_Value: "linked g (xs @ p # ys) \<Longrightarrow> Value p g = Some (snd (item_at g p))"
  using linked_heap [of g "xs @ p # ys" p] by (auto simp: Value_def item_at_def)

lemma visit_Cons:
  assumes "visit cb st i (x # xs) s = (r, s', e)" and "cb (snd x) i s = (t, k, d)"
  shows "d \<noteq> None \<Longrightarrow> s' = t \<and> e = d \<and> r = (if k = 0 then [x] else []) @ xs"
    and "d = None \<Longrightarrow>
      \<exists>r'. visit cb st (st i) xs t = (r', s', e) \<and> r = (if k = 0 then [x] else []) @ r'"
  using assms by (auto simp: Let_def split: prod.splits if_splits)

lemma iterate_loop_linked:
  assumes "linked g (xs @ ys)" and "deletes_once cb"
    and "visit cb (\<lambda>j. j + 1) i (map (item_at g) ys) s = (r, s', e)"
  shows "\<exists>g' zs. iterate_loop cb (hd_or ys None) i g s = Some (g', s', e)
            \<and> linked g' (xs @ zs) \<and> item_at g' = item_at g \<and> map (item_at g) zs = r"
  using assms
proof (induction ys arbitrary: g xs i s r)
  case Nil
  then show ?case by (auto simp: iterate_loop.simps)
next
  case (Cons p ys)
  obtain t k d where cb: "cb (snd (item_at g p)) i s = (t, k, d)" by (metis prod_cases3)
  have "k \<le> 1" using Cons.prems(2) cb unfolding deletes_once_def by (metis fst_conv snd_conv)
  note st = iteration_step [OF Cons.prems(1) this]
  let ?g = "(Remove (Some p) ^^ k) g" and ?kp = "if k = 0 then [p] else []"
  note v = visit_Cons [OF Cons.prems(3) [unfolded list.map] cb]
  have loop: "iterate_loop cb (Some p) i g s =
      (if d \<noteq> None then Some (?g, t, d) else iterate_loop cb (hd_or ys None) (i + 1) ?g t)"
    by (simp add: iterate_loop.simps [of _ "Some p"] linked_Value [OF Cons.prems(1)] cb Let_def st(2))
  show ?case
  proof (cases d)
    case None
    obtain r' where r': "visit cb (\<lambda>j. j + 1) (i + 1) (map (item_at ?g) ys) t = (r', s', e)"
      "r = (if k = 0 then [item_at g p] else []) @ r'"
      using v(2) [OF None] by (auto simp: st(4))
    from Cons.IH [OF _ Cons.prems(2) r'(1), of "xs @ ?kp"] st(1,4)
    obtain g' zs where "iterate_loop cb (hd_or ys None) (i + 1) ?g t = Some (g', s', e)"
      "linked g' (xs @ ?kp @ zs)" "item_at g' = item_at g" "map (item_at g) zs = r'"
      by auto
    with loop None r'(2) show ?thesis
      by (intro exI [of _ g'] exI [of _ "?kp @ zs"]) auto
  next
    case (Some d')
    with loop v(1) st(1,4) show ?thesis
      by (intro exI [of _ ?g] exI [of _ "?kp @ ys"]) auto
  qed
qed

lemma iterate_reverse_loop_linked:
  assumes "linked g (ys @ xs)" and "deletes_once cb"
    and "visit cb (\<lambda>j. j - 1) i (map (item_at g) (rev ys)) s = (r, s', e)"
  shows "\<exists>g' zs. iterate_reverse_loop cb (last_or None ys) i g s = Some (g', s', e)
            \<and> linked g' (zs @ xs) \<and> item_at g' = item_at g \<and> map (item_at g) (rev zs) = r"
  using assms
proof (induction ys arbitrary: g xs i s r rule: rev_induct)
  case Nil
  then show ?case by (auto simp: iterate_reverse_loop.simps)
next
  case (snoc p ys)
  obtain t k d where cb: "cb (snd (item_at g p)) i s = (t, k, d)" by (metis prod_cases3)
  have k: "k \<le> 1" using snoc.prems(2) cb unfolding deletes_once_def by (metis fst_conv snd_conv)
  have l: "linked g (ys @ p # xs)" using snoc.prems(1) by simp
  note st = iteration_step [OF l k]
  let ?g = "(Remove (Some p) ^^ k) g" and ?kp = "if k = 0 then [p] else []"
  have "visit cb (\<lambda>j. j - 1) i (item_at g p # map (item_at g) (rev ys)) s = (r, s', e)"
    using snoc.prems(3) by simp
  note v = visit_Cons [OF this cb]
  have loop: "iterate_reverse_loop cb (Some p) i g s =
      (if d \<noteq> None then Some (?g, t, d) else iterate_reverse_loop cb (last_or None ys) (i - 1) ?g t)"
    by (simp add: iterate_reverse_loop.simps [of _ "Some p"] linked_Value [OF l] cb Let_def st(3))
  show ?case
  proof (cases d)
    case None
    obtain r' where r': "visit cb (\<lambda>j. j - 1) (i - 1) (map (item_at ?g) (rev ys)) t = (r', s', e)"
      "r = (if k = 0 then [item_at g p] else []) @ r'"
      using v(2) [OF None] by (auto simp: st(4))
    from snoc.IH [OF _ snoc.prems(2) r'(1), of "?kp @ xs"] st(1,4)
    obtain g' zs where "iterate_reverse_loop cb (last_or None ys) (i - 1) ?g t = Some (g', s', e)"
      "linked g' (zs @ ?kp @ xs)" "item_at g' = item_at g" "map (item_at g) (rev zs) = r'"
      by auto
    with loop None r'(2) show ?thesis
      by (intro exI [of _ g'] exI [of _ "zs @ ?kp"]) auto
  next
    case (Some d')
    with loop v(1) st(1,4) show ?thesis
      by (intro exI [of _ ?g] exI [of _ "ys @ ?kp"]) auto
  qed
qed

lemma Iterate_visits:
  assumes "list_inv g" and "deletes_once cb"
    and "visit cb (\<lambda>j. j + 1) 0 (items g) s = (r, s', e)"
  shows "\<exists>g'. Iterate cb g s = Some (g', s', e) \<and> list_inv g' \<and> items g' = r"
proof -
  have l: "linked g ([] @ nodes g)" using assms(1) by (simp add: list_inv_linked)
  from iterate_loop_linked [OF l assms(2), of 0 s r s' e] assms(3)
  obtain g' zs where "iterate_loop cb (head g) 0 g s = Some (g', s', e)"
    "linked g' zs" "item_at g' = item_at g" "map (item_at g) zs = r"
    using l by (auto simp: items_linked linked_head)
  then show ?thesis
    by (auto simp: Iterate_def list_inv_def items_linked)
qed

lemma IterateReverse_visits:
  assumes "list_inv g" and "deletes_once cb"
    and "visit cb (\<lambda>j. j - 1) (Size g - 1) (rev (items g)) s = (r, s', e)"
  shows "\<exists>g'. IterateReverse cb g s = Some (g', s', e) \<and> list_inv g' \<and> items g' = rev r"
proof -
  have l: "linked g (nodes g @ [])" using assms(1) by (simp add: list_inv_linked)
  from iterate_reverse_loop_linked [OF l assms(2), of "Size g - 1" s r s' e] assms(3)
  obtain g' zs where "iterate_reverse_loop cb (tail g) (Size g - 1) g s = Some (g', s', e)"
    "linked g' zs" "item_at g' = item_at g" "map (item_at g) (rev zs) = r"
    using l by (auto simp: items_linked linked_tail rev_map)
  then show ?thesis
    by (auto simp: IterateReverse_def list_inv_def items_linked simp flip: rev_map)
qed

lemma visit_array:
  assumes "length xs < 2 ^ 32" "length acc + length xs = n" "length acc + length xs < 2 ^ 32"
  shows "\<exists>r. visit array_callback (\<lambda>j. j + 1) (of_nat (length acc)) xs
          (acc @ replicate (length xs) z) = (r, acc @ map snd xs, None)"
  using assms
proof (induction xs arbitrary: acc)
  case (Cons x xs)
  have u: "unat (of_nat (length acc) :: uint32) = length acc"
    using Cons.prems by (simp add: unat_of_nat take_bit_nat_eq_self)
  from Cons.IH [of "acc @ [snd x]"] Cons.prems
  obtain r where "visit array_callback (\<lambda>j. j + 1) (of_nat (length (acc @ [snd x]))) xs
      ((acc @ [snd x]) @ replicate (length xs) z) = (r, (acc @ [snd x]) @ map snd xs, None)"
    by auto
  then show ?case
    by (auto simp: array_callback_def [of "snd x" "of_nat (length acc)"] u ac_simps)
qed simp

text \<open>A node that points to itself keeps a callback without errors and deletions forever busy.\<close>

lemma iterate_self_loop:
  assumes idle: "\<And>v i s. snd (cb v i s) = (0, None)" and loop: "Next p g = Some p"
  shows "iterate_loop cb (Some p) i g s = None"
proof -
  let ?P = "\<lambda>f node i h s y. f = cb \<longrightarrow> h = g \<longrightarrow> node \<noteq> Some p"
  have "?P cb (Some p) i g s y" if "iterate_loop cb (Some p) i g s = Some y" for y
  proof (rule iterate_loop.raw_induct [of ?P, OF _ that])
    fix lp f node j h t y
    assume IH: "\<And>f node j h t y. lp f node j h t = Some y \<Longrightarrow> ?P f node j h t y"
      and eq: "(case node of
         None \<Rightarrow> Some (h, t, None)
       | Some q \<Rightarrow> (case Value q h of None \<Rightarrow> None
         | Some v \<Rightarrow> (case f v j t of (s', k, e) \<Rightarrow>
             let g' = (Remove (Some q) ^^ k) h
             in if e \<noteq> None then Some (g', s', e) else lp f (Next q g') (j + 1) g' s'))) = Some y"
    show "?P f node j h t y"
    proof (intro impI notI)
      assume *: "f = cb" "h = g" "node = Some p"
      obtain v where v: "Value p g = Some v" using eq * by (auto split: option.splits)
      obtain t' where t': "cb v j t = (t', 0, None)" using idle [of v j t] by (cases "cb v j t") auto
      have "lp cb (Some p) (j + 1) g t' = Some y" using eq * v t' loop by simp
      from IH [OF this] show False by simp
    qed
  qed
  then show ?thesis by (cases "iterate_loop cb (Some p) i g s") auto
qed

lemma Prepend_self_loop: "head (snd (Prepend v g)) = Some (brk g)"
  "Next (brk g) (snd (Prepend v g)) = Some (brk g)"
  by (auto simp: Prepend_def alloc_def Let_def Next_def dll_simps split: option.splits)

lemma Head_linked: "linked g ps \<Longrightarrow> Head g = map_option snd (hd_or (items g) None)"
  by (cases ps) (auto simp: Head_def linked_head items_linked linked_Value [where xs = "[]", simplified])

lemma Tail_linked: "linked g ps \<Longrightarrow> Tail g = map_option snd (last_or None (items g))"
  by (cases ps rule: rev_cases)
    (auto simp: Tail_def linked_tail items_linked linked_Value [where ys = "[]"])

section \<open>Sequences of operations refine operations on a plain list\<close>

datatype 'a list_op =
  DoAppend 'a | DoPop | DoRemove ptr | DoInsert 'a ptr | DoChangeValue ptr 'a

fun exec_op :: "'a list_op \<Rightarrow> 'a Generic \<Rightarrow> 'a Generic outcome" where
  "exec_op (DoAppend v) g = Ret (snd (Append v g))"
| "exec_op DoPop g = Ret (snd (Pop g))"
| "exec_op (DoRemove p) g = Ret (Remove (Some p) g)"
| "exec_op (DoInsert v p) g =
     (case Insert v (Some p) g of Panic \<Rightarrow> Panic | Ret (_, g') \<Rightarrow> Ret g')"
| "exec_op (DoChangeValue p v) g = Ret (ChangeValue p v g)"

fun exec_ops :: "'a list_op list \<Rightarrow> 'a Generic \<Rightarrow> 'a Generic outcome" where
  "exec_ops [] g = Ret g"
| "exec_ops (c # cs) g = (case exec_op c g of Panic \<Rightarrow> Panic | Ret g' \<Rightarrow> exec_ops cs g')"

text \<open>The specification works on the next free address and the plain sequence of items.\<close>

type_synonym 'a list_spec = "ptr \<times> (ptr \<times> 'a) list"

fun insert_after :: "ptr \<Rightarrow> (ptr \<times> 'a) \<Rightarrow> (ptr \<times> 'a) list \<Rightarrow> (ptr \<times> 'a) list" where
  "insert_after p x [] = []"
| "insert_after p x (y # ys) = (if fst y = p then y # x # ys else y # insert_after p x ys)"

fun spec_op :: "'a list_op \<Rightarrow> 'a list_spec \<Rightarrow> 'a list_spec" where
  "spec_op (DoAppend v) (b, xs) = (Suc b, xs @ [(b, v)])"
| "spec_op DoPop (b, xs) = (b, tl xs)"
| "spec_op (DoRemove p) (b, xs) = (b, filter (\<lambda>x. fst x \<noteq> p) xs)"
| "spec_op (DoInsert v p) (b, xs) = (Suc b, insert_after p (b, v) xs)"
| "spec_op (DoChangeValue p v) (b, xs) = (b, map (\<lambda>(q, x). (q, if q = p then v else x)) xs)"

fun op_ok :: "'a list_op \<Rightarrow> 'a list_spec \<Rightarrow> bool" where
  "op_ok (DoRemove p) (b, xs) = (p \<in> fst ` set xs)"
| "op_ok (DoInsert v p) (b, xs) = (p \<in> fst ` set xs)"
| "op_ok (DoChangeValue p v) (b, xs) = (p \<in> fst ` set xs)"
| "op_ok _ _ = True"

fun ops_ok :: "'a list_op list \<Rightarrow> 'a list_spec \<Rightarrow> bool" where
  "ops_ok [] a = True"
| "ops_ok (c # cs) a = (op_ok c a \<and> ops_ok cs (spec_op c a))"

definition abs_list :: "'a Generic \<Rightarrow> 'a list_spec" where
  "abs_list g = (brk g, items g)"

lemma insert_after_split:
  "p \<notin> fst ` set xs \<Longrightarrow> insert_after p x (xs @ y # ys) =
     (if fst y = p then xs @ y # x # ys else xs @ y # insert_after p x ys)"
  by (induction xs) auto

lemma brk_simps: "brk (snd (Append v g)) = Suc (brk g)" "brk (Remove n g) = brk g"
  "brk (snd (Pop g)) = brk g" "brk (ChangeValue p v g) = brk g"
  "Insert v (Some p) g = Ret (q, g') \<Longrightarrow> brk g' = Suc (brk g)"
  by (auto simp: Append_def Remove_def Pop_def ChangeValue_def Insert_def alloc_def Let_def dll_simps
      split: option.splits)

lemma exec_op_refines:
  assumes "list_inv g" and "op_ok c (abs_list g)"
  shows "\<exists>g'. exec_op c g = Ret g' \<and> list_inv g' \<and> abs_list g' = spec_op c (abs_list g)"
proof (cases c)
  case (DoInsert v p)
  then obtain xs ys where l: "linked g (xs @ p # ys)"
    using linked_nodes_split [OF assms(1), of p] assms(2) by (auto simp: abs_list_def)
  obtain g' where g': "Insert v (Some p) g = Ret (Some (brk g), g')"
    "linked g' (xs @ p # brk g # ys)"
    "items g' = map (item_at g) (xs @ [p]) @ (brk g, v) # map (item_at g) ys"
    using linked_Insert [OF l] .
  have "p \<notin> fst ` set (map (item_at g) xs)"
    using linked_split(3) [OF l] by (auto simp: item_at_def)
  with g' DoInsert show ?thesis
    by (auto simp: abs_list_def brk_simps list_inv_def items_linked [OF l] insert_after_split)
      (auto simp: item_at_def)
next
  case (DoChangeValue p v)
  have l: "linked g (nodes g)" using assms(1) by (simp add: list_inv_linked)
  moreover have "p \<in> set (nodes g)"
    using assms(2) DoChangeValue by (auto simp: abs_list_def items_linked [OF l] item_at_def)
  ultimately show ?thesis
    using DoChangeValue linked_ChangeValue [OF l]
    by (auto simp: abs_list_def brk_simps list_inv_def)
next
  case (DoAppend v)
  have "linked g (nodes g)" using assms(1) by (simp add: list_inv_linked)
  with assms(1) DoAppend show ?thesis
    by (simp add: abs_list_def brk_simps inv_Append linked_Append(1))
qed (use assms in \<open>auto simp: abs_list_def brk_simps inv_Pop inv_Remove\<close>)

lemma exec_ops_refines:
  assumes "list_inv g" and "ops_ok cs (abs_list g)"
  shows "\<exists>g'. exec_ops cs g = Ret g' \<and> list_inv g' \<and> abs_list g' = fold spec_op cs (abs_list g)"
  using assms
proof (induction cs arbitrary: g)
  case (Cons c cs)
  then obtain g' where "exec_op c g = Ret g'" "list_inv g'" "abs_list g' = spec_op c (abs_list g)"
    using exec_op_refines by fastforce
  moreover from this Cons.prems(2) have "ops_ok cs (abs_list g')" by simp
  ultimately show ?case using Cons.IH [of g'] by auto
qed simp

section \<open>Properties\<close>

text \<open>
  C1. Any sequence of Append, Pop, Remove, Insert and ChangeValue calls on a fresh list, where
  every handle passed is a node of the list at that moment, runs without a nil dereference, keeps
  the doubly linked invariant, leaves exactly the items the same operations give on a plain
  sequence, and Size, Head and Tail read that sequence (Size modulo 2 to the 32).
\<close>

theorem list_refines_sequence:
  fixes cs :: "'a list_op list"
  assumes "ops_ok cs (0, [])"
  shows "\<exists>g. exec_ops cs CreateGeneric = Ret g \<and> list_inv g
    \<and> abs_list g = fold spec_op cs (0, [])
    \<and> Size g = of_nat (length (items g))
    \<and> Head g = map_option snd (hd_or (items g) None)
    \<and> Tail g = map_option snd (last_or None (items g))"
proof -
  have a: "abs_list CreateGeneric = (0, [] :: (ptr \<times> 'a) list)"
    by (simp add: abs_list_def generic.create_seq) (simp add: CreateGeneric_def)
  obtain g where g: "exec_ops cs CreateGeneric = Ret g" "list_inv g"
    "abs_list g = fold spec_op cs (0, [])"
    using exec_ops_refines [OF generic.create_inv, of cs] assms by (auto simp: a)
  moreover have l: "linked g (nodes g)" using g(2) by (simp add: list_inv_linked)
  ultimately show ?thesis
    using Head_linked [OF l] Tail_linked [OF l] linked_size [OF l] items_linked [OF l] by auto
qed

theorem list_refines_sequence_witness:
  "ops_ok [DoAppend (7::nat), DoAppend 8, DoInsert 9 0, DoRemove 1, DoPop, DoChangeValue 2 5] (0, [])
   \<and> (\<exists>g. exec_ops [DoAppend (7::nat), DoAppend 8, DoInsert 9 0, DoRemove 1, DoPop, DoChangeValue 2 5]
        CreateGeneric = Ret g \<and> items g = [(2, 5)])"
  using list_refines_sequence
    [of "[DoAppend (7::nat), DoAppend 8, DoInsert 9 0, DoRemove 1, DoPop, DoChangeValue 2 5]"]
  by (auto simp: abs_list_def)

text \<open>
  C2. On a well-formed list, Iterate and IterateReverse with a callback that calls its delete
  closure at most once return, visit the items in order (in reverse order) with the indices
  counting up from 0 (down from Size - 1), stop at the first error, and leave a well-formed list
  without exactly the deleted nodes.
\<close>

theorem iterate_visits_all:
  assumes "list_inv g" and "deletes_once cb"
    and "visit cb (\<lambda>j. j + 1) 0 (items g) s = (kept, s', e)"
    and "visit cb (\<lambda>j. j - 1) (Size g - 1) (rev (items g)) s = (kept_rev, t', d)"
  shows "(\<exists>g'. Iterate cb g s = Some (g', s', e) \<and> list_inv g' \<and> items g' = kept) \<and>
    (\<exists>g'. IterateReverse cb g s = Some (g', t', d) \<and> list_inv g' \<and> items g' = rev kept_rev)"
  using Iterate_visits [OF assms(1-3)] IterateReverse_visits [OF assms(1,2,4)] by auto

definition three :: "nat Generic" where
  "three = snd (Append 9 (snd (Append 8 (snd (Append 7 CreateGeneric)))))"

lemma three_inv: "list_inv three" and three_items: "items three = [(0, 7), (1, 8), (2, 9)]"
  and three_size: "Size three = 3"
proof -
  show "list_inv three"
    unfolding three_def by (intro generic.append_inv generic.create_inv)
  show "items three = [(0, 7), (1, 8), (2, 9)]" "Size three = 3"
    by code_simp+
qed

text \<open>The callback of the witness collects the values and deletes the node that holds 8.\<close>

definition collect_drop :: "(nat, nat list) callback" where
  "collect_drop v i s = (s @ [v], if v = 8 then 1 else 0, if v = 7 \<and> i \<noteq> 0 then Some ''index'' else None)"

theorem iterate_visits_all_witness:
  "deletes_once collect_drop \<and>
   (\<exists>g'. Iterate collect_drop three [] = Some (g', [7, 8, 9], None) \<and> list_inv g'
      \<and> items g' = [(0, 7), (2, 9)]) \<and>
   (\<exists>g'. IterateReverse collect_drop three [] = Some (g', [9, 8, 7], None) \<and> list_inv g'
      \<and> items g' = [(0, 7), (2, 9)])"
proof -
  have once: "deletes_once collect_drop" by (simp add: deletes_once_def collect_drop_def)
  show ?thesis
    using iterate_visits_all [OF three_inv once, of "[]" "[(0, 7), (2, 9)]" "[7, 8, 9]" None
        "[(2, 9), (0, 7)]" "[9, 8, 7]" None] once
    by (simp add: three_items three_size collect_drop_def)
qed

text \<open>
  Array terminates on every well-formed list of fewer than 2 to the 32 nodes, never writes out of
  range, and returns the values of the list in order.
\<close>

lemma array_contents:
  assumes "list_inv g" and "length (items g) < 2 ^ 32"
  shows "Array zero g = Some (Ret (contents g))"
proof -
  have l: "linked g (nodes g)" using assms(1) by (simp add: list_inv_linked)
  have u: "unat (Size g) = length (items g)"
    using assms(2) linked_size [OF l] items_linked [OF l]
    by (simp add: unat_of_nat take_bit_nat_eq_self)
  have once: "deletes_once array_callback" by (simp add: deletes_once_def array_callback_def)
  obtain r where "visit array_callback (\<lambda>j. j + 1) 0 (items g) (replicate (length (items g)) zero)
      = (r, map snd (items g), None)"
    using visit_array [of "items g" "[]" _ zero] assms(2) by auto
  from Iterate_visits [OF assms(1) once this] show ?thesis
    by (auto simp: Array_def u contents_def)
qed

text \<open>
  After Prepend the new head node points to itself (the source assigns the head field before it
  reads it back), so an Iterate whose callback neither fails nor deletes never returns, whatever
  the list held before.
\<close>

theorem prepend_makes_iterate_diverge:
  assumes "\<forall>v i s. snd (cb v i s) = (0, None)"
  shows "Value (brk g) (snd (Prepend v g)) = Some v \<and> Iterate cb (snd (Prepend v g)) s = None"
proof
  show "Value (brk g) (snd (Prepend v g)) = Some v"
    by (auto simp: Prepend_def alloc_def Let_def Value_def dll_simps split: option.splits)
  show "Iterate cb (snd (Prepend v g)) s = None"
    using assms
    by (simp add: Iterate_def Prepend_self_loop(1) iterate_self_loop [OF _ Prepend_self_loop(2)])
qed

theorem prepend_makes_iterate_diverge_witness:
  "Iterate (\<lambda>v i s. (s @ [v], 0, None)) (snd (Prepend (6::nat) three)) [] = None"
  using prepend_makes_iterate_diverge [of "\<lambda>v i s. (s @ [v], 0, None)" three 6 "[]"] by simp

end
