(* ===== verification/RingBuffer.thy ===== *)
theory RingBuffer
  imports Prelude
begin

text \<open>
  The ring buffer of ds/ring/ring.go: a slice of node pointers, a start index, a length and the id
  of the next element, all of them Go uint values (64 bits). A read of a nil slot is a panic.
  The buffer is shown to be a bounded first-in first-out queue of capacity Max - 1, and the lookup
  by id is characterised exactly.
\<close>

record 'a rnode =
  rvalue :: 'a
  rid :: uint64

record 'a Ring =
  rlist :: "'a rnode option list"
  start :: uint64
  rlength :: uint64
  lastId :: uint64

definition Create :: "uint64 \<Rightarrow> err + 'a Ring" where
  "Create sz =
     (if sz = 0 then Inl ''size is zero''
      else Inr \<lparr>rlist = replicate (unat sz) None, start = 0, rlength = 0, lastId = 0\<rparr>)"

definition Ring_Max :: "'a Ring \<Rightarrow> uint64" where
  "Ring_Max r = of_nat (length (rlist r))"

definition Length :: "'a Ring \<Rightarrow> uint64" where
  "Length r = rlength r"

definition Append :: "'a \<Rightarrow> 'a Ring \<Rightarrow> (err + uint64) \<times> 'a Ring" where
  "Append value r =
     (if Length r = Ring_Max r - 1 then (Inl ''buffer is full'', r)
      else (let i = (start r + rlength r) mod Ring_Max r; nid = lastId r
            in (Inr nid, r\<lparr>rlist := (rlist r)[unat i := Some \<lparr>rvalue = value, rid = nid\<rparr>],
                          rlength := rlength r + 1, lastId := lastId r + 1\<rparr>)))"

definition slot :: "'a Ring \<Rightarrow> uint64 \<Rightarrow> 'a rnode option" where
  "slot r k = (if unat k < length (rlist r) then rlist r ! unat k else None)"

definition Pop :: "'a Ring \<Rightarrow> ((err + 'a) \<times> 'a Ring) outcome" where
  "Pop r =
     (if Length r = 0 then Ret (Inl ''buffer is empty'', r)
      else (case slot r (start r) of
              None \<Rightarrow> Panic
            | Some n \<Rightarrow> Ret (Inr (rvalue n),
                             r\<lparr>start := (start r + 1) mod Ring_Max r, rlength := rlength r - 1\<rparr>)))"

definition Get :: "uint64 \<Rightarrow> 'a Ring \<Rightarrow> (err + 'a) outcome" where
  "Get i r =
     (if i < Length r
      then (let k = (start r + i) mod Ring_Max r
            in case slot r k of None \<Rightarrow> Panic | Some n \<Rightarrow> Ret (Inr (rvalue n)))
      else Ret (Inl ''requested element does not lie in buffer''))"

definition GetById :: "uint64 \<Rightarrow> 'a Ring \<Rightarrow> (err + 'a) outcome" where
  "GetById nid r =
     (let i = nid mod Ring_Max r
      in if i < Length r
         then (let k = (start r + i) mod Ring_Max r
               in case slot r k of
                    None \<Rightarrow> Panic
                  | Some n \<Rightarrow> (if rid n = nid then Ret (Inr (rvalue n)) else Ret (Inl ''id not present'')))
         else Ret (Inl ''requested element does not lie in buffer''))"

section \<open>Invariant and abstraction\<close>

text \<open>
  The slice of a Go program is shorter than 2 to the 63, so index sums do not wrap. The occupied
  window holds nodes. The ghost parameter \<open>k\<close> is the number of elements popped so far: as long as
  the id counter has not wrapped, start is \<open>k\<close> modulo the size and the node at window position
  \<open>j\<close> has the id \<open>k + j\<close>.
\<close>

definition window :: "'a Ring \<Rightarrow> nat \<Rightarrow> 'a rnode option" where
  "window r j = rlist r ! ((unat (start r) + j) mod length (rlist r))"

definition ring_inv :: "'a Ring \<Rightarrow> bool" where
  "ring_inv r \<longleftrightarrow>
     0 < length (rlist r) \<and> length (rlist r) < 2 ^ 63 \<and> unat (start r) < length (rlist r)
     \<and> unat (rlength r) < length (rlist r)
     \<and> (\<forall>j < unat (rlength r). window r j \<noteq> None)"

definition elems :: "'a Ring \<Rightarrow> 'a list" where
  "elems r = List.map_filter (\<lambda>j. map_option rvalue (window r j)) [0..<unat (rlength r)]"

definition capacity :: "'a Ring \<Rightarrow> nat" where
  "capacity r = length (rlist r) - 1"

definition ids_from :: "nat \<Rightarrow> 'a Ring \<Rightarrow> bool" where
  "ids_from k r \<longleftrightarrow>
     unat (start r) = k mod length (rlist r) \<and> unat (lastId r) = k + unat (rlength r)
     \<and> (\<forall>j < unat (rlength r). \<forall>n. window r j = Some n \<longrightarrow> unat (rid n) = k + j)"

definition push :: "'a \<Rightarrow> 'a Ring \<Rightarrow> 'a Ring option" where
  "push v r = (case Append v r of (Inl _, _) \<Rightarrow> None | (Inr _, r') \<Rightarrow> Some r')"

definition take_first :: "'a Ring \<Rightarrow> ('a \<times> 'a Ring) option" where
  "take_first r = (case Pop r of Ret (Inr v, r') \<Rightarrow> Some (v, r') | _ \<Rightarrow> None)"

lemma elems_length: "ring_inv r \<Longrightarrow> length (elems r) = unat (rlength r)"
  unfolding elems_def by (subst map_filter_length) (auto simp: ring_inv_def)

lemma elems_map:
  assumes "ring_inv r"
  shows "elems r = map (\<lambda>j. rvalue (the (window r j))) [0..<unat (rlength r)]"
  unfolding elems_def using assms by (intro map_filter_all) (auto simp: ring_inv_def)

lemma unat_RMax: "ring_inv r \<Longrightarrow> unat (Ring_Max r) = length (rlist r)"
  by (auto simp: ring_inv_def Ring_Max_def unat_of_nat64)

lemma index_wraps:
  assumes "ring_inv r" and "unat i \<le> unat (rlength r)"
  shows "unat ((start r + i) mod Ring_Max r) = (unat (start r) + unat i) mod length (rlist r)"
proof -
  have "unat (start r) + unat i < 2 ^ 64" using assms by (auto simp: ring_inv_def)
  then show ?thesis using assms by (simp add: unat_mod64 unat_add64 unat_RMax)
qed

lemma full_iff: "ring_inv r \<Longrightarrow> Length r = Ring_Max r - 1 \<longleftrightarrow> length (elems r) = capacity r"
  by (auto simp: Length_def capacity_def elems_length word_unat_eq_iff unat_pred64 unat_RMax
      ring_inv_def)

lemma window_distinct:
  assumes "unat (start r) < length (rlist r)" "j < length (rlist r)" "l < length (rlist r)"
    and "(unat (start r) + j) mod length (rlist r) = (unat (start r) + l) mod length (rlist r)"
  shows "j = l"
  using assms by (auto simp: mod_if split: if_splits)


section \<open>The operations on the window\<close>

lemma Append_full: "ring_inv r \<Longrightarrow> length (elems r) = capacity r \<Longrightarrow>
    Append v r = (Inl ''buffer is full'', r)"
  by (simp add: Append_def full_iff)

lemma Append_window:
  assumes "ring_inv r" and "length (elems r) \<noteq> capacity r" and "Append v r = (res, r')"
  shows "res = Inr (lastId r)" and "start r' = start r" and "length (rlist r') = length (rlist r)"
    and "unat (rlength r') = unat (rlength r) + 1" and "lastId r' = lastId r + 1"
    and "window r' (unat (rlength r)) = Some \<lparr>rvalue = v, rid = lastId r\<rparr>"
    and "j < unat (rlength r) \<Longrightarrow> window r' j = window r j"
proof -
  let ?n = "length (rlist r)"
  let ?i = "(unat (start r) + unat (rlength r)) mod ?n"
  have r': "(res, r') = (Inr (lastId r), r\<lparr>rlist := (rlist r)[?i := Some \<lparr>rvalue = v, rid = lastId r\<rparr>],
      rlength := rlength r + 1, lastId := lastId r + 1\<rparr>)"
    using assms by (simp add: Append_def full_iff Let_def index_wraps)
  then show "res = Inr (lastId r)" "start r' = start r" "length (rlist r') = ?n"
    "lastId r' = lastId r + 1" by auto
  show "unat (rlength r') = unat (rlength r) + 1"
    using r' assms(1) by (auto simp: ring_inv_def unat_add64)
  show "window r' (unat (rlength r)) = Some \<lparr>rvalue = v, rid = lastId r\<rparr>"
    using r' assms(1) by (auto simp: window_def ring_inv_def)
  show "window r' j = window r j" if "j < unat (rlength r)"
    using r' assms(1) that window_distinct [of r j "unat (rlength r)"]
    by (auto simp: window_def ring_inv_def nth_list_update)
qed

lemma Append_ring:
  assumes "ring_inv r" and "length (elems r) \<noteq> capacity r" and "Append v r = (res, r')"
  shows "ring_inv r'" and "elems r' = elems r @ [v]" and "capacity r' = capacity r"
proof -
  note w = Append_window [OF assms]
  have n: "unat (rlength r) + 1 < length (rlist r)"
    using assms(1,2) by (auto simp: capacity_def elems_length ring_inv_def)
  show "ring_inv r'"
    using assms(1) n w(2-4,6,7) by (auto simp: ring_inv_def less_Suc_eq)
  have "List.map_filter (\<lambda>j. map_option rvalue (window r' j)) [0..<unat (rlength r)] = elems r"
    unfolding elems_def by (rule map_filter_cong) (simp add: w(7))
  then show "elems r' = elems r @ [v]"
    by (simp add: elems_def [of r'] w(4,6) map_filter_append List.map_filter_simps)
  show "capacity r' = capacity r" by (simp add: capacity_def w(3))
qed

lemma Pop_empty: "ring_inv r \<Longrightarrow> elems r = [] \<Longrightarrow> Pop r = Ret (Inl ''buffer is empty'', r)"
  using elems_length [of r] by (simp add: Pop_def Length_def word_unat_eq_iff)

lemma Pop_window:
  assumes "ring_inv r" and "elems r \<noteq> []"
  obtains n r' where "window r 0 = Some n" and "Pop r = Ret (Inr (rvalue n), r')"
    and "unat (start r') = (unat (start r) + 1) mod length (rlist r)" and "rlist r' = rlist r"
    and "unat (rlength r) = unat (rlength r') + 1" and "lastId r' = lastId r"
    and "\<forall>j. window r' j = window r (Suc j)"
proof -
  have pos: "0 < unat (rlength r)" using assms elems_length [of r] by (cases "elems r") auto
  have le: "unat (1 :: uint64) \<le> unat (rlength r)" using pos by simp
  obtain n where n: "window r 0 = Some n" using assms(1) pos by (auto simp: ring_inv_def)
  then have "slot r (start r) = Some n"
    using assms(1) by (simp add: slot_def window_def ring_inv_def)
  then have p: "Pop r = Ret (Inr (rvalue n),
      r\<lparr>start := (start r + 1) mod Ring_Max r, rlength := rlength r - 1\<rparr>)" (is "_ = Ret (_, ?r)")
    using pos by (auto simp: Pop_def Length_def)
  have st: "unat (start ?r) = (unat (start r) + 1) mod length (rlist r)"
    using index_wraps [OF assms(1) le] by simp
  show ?thesis
  proof (rule that [OF n p st])
    show "unat (rlength r) = unat (rlength ?r) + 1" using pos by (simp add: unat_pred64)
    show "\<forall>j. window ?r j = window r (Suc j)"
      using st by (simp add: window_def mod_simps)
  qed auto
qed

lemma Pop_ring:
  assumes "ring_inv r" and "elems r \<noteq> []"
  obtains v r' where "Pop r = Ret (Inr v, r')" and "ring_inv r'" and "elems r = v # elems r'"
    and "capacity r' = capacity r"
proof -
  obtain n r' where w: "window r 0 = Some n" "Pop r = Ret (Inr (rvalue n), r')"
    "unat (start r') = (unat (start r) + 1) mod length (rlist r)" "rlist r' = rlist r"
    "unat (rlength r) = unat (rlength r') + 1" "\<forall>j. window r' j = window r (Suc j)"
    using Pop_window [OF assms] by metis
  have "ring_inv r'"
    using assms(1) w by (auto simp: ring_inv_def)
  moreover have "elems r = rvalue n # elems r'"
  proof -
    have "[0..<unat (rlength r)] = 0 # map Suc [0..<unat (rlength r')]"
      by (simp add: w(5) map_Suc_upt upt_conv_Cons del: upt_Suc)
    then show ?thesis
      by (simp add: elems_def w(1,6) List.map_filter_def filter_map o_def)
  qed
  ultimately show ?thesis using that w(2,4) by (simp add: capacity_def)
qed

interpretation ring: bounded_queue ring_inv elems capacity push take_first
proof (unfold_locales, goal_cases)
  case (1 r)
  then show ?case by (auto simp: elems_length capacity_def ring_inv_def)
next
  case (2 r v)
  obtain res r' where a: "Append v r = (res, r')" by fastforce
  show ?case
  proof (cases "length (elems r) = capacity r")
    case False
    with Append_window(1) [OF 2 False a] a show ?thesis by (simp add: push_def)
  qed (simp add: push_def Append_full [OF 2])
next
  case (3 r v t)
  then have ne: "length (elems r) \<noteq> capacity r" using Append_full [of r v] by (auto simp: push_def)
  obtain res r' where a: "Append v r = (res, r')" by fastforce
  have "r' = t" using 3(2) a Append_window(1) [OF 3(1) ne a] by (simp add: push_def)
  with Append_ring [OF 3(1) ne a] show ?case by simp
next
  case (4 r)
  show ?case
  proof (cases "elems r = []")
    case False
    obtain v r' where "Pop r = Ret (Inr v, r')" using Pop_ring [OF 4 False] .
    with False show ?thesis by (simp add: take_first_def)
  qed (simp add: take_first_def Pop_empty [OF 4])
next
  case (5 r v t)
  then have "elems r \<noteq> []" using Pop_empty [of r] by (auto simp: take_first_def)
  with 5(1) obtain v' r' where "Pop r = Ret (Inr v', r')" "ring_inv r'" "elems r = v' # elems r'"
    "capacity r' = capacity r" by (rule Pop_ring)
  with 5(2) show ?case by (simp add: take_first_def)
qed

section \<open>Identifiers\<close>

lemma ids_Append:
  assumes "ring_inv r" "ids_from k r" "length (elems r) \<noteq> capacity r" "Append v r = (res, r')"
    and "unat (lastId r) < 2 ^ 64 - 1"
  shows "ids_from k r'"
proof -
  note w = Append_window [OF assms(1,3,4)]
  have "unat (lastId r') = unat (lastId r) + 1" using assms(5) by (simp add: w(5) unat_add64)
  then show ?thesis
    using assms(2) w by (auto simp: ids_from_def less_Suc_eq)
qed

lemma ids_Pop:
  assumes "ring_inv r" "ids_from k r" "elems r \<noteq> []" "Pop r = Ret (res, r')"
  shows "ids_from (Suc k) r'"
proof -
  obtain n r'' where w: "window r 0 = Some n" "Pop r = Ret (Inr (rvalue n), r'')"
    "unat (start r'') = (unat (start r) + 1) mod length (rlist r)" "rlist r'' = rlist r"
    "unat (rlength r) = unat (rlength r'') + 1" "lastId r'' = lastId r"
    "\<forall>j. window r'' j = window r (Suc j)"
    using Pop_window [OF assms(1,3)] .
  have "r'' = r'" using w(2) assms(4) by simp
  then show ?thesis
    using assms(2) w by (auto simp: ids_from_def mod_simps)
qed

text \<open>GetById reads the window position \<open>id mod Max\<close>, not the slot \<open>id mod Max\<close>.\<close>

lemma GetById_window:
  fixes nid :: uint64
  assumes "ring_inv r"
  defines "p \<equiv> unat nid mod length (rlist r)"
  shows "GetById nid r =
     (if p < unat (rlength r)
      then (case window r p of None \<Rightarrow> Panic
            | Some n \<Rightarrow> if rid n = nid then Ret (Inr (rvalue n)) else Ret (Inl ''id not present''))
      else Ret (Inl ''requested element does not lie in buffer''))"
proof -
  have p: "unat (nid mod Ring_Max r) = p" using assms by (simp add: unat_mod64 unat_RMax p_def)
  have "slot r ((start r + nid mod Ring_Max r) mod Ring_Max r) = window r p" if "p < unat (rlength r)"
    using index_wraps [OF assms(1), of "nid mod Ring_Max r"] that assms(1)
    by (simp add: slot_def window_def p ring_inv_def)
  then show ?thesis
    by (simp add: GetById_def Let_def Length_def word_less_nat_alt p)
qed

section \<open>Properties\<close>


text \<open>
  As long as the id counter has not wrapped, GetById finds every stored element while nothing
  has been popped (start is 0), and finds no element at all once start is not 0: the source adds
  the start index to an id that already determines the slot.
\<close>

theorem GetById_only_at_start_zero:
  assumes "ring_inv r" and "ids_from k r"
  shows "(start r = 0 \<and> k \<le> unat nid \<and> unat nid < k + length (elems r)
           \<longrightarrow> GetById nid r = Ret (Inr (elems r ! (unat nid - k))))
    \<and> (start r \<noteq> 0 \<longrightarrow> (\<exists>e. GetById nid r = Ret (Inl e)))"
proof -
  let ?n = "length (rlist r)" and ?p = "unat nid mod length (rlist r)"
  have k: "unat (start r) = k mod ?n" and wid: "\<And>j n. j < unat (rlength r) \<Longrightarrow>
      window r j = Some n \<Longrightarrow> unat (rid n) = k + j"
    using assms(2) by (auto simp: ids_from_def)
  have some: "\<exists>n. window r j = Some n" if "j < unat (rlength r)" for j
    using assms(1) that by (auto simp: ring_inv_def)
  have "GetById nid r = Ret (Inr (elems r ! (unat nid - k)))"
    if st: "start r = 0" and id: "k \<le> unat nid" "unat nid < k + length (elems r)"
  proof -
    have lt: "unat nid - k < unat (rlength r)" using id assms(1) by (simp add: elems_length)
    have "k mod ?n = 0" using k st by simp
    then have p: "?p = unat nid - k"
      using id(1) lt assms(1)
      by (metis (no_types, lifting) add_0 le_add_diff_inverse mod_add_left_eq mod_less
          order.strict_trans ring_inv_def)
    obtain n where n: "window r ?p = Some n" using some lt p by auto
    with wid [of ?p n] lt p id(1) have "rid n = nid" by (simp add: word_unat_eq_iff)
    with n p lt show ?thesis
      by (simp add: GetById_window [OF assms(1)] elems_map [OF assms(1)])
  qed
  moreover have "\<exists>e. GetById nid r = Ret (Inl e)" if st: "start r \<noteq> 0"
  proof -
    have "rid n \<noteq> nid" if n: "window r ?p = Some n" and lt: "?p < unat (rlength r)" for n
    proof
      assume "rid n = nid"
      then have "unat nid = k + ?p" using wid [OF lt n] by simp
      then have "(k mod ?n + ?p) mod ?n = ?p" by (metis mod_add_left_eq)
      moreover have "0 < k mod ?n" "k mod ?n < ?n" "?p < ?n"
        using st k assms(1) unat_gt_0 [of "start r"] by (auto simp: ring_inv_def)
      ultimately show False using mod_shift_neq by blast
    qed
    then show ?thesis
      using some [of ?p] by (auto simp: GetById_window [OF assms(1)])
  qed
  ultimately show ?thesis by simp
qed

definition ring3 :: "nat Ring" where
  "ring3 = \<lparr>rlist = [Some \<lparr>rvalue = 7, rid = 0\<rparr>, Some \<lparr>rvalue = 8, rid = 1\<rparr>, None],
            start = 1, rlength = 1, lastId = 2\<rparr>"


theorem GetById_only_at_start_zero_witness:
  "elems ring3 = [8] \<and> (\<exists>e. GetById 1 ring3 = Ret (Inl e))"
proof -
  have "ring_inv ring3" by (simp add: ring_inv_def ring3_def window_def)
  moreover have "ids_from 1 ring3" by (simp add: ids_from_def ring3_def window_def)
  moreover have "elems ring3 = [8]" by code_simp
  ultimately show ?thesis
    using GetById_only_at_start_zero [of ring3 1 1] by (simp add: ring3_def)
qed

end
