(* ===== verification/Radix.thy ===== *)
theory Radix
  imports Prelude "HOL-Library.Sublist" "HOL-Library.List_Lexorder"
begin

text \<open>
  The radix tree of ds/radix/radix.go. A node carries an optional leaf, the prefix shared by all
  keys below it and its edges, kept in the order of their labels and searched with the binary
  search of Go's sort package. The source updates nodes in place along one path from the root; the
  model returns the rebuilt path. Every loop descends from a node to one of its children, which is
  the termination measure. A walk callback carries its own state and does not touch the tree.
\<close>

section \<open>Data\<close>

datatype 'a node = RNode (leaf: "(string \<times> 'a) option") (npre: string) (nedges: "(char \<times> 'a node) list")

type_synonym 'a edges = "(char \<times> 'a node) list"

record 'a Tree =
  root :: "'a node"
  tsize :: int

definition isLeaf :: "'a node \<Rightarrow> bool" where
  "isLeaf n = (leaf n \<noteq> None)"

text \<open>sort.Search: binary search for the smallest index in a range at which a predicate holds.\<close>

function search_loop :: "(nat \<Rightarrow> bool) \<Rightarrow> nat \<Rightarrow> nat \<Rightarrow> nat" where
  "search_loop f i j =
     (if i < j
      then (let h = (i + j) div 2 in if \<not> f h then search_loop f (h + 1) j else search_loop f i h)
      else i)"
  by auto
termination
  by (relation "measure (\<lambda>(f, i, j). j - i)") auto

declare search_loop.simps [simp del]

definition sort_Search :: "nat \<Rightarrow> (nat \<Rightarrow> bool) \<Rightarrow> nat" where
  "sort_Search n f = search_loop f 0 n"

definition edge_index :: "char \<Rightarrow> 'a edges \<Rightarrow> nat" where
  "edge_index label es = sort_Search (length es) (\<lambda>i. fst (es ! i) \<ge> label)"

definition addEdge :: "char \<times> 'a node \<Rightarrow> 'a edges \<Rightarrow> 'a edges" where
  "addEdge e es = (let idx = edge_index (fst e) es in take idx es @ e # drop idx es)"

definition updateEdge :: "char \<Rightarrow> 'a node \<Rightarrow> 'a edges \<Rightarrow> 'a edges outcome" where
  "updateEdge label nd es =
     (let num = length es; idx = edge_index label es
      in if idx < num \<and> fst (es ! idx) = label then Ret (es[idx := (label, nd)]) else Panic)"

definition getEdge :: "char \<Rightarrow> 'a edges \<Rightarrow> 'a node option" where
  "getEdge label es =
     (let num = length es; idx = edge_index label es
      in if idx < num \<and> fst (es ! idx) = label then Some (snd (es ! idx)) else None)"

definition delEdge :: "char \<Rightarrow> 'a edges \<Rightarrow> 'a edges" where
  "delEdge label es =
     (let num = length es; idx = edge_index label es
      in if idx < num \<and> fst (es ! idx) = label then take idx es @ drop (idx + 1) es else es)"

text \<open>The edges of a parent after the child behind a label has been changed in place.\<close>

definition put_child :: "char \<Rightarrow> 'a node \<Rightarrow> 'a edges \<Rightarrow> 'a edges" where
  "put_child label nd es = es[edge_index label es := (label, nd)]"

fun longestPrefix :: "string \<Rightarrow> string \<Rightarrow> nat" where
  "longestPrefix (x # xs) (y # ys) = (if x = y then Suc (longestPrefix xs ys) else 0)"
| "longestPrefix _ _ = 0"

lemma getEdge_member: "getEdge l es = Some c \<Longrightarrow> (l, c) \<in> set es"
  by (auto simp: getEdge_def Let_def split: if_splits) (metis nth_mem prod.collapse)

lemma member_size: "(l, c) \<in> set es \<Longrightarrow> size c < Suc (size_list (size_prod (\<lambda>_. 0) size) es)"
  by (induction es) auto

lemma getEdge_size:
  "getEdge l es = Some c \<Longrightarrow> size c < Suc (size_list (size_prod (\<lambda>_. 0) size) es)"
  by (metis getEdge_member member_size)

section \<open>Operations\<close>

definition newTree :: "'a Tree" where
  "newTree = \<lparr>root = RNode None [] [], tsize = 0\<rparr>"

definition Len :: "'a Tree \<Rightarrow> int" where
  "Len t = tsize t"

text \<open>Splitting the node c, whose prefix agrees with the search key on cp characters only.\<close>

definition split_node :: "string \<Rightarrow> 'a \<Rightarrow> string \<Rightarrow> nat \<Rightarrow> 'a node \<Rightarrow> 'a node" where
  "split_node s v search cp c =
     (let es = addEdge (npre c ! cp, RNode (leaf c) (drop cp (npre c)) (nedges c)) [];
          rest = drop cp search
      in if rest = [] then RNode (Some (s, v)) (take cp search) es
         else RNode None (take cp search) (addEdge (hd rest, RNode (Some (s, v)) rest []) es))"

function insert_at :: "string \<Rightarrow> 'a \<Rightarrow> string \<Rightarrow> 'a node \<Rightarrow> ('a node \<times> 'a option) outcome" where
  "insert_at s v search (RNode lf p es) =
     (case search of
        [] \<Rightarrow> (case lf of
                Some (k, old) \<Rightarrow> Ret (RNode (Some (k, v)) p es, Some old)
              | None \<Rightarrow> Ret (RNode (Some (s, v)) p es, None))
      | c0 # _ \<Rightarrow>
          (case getEdge c0 es of
             None \<Rightarrow> Ret (RNode lf p (addEdge (c0, RNode (Some (s, v)) search []) es), None)
           | Some c \<Rightarrow>
               (let cp = longestPrefix search (npre c)
                in if cp = length (npre c)
                   then (case insert_at s v (drop cp search) c of
                           Panic \<Rightarrow> Panic
                         | Ret (c', old) \<Rightarrow> Ret (RNode lf p (put_child c0 c' es), old))
                   else (case updateEdge c0 (split_node s v search cp c) es of
                           Panic \<Rightarrow> Panic
                         | Ret es' \<Rightarrow> Ret (RNode lf p es', None)))))"
  by pat_completeness auto
termination
  by (relation "measure (\<lambda>(s, v, q, n). size n)") (auto dest: getEdge_size)

definition Insert :: "string \<Rightarrow> 'a \<Rightarrow> 'a Tree \<Rightarrow> ('a option \<times> 'a Tree) outcome" where
  "Insert s v t =
     (case insert_at s v s (root t) of
        Panic \<Rightarrow> Panic
      | Ret (n, old) \<Rightarrow>
          Ret (old, \<lparr>root = n, tsize = (if old = None then tsize t + 1 else tsize t)\<rparr>))"

fun NewFromMap :: "(string \<times> 'a) list \<Rightarrow> 'a Tree outcome" where
  "NewFromMap [] = Ret newTree"
| "NewFromMap ((k, v) # m) =
     (case NewFromMap m of
        Panic \<Rightarrow> Panic
      | Ret t \<Rightarrow> (case Insert k v t of Panic \<Rightarrow> Panic | Ret (_, t') \<Rightarrow> Ret t'))"

definition mergeChild :: "'a node \<Rightarrow> 'a node" where
  "mergeChild n =
     (case nedges n of
        [] \<Rightarrow> n
      | (_, child) # _ \<Rightarrow> RNode (leaf child) (npre n @ npre child) (nedges child))"

text \<open>
  Delete below a node. The result says whether this node is the one whose leaf was removed, in
  which case its parent has to drop it or to merge its remaining child.
\<close>

function delete_at :: "bool \<Rightarrow> string \<Rightarrow> 'a node \<Rightarrow> ('a node \<times> 'a \<times> bool) option" where
  "delete_at is_root search (RNode lf p es) =
     (case search of
        [] \<Rightarrow> (case lf of
                None \<Rightarrow> None
              | Some (k, v) \<Rightarrow>
                  (let n = RNode None p es
                   in Some (if \<not> is_root \<and> length es = 1 then mergeChild n else n, v, True)))
      | label # _ \<Rightarrow>
          (case getEdge label es of
             None \<Rightarrow> None
           | Some c \<Rightarrow>
               (if prefix (npre c) search
                then (case delete_at False (drop (length (npre c)) search) c of
                        None \<Rightarrow> None
                      | Some (c', v, here) \<Rightarrow>
                          (let es' = (if here \<and> nedges c = [] then delEdge label es
                                      else put_child label c' es);
                               n = RNode lf p es'
                           in Some (if here \<and> \<not> is_root \<and> length es' = 1 \<and> lf = None
                                    then mergeChild n else n, v, False)))
                else None)))"
  by pat_completeness auto
termination
  by (relation "measure (\<lambda>(b, q, n). size n)") (auto dest: getEdge_size)

definition Delete :: "string \<Rightarrow> 'a Tree \<Rightarrow> 'a option \<times> 'a Tree" where
  "Delete s t =
     (case delete_at True s (root t) of
        None \<Rightarrow> (None, t)
      | Some (n, v, _) \<Rightarrow> (Some v, \<lparr>root = n, tsize = tsize t - 1\<rparr>))"

text \<open>Walks. The callback returns true to abort.\<close>

type_synonym ('a, 's) walk_fn = "string \<Rightarrow> 'a \<Rightarrow> 's \<Rightarrow> 's \<times> bool"

definition visit_leaf :: "('a, 's) walk_fn \<Rightarrow> (string \<times> 'a) option \<Rightarrow> 's \<Rightarrow> 's \<times> bool" where
  "visit_leaf fn lf s = (case lf of None \<Rightarrow> (s, False) | Some (k, v) \<Rightarrow> fn k v s)"

fun recursiveWalk :: "('a, 's) walk_fn \<Rightarrow> 'a node \<Rightarrow> 's \<Rightarrow> 's \<times> bool"
  and walk_edges :: "('a, 's) walk_fn \<Rightarrow> 'a edges \<Rightarrow> 's \<Rightarrow> 's \<times> bool" where
  "recursiveWalk fn (RNode lf p es) s =
     (case visit_leaf fn lf s of (s', True) \<Rightarrow> (s', True) | (s', False) \<Rightarrow> walk_edges fn es s')"
| "walk_edges fn [] s = (s, False)"
| "walk_edges fn ((l, c) # es) s =
     (case recursiveWalk fn c s of (s', True) \<Rightarrow> (s', True) | (s', False) \<Rightarrow> walk_edges fn es s')"

definition Walk :: "('a, 's) walk_fn \<Rightarrow> 'a Tree \<Rightarrow> 's \<Rightarrow> 's" where
  "Walk fn t s = fst (recursiveWalk fn (root t) s)"

definition ToMap :: "'a Tree \<Rightarrow> string \<rightharpoonup> 'a" where
  "ToMap t = Walk (\<lambda>k v out. (out(k \<mapsto> v), False)) t Map.empty"

text \<open>DeletePrefix counts the entries below the node with a walk before it cuts the subtree.\<close>

function deletePrefix :: "bool \<Rightarrow> string \<Rightarrow> 'a node \<Rightarrow> 'a node \<times> int \<times> bool" where
  "deletePrefix is_root pre (RNode lf p es) =
     (case pre of
        [] \<Rightarrow> (RNode None p [], fst (recursiveWalk (\<lambda>k v c. (c + 1, False)) (RNode lf p es) 0), True)
      | label # _ \<Rightarrow>
          (case getEdge label es of
             None \<Rightarrow> (RNode lf p es, 0, False)
           | Some child \<Rightarrow>
               (if \<not> prefix pre (npre child) \<and> \<not> prefix (npre child) pre
                then (RNode lf p es, 0, False)
                else (let pre' = (if length (npre child) > length pre then drop (length pre) pre
                                  else drop (length (npre child)) pre)
                      in case deletePrefix False pre' child of
                           (c', k, here) \<Rightarrow>
                             (let n = RNode lf p (put_child label c' es)
                              in (if here \<and> \<not> is_root \<and> length es = 1 \<and> lf = None
                                  then mergeChild n else n, k, False))))))"
  by pat_completeness auto
termination
  by (relation "measure (\<lambda>(b, q, n). size n)") (auto dest: getEdge_size)

definition DeletePrefix :: "string \<Rightarrow> 'a Tree \<Rightarrow> int \<times> 'a Tree" where
  "DeletePrefix s t =
     (case deletePrefix True s (root t) of
        (n, k, _) \<Rightarrow> (k, \<lparr>root = n, tsize = tsize t - k\<rparr>))"

function get_at :: "string \<Rightarrow> 'a node \<Rightarrow> 'a option" where
  "get_at search (RNode lf p es) =
     (case search of
        [] \<Rightarrow> map_option snd lf
      | c0 # _ \<Rightarrow>
          (case getEdge c0 es of
             None \<Rightarrow> None
           | Some c \<Rightarrow>
               (if prefix (npre c) search then get_at (drop (length (npre c)) search) c else None)))"
  by pat_completeness auto
termination
  by (relation "measure (\<lambda>(q, n). size n)") (auto dest: getEdge_size)

definition Get :: "string \<Rightarrow> 'a Tree \<Rightarrow> 'a option" where
  "Get s t = get_at s (root t)"

function longest_at :: "(string \<times> 'a) option \<Rightarrow> string \<Rightarrow> 'a node \<Rightarrow> (string \<times> 'a) option" where
  "longest_at prior search (RNode lf p es) =
     (let prior' = (if lf \<noteq> None then lf else prior)
      in case search of
           [] \<Rightarrow> prior'
         | c0 # _ \<Rightarrow>
             (case getEdge c0 es of
                None \<Rightarrow> prior'
              | Some c \<Rightarrow>
                  (if prefix (npre c) search then longest_at prior' (drop (length (npre c)) search) c
                   else prior')))"
  by pat_completeness auto
termination
  by (relation "measure (\<lambda>(l, q, n). size n)") (auto dest: getEdge_size)

definition LongestPrefix :: "string \<Rightarrow> 'a Tree \<Rightarrow> (string \<times> 'a) option" where
  "LongestPrefix s t = longest_at None s (root t)"

fun minimum_at :: "'a node \<Rightarrow> (string \<times> 'a) option" where
  "minimum_at (RNode (Some l) p es) = Some l"
| "minimum_at (RNode None p []) = None"
| "minimum_at (RNode None p ((l, c) # es)) = minimum_at c"

definition Minimum :: "'a Tree \<Rightarrow> (string \<times> 'a) option" where
  "Minimum t = minimum_at (root t)"

fun maximum_at :: "'a node \<Rightarrow> (string \<times> 'a) option"
  and maximum_edges :: "'a edges \<Rightarrow> (string \<times> 'a) option" where
  "maximum_at (RNode lf p es) = (if es \<noteq> [] then maximum_edges es else lf)"
| "maximum_edges [] = None"
| "maximum_edges ((l, c) # es) = (if es = [] then maximum_at c else maximum_edges es)"

definition Maximum :: "'a Tree \<Rightarrow> (string \<times> 'a) option" where
  "Maximum t = maximum_at (root t)"

function walk_prefix_at :: "('a, 's) walk_fn \<Rightarrow> string \<Rightarrow> 'a node \<Rightarrow> 's \<Rightarrow> 's" where
  "walk_prefix_at fn search (RNode lf p es) s =
     (case search of
        [] \<Rightarrow> fst (recursiveWalk fn (RNode lf p es) s)
      | c0 # _ \<Rightarrow>
          (case getEdge c0 es of
             None \<Rightarrow> s
           | Some c \<Rightarrow>
               (if prefix (npre c) search then walk_prefix_at fn (drop (length (npre c)) search) c s
                else if prefix search (npre c) then fst (recursiveWalk fn c s) else s)))"
  by pat_completeness auto
termination
  by (relation "measure (\<lambda>(f, q, n, s). size n)") (auto dest: getEdge_size)

definition WalkPrefix :: "string \<Rightarrow> ('a, 's) walk_fn \<Rightarrow> 'a Tree \<Rightarrow> 's \<Rightarrow> 's" where
  "WalkPrefix pre fn t s = walk_prefix_at fn pre (root t) s"

function walk_path_at :: "('a, 's) walk_fn \<Rightarrow> string \<Rightarrow> 'a node \<Rightarrow> 's \<Rightarrow> 's" where
  "walk_path_at fn search (RNode lf p es) s =
     (case visit_leaf fn lf s of
        (s', True) \<Rightarrow> s'
      | (s', False) \<Rightarrow>
          (case search of
             [] \<Rightarrow> s'
           | c0 # _ \<Rightarrow>
               (case getEdge c0 es of
                  None \<Rightarrow> s'
                | Some c \<Rightarrow>
                    (if prefix (npre c) search then walk_path_at fn (drop (length (npre c)) search) c s'
                     else s'))))"
  by pat_completeness auto
termination
  by (relation "measure (\<lambda>(f, q, n, s). size n)") (auto dest: getEdge_size)

definition WalkPath :: "string \<Rightarrow> ('a, 's) walk_fn \<Rightarrow> 'a Tree \<Rightarrow> 's \<Rightarrow> 's" where
  "WalkPath path fn t s = walk_path_at fn path (root t) s"

section \<open>Edges\<close>

definition edges_sorted :: "'a edges \<Rightarrow> bool" where
  "edges_sorted es \<longleftrightarrow> sorted_wrt (<) (map fst es)"

lemma search_loop_bounds:
  assumes "i \<le> j" and "\<And>a b. i \<le> a \<Longrightarrow> a \<le> b \<Longrightarrow> b < j \<Longrightarrow> f a \<Longrightarrow> f b"
  shows "i \<le> search_loop f i j \<and> search_loop f i j \<le> j
    \<and> (\<forall>k. i \<le> k \<and> k < search_loop f i j \<longrightarrow> \<not> f k)
    \<and> (\<forall>k. search_loop f i j \<le> k \<and> k < j \<longrightarrow> f k)"
  using assms
proof (induction f i j rule: search_loop.induct)
  case (1 f i j)
  let ?h = "(i + j) div 2"
  show ?case
  proof (cases "i < j")
    case True
    then have h: "i \<le> ?h" "?h < j" by auto
    show ?thesis
    proof (cases "f ?h")
      case False
      have no: "\<not> f k" if "i \<le> k" "k < ?h + 1" for k
        using "1.prems"(2) [of k ?h] h that False by auto
      have "search_loop f i j = search_loop f (?h + 1) j"
        using True False by (subst search_loop.simps) (simp add: Let_def)
      moreover note "1.IH"(1) [OF True refl False] "1.prems"(2) h
      ultimately show ?thesis using no
        by (smt (verit, ccfv_threshold) Suc_eq_plus1 le_trans less_eq_Suc_le not_less_eq_eq
            le_SucI order.trans)
    next
      case fh: True
      have yes: "f k" if "?h \<le> k" "k < j" for k
        using "1.prems"(2) [of ?h k] h that fh by auto
      have "search_loop f i j = search_loop f i ?h"
        using True fh by (subst search_loop.simps) (simp add: Let_def)
      moreover note "1.IH"(2) [OF True refl] fh "1.prems"(2) h
      ultimately show ?thesis using yes
        by (smt (verit, ccfv_threshold) le_trans less_le_trans nat_le_linear not_le)
    qed
  next
    case False
    then have "search_loop f i j = i" by (subst search_loop.simps) simp
    with False "1.prems"(1) show ?thesis by auto
  qed
qed

text \<open>On sorted edges the binary search splits the edges at the label.\<close>

lemma edge_split:
  assumes "edges_sorted es"
  obtains xs ys where "es = xs @ ys" and "edge_index l es = length xs"
    and "\<And>e. e \<in> set xs \<Longrightarrow> fst e < l" and "\<And>e. e \<in> set ys \<Longrightarrow> l \<le> fst e"
proof -
  have mono: "l \<le> fst (es ! b)" if "a \<le> b" "b < length es" "l \<le> fst (es ! a)" for a b
    using assms that sorted_wrt_nth_less [of "(<)" "map fst es" a b]
    by (cases "a = b") (auto simp: edges_sorted_def)
  let ?r = "edge_index l es"
  have r: "?r \<le> length es" "\<And>k. k < ?r \<Longrightarrow> fst (es ! k) < l"
    "\<And>k. ?r \<le> k \<Longrightarrow> k < length es \<Longrightarrow> l \<le> fst (es ! k)"
  proof -
    have "0 \<le> ?r \<and> ?r \<le> length es \<and> (\<forall>k. 0 \<le> k \<and> k < ?r \<longrightarrow> \<not> l \<le> fst (es ! k))
        \<and> (\<forall>k. ?r \<le> k \<and> k < length es \<longrightarrow> l \<le> fst (es ! k))"
      unfolding edge_index_def sort_Search_def
      by (rule search_loop_bounds) (auto intro: mono)
    then show "?r \<le> length es" "\<And>k. k < ?r \<Longrightarrow> fst (es ! k) < l"
      "\<And>k. ?r \<le> k \<Longrightarrow> k < length es \<Longrightarrow> l \<le> fst (es ! k)" by auto
  qed
  show ?thesis
  proof (rule that [of "take ?r es" "drop ?r es"])
    show "fst e < l" if "e \<in> set (take ?r es)" for e
      using that r(1,2) by (auto simp: in_set_conv_nth)
    show "l \<le> fst e" if "e \<in> set (drop ?r es)" for e
      using that r(3) by (auto simp: in_set_conv_nth)
  qed (use r(1) in auto)
qed

lemma edge_cases:
  assumes "edges_sorted es"
  obtains (present) xs c ys where "es = xs @ (l, c) # ys" and "edge_index l es = length xs"
      and "\<forall>e \<in> set xs. fst e < l" and "\<forall>e \<in> set ys. l < fst e"
      and "edges_sorted xs" and "edges_sorted ys"
  | (absent) xs ys where "es = xs @ ys" and "edge_index l es = length xs"
      and "\<forall>e \<in> set xs. fst e < l" and "\<forall>e \<in> set ys. l < fst e"
      and "edges_sorted xs" and "edges_sorted ys"
proof -
  obtain xs ys where s: "es = xs @ ys" "edge_index l es = length xs"
    "\<And>e. e \<in> set xs \<Longrightarrow> fst e < l" "\<And>e. e \<in> set ys \<Longrightarrow> l \<le> fst e"
    using edge_split [OF assms, of l] by metis
  have srt: "edges_sorted xs" "edges_sorted ys"
    using assms by (auto simp: edges_sorted_def s(1) sorted_wrt_append)
  show ?thesis
  proof (cases ys)
    case Nil
    with s srt show ?thesis by (intro absent [of xs ys]) auto
  next
    case (Cons y zs)
    have z: "\<forall>e \<in> set zs. fst y < fst e" and "edges_sorted zs"
      using srt(2) by (auto simp: edges_sorted_def Cons)
    show ?thesis
    proof (cases "fst y = l")
      case True
      with s srt z Cons \<open>edges_sorted zs\<close> show ?thesis by (intro present [of xs "snd y" zs]) auto
    next
      case False
      then have "l < fst y" using s(4) [of y] Cons by auto
      with s srt z Cons show ?thesis by (intro absent [of xs ys]) fastforce+
    qed
  qed
qed

lemma edges_sorted_mid:
  "edges_sorted (xs @ (l, c) # ys) \<longleftrightarrow>
     edges_sorted xs \<and> edges_sorted ys \<and> (\<forall>e \<in> set xs. fst e < l) \<and> (\<forall>e \<in> set ys. l < fst e)"
  by (fastforce simp: edges_sorted_def sorted_wrt_append)

lemma getEdge_sorted:
  assumes "edges_sorted es"
  shows "getEdge l es = Some c \<longleftrightarrow> (l, c) \<in> set es"
  using assms
  by (cases rule: edge_cases [where l = l]) (fastforce simp: getEdge_def Let_def nth_append split: if_splits)+

text \<open>How the edge operations change the edges around a label.\<close>

lemma edge_ops_present:
  assumes "edges_sorted es" and "getEdge l es = Some c"
  obtains xs ys where "es = xs @ (l, c) # ys"
    and "\<And>n. put_child l n es = xs @ (l, n) # ys"
    and "\<And>n. updateEdge l n es = Ret (xs @ (l, n) # ys)"
    and "delEdge l es = xs @ ys"
  using assms(1)
proof (cases rule: edge_cases [where l = l])
  case (present xs c' ys)
  then have "c' = c"
    using assms by (auto simp: getEdge_def Let_def)
  with present show ?thesis
    by (intro that [of xs ys]) (auto simp: put_child_def updateEdge_def delEdge_def Let_def)
next
  case (absent xs ys)
  then have "(l, c) \<notin> set es" by fastforce
  then show ?thesis using assms getEdge_sorted by metis
qed

lemma edge_ops_absent:
  assumes "edges_sorted es" and "getEdge l es = None"
  obtains xs ys where "es = xs @ ys" and "\<And>n. addEdge (l, n) es = xs @ (l, n) # ys"
    and "\<And>n. edges_sorted (xs @ (l, n) # ys)"
  using assms(1)
proof (cases rule: edge_cases [where l = l])
  case (present xs c ys)
  then show ?thesis using assms getEdge_sorted [OF assms(1), of l c] by auto
next
  case (absent xs ys)
  then show ?thesis
    by (intro that [of xs ys]) (auto simp: addEdge_def Let_def edges_sorted_mid)
qed

section \<open>Well-formed trees\<close>

text \<open>
  The key of a leaf is the path to its node, edges are sorted by label, and the label of an edge is
  the first character of the child's prefix. The path of a node includes its own prefix.
\<close>

fun wf_node :: "string \<Rightarrow> 'a node \<Rightarrow> bool"
  and wf_edges :: "string \<Rightarrow> 'a edges \<Rightarrow> bool" where
  "wf_node path (RNode lf p es) =
     ((case lf of None \<Rightarrow> True | Some (k, v) \<Rightarrow> k = path) \<and> edges_sorted es \<and> wf_edges path es)"
| "wf_edges path [] = True"
| "wf_edges path ((l, c) # es) =
     (npre c \<noteq> [] \<and> hd (npre c) = l \<and> wf_node (path @ npre c) c \<and> wf_edges path es)"

text \<open>The tree is compact when every node below the root has a leaf or at least two edges.\<close>

definition branching :: "'a node \<Rightarrow> bool" where
  "branching c \<longleftrightarrow> isLeaf c \<or> 2 \<le> length (nedges c)"

fun compact :: "'a node \<Rightarrow> bool"
  and compact_edges :: "'a edges \<Rightarrow> bool" where
  "compact (RNode lf p es) = compact_edges es"
| "compact_edges [] = True"
| "compact_edges ((l, c) # es) = (branching c \<and> compact c \<and> compact_edges es)"

fun entries :: "'a node \<Rightarrow> (string \<times> 'a) list"
  and entries_edges :: "'a edges \<Rightarrow> (string \<times> 'a) list" where
  "entries (RNode lf p es) = (case lf of None \<Rightarrow> [] | Some e \<Rightarrow> [e]) @ entries_edges es"
| "entries_edges [] = []"
| "entries_edges ((l, c) # es) = entries c @ entries_edges es"

definition wf_child :: "string \<Rightarrow> char \<Rightarrow> 'a node \<Rightarrow> bool" where
  "wf_child path l c \<longleftrightarrow> npre c \<noteq> [] \<and> hd (npre c) = l \<and> wf_node (path @ npre c) c"

lemma wf_edges_append [simp]: "wf_edges path (xs @ ys) \<longleftrightarrow> wf_edges path xs \<and> wf_edges path ys"
  by (induction xs) auto

lemma wf_edges_member: "wf_edges path es \<Longrightarrow> (l, c) \<in> set es \<Longrightarrow> wf_child path l c"
  by (induction es) (auto simp: wf_child_def)

lemma compact_edges_append [simp]:
  "compact_edges (xs @ ys) \<longleftrightarrow> compact_edges xs \<and> compact_edges ys"
  by (induction xs) auto

lemma entries_edges_append [simp]: "entries_edges (xs @ ys) = entries_edges xs @ entries_edges ys"
  by (induction xs) auto

text \<open>Lookup of a key relative to the parent of a node.\<close>

definition child_get :: "'a node \<Rightarrow> string \<Rightarrow> 'a option" where
  "child_get c q = (if prefix (npre c) q then get_at (drop (length (npre c)) q) c else None)"

lemma child_get_append [simp]: "child_get c (npre c @ q) = get_at q c"
  by (simp add: child_get_def)

lemma get_at_Nil [simp]: "get_at [] n = map_option snd (leaf n)"
  by (cases n) simp

lemma get_at_Cons: "get_at (x # q) n =
    (case getEdge x (nedges n) of None \<Rightarrow> None | Some c \<Rightarrow> child_get c (x # q))"
  by (cases n) (simp add: child_get_def split: option.splits)

declare get_at.simps [simp del]

lemma get_at_prefix_irrelevant: "get_at q (RNode lf p es) = get_at q (RNode lf p' es)"
  by (cases q) (simp_all add: get_at_Cons)

lemma getEdge_mid:
  assumes "edges_sorted (xs @ (l, c) # ys)"
  shows "getEdge x (xs @ (l, c) # ys) = (if x = l then Some c else getEdge x (xs @ ys))"
proof -
  have "edges_sorted (xs @ ys)"
    using assms by (auto simp: edges_sorted_def sorted_wrt_append)
  moreover have "(l, d) \<notin> set xs" "(l, d) \<notin> set ys" for d
    using assms by (auto simp: edges_sorted_mid)
  ultimately show ?thesis
    by (intro option_eqI) (auto simp: getEdge_sorted assms)
qed

lemma child_get_label: "npre c \<noteq> [] \<Longrightarrow> hd (npre c) \<noteq> x \<Longrightarrow> child_get c (x # q) = None"
  by (cases "npre c") (auto simp: child_get_def)

section \<open>Insert\<close>

lemma longestPrefix_split:
  "\<exists>r a' b'. a = r @ a' \<and> b = r @ b' \<and> longestPrefix a b = length r
     \<and> (a' = [] \<or> b' = [] \<or> hd a' \<noteq> hd b')"
proof (induction a b rule: longestPrefix.induct)
  case (1 x xs y ys)
  show ?case
  proof (cases "x = y")
    case True
    with 1 obtain r a' b' where "xs = r @ a'" "ys = r @ b'" "longestPrefix xs ys = length r"
      "a' = [] \<or> b' = [] \<or> hd a' \<noteq> hd b'" by blast
    with True show ?thesis by (intro exI [of _ "x # r"] exI [of _ a'] exI [of _ b']) simp
  next
    case False
    then show ?thesis by (intro exI [of _ "[]"] exI [of _ "x # xs"] exI [of _ "y # ys"]) simp
  qed
qed auto

lemma addEdge_Nil: "addEdge e [] = [e]"
  by (simp add: addEdge_def edge_index_def sort_Search_def search_loop.simps)

lemma addEdge_single:
  "addEdge (l, n) [(m, k)] = (if l \<le> m then [(l, n), (m, k)] else [(m, k), (l, n)])"
  by (auto simp: addEdge_def edge_index_def sort_Search_def search_loop.simps Let_def)

text \<open>The three shapes a split can have.\<close>

lemma split_node_shape:
  assumes "search = r @ a" "npre c = r @ b" "b \<noteq> []"
  shows "split_node s v search (length r) c =
    (if a = [] then RNode (Some (s, v)) r [(hd b, RNode (leaf c) b (nedges c))]
     else RNode None r (addEdge (hd a, RNode (Some (s, v)) a []) [(hd b, RNode (leaf c) b (nedges c))]))"
  using assms by (simp add: split_node_def Let_def nth_append hd_conv_nth addEdge_Nil)

lemma wf_node_prefix: "wf_node path (RNode lf p es) \<longleftrightarrow> wf_node path (RNode lf p' es)"
  by simp

lemma split_node_wf:
  assumes "search = r @ a" "npre c = r @ b" "b \<noteq> []" "r \<noteq> []" "a = [] \<or> hd a \<noteq> hd b"
    and "wf_child path l c"
  shows "wf_child path l (split_node (path @ search) v search (length r) c)"
proof -
  obtain lf es where c: "c = RNode lf (r @ b) es" using assms(2) by (cases c) auto
  have w: "wf_node ((path @ r) @ b) (RNode lf b es)" and l: "hd r = l"
    using assms(4,6) by (auto simp: wf_child_def c)
  let ?new = "RNode (Some (path @ search, v)) a []"
  have n: "wf_node ((path @ r) @ a) ?new" by (simp add: assms(1) edges_sorted_def)
  show ?thesis
  proof (cases "a = []")
    case True
    with w l assms(1,3,4) show ?thesis
      unfolding split_node_shape [OF assms(1-3)] wf_child_def
      by (simp add: c edges_sorted_def del: wf_node.simps(1) add: wf_node.simps(1) [of _ _ r])
  next
    case False
    then have "hd a \<noteq> hd b" using assms(5) by simp
    then show ?thesis
      unfolding split_node_shape [OF assms(1-3)] wf_child_def addEdge_single
      using w n l False assms(3,4)
      by (auto simp: c edges_sorted_def not_le simp del: wf_node.simps(1)
          simp: wf_node.simps(1) [of _ _ r])
  qed
qed

lemma split_node_compact:
  assumes "search = r @ a" "npre c = r @ b" "b \<noteq> []" "compact c" "branching c"
  shows "compact (split_node s v search (length r) c)
    \<and> branching (split_node s v search (length r) c)"
  using assms(4,5) unfolding split_node_shape [OF assms(1-3)] addEdge_single
  by (cases c) (auto simp: branching_def isLeaf_def)

lemma child_get_node:
  "child_get (RNode lf r es) (r @ q) =
    (case q of [] \<Rightarrow> map_option snd lf
     | x # _ \<Rightarrow> (case getEdge x es of None \<Rightarrow> None | Some c \<Rightarrow> child_get c q))"
  using child_get_append [of "RNode lf r es" q]
  by (cases q) (simp_all add: get_at_Cons split: option.split)

lemma child_get_self [simp]: "child_get (RNode lf r es) r = map_option snd lf"
  using child_get_node [of lf r es "[]"] by simp

lemma child_get_no_prefix: "\<not> prefix (npre c) q \<Longrightarrow> child_get c q = None"
  by (simp add: child_get_def)

lemma child_get_leaf: "child_get (RNode (Some (s, v)) p []) q = (if q = p then Some v else None)"
  by (cases "drop (length p) q") (auto simp: child_get_def get_at_Cons getEdge_def prefix_def)

lemma child_get_shift: "child_get (RNode lf b es) q = child_get (RNode lf (r @ b) es) (r @ q)"
  by (auto simp: child_get_def get_at_prefix_irrelevant [of _ lf b es "r @ b"])

lemma getEdge_one: "getEdge x [(l, c)] = (if x = l then Some c else None)"
  using getEdge_sorted [of "[(l, c)]" x] by (auto simp: edges_sorted_def)
    (metis not_Some_eq)

lemma getEdge_two:
  assumes "l \<noteq> m"
  shows "getEdge x (addEdge (l, c) [(m, d)]) = (if x = l then Some c else if x = m then Some d else None)"
proof -
  have s: "edges_sorted (addEdge (l, c) [(m, d)])"
    using assms by (auto simp: addEdge_single edges_sorted_def)
  show ?thesis
    using getEdge_sorted [OF s, of x] assms
    by (cases "getEdge x (addEdge (l, c) [(m, d)])") (auto simp: addEdge_single split: if_splits)
qed

lemma split_node_get:
  assumes "search = r @ a" "npre c = r @ b" "b \<noteq> []" "r \<noteq> []" "a = [] \<or> hd a \<noteq> hd b"
  shows "child_get (split_node s v search (length r) c) q =
    (if q = search then Some v else child_get c q)"
proof (cases "prefix r q")
  case False
  have "npre (split_node s v search (length r) c) = r"
    by (simp add: split_node_shape [OF assms(1-3)])
  moreover have "q \<noteq> search" using False assms(1) by auto
  moreover have "\<not> prefix (npre c) q" using False assms(2) by (auto simp: prefix_def)
  ultimately show ?thesis using False by (simp add: child_get_no_prefix)
next
  case True
  then obtain q' where q: "q = r @ q'" by (auto simp: prefix_def)
  have c: "child_get (RNode (leaf c) b (nedges c)) q' = child_get c (r @ q')"
    using assms(2) by (cases c) (simp add: child_get_shift [of _ b _ q' r])
  have none: "child_get c (r @ q') = None" if "q' = [] \<or> hd q' \<noteq> hd b"
    using that assms(2,3) by (cases b; cases q') (auto simp: child_get_def)
  show ?thesis
  proof (cases "a = []")
    case True
    then show ?thesis
      unfolding split_node_shape [OF assms(1-3)] q
      using c none assms(1) by (cases q') (auto simp: child_get_node getEdge_one)
  next
    case False
    then have "hd a \<noteq> hd b" using assms(5) by simp
    then show ?thesis
      unfolding split_node_shape [OF assms(1-3)] q
      using False c none assms(1) child_get_leaf [of s v a q']
      by (cases q') (auto simp: child_get_node getEdge_two)
  qed
qed

text \<open>What an insertion below a node does to lookups, to the invariant and to the prefix.\<close>

lemma insert_at_correct:
  assumes "wf_node path n" and "s = path @ search"
  shows "\<exists>n'. insert_at s v search n = Ret (n', get_at search n) \<and> wf_node path n'
    \<and> npre n' = npre n \<and> (\<forall>q. get_at q n' = (if q = search then Some v else get_at q n))
    \<and> (compact n \<longrightarrow> compact n') \<and> (isLeaf n \<longrightarrow> isLeaf n')
    \<and> length (nedges n) \<le> length (nedges n')"
  using assms
proof (induction s v search n arbitrary: path rule: insert_at.induct)
  case (1 s v search lf p es)
  have srt: "edges_sorted es" and we: "wf_edges path es" using "1.prems" by auto
  show ?case
  proof (cases search)
    case Nil
    then show ?thesis
      using "1.prems" by (cases lf) (auto simp: get_at_Cons isLeaf_def neq_Nil_conv)
  next
    case (Cons x xs)
    show ?thesis
    proof (cases "getEdge x es")
      case None
      let ?new = "RNode (Some (s, v)) search []"
      obtain as bs where e: "es = as @ bs" "\<And>n. addEdge (x, n) es = as @ (x, n) # bs"
        "\<And>n. edges_sorted (as @ (x, n) # bs)"
        using edge_ops_absent [OF srt None] by metis
      have g: "getEdge y (as @ (x, n) # bs) = (if y = x then Some n else getEdge y es)" for y n
        using getEdge_mid [OF e(3)] e(1) by simp
      have "get_at q (RNode lf p (as @ (x, ?new) # bs)) =
          (if q = search then Some v else get_at q (RNode lf p es))" for q
        using Cons None child_get_leaf [of s v search q] by (cases q) (auto simp: get_at_Cons g)
      then show ?thesis
        using Cons None e "1.prems" we
        by (auto simp: get_at_Cons edges_sorted_def branching_def isLeaf_def)
    next
      case (Some c)
      note c = Some
      obtain as bs where e: "es = as @ (x, c) # bs"
        "\<And>n. put_child x n es = as @ (x, n) # bs" "\<And>n. updateEdge x n es = Ret (as @ (x, n) # bs)"
        using edge_ops_present [OF srt c] by metis
      have wc: "wf_child path x c" using we e(1) by (auto simp: wf_child_def)
      have srt': "edges_sorted (as @ (x, n) # bs)" for n
        using srt e(1) by (auto simp: edges_sorted_mid)
      have g: "getEdge y (as @ (x, n) # bs) = (if y = x then Some n else getEdge y es)" for y n
        using getEdge_mid [OF srt', of y n] getEdge_mid [OF srt [unfolded e(1)], of y] e(1) by simp
      have step: "\<exists>n'. insert_at s v search (RNode lf p es) = Ret (n', get_at search (RNode lf p es))
          \<and> wf_node path n' \<and> npre n' = npre (RNode lf p es)
          \<and> (\<forall>q. get_at q n' = (if q = search then Some v else get_at q (RNode lf p es)))
          \<and> (compact (RNode lf p es) \<longrightarrow> compact n') \<and> (isLeaf (RNode lf p es) \<longrightarrow> isLeaf n')
          \<and> length (nedges (RNode lf p es)) \<le> length (nedges n')"
        if "insert_at s v search (RNode lf p es) =
              Ret (RNode lf p (as @ (x, c') # bs), child_get c search)"
          and w: "wf_child path x c'"
          and gc: "\<And>q. child_get c' q = (if q = search then Some v else child_get c q)"
          and cp: "compact c \<Longrightarrow> branching c \<Longrightarrow> compact c' \<and> branching c'" for c'
      proof -
        have "get_at q (RNode lf p (as @ (x, c') # bs)) =
            (if q = search then Some v else get_at q (RNode lf p es))" for q
          using Cons c by (cases q) (auto simp: get_at_Cons g gc)
        then show ?thesis
          using that(1) w cp srt' "1.prems"(1) Cons c e(1)
          by (auto simp: get_at_Cons wf_child_def isLeaf_def)
      qed
      let ?cp = "longestPrefix search (npre c)"
      obtain r a b where r: "search = r @ a" "npre c = r @ b" "?cp = length r"
        "a = [] \<or> b = [] \<or> hd a \<noteq> hd b"
        using longestPrefix_split [of search "npre c"] by blast
      show ?thesis
      proof (cases "b = []")
        case True
        have "s = (path @ npre c) @ drop ?cp search" using r "1.prems"(2) True by simp
        from "1.IH" [OF Cons c refl _ _ this] wc r True
        obtain c' where c': "insert_at s v a c = Ret (c', get_at a c)" "wf_node (path @ npre c) c'"
          "npre c' = npre c" "\<forall>q. get_at q c' = (if q = a then Some v else get_at q c)"
          "compact c \<longrightarrow> compact c'" "isLeaf c \<longrightarrow> isLeaf c'" "length (nedges c) \<le> length (nedges c')"
          by (auto simp: wf_child_def)
        have ins: "insert_at s v search (RNode lf p es) =
              Ret (RNode lf p (as @ (x, c') # bs), child_get c search)"
        proof -
          have "drop (length r) (x # xs) = a" using r(1) Cons by (metis append_eq_conv_conj)
          moreover have "child_get c search = get_at a c" using r(1,2) True by (metis child_get_append append_Nil2)
          ultimately show ?thesis using Cons c e(2) r(2,3) True c'(1) by (simp add: Let_def)
        qed
        have get: "child_get c' q = (if q = search then Some v else child_get c q)" for q
          using c'(3,4) r True by (auto simp: child_get_def prefix_def)
        have "wf_child path x c'" using c'(2,3) wc by (simp add: wf_child_def)
        then show ?thesis
          by (rule step [OF ins _ get]) (use c'(5-7) in \<open>auto simp: branching_def\<close>)
      next
        case False
        have "r \<noteq> []" using wc r(1,2,4) Cons False by (cases r) (auto simp: wf_child_def)
        moreover have ab: "a = [] \<or> hd a \<noteq> hd b" using r(4) False by simp
        ultimately have sw: "wf_child path x (split_node s v search (length r) c)"
          using split_node_wf [OF r(1,2) False _ _ wc] "1.prems"(2) by simp
        have "child_get c search = None"
          using r(1,2) False ab by (cases b; cases a) (auto simp: child_get_def)
        then have ins: "insert_at s v search (RNode lf p es) =
              Ret (RNode lf p (as @ (x, split_node s v search (length r) c) # bs), child_get c search)"
          using Cons c e(3) r False by (simp add: Let_def)
        show ?thesis
          by (rule step [OF ins sw split_node_get [OF r(1,2) False \<open>r \<noteq> []\<close> ab]
                split_node_compact [OF r(1,2) False]])
      qed
    qed
  qed
qed

section \<open>Delete\<close>

text \<open>
  A removal below a node may merge the node with its only child, which lengthens its prefix, so
  the effect is stated on lookups relative to the parent. The predicate says that the node \<open>n'\<close>
  replaces \<open>n\<close> below the path \<open>base\<close> and differs in the keys of \<open>gone\<close> only.
\<close>

definition replaces :: "string \<Rightarrow> bool \<Rightarrow> (string \<Rightarrow> bool) \<Rightarrow> 'a node \<Rightarrow> 'a node \<Rightarrow> bool" where
  "replaces base is_root gone n n' \<longleftrightarrow>
     wf_node (base @ npre n') n' \<and> prefix (npre n) (npre n') \<and> (is_root \<longrightarrow> npre n' = npre n)
     \<and> (\<forall>z. child_get n' z = (if gone z then None else child_get n z))"

lemma mergeChild_single:
  assumes "wf_node (base @ p) (RNode None p [(l, c)])"
  shows "mergeChild (RNode None p [(l, c)]) = RNode (leaf c) (p @ npre c) (nedges c)"
    and "wf_node (base @ p @ npre c) (RNode (leaf c) (p @ npre c) (nedges c))"
    and "child_get (RNode (leaf c) (p @ npre c) (nedges c)) z = child_get (RNode None p [(l, c)]) z"
proof -
  show "mergeChild (RNode None p [(l, c)]) = RNode (leaf c) (p @ npre c) (nedges c)"
    by (simp add: mergeChild_def)
  show "wf_node (base @ p @ npre c) (RNode (leaf c) (p @ npre c) (nedges c))"
    using assms by (cases c) simp
  have c: "npre c \<noteq> []" "hd (npre c) = l" using assms by auto
  show "child_get (RNode (leaf c) (p @ npre c) (nedges c)) z = child_get (RNode None p [(l, c)]) z"
  proof (cases "prefix p z")
    case True
    then obtain q where z: "z = p @ q" by (auto simp: prefix_def)
    have "child_get (RNode (leaf c) (p @ npre c) (nedges c)) z = child_get c q"
      using child_get_shift [of "leaf c" "npre c" "nedges c" q p] by (simp add: z)
    moreover have "child_get c [] = None" using c by (simp add: child_get_def)
    ultimately show ?thesis
      using c child_get_label [of c] by (cases q) (auto simp: z child_get_node getEdge_one)
  next
    case False
    then show ?thesis by (auto simp: child_get_def prefix_def)
  qed
qed

lemma single_edge: "length es = Suc 0 \<Longrightarrow> \<exists>l c. es = [(l, c)]"
  by (cases es) auto

lemma replaces_merge:
  assumes "replaces base False gone n (RNode None p es)" "length es = 1"
  shows "replaces base False gone n (mergeChild (RNode None p es))"
proof -
  obtain l c where es: "es = [(l, c)]" using assms(2) single_edge by fastforce
  have w: "wf_node (base @ p) (RNode None p [(l, c)])"
    using assms(1) by (simp add: replaces_def es del: wf_node.simps)
  show ?thesis
    using assms(1) unfolding es mergeChild_single(1) [OF w]
    using mergeChild_single(2,3) [OF w]
    by (auto simp: replaces_def prefix_def simp del: wf_node.simps)
qed

text \<open>Replacing or dropping the child behind a label, seen from the parent.\<close>

lemma replaces_put:
  assumes w: "wf_node (base @ p) (RNode lf p es)" and c: "getEdge x es = Some c"
    and rep: "replaces (base @ p) False gone c c'"
  shows "replaces base is_root (\<lambda>z. \<exists>q. z = p @ x # q \<and> gone (x # q))
    (RNode lf p es) (RNode lf p (put_child x c' es))"
proof -
  have srt: "edges_sorted es" using w by simp
  obtain as bs where e: "es = as @ (x, c) # bs" "put_child x c' es = as @ (x, c') # bs"
    using edge_ops_present [OF srt c] by metis
  have srt': "edges_sorted (as @ (x, c') # bs)" using srt e(1) by (auto simp: edges_sorted_mid)
  have g: "getEdge y (put_child x c' es) = (if y = x then Some c' else getEdge y es)" for y
    using getEdge_mid [OF srt', of y] getEdge_mid [OF srt [unfolded e(1)], of y] e by simp
  have cc: "npre c \<noteq> []" "hd (npre c) = x" using w e(1) by auto
  have "child_get (RNode lf p (put_child x c' es)) z =
      (if \<exists>q. z = p @ x # q \<and> gone (x # q) then None else child_get (RNode lf p es) z)" for z
  proof (cases "prefix p z")
    case True
    then obtain q where z: "z = p @ q" by (auto simp: prefix_def)
    show ?thesis
      using rep c by (cases q) (auto simp: z child_get_node g replaces_def)
  next
    case False
    then show ?thesis by (auto simp: child_get_def prefix_def)
  qed
  moreover have "npre c' \<noteq> []" "hd (npre c') = x" "wf_node ((base @ p) @ npre c') c'"
    using rep cc by (auto simp: replaces_def prefix_def)
  ultimately show ?thesis
    using w e srt' by (auto simp: replaces_def)
qed

lemma replaces_drop:
  assumes w: "wf_node (base @ p) (RNode lf p es)" and c: "getEdge x es = Some c"
    and all: "nedges c = []"
  shows "replaces base is_root (\<lambda>z. z = p @ npre c) (RNode lf p es) (RNode lf p (delEdge x es))"
proof -
  have srt: "edges_sorted es" using w by simp
  obtain as bs where e: "es = as @ (x, c) # bs" "delEdge x es = as @ bs"
    using edge_ops_present [OF srt c] by metis
  have srt': "edges_sorted (as @ bs)" using srt e(1) by (auto simp: edges_sorted_def sorted_wrt_append)
  have "getEdge x (as @ bs) = None"
    using getEdge_sorted [OF srt', of x] srt e(1)
    by (cases "getEdge x (as @ bs)") (fastforce simp: edges_sorted_mid)+
  then have g: "getEdge y (delEdge x es) = (if y = x then None else getEdge y es)" for y
    using getEdge_mid [OF srt [unfolded e(1)], of y] e by simp
  have cc: "npre c \<noteq> []" "hd (npre c) = x" using w e(1) by auto
  have only: "child_get c q = None" if "q \<noteq> npre c" for q
    using that all by (cases "drop (length (npre c)) q")
      (auto simp: child_get_def prefix_def get_at_Cons getEdge_def)
  have "child_get (RNode lf p (delEdge x es)) z =
      (if z = p @ npre c then None else child_get (RNode lf p es) z)" for z
  proof (cases "prefix p z")
    case True
    then obtain q where z: "z = p @ q" by (auto simp: prefix_def)
    show ?thesis
      using c cc only [of q] by (cases q; cases "npre c") (auto simp: z child_get_node g)
  next
    case False
    then show ?thesis by (auto simp: child_get_def)
  qed
  then show ?thesis
    using w e srt' by (auto simp: replaces_def)
qed

lemma replaces_leaf:
  assumes "wf_node (base @ p) (RNode lf p es)"
  shows "replaces base is_root (\<lambda>z. z = p) (RNode lf p es) (RNode None p es)"
proof -
  have "child_get (RNode None p es) z = (if z = p then None else child_get (RNode lf p es) z)" for z
  proof (cases "prefix p z")
    case True
    then obtain q where z: "z = p @ q" by (auto simp: prefix_def)
    show ?thesis by (cases q) (auto simp: z child_get_node)
  qed (auto simp: child_get_def)
  with assms show ?thesis by (auto simp: replaces_def)
qed

lemma replaces_cong: "replaces base r gone n n' \<Longrightarrow> (\<And>z. child_get n z \<noteq> None \<Longrightarrow> gone z = gone' z) \<Longrightarrow>
    replaces base r gone' n n'"
  unfolding replaces_def by (metis (no_types, lifting))

lemma delete_at_correct:
  assumes "wf_node (base @ npre n) n"
  shows "case delete_at is_root search n of
      None \<Rightarrow> get_at search n = None
    | Some (n', v, here) \<Rightarrow> get_at search n = Some v \<and> (here \<longleftrightarrow> search = [])
        \<and> replaces base is_root (\<lambda>z. z = npre n @ search) n n'"
  using assms
proof (induction is_root search n arbitrary: base rule: delete_at.induct)
  case (1 is_root search lf p es)
  have w: "wf_node (base @ p) (RNode lf p es)" using "1.prems" by simp
  show ?case
  proof (cases search)
    case Nil
    have "replaces base is_root (\<lambda>z. z = p) (RNode lf p es)
        (if \<not> is_root \<and> length es = 1 then mergeChild (RNode None p es) else RNode None p es)"
      using replaces_leaf [OF w, of is_root] replaces_merge [of base _ _ p es] by auto
    with Nil show ?thesis by (cases lf) (auto simp: Let_def)
  next
    case (Cons x xs)
    show ?thesis
    proof (cases "getEdge x es")
      case None
      with Cons show ?thesis by (simp add: get_at_Cons)
    next
      case (Some c)
      have wc: "wf_child (base @ p) x c"
        using w getEdge_sorted [of es x c] Some wf_edges_member by auto
      show ?thesis
      proof (cases "prefix (npre c) search")
        case False
        with Cons Some show ?thesis by (simp add: get_at_Cons child_get_def)
      next
        case True
        let ?rest = "drop (length (npre c)) search"
        have sr: "search = npre c @ ?rest" using True by (auto simp: prefix_def)
        have gs: "get_at search (RNode lf p es) = get_at ?rest c"
          using Cons Some True by (simp add: get_at_Cons child_get_def)
        have IH: "case delete_at False ?rest c of
            None \<Rightarrow> get_at ?rest c = None
          | Some (n', v, here) \<Rightarrow> get_at ?rest c = Some v \<and> (here \<longleftrightarrow> ?rest = [])
              \<and> replaces (base @ p) False (\<lambda>z. z = npre c @ ?rest) c n'"
          using "1.IH" [OF Cons Some True, of "base @ p"] wc by (simp add: wf_child_def)
        show ?thesis
        proof (cases "delete_at False ?rest c")
          case None
          with IH gs Cons Some True show ?thesis by simp
        next
          case d: (Some t)
          obtain c' v here where t: "t = (c', v, here)" by (cases t)
          have h: "get_at ?rest c = Some v" "here \<longleftrightarrow> ?rest = []"
            "replaces (base @ p) False (\<lambda>z. z = search) c c'"
            using IH d t sr by auto
          let ?es = "if here \<and> nedges c = [] then delEdge x es else put_child x c' es"
          have rep: "replaces base is_root (\<lambda>z. z = p @ search) (RNode lf p es) (RNode lf p ?es)"
          proof (cases "here \<and> nedges c = []")
            case True
            then have "search = npre c" using h(2) sr by simp
            then show ?thesis using replaces_drop [OF w Some, of is_root] True by simp
          next
            case False
            then show ?thesis
              using replaces_put [OF w Some h(3), of is_root] Cons by (auto elim: replaces_cong)
          qed
          have "delete_at is_root search (RNode lf p es) =
            Some (if here \<and> \<not> is_root \<and> length ?es = 1 \<and> lf = None
                  then mergeChild (RNode lf p ?es) else RNode lf p ?es, v, False)"
            using Cons Some True d t by (simp add: Let_def)
          then show ?thesis
            using rep replaces_merge [of base _ _ p ?es] gs h Cons by auto
        qed
      qed
    qed
  qed
qed

text \<open>Deletion keeps a compact tree compact.\<close>

lemma compact_merge:
  assumes "compact_edges es" "length es = 1"
  shows "compact (mergeChild (RNode None p es)) \<and> branching (mergeChild (RNode None p es))"
proof -
  obtain l c where es: "es = [(l, c)]" using assms(2) single_edge by fastforce
  then show ?thesis
    using assms(1) by (cases c) (auto simp: mergeChild_def branching_def isLeaf_def)
qed

lemma delete_at_compact:
  assumes "wf_node (base @ npre n) n" "compact n" "delete_at is_root search n = Some (n', v, here)"
  shows "compact n' \<and> (\<not> is_root \<longrightarrow> branching n \<longrightarrow> \<not> (here \<and> nedges n = []) \<longrightarrow> branching n')"
  using assms
proof (induction is_root search n arbitrary: base n' v here rule: delete_at.induct)
  case (1 is_root search lf p es)
  have w: "wf_node (base @ p) (RNode lf p es)" using "1.prems" by simp
  have srt: "edges_sorted es" and ce: "compact_edges es" using "1.prems" by auto
  show ?case
  proof (cases search)
    case Nil
    then have eq: "here" "n' = (if \<not> is_root \<and> length es = 1 then mergeChild (RNode None p es) else RNode None p es)"
      using "1.prems"(3) by (auto simp: Let_def split: option.splits prod.splits)
    show ?thesis
    proof (cases "\<not> is_root \<and> length es = 1")
      case True
      then show ?thesis using eq compact_merge [OF ce] by auto
    next
      case False
      then show ?thesis using eq ce by (cases es) (auto simp: branching_def Suc_le_eq)
    qed
  next
    case (Cons x xs)
    then obtain c c' h where c: "getEdge x es = Some c" "prefix (npre c) search"
      "delete_at False (drop (length (npre c)) search) c = Some (c', v, h)"
      and n': "\<not> here" "n' = (let es' = (if h \<and> nedges c = [] then delEdge x es else put_child x c' es)
         in if h \<and> \<not> is_root \<and> length es' = 1 \<and> lf = None then mergeChild (RNode lf p es') else RNode lf p es')"
      using "1.prems"(3) by (auto simp: Let_def split: option.splits prod.splits if_splits)
    obtain as bs where e: "es = as @ (x, c) # bs" "put_child x c' es = as @ (x, c') # bs"
      "delEdge x es = as @ bs"
      using edge_ops_present [OF srt c(1)] by metis
    have wc: "wf_node ((base @ p) @ npre c) c" and cc: "compact c" "branching c"
      using w ce e(1) by auto
    have IH: "compact c'" "\<not> (h \<and> nedges c = []) \<Longrightarrow> branching c'"
      using "1.IH" [OF Cons c(1,2) wc cc(1) c(3)] cc(2) by auto
    define es' where "es' = (if h \<and> nedges c = [] then delEdge x es else put_child x c' es)"
    have ce': "compact_edges es'" using e ce IH by (auto simp: es'_def)
    have len: "length es \<le> Suc (length es')" "\<not> h \<Longrightarrow> length es' = length es"
      using e by (auto simp: es'_def)
    have n'_eq: "n' = (if h \<and> \<not> is_root \<and> length es' = 1 \<and> lf = None
        then mergeChild (RNode lf p es') else RNode lf p es')"
      using n'(2) by (simp only: es'_def Let_def)
    show ?thesis
    proof (cases "h \<and> \<not> is_root \<and> length es' = 1 \<and> lf = None")
      case True
      then have "n' = mergeChild (RNode None p es')" using n'_eq by simp
      with compact_merge [OF ce'] True show ?thesis by auto
    next
      case False
      then have "n' = RNode lf p es'" using n'_eq by auto
      with False ce' len n'(1) show ?thesis
        by (auto simp: branching_def isLeaf_def)
    qed
  qed
qed

section \<open>DeletePrefix\<close>

lemma deletePrefix_correct:
  assumes "wf_node (base @ npre n) n" and "deletePrefix is_root pre n = (n', k, here)"
  shows "replaces base is_root (prefix (npre n @ pre)) n n'"
  using assms
proof (induction is_root pre n arbitrary: base n' k here rule: deletePrefix.induct)
  case (1 is_root pre lf p es)
  have w: "wf_node (base @ p) (RNode lf p es)" using "1.prems" by simp
  have same: "replaces base is_root gone (RNode lf p es) (RNode lf p es)"
    if "\<And>z. gone z \<Longrightarrow> child_get (RNode lf p es) z = None" for gone
    using w that by (auto simp: replaces_def simp del: wf_node.simps)
  show ?case
  proof (cases pre)
    case Nil
    then have "n' = RNode None p []" using "1.prems" by auto
    moreover have "child_get (RNode None p []) z = None" for z
      by (cases "drop (length p) z") (auto simp: child_get_def get_at_Cons getEdge_def)
    ultimately show ?thesis
      using Nil by (auto simp: replaces_def edges_sorted_def child_get_no_prefix)
  next
    case (Cons x xs)
    show ?thesis
    proof (cases "getEdge x es")
      case None
      then show ?thesis
        using Cons "1.prems" by (auto simp: prefix_def child_get_node intro!: same)
    next
      case (Some c)
      have wc: "wf_child (base @ p) x c"
        using w getEdge_sorted [of es x c] Some wf_edges_member by auto
      show ?thesis
      proof (cases "\<not> prefix pre (npre c) \<and> \<not> prefix (npre c) pre")
        case True
        have "child_get c (pre @ q) = None" for q
          using True by (metis child_get_no_prefix prefixI prefix_same_cases)
        then show ?thesis
          using Cons Some True "1.prems" by (auto simp: prefix_def child_get_node intro!: same)
      next
        case False
        define pre' where "pre' = (if length (npre c) > length pre then drop (length pre) pre
                                  else drop (length (npre c)) pre)"
        obtain c' k' h where d: "deletePrefix False pre' c = (c', k', h)" by (cases "deletePrefix False pre' c")
        have "replaces (base @ p) False (prefix (npre c @ pre')) c c'"
          using "1.IH" [OF Cons Some False pre'_def _ d, of "base @ p"] wc by (auto simp: wf_child_def)
        moreover have "child_get c z \<noteq> None \<Longrightarrow> prefix (npre c @ pre') z = prefix pre z" for z
          using False unfolding pre'_def
          by (auto simp: child_get_def prefix_def split: if_splits)
        ultimately have "replaces (base @ p) False (prefix pre) c c'"
          by (auto elim: replaces_cong)
        from replaces_put [OF w Some this, of is_root]
        have rep: "replaces base is_root (prefix (p @ pre)) (RNode lf p es) (RNode lf p (put_child x c' es))"
          by (rule replaces_cong) (use Cons in \<open>auto simp: prefix_def\<close>)
        have "n' = (if h \<and> \<not> is_root \<and> length es = 1 \<and> lf = None
            then mergeChild (RNode lf p (put_child x c' es)) else RNode lf p (put_child x c' es))"
          using "1.prems"(2) Cons Some False d by (auto simp: Let_def pre'_def split: if_splits)
        then show ?thesis
          using rep replaces_merge [of base _ _ p "put_child x c' es"]
          by (auto simp: put_child_def)
      qed
    qed
  qed
qed

section \<open>Walks and the entries in order\<close>

text \<open>A walk is a fold over the entries that stops when the callback asks for it.\<close>

fun fold_until :: "('a, 's) walk_fn \<Rightarrow> (string \<times> 'a) list \<Rightarrow> 's \<Rightarrow> 's \<times> bool" where
  "fold_until fn [] s = (s, False)"
| "fold_until fn ((k, v) # es) s = (case fn k v s of (s', b) \<Rightarrow> if b then (s', True) else fold_until fn es s')"

lemma fold_until_append: "fold_until fn (xs @ ys) s =
    (case fold_until fn xs s of (s', b) \<Rightarrow> if b then (s', True) else fold_until fn ys s')"
  by (induction fn xs s rule: fold_until.induct) (auto split: prod.splits)

lemma recursiveWalk_entries:
  "recursiveWalk fn n s = fold_until fn (entries n) s"
  "walk_edges fn es s = fold_until fn (entries_edges es) s"
  by (induction fn n s and fn es s rule: recursiveWalk_walk_edges.induct)
    (auto simp: visit_leaf_def fold_until_append split: option.splits prod.splits bool.splits, blast)

lemma fold_until_count: "fold_until (\<lambda>k v c. (c + 1, False)) es c = (c + int (length es), False)"
  by (induction es arbitrary: c) auto

lemma fold_until_map:
  "fold_until (\<lambda>k v out. (out(k \<mapsto> v), False)) es m = (m ++ map_of (rev es), False)"
  by (induction es arbitrary: m) (auto simp: map_add_def fun_eq_iff split: option.splits)

lemma entries_path:
  "wf_node path n \<Longrightarrow> (k, v) \<in> set (entries n) \<Longrightarrow> prefix path k"
  "wf_edges path es \<Longrightarrow> (k, v) \<in> set (entries_edges es) \<Longrightarrow> \<exists>(l, c) \<in> set es. prefix (path @ [l]) k"
proof (induction n and es arbitrary: path and path rule: entries_entries_edges.induct)
  case (1 lf p es)
  then show ?case by (auto simp: prefix_def split: option.splits)
next
  case (3 l c es)
  then show ?case
    by (cases "npre c") (fastforce simp: prefix_def)+
qed simp

lemma entries_edges_member:
  "e \<in> set (entries_edges es) \<longleftrightarrow> (\<exists>x \<in> set es. e \<in> set (entries (snd x)))"
  by (induction es) auto

lemma entries_get:
  "wf_node path n \<Longrightarrow> (k, v) \<in> set (entries n) \<longleftrightarrow> (\<exists>q. k = path @ q \<and> get_at q n = Some v)"
proof (induction "size n" arbitrary: path n rule: less_induct)
  case less
  obtain lf p es where n: "n = RNode lf p es" by (cases n)
  have srt: "edges_sorted es" and we: "wf_edges path es" using less.prems by (auto simp: n)
  have child: "(k, v) \<in> set (entries c) \<longleftrightarrow> (\<exists>q. k = path @ q \<and> child_get c q = Some v)"
    if "(l, c) \<in> set es" for l c
  proof -
    have "size c < size n" using member_size [OF that] by (simp add: n)
    moreover have "wf_node (path @ npre c) c" using wf_edges_member [OF we that] by (simp add: wf_child_def)
    ultimately show ?thesis
      using less.hyps [of c "path @ npre c"] by (auto simp: child_get_def prefix_def)
  qed
  have es: "(k, v) \<in> set (entries_edges es) \<longleftrightarrow> (\<exists>l c. (l, c) \<in> set es \<and> (k, v) \<in> set (entries c))"
    by (force simp: entries_edges_member)
  have "(k, v) \<in> set (entries_edges es) \<longleftrightarrow>
      (\<exists>x q. k = path @ x # q \<and> get_at (x # q) n = Some v)" (is "?L = ?R")
  proof
    assume ?L
    then obtain l c q where lc: "(l, c) \<in> set es" "k = path @ q" "child_get c q = Some v"
      using es child by blast
    moreover have c: "npre c \<noteq> []" "hd (npre c) = l"
      using wf_edges_member [OF we lc(1)] by (auto simp: wf_child_def)
    moreover from c lc(3) obtain q' where "q = l # q'"
      by (cases "npre c"; cases q) (auto simp: child_get_def split: if_splits)
    ultimately show ?R using getEdge_sorted [OF srt, of l c] by (auto simp: n get_at_Cons)
  next
    assume ?R
    then obtain x q c where "k = path @ x # q" "getEdge x es = Some c" "child_get c (x # q) = Some v"
      by (auto simp: n get_at_Cons split: option.splits)
    then show ?L using es child getEdge_sorted [OF srt, of x c] by blast
  qed
  moreover have "(k, v) \<in> set (entries n) \<longleftrightarrow> lf = Some (k, v) \<or> (k, v) \<in> set (entries_edges es)"
    by (auto simp: n split: option.splits)
  moreover have "lf = Some (k, v) \<longleftrightarrow> k = path @ [] \<and> get_at [] n = Some v"
    using less.prems by (auto simp: n split: option.splits)
  ultimately show ?case by (metis neq_Nil_conv)
qed

lemma less_append: "(p @ x < p @ y) = (x < (y :: string))"
  by (induction p) auto

lemma entries_sorted:
  fixes n :: "'a node" and es :: "'a edges"
  shows "wf_node path n \<Longrightarrow> sorted_wrt (<) (map fst (entries n))"
  "wf_edges path es \<Longrightarrow> edges_sorted es \<Longrightarrow> sorted_wrt (<) (map fst (entries_edges es))"
proof (induction n and es arbitrary: path and path rule: entries_entries_edges.induct)
  case (1 lf p es)
  have "path < k" if "(k, v) \<in> set (entries_edges es)" for k v
    using entries_path(2) [of path es k v] that "1.prems" less_append [of path "[]"]
    by (fastforce simp: prefix_def)
  with 1 show ?case by (auto split: option.splits)
next
  case (3 l c es)
  have wc: "wf_child path l c" using 3 by (simp add: wf_child_def)
  have "k < k'" if kc: "(k, v) \<in> set (entries c)" and ke: "(k', v') \<in> set (entries_edges es)" for k v k' v'
  proof -
    have "prefix (path @ npre c) k"
      using entries_path(1) [OF _ kc] wc by (simp add: wf_child_def)
    then obtain r where k: "k = path @ l # r"
      using wc by (cases "npre c") (auto simp: wf_child_def prefix_def)
    obtain l' c' r' where "(l', c') \<in> set es" "k' = path @ l' # r'"
      using entries_path(2) [of path es k' v'] 3 ke by (fastforce simp: prefix_def)
    moreover from this have "l < l'" using "3.prems"(2) by (force simp: edges_sorted_def)
    ultimately show ?thesis by (simp add: k less_append)
  qed
  moreover have "edges_sorted es" using "3.prems"(2) by (simp add: edges_sorted_def)
  ultimately show ?case using 3 wc by (auto simp: sorted_wrt_append wf_child_def)
qed simp

text \<open>Selecting entries: only the child behind one label can contribute.\<close>

lemma filter_edges:
  assumes "edges_sorted es"
    and "\<And>l c e. (l, c) \<in> set es \<Longrightarrow> l \<noteq> x \<Longrightarrow> e \<in> set (entries c) \<Longrightarrow> \<not> P e"
  shows "filter P (entries_edges es) =
    (case getEdge x es of None \<Rightarrow> [] | Some c \<Rightarrow> filter P (entries c))"
proof -
  have none: "filter P (entries_edges zs) = []" if "set zs \<subseteq> set es" "\<forall>z \<in> set zs. fst z \<noteq> x" for zs
    using assms(2) that by (force simp: filter_empty_conv entries_edges_member)
  show ?thesis
  proof (cases "getEdge x es")
    case None
    then have "\<forall>z \<in> set es. fst z \<noteq> x" using getEdge_sorted [OF assms(1), of x] by force
    then show ?thesis using none [of es] None by simp
  next
    case (Some c)
    obtain as bs where e: "es = as @ (x, c) # bs" using edge_ops_present [OF assms(1) Some] by metis
    have "\<forall>z \<in> set as \<union> set bs. fst z \<noteq> x" using assms(1) by (auto simp: e edges_sorted_mid)
    then have "filter P (entries_edges as) = []" "filter P (entries_edges bs) = []"
      by (intro none; force simp: e)+
    then show ?thesis using Some by (simp add: e)
  qed
qed

lemma entries_child_key:
  assumes "wf_child path l c" "e \<in> set (entries c)"
  obtains r where "fst e = path @ npre c @ r" and "npre c \<noteq> []" and "hd (npre c) = l"
  using assms entries_path(1) [of "path @ npre c" c "fst e" "snd e"]
  by (auto simp: wf_child_def prefix_def)

lemma under_prefix:
  assumes "wf_node path (RNode lf p es)"
  shows "filter (\<lambda>e. prefix (path @ x # xs) (fst e)) (entries (RNode lf p es)) =
    (case getEdge x es of None \<Rightarrow> []
     | Some c \<Rightarrow> filter (\<lambda>e. prefix (path @ x # xs) (fst e)) (entries c))"
proof -
  have "filter (\<lambda>e. prefix (path @ x # xs) (fst e)) (entries_edges es) =
      (case getEdge x es of None \<Rightarrow> []
       | Some c \<Rightarrow> filter (\<lambda>e. prefix (path @ x # xs) (fst e)) (entries c))"
  proof (rule filter_edges)
    fix l c e
    assume "(l, c) \<in> set es" "l \<noteq> x" "e \<in> set (entries c)"
    moreover from this obtain r where "fst e = path @ npre c @ r" "npre c \<noteq> []" "hd (npre c) = l"
      using entries_child_key wf_edges_member assms by (metis wf_node.simps)
    ultimately show "\<not> prefix (path @ x # xs) (fst e)" by (cases "npre c") auto
  qed (use assms in simp)
  then show ?thesis using assms by (auto split: option.splits)
qed

lemma under_child:
  assumes "wf_child path x c"
  shows "prefix pre (npre c) \<Longrightarrow> filter (\<lambda>e. prefix (path @ pre) (fst e)) (entries c) = entries c"
    and "\<not> prefix pre (npre c) \<Longrightarrow> \<not> prefix (npre c) pre \<Longrightarrow>
      filter (\<lambda>e. prefix (path @ pre) (fst e)) (entries c) = []"
proof -
  show "filter (\<lambda>e. prefix (path @ pre) (fst e)) (entries c) = entries c" if "prefix pre (npre c)"
    using that by (auto simp: filter_id_conv prefix_def elim!: entries_child_key [OF assms])
  show "filter (\<lambda>e. prefix (path @ pre) (fst e)) (entries c) = []"
    if "\<not> prefix pre (npre c)" "\<not> prefix (npre c) pre"
    unfolding filter_empty_conv
  proof
    fix e
    assume "e \<in> set (entries c)"
    then obtain r where "fst e = path @ npre c @ r" by (rule entries_child_key [OF assms])
    with that show "\<not> prefix (path @ pre) (fst e)"
      by (metis prefixI prefix_same_cases same_prefix_prefix)
  qed
qed

lemma walk_prefix_at_entries:
  "wf_node path n \<Longrightarrow> walk_prefix_at fn pre n s =
     fst (fold_until fn (filter (\<lambda>e. prefix (path @ pre) (fst e)) (entries n)) s)"
proof (induction fn pre n s arbitrary: path rule: walk_prefix_at.induct)
  case (1 fn pre lf p es s)
  show ?case
  proof (cases pre)
    case Nil
    have "filter (\<lambda>e. prefix path (fst e)) (entries (RNode lf p es)) = entries (RNode lf p es)"
      using entries_path(1) [OF "1.prems"] by (auto simp: filter_id_conv simp del: entries.simps)
    then show ?thesis using Nil by (simp add: recursiveWalk_entries del: entries.simps recursiveWalk.simps)
  next
    case (Cons x xs)
    note u = under_prefix [OF "1.prems", of x xs]
    show ?thesis
    proof (cases "getEdge x es")
      case None
      then show ?thesis using Cons u by (simp del: entries.simps)
    next
      case (Some c)
      have wc: "wf_child path x c"
        using "1.prems" getEdge_sorted [of es x c] Some wf_edges_member by auto
      show ?thesis
      proof (cases "prefix (npre c) pre")
        case True
        then obtain zs where zs: "pre = npre c @ zs" by (auto simp: prefix_def)
        then have "walk_prefix_at fn zs c s =
            fst (fold_until fn (filter (\<lambda>e. prefix (path @ pre) (fst e)) (entries c)) s)"
          using "1.IH" [OF Cons Some True, of "path @ npre c"] wc by (simp add: wf_child_def)
        moreover have "drop (length (npre c)) (x # xs) = zs" using zs Cons by (metis append_eq_conv_conj)
        ultimately show ?thesis using Cons Some True u by (simp del: entries.simps)
      next
        case False
        then show ?thesis
          using Cons Some u under_child [OF wc, of pre] by (auto simp: recursiveWalk_entries simp del: entries.simps)
      qed
    qed
  qed
qed

lemma deletePrefix_count:
  "wf_node path n \<Longrightarrow> deletePrefix is_root pre n = (n', k, here) \<Longrightarrow>
     k = int (length (filter (\<lambda>e. prefix (path @ pre) (fst e)) (entries n)))"
proof (induction is_root pre n arbitrary: path n' k here rule: deletePrefix.induct)
  case (1 is_root pre lf p es)
  show ?case
  proof (cases pre)
    case Nil
    have "filter (\<lambda>e. prefix path (fst e)) (entries (RNode lf p es)) = entries (RNode lf p es)"
      using entries_path(1) [OF "1.prems"(1)] by (auto simp: filter_id_conv simp del: entries.simps)
    then show ?thesis using Nil "1.prems"(2)
      by (auto simp: recursiveWalk_entries fold_until_count simp del: entries.simps recursiveWalk.simps)
  next
    case (Cons x xs)
    note u = under_prefix [OF "1.prems"(1), of x xs]
    show ?thesis
    proof (cases "getEdge x es")
      case None
      then show ?thesis using Cons u "1.prems"(2) by (simp del: entries.simps)
    next
      case (Some c)
      have wc: "wf_child path x c"
        using "1.prems" getEdge_sorted [of es x c] Some wf_edges_member by auto
      show ?thesis
      proof (cases "\<not> prefix pre (npre c) \<and> \<not> prefix (npre c) pre")
        case True
        then show ?thesis using Cons Some u "1.prems"(2) under_child(2) [OF wc, of pre]
          by (simp del: entries.simps)
      next
        case False
        define pre' where "pre' = (if length (npre c) > length pre then drop (length pre) pre
                                  else drop (length (npre c)) pre)"
        obtain c' k' h where d: "deletePrefix False pre' c = (c', k', h)" by (cases "deletePrefix False pre' c")
        have k: "k = k'"
          using "1.prems"(2) Cons Some False d by (auto simp: Let_def pre'_def split: if_splits)
        have "k' = int (length (filter (\<lambda>e. prefix ((path @ npre c) @ pre') (fst e)) (entries c)))"
          using "1.IH" [OF Cons Some False pre'_def _ d, of "path @ npre c"] wc by (simp add: wf_child_def)
        moreover have "filter (\<lambda>e. prefix ((path @ npre c) @ pre') (fst e)) (entries c) =
            filter (\<lambda>e. prefix (path @ pre) (fst e)) (entries c)"
        proof (cases "prefix (npre c) pre")
          case True
          then show ?thesis by (auto simp: prefix_def pre'_def)
        next
          case nc: False
          then have "prefix pre (npre c)" "length pre < length (npre c)"
            using False prefix_length_le by (auto simp: prefix_def)
          then show ?thesis
            using under_child(1) [OF wc, of pre] under_child(1) [OF wc, of "npre c"] by (simp add: pre'_def)
        qed
        ultimately show ?thesis using k Cons Some u by (simp del: entries.simps)
      qed
    qed
  qed
qed

text \<open>The entries whose keys lie above a path, from the shortest to the longest.\<close>

lemma above_path:
  assumes "wf_node path (RNode lf p es)"
  shows "filter (\<lambda>e. prefix (fst e) (path @ search)) (entries (RNode lf p es)) =
    (case lf of None \<Rightarrow> [] | Some e \<Rightarrow> [e]) @
    (case search of [] \<Rightarrow> []
     | x # _ \<Rightarrow> (case getEdge x es of None \<Rightarrow> []
         | Some c \<Rightarrow> if prefix (npre c) search
                    then filter (\<lambda>e. prefix (fst e) ((path @ npre c) @ drop (length (npre c)) search)) (entries c)
                    else []))"
proof -
  let ?P = "\<lambda>e. prefix (fst e) (path @ search)"
  have key: "\<exists>r. fst e = path @ npre c @ r \<and> npre c \<noteq> [] \<and> hd (npre c) = l"
    if "(l, c) \<in> set es" "e \<in> set (entries c)" for l c e
    using that entries_child_key wf_edges_member assms by (metis wf_node.simps)
  have edges: "filter ?P (entries_edges es) =
      (case search of [] \<Rightarrow> []
       | x # _ \<Rightarrow> (case getEdge x es of None \<Rightarrow> [] | Some c \<Rightarrow> filter ?P (entries c)))"
  proof (cases search)
    case Nil
    then show ?thesis using key by (fastforce simp: filter_empty_conv entries_edges_member prefix_def)
  next
    case (Cons x xs)
    have "filter ?P (entries_edges es) =
        (case getEdge x es of None \<Rightarrow> [] | Some c \<Rightarrow> filter ?P (entries c))"
    proof (rule filter_edges)
      fix l c e
      assume "(l, c) \<in> set es" "l \<noteq> x" "e \<in> set (entries c)"
      then show "\<not> ?P e" using key Cons by (fastforce simp: prefix_def neq_Nil_conv)
    qed (use assms in simp)
    then show ?thesis by (simp add: Cons)
  qed
  have child: "filter ?P (entries c) =
      (if prefix (npre c) search
       then filter (\<lambda>e. prefix (fst e) ((path @ npre c) @ drop (length (npre c)) search)) (entries c)
       else [])" if "(x, c) \<in> set es" for x c
  proof (cases "prefix (npre c) search")
    case True
    then show ?thesis by (auto simp: prefix_def)
  next
    case False
    have "\<not> ?P e" if ec: "e \<in> set (entries c)" for e
    proof -
      obtain r where "fst e = path @ npre c @ r" using key [OF \<open>(x, c) \<in> set es\<close> ec] by auto
      then show ?thesis using False by (auto dest: append_prefixD)
    qed
    with False show ?thesis by (auto simp: filter_empty_conv)
  qed
  have "filter ?P (case lf of None \<Rightarrow> [] | Some e \<Rightarrow> [e]) = (case lf of None \<Rightarrow> [] | Some e \<Rightarrow> [e])"
    using assms by (auto split: option.splits)
  then show ?thesis
  proof (cases search)
    case (Cons x xs)
    show ?thesis
    proof (cases "getEdge x es")
      case (Some c)
      note ch = child [OF getEdge_member [OF Some]]
      show ?thesis
        using \<open>filter ?P (case lf of None \<Rightarrow> [] | Some e \<Rightarrow> [e]) = _\<close>
        by (simp only: entries.simps filter_append edges [unfolded Cons] Cons Some list.case
            option.case ch [unfolded Cons])
    qed (use \<open>filter ?P (case lf of None \<Rightarrow> [] | Some e \<Rightarrow> [e]) = _\<close> edges Cons in simp)
  qed (use edges in simp)
qed

lemma walk_path_at_entries:
  "wf_node path n \<Longrightarrow> walk_path_at fn search n s =
     fst (fold_until fn (filter (\<lambda>e. prefix (fst e) (path @ search)) (entries n)) s)"
proof (induction fn search n s arbitrary: path rule: walk_path_at.induct)
  case (1 fn search lf p es s)
  have wc: "wf_node (path @ npre c) c" if "getEdge x es = Some c" for x c
    using "1.prems" getEdge_sorted [of es x c] that wf_edges_member [of path es x c]
    by (auto simp: wf_child_def)
  obtain s' b where v: "visit_leaf fn lf s = (s', b)" by fastforce
  have f: "fold_until fn (case lf of None \<Rightarrow> [] | Some e \<Rightarrow> [e]) s = (s', b)"
    using v by (auto simp: visit_leaf_def split: option.splits prod.splits)
  have "walk_path_at fn (drop (length (npre c)) search) c s' = fst (fold_until fn
      (filter (\<lambda>e. prefix (fst e) ((path @ npre c) @ drop (length (npre c)) search)) (entries c)) s')"
    if "\<not> b" "search = x # xs" "getEdge x es = Some c" "prefix (npre c) search" for x xs c
    using 1(1) [OF v [symmetric] _ that(2-4) wc] that by simp
  then show ?case
    unfolding above_path [OF "1.prems"] fold_until_append f
    by (cases b) (auto simp: v split: list.splits option.splits)
qed

lemma longest_at_entries:
  "wf_node path n \<Longrightarrow> longest_at prior search n =
     last_or prior (filter (\<lambda>e. prefix (fst e) (path @ search)) (entries n))"
proof (induction prior search n arbitrary: path rule: longest_at.induct)
  case (1 prior search lf p es)
  have wc: "wf_node (path @ npre c) c" if "getEdge x es = Some c" for x c
    using "1.prems" getEdge_sorted [of es x c] that wf_edges_member [of path es x c]
    by (auto simp: wf_child_def)
  have l: "last_or prior (case lf of None \<Rightarrow> [] | Some e \<Rightarrow> [e]) = (if lf \<noteq> None then lf else prior)"
    by (auto split: option.splits)
  have "longest_at (if lf \<noteq> None then lf else prior) (drop (length (npre c)) search) c =
      last_or (if lf \<noteq> None then lf else prior)
      (filter (\<lambda>e. prefix (fst e) ((path @ npre c) @ drop (length (npre c)) search)) (entries c))"
    if "search = x # xs" "getEdge x es = Some c" "prefix (npre c) search" for x xs c
    using 1(1) [OF refl that wc] that by simp
  then show ?case
    unfolding above_path [OF "1.prems"] last_or_append l
    by (auto simp: Let_def split: list.splits option.splits)
qed

section \<open>Minimum and maximum\<close>

lemma minimum_compact:
  "compact n \<Longrightarrow> minimum_at n = hd_or (entries n) None \<and> (branching n \<longrightarrow> entries n \<noteq> [])"
proof (induction n rule: minimum_at.induct)
  case (3 p l c es)
  then show ?case by (cases "entries c") (auto simp: branching_def isLeaf_def)
qed (auto simp: branching_def isLeaf_def)

lemma entries_ne: "compact n \<Longrightarrow> branching n \<Longrightarrow> entries n \<noteq> []"
  using minimum_compact by blast

lemma maximum_compact:
  fixes n :: "'a node" and es :: "'a edges"
  shows "compact n \<Longrightarrow> maximum_at n = last_or None (entries n)"
  "compact_edges es \<Longrightarrow> maximum_edges es = last_or None (entries_edges es)
     \<and> (es \<noteq> [] \<longrightarrow> entries_edges es \<noteq> [])"
proof (induction n and es rule: maximum_at_maximum_edges.induct)
  case (1 lf p es)
  then show ?case
    by (cases "entries_edges es" rule: rev_cases) (auto split: option.splits)
next
  case (3 l c es)
  then show ?case
    using entries_ne [of c] by (cases "entries_edges es" rule: rev_cases) auto
qed simp

section \<open>Trees as maps\<close>

definition tree_inv :: "'a Tree \<Rightarrow> bool" where
  "tree_inv t \<longleftrightarrow> npre (root t) = [] \<and> wf_node [] (root t) \<and> tsize t = int (length (entries (root t)))"

definition tree_map :: "'a Tree \<Rightarrow> string \<rightharpoonup> 'a" where
  "tree_map t = (\<lambda>k. Get k t)"

lemma tree_map_entries: "tree_inv t \<Longrightarrow> (k, v) \<in> set (entries (root t)) \<longleftrightarrow> tree_map t k = Some v"
  by (auto simp: tree_inv_def tree_map_def Get_def entries_get)

lemma entries_distinct: "wf_node path n \<Longrightarrow> distinct (map fst (entries n))"
  using entries_sorted(1) [of path n] strict_sorted_iff by blast

lemma tree_map_of: "tree_inv t \<Longrightarrow> tree_map t = map_of (entries (root t))"
  by (rule ext) (metis (no_types, lifting) tree_map_entries entries_distinct map_of_eq_Some_iff
      not_Some_eq tree_inv_def)

lemma keys_entries: "wf_node [] n \<Longrightarrow> {k. get_at k n \<noteq> None} = fst ` set (entries n)"
  using entries_get [of "[]" n] by (force simp: image_iff)

lemma size_card: "wf_node [] n \<Longrightarrow> length (entries n) = card {k. get_at k n \<noteq> None}"
  by (metis keys_entries distinct_card entries_distinct length_map list.set_map)

lemma finite_keys: "wf_node [] n \<Longrightarrow> finite {k. get_at k n \<noteq> None}"
  by (subst keys_entries) auto

lemma new_tree: "tree_inv newTree" "tree_map newTree = Map.empty" "compact (root newTree)"
  by (auto simp: tree_inv_def newTree_def edges_sorted_def tree_map_def Get_def fun_eq_iff
      get_at.simps getEdge_def split: list.splits)

lemma Insert_tree:
  assumes "tree_inv t"
  obtains t' where "Insert s v t = Ret (tree_map t s, t')" and "tree_inv t'"
    and "tree_map t' = (tree_map t)(s \<mapsto> v)" and "compact (root t) \<Longrightarrow> compact (root t')"
proof -
  have w: "wf_node [] (root t)" and p: "npre (root t) = []" using assms by (auto simp: tree_inv_def)
  obtain n' where n': "insert_at s v s (root t) = Ret (n', get_at s (root t))" "wf_node [] n'"
    "npre n' = npre (root t)" "\<forall>q. get_at q n' = (if q = s then Some v else get_at q (root t))"
    "compact (root t) \<longrightarrow> compact n'"
    using insert_at_correct [OF w, of s s v] by auto
  have "{k. get_at k n' \<noteq> None} = insert s {k. get_at k (root t) \<noteq> None}" using n'(4) by auto
  then have "length (entries n') = (if get_at s (root t) = None then 1 else 0) + length (entries (root t))"
    using size_card [OF w] size_card [OF n'(2)] finite_keys [OF w] by (auto simp: card_insert_if)
  then show ?thesis
    using assms n' p
    by (intro that [of "\<lparr>root = n', tsize = (if get_at s (root t) = None then tsize t + 1 else tsize t)\<rparr>"])
      (auto simp: Insert_def tree_inv_def tree_map_def Get_def fun_eq_iff)
qed

lemma replaces_root:
  assumes "replaces [] True gone n n'" "npre n = []"
  shows "wf_node [] n'" "npre n' = []" "get_at k n' = (if gone k then None else get_at k n)"
  using assms child_get_append [of n' k] child_get_append [of n k]
  by (auto simp: replaces_def)

lemma Delete_tree:
  assumes "tree_inv t"
  shows "fst (Delete s t) = tree_map t s" and "tree_inv (snd (Delete s t))"
    and "tree_map (snd (Delete s t)) = (tree_map t)(s := None)"
    and "compact (root t) \<Longrightarrow> compact (root (snd (Delete s t)))"
proof -
  have w: "wf_node ([] @ npre (root t)) (root t)" and p: "npre (root t) = []"
    using assms by (auto simp: tree_inv_def)
  note d = delete_at_correct [OF w, where is_root = True and search = s]
  have "fst (Delete s t) = tree_map t s \<and> tree_inv (snd (Delete s t))
    \<and> tree_map (snd (Delete s t)) = (tree_map t)(s := None)"
  proof (cases "delete_at True s (root t)")
    case None
    with d assms show ?thesis by (auto simp: Delete_def tree_map_def Get_def fun_eq_iff)
  next
    case (Some x)
    then obtain n' v h where x: "delete_at True s (root t) = Some (n', v, h)" by (cases x) auto
    have g: "get_at s (root t) = Some v" and rep: "replaces [] True (\<lambda>z. z = s) (root t) n'"
      using d x p by auto
    note rr = replaces_root [OF rep p]
    have "{k. get_at k n' \<noteq> None} = {k. get_at k (root t) \<noteq> None} - {s}" using rr(3) by auto
    then have "int (length (entries n')) = int (length (entries (root t))) - 1"
      using size_card [of "root t"] size_card [OF rr(1)] finite_keys [of "root t"] w p g
      by (simp add: card_Diff_singleton_if of_nat_diff card_gt_0_iff Suc_le_eq)
        (metis (mono_tags, lifting) One_nat_def Suc_leI card_gt_0_iff empty_iff mem_Collect_eq
          of_nat_1 of_nat_diff option.distinct(1))
    then show ?thesis
      using x g rr assms by (auto simp: Delete_def tree_inv_def tree_map_def Get_def fun_eq_iff)
  qed
  then show "fst (Delete s t) = tree_map t s" "tree_inv (snd (Delete s t))"
    "tree_map (snd (Delete s t)) = (tree_map t)(s := None)" by auto
  show "compact (root (snd (Delete s t)))" if "compact (root t)"
    using delete_at_compact [OF w that] that
    by (auto simp: Delete_def split: option.splits)
qed

lemma DeletePrefix_tree:
  assumes "tree_inv t"
  shows "fst (DeletePrefix s t) = int (card {k \<in> dom (tree_map t). prefix s k})"
    and "tree_inv (snd (DeletePrefix s t))"
    and "tree_map (snd (DeletePrefix s t)) = tree_map t |` {k. \<not> prefix s k}"
proof -
  have w: "wf_node ([] @ npre (root t)) (root t)" "wf_node [] (root t)" and p: "npre (root t) = []"
    using assms by (auto simp: tree_inv_def)
  obtain n' k h where x: "deletePrefix True s (root t) = (n', k, h)"
    by (cases "deletePrefix True s (root t)")
  have "replaces [] True (prefix s) (root t) n'"
    using deletePrefix_correct [OF w(1) x] p by simp
  note rr = replaces_root [OF this p]
  let ?all = "{k. get_at k (root t) \<noteq> None}" and ?sub = "{k \<in> dom (tree_map t). prefix s k}"
  have fs: "?sub = fst ` set (filter (\<lambda>e. prefix s (fst e)) (entries (root t)))"
    using tree_map_entries [OF assms] by (force simp: dom_def image_iff)
  have "k = int (length (filter (\<lambda>e. prefix s (fst e)) (entries (root t))))"
    using deletePrefix_count [OF w(2) x] by simp
  moreover have "distinct (map fst (filter (\<lambda>e. prefix s (fst e)) (entries (root t))))"
    using entries_distinct [OF w(2)] by (simp add: distinct_map_filter)
  ultimately have k: "k = int (card ?sub)" using distinct_card fs by (metis length_map list.set_map)
  have "{k. get_at k n' \<noteq> None} = ?all - ?sub"
    using rr(3) by (auto simp: dom_def tree_map_def Get_def)
  moreover have "?sub \<subseteq> ?all" by (auto simp: dom_def tree_map_def Get_def)
  ultimately have "int (length (entries n')) = int (length (entries (root t))) - k"
    using size_card [OF w(2)] size_card [OF rr(1)] finite_keys [OF w(2)] k
    by (simp add: card_Diff_subset finite_subset card_mono of_nat_diff)
  then show "tree_inv (snd (DeletePrefix s t))"
    "tree_map (snd (DeletePrefix s t)) = tree_map t |` {k. \<not> prefix s k}"
    using x rr assms
    by (auto simp: DeletePrefix_def tree_inv_def tree_map_def Get_def fun_eq_iff restrict_map_def)
  show "fst (DeletePrefix s t) = int (card ?sub)" using x k by (simp add: DeletePrefix_def)
qed

section \<open>The interface of a keyed store\<close>

text \<open>
  What a client of the index may rely on: insertions never panic and report the previous value,
  deletions report the removed value, and lookups see a finite map.
\<close>

locale key_map =
  fixes inv :: "'t \<Rightarrow> bool"
    and lookup :: "'t \<Rightarrow> 'k \<rightharpoonup> 'v"
    and empty :: 't
    and insert :: "'k \<Rightarrow> 'v \<Rightarrow> 't \<Rightarrow> ('v option \<times> 't) outcome"
    and delete :: "'k \<Rightarrow> 't \<Rightarrow> 'v option \<times> 't"
  assumes empty_inv: "inv empty" and empty_map: "lookup empty = Map.empty"
    and insert_ok: "inv t \<Longrightarrow>
      \<exists>t'. insert k v t = Ret (lookup t k, t') \<and> inv t' \<and> lookup t' = (lookup t)(k \<mapsto> v)"
    and delete_value: "inv t \<Longrightarrow> fst (delete k t) = lookup t k"
    and delete_inv: "inv t \<Longrightarrow> inv (snd (delete k t))"
    and delete_map: "inv t \<Longrightarrow> lookup (snd (delete k t)) = (lookup t)(k := None)"
begin

lemma insert_delete_fresh:
  assumes "inv t" "lookup t k = None" "insert k v t = Ret (old, t')"
  shows "old = None" and "fst (delete k t') = Some v" and "lookup (snd (delete k t')) = lookup t"
  using insert_ok [OF assms(1), of k v] assms by (auto simp: delete_value delete_map fun_upd_idem)

end

text \<open>A store whose keys can also be removed by prefix, reporting how many were removed.\<close>

datatype ('k, 'v) map_op = OpInsert 'k 'v | OpDelete 'k | OpDeletePrefix 'k

fun spec_step :: "(string, 'v) map_op \<Rightarrow> (string \<rightharpoonup> 'v) \<Rightarrow> (int + 'v option) \<times> (string \<rightharpoonup> 'v)" where
  "spec_step (OpInsert k v) m = (Inr (m k), m(k \<mapsto> v))"
| "spec_step (OpDelete k) m = (Inr (m k), m(k := None))"
| "spec_step (OpDeletePrefix k) m =
     (Inl (int (card {x \<in> dom m. prefix k x})), m |` {x. \<not> prefix k x})"

fun spec_steps :: "(string, 'v) map_op list \<Rightarrow> (string \<rightharpoonup> 'v)
    \<Rightarrow> (int + 'v option) list \<times> (string \<rightharpoonup> 'v)" where
  "spec_steps [] m = ([], m)"
| "spec_steps (c # cs) m =
     (case spec_step c m of (r, m') \<Rightarrow> case spec_steps cs m' of (rs, m'') \<Rightarrow> (r # rs, m''))"

fun run_step :: "(string \<Rightarrow> 'v \<Rightarrow> 't \<Rightarrow> ('v option \<times> 't) outcome) \<Rightarrow> (string \<Rightarrow> 't \<Rightarrow> 'v option \<times> 't)
    \<Rightarrow> (string \<Rightarrow> 't \<Rightarrow> int \<times> 't) \<Rightarrow> (string, 'v) map_op \<Rightarrow> 't \<Rightarrow> ((int + 'v option) \<times> 't) outcome" where
  "run_step ins del delp (OpInsert k v) t =
     (case ins k v t of Panic \<Rightarrow> Panic | Ret (old, t') \<Rightarrow> Ret (Inr old, t'))"
| "run_step ins del delp (OpDelete k) t = (case del k t of (old, t') \<Rightarrow> Ret (Inr old, t'))"
| "run_step ins del delp (OpDeletePrefix k) t = (case delp k t of (n, t') \<Rightarrow> Ret (Inl n, t'))"

fun run_steps :: "(string \<Rightarrow> 'v \<Rightarrow> 't \<Rightarrow> ('v option \<times> 't) outcome) \<Rightarrow> (string \<Rightarrow> 't \<Rightarrow> 'v option \<times> 't)
    \<Rightarrow> (string \<Rightarrow> 't \<Rightarrow> int \<times> 't) \<Rightarrow> (string, 'v) map_op list \<Rightarrow> 't
    \<Rightarrow> ((int + 'v option) list \<times> 't) outcome" where
  "run_steps ins del delp [] t = Ret ([], t)"
| "run_steps ins del delp (c # cs) t =
     (case run_step ins del delp c t of
        Panic \<Rightarrow> Panic
      | Ret (r, t') \<Rightarrow>
          (case run_steps ins del delp cs t' of Panic \<Rightarrow> Panic | Ret (rs, t'') \<Rightarrow> Ret (r # rs, t'')))"

locale prefix_map = key_map inv lookup empty insert delete
  for inv :: "'t \<Rightarrow> bool" and lookup :: "'t \<Rightarrow> string \<rightharpoonup> 'v" and empty insert delete +
  fixes delete_prefix :: "string \<Rightarrow> 't \<Rightarrow> int \<times> 't"
  assumes delete_prefix_count: "inv t \<Longrightarrow>
      fst (delete_prefix p t) = int (card {k \<in> dom (lookup t). prefix p k})"
    and delete_prefix_inv: "inv t \<Longrightarrow> inv (snd (delete_prefix p t))"
    and delete_prefix_map: "inv t \<Longrightarrow>
      lookup (snd (delete_prefix p t)) = lookup t |` {k. \<not> prefix p k}"
begin

lemma step_refines: "inv t \<Longrightarrow> \<exists>t'. run_step insert delete delete_prefix c t
    = Ret (fst (spec_step c (lookup t)), t') \<and> inv t' \<and> lookup t' = snd (spec_step c (lookup t))"
proof (cases c)
  case (OpInsert k v)
  assume "inv t"
  with insert_ok [of t k v] OpInsert show ?thesis by auto
next
  case (OpDelete k)
  assume "inv t"
  with OpDelete delete_value [of t k] delete_inv [of t k] delete_map [of t k] show ?thesis
    by (cases "delete k t") auto
next
  case (OpDeletePrefix p)
  assume "inv t"
  with OpDeletePrefix delete_prefix_count [of t p] delete_prefix_inv [of t p]
    delete_prefix_map [of t p] show ?thesis
    by (cases "delete_prefix p t") auto
qed

lemma run_refines: "inv t \<Longrightarrow> \<exists>t'. run_steps insert delete delete_prefix cs t
    = Ret (fst (spec_steps cs (lookup t)), t') \<and> inv t' \<and> lookup t' = snd (spec_steps cs (lookup t))"
proof (induction cs arbitrary: t)
  case (Cons c cs)
  obtain t' where "run_step insert delete delete_prefix c t = Ret (fst (spec_step c (lookup t)), t')"
    "inv t'" "lookup t' = snd (spec_step c (lookup t))"
    using step_refines [OF Cons.prems] by blast
  with Cons.IH [of t'] show ?case by (auto split: prod.splits)
qed simp

end

interpretation radix: prefix_map tree_inv tree_map newTree Insert Delete DeletePrefix
proof (unfold_locales, goal_cases)
  case (3 t k v)
  then show ?case by (metis Insert_tree)
qed (simp_all add: new_tree Delete_tree DeletePrefix_tree)

section \<open>Properties\<close>

abbreviation run_radix :: "(string, 'v) map_op list \<Rightarrow> ((int + 'v option) list \<times> 'v Tree) outcome" where
  "run_radix cs \<equiv> run_steps Insert Delete DeletePrefix cs newTree"

lemma dom_entries: "tree_inv t \<Longrightarrow> card (dom (tree_map t)) = length (entries (root t))"
  using size_card [of "root t"] by (simp add: tree_inv_def tree_map_def Get_def dom_def)

lemma Len_card: "tree_inv t \<Longrightarrow> Len t = int (card (dom (tree_map t)))"
  by (simp add: dom_entries) (simp add: Len_def tree_inv_def)

text \<open>
  C4. The radix tree is a map from strings. Every sequence of Insert, Delete and DeletePrefix calls
  on a new tree runs without a panic, every call returns what the map semantics gives (the previous
  value, the removed value, the number of removed keys), Get agrees with the map on every key, and
  Len is the number of keys.
\<close>

theorem radix_refines_map:
  "\<exists>t. run_radix cs = Ret (fst (spec_steps cs Map.empty), t)
     \<and> (\<forall>k. Get k t = snd (spec_steps cs Map.empty) k)
     \<and> Len t = int (card (dom (snd (spec_steps cs Map.empty))))"
proof -
  obtain t where t: "run_radix cs = Ret (fst (spec_steps cs Map.empty), t)" "tree_inv t"
    "tree_map t = snd (spec_steps cs Map.empty)"
    using radix.run_refines [OF radix.empty_inv, of cs] by (auto simp: new_tree(2))
  with Len_card [OF t(2)] show ?thesis by (auto simp: tree_map_def fun_eq_iff)
qed

text \<open>
  C5. A tree filled from a Go map, whatever the iteration order, returns that map from ToMap, counts
  its keys, and Walk passes the pairs to its callback in the lexicographic order of the keys until
  the callback stops it.
\<close>

theorem radix_roundtrip:
  assumes "distinct (map fst m)"
  shows "\<exists>t es. NewFromMap m = Ret t \<and> ToMap t = map_of m \<and> Len t = int (length m)
    \<and> sorted_wrt (<) (map fst es) \<and> set es = set m
    \<and> (\<forall>(fn :: ('v, 's) walk_fn) s. Walk fn t s = fst (fold_until fn es s))"
proof -
  have "\<exists>t. NewFromMap m = Ret t \<and> tree_inv t \<and> tree_map t = map_of m"
    using assms
  proof (induction m)
    case (Cons kv m)
    then obtain t where t: "NewFromMap m = Ret t" "tree_inv t" "tree_map t = map_of m" by auto
    obtain t' where "Insert (fst kv) (snd kv) t = Ret (tree_map t (fst kv), t')" "tree_inv t'"
      "tree_map t' = (tree_map t)(fst kv \<mapsto> snd kv)"
      using Insert_tree [OF t(2)] .
    with t show ?case by (cases kv) auto
  qed (simp add: new_tree)
  then obtain t where t: "NewFromMap m = Ret t" "tree_inv t" "tree_map t = map_of m" by auto
  let ?es = "entries (root t)"
  have w: "wf_node [] (root t)" using t(2) by (simp add: tree_inv_def)
  have es: "set ?es = set m"
    using tree_map_entries [OF t(2)] t(3) assms by (auto simp: map_of_eq_Some_iff)
  have "ToMap t = map_of ?es"
    using entries_distinct [OF w]
    by (simp add: ToMap_def Walk_def recursiveWalk_entries fold_until_map)
      (metis distinct_rev map_of_inject_set rev_map set_rev)
  then have "ToMap t = map_of m" using tree_map_of [OF t(2)] t(3) by simp
  moreover have "length ?es = length m"
    using es entries_distinct [OF w] assms by (metis distinct_card distinct_map)
  ultimately show ?thesis
    using t w es entries_sorted(1) [OF w]
    by (intro exI [of _ t] exI [of _ ?es])
      (auto simp: Len_def tree_inv_def Walk_def recursiveWalk_entries)
qed

definition sample_pairs :: "(string \<times> nat) list" where
  "sample_pairs = [(''foobar'', 1), (''foo'', 2), (''zip'', 3)]"

theorem radix_roundtrip_witness:
  "\<exists>t. NewFromMap sample_pairs = Ret t \<and> Len t = 3 \<and> ToMap t ''foo'' = Some 2"
proof -
  have "distinct (map fst sample_pairs)" by (simp add: sample_pairs_def)
  from radix_roundtrip [OF this]
  obtain t where "NewFromMap sample_pairs = Ret t" "ToMap t = map_of sample_pairs"
    "Len t = int (length sample_pairs)" by blast
  then show ?thesis by (intro exI [of _ t]) (simp add: sample_pairs_def)
qed

text \<open>
  LongestPrefix returns the stored pair whose key is the longest stored prefix of the argument,
  and nothing exactly when no stored key is a prefix of it.
\<close>

theorem LongestPrefix_longest:
  assumes "tree_inv t"
  shows "(LongestPrefix s t = Some (k, v) \<longleftrightarrow> Get k t = Some v \<and> prefix k s
      \<and> (\<forall>k'. Get k' t \<noteq> None \<and> prefix k' s \<longrightarrow> length k' \<le> length k))
    \<and> (LongestPrefix s t = None \<longleftrightarrow> (\<forall>k'. prefix k' s \<longrightarrow> Get k' t = None))"
proof -
  let ?es = "filter (\<lambda>e. prefix (fst e) s) (entries (root t))"
  have w: "wf_node [] (root t)" using assms by (simp add: tree_inv_def)
  have L: "LongestPrefix s t = last_or None ?es"
    using longest_at_entries [OF w] by (simp add: LongestPrefix_def)
  have mem: "e \<in> set ?es \<longleftrightarrow> Get (fst e) t = Some (snd e) \<and> prefix (fst e) s" for e
    using tree_map_entries [OF assms, of "fst e" "snd e"] by (auto simp: tree_map_def)
  have "sorted_wrt (<) (map fst ?es)"
    using entries_sorted(1) [OF w] sorted_wrt_filter by (fastforce simp: sorted_wrt_map)
  show ?thesis
  proof (cases ?es rule: rev_cases)
    case Nil
    then show ?thesis using L mem by (force simp: filter_empty_conv)
  next
    case (snoc as e)
    have last: "length (fst x) \<le> length (fst e)" if "x \<in> set ?es" for x
    proof -
      have "x = e \<or> fst x < fst e"
        using that \<open>sorted_wrt (<) (map fst ?es)\<close> unfolding snoc by (auto simp: sorted_wrt_append)
      moreover have "prefix (fst x) (fst e) \<or> prefix (fst e) (fst x)"
        using that mem [of x] mem [of e] snoc by (metis in_set_conv_decomp prefix_same_cases)
      ultimately show ?thesis
        using prefix_length_le less_append [of "fst e" _ "[]"] by (fastforce simp: prefix_def)
    qed
    have e: "Get (fst e) t = Some (snd e)" "prefix (fst e) s" using mem [of e] snoc by auto
    have uniq: "k = fst e" if "prefix k s" "length k = length (fst e)" for k
      using that e(2) by (metis append_eq_append_conv prefix_def)
    have get: "length k \<le> length (fst e)" if "Get k t \<noteq> None" "prefix k s" for k
      using that last mem by (metis fst_conv not_Some_eq snd_conv)
    have "LongestPrefix s t = Some e" using L snoc by simp
    then show ?thesis
      using e get uniq by (cases e) (auto; metis le_antisym option.discI option.inject)
  qed
qed

text \<open>A tree for the witnesses below.\<close>

definition sample_tree :: "nat Tree" where
  "sample_tree = \<lparr>root = RNode None [] [(CHR ''f'', RNode (Some (''foo'', 2)) ''foo''
      [(CHR ''b'', RNode (Some (''foobar'', 1)) ''bar'' [])]), (CHR ''z'', RNode (Some (''zip'', 3)) ''zip'' [])],
      tsize = 3\<rparr>"

lemma sample_tree_inv: "tree_inv sample_tree" "compact (root sample_tree)"
  by (simp_all add: tree_inv_def sample_tree_def edges_sorted_def branching_def isLeaf_def)

lemma sample_tree_entries: "entries (root sample_tree) = [(''foo'', 2), (''foobar'', 1), (''zip'', 3)]"
  by (simp add: sample_tree_def)

theorem LongestPrefix_longest_witness: "LongestPrefix ''foobaz'' sample_tree = Some (''foo'', 2)"
proof -
  have "tree_map sample_tree = map_of [(''foo'', 2), (''foobar'', 1), (''zip'', 3)]"
    using tree_map_of [OF sample_tree_inv(1)] by (simp add: sample_tree_entries)
  then have "Get k sample_tree = map_of [(''foo'', 2), (''foobar'', 1), (''zip'', 3)] k" for k
    by (metis tree_map_def)
  then show ?thesis
    using LongestPrefix_longest [OF sample_tree_inv(1), of "''foobaz''" "''foo''" 2] by auto
qed

text \<open>
  WalkPrefix passes to its callback exactly the stored pairs whose key starts with the prefix, in
  the order of the keys, and WalkPath exactly those whose key is a prefix of the path, shortest
  first; both stop when the callback asks for it.
\<close>

theorem walks_select_entries:
  assumes "tree_inv t"
  shows "\<exists>es. sorted_wrt (<) (map fst es) \<and> (\<forall>k v. (k, v) \<in> set es \<longleftrightarrow> Get k t = Some v)
    \<and> (\<forall>pre (fn :: ('v, 's) walk_fn) s. WalkPrefix pre fn t s = fst (fold_until fn (filter (\<lambda>e. prefix pre (fst e)) es) s))
    \<and> (\<forall>path (fn :: ('v, 's) walk_fn) s. WalkPath path fn t s = fst (fold_until fn (filter (\<lambda>e. prefix (fst e) path) es) s))"
proof -
  have w: "wf_node [] (root t)" using assms by (simp add: tree_inv_def)
  show ?thesis
    using entries_sorted(1) [OF w] tree_map_entries [OF assms]
      walk_prefix_at_entries [OF w] walk_path_at_entries [OF w]
    by (intro exI [of _ "entries (root t)"]) (auto simp: tree_map_def WalkPrefix_def WalkPath_def)
qed

theorem walks_select_entries_witness:
  "\<exists>es. set es = {(''foo'', 2), (''foobar'', 1), (''zip'', 3)}
     \<and> WalkPrefix ''fo'' (\<lambda>k v s. (s @ [v], False)) sample_tree []
         = fst (fold_until (\<lambda>k v s. (s @ [v], False)) (filter (\<lambda>e. prefix ''fo'' (fst e)) es) [])"
proof -
  obtain es where es: "\<forall>k v. (k, v) \<in> set es \<longleftrightarrow> Get k sample_tree = Some v"
    "\<forall>pre (fn :: (nat, nat list) walk_fn) s. WalkPrefix pre fn sample_tree s =
        fst (fold_until fn (filter (\<lambda>e. prefix pre (fst e)) es) s)"
    using walks_select_entries [OF sample_tree_inv(1)] by blast
  have "(k, v) \<in> set es \<longleftrightarrow> (k, v) \<in> set [(''foo'', 2), (''foobar'', 1), (''zip'', 3)]" for k v
    using es(1) tree_map_entries [OF sample_tree_inv(1), of k v]
    by (simp add: tree_map_def sample_tree_entries)
  then have "set es = set [(''foo'', 2), (''foobar'', 1), (''zip'', 3)]" by (auto simp: set_eq_iff)
  with es(2) show ?thesis by (intro exI [of _ es]) simp
qed

text \<open>
  In a compact tree, which Insert and Delete keep, Minimum and Maximum return the first and the
  last pair in the order of the keys, and nothing only for the empty tree.
\<close>

theorem minimum_maximum_correct:
  assumes "tree_inv t" and "compact (root t)"
  shows "(\<exists>t'. Insert s v t = Ret (Get s t, t') \<and> tree_inv t' \<and> compact (root t'))
    \<and> compact (root (snd (Delete s t)))
    \<and> (Minimum t = Some (k, x) \<longleftrightarrow> Get k t = Some x \<and> (\<forall>k'. Get k' t \<noteq> None \<longrightarrow> k \<le> k'))
    \<and> (Maximum t = Some (k, x) \<longleftrightarrow> Get k t = Some x \<and> (\<forall>k'. Get k' t \<noteq> None \<longrightarrow> k' \<le> k))"
proof -
  have w: "wf_node [] (root t)" using assms by (simp add: tree_inv_def)
  let ?es = "entries (root t)"
  have mem: "(a, b) \<in> set ?es \<longleftrightarrow> Get a t = Some b" for a b
    using tree_map_entries [OF assms(1)] by (simp add: tree_map_def)
  have srt: "sorted_wrt (<) (map fst ?es)" using entries_sorted(1) [OF w] .
  have some: "Get a t \<noteq> None \<longleftrightarrow> a \<in> fst ` set ?es" for a using mem by (force simp: image_iff)
  have "Minimum t = Some (k, x) \<longleftrightarrow> Get k t = Some x \<and> (\<forall>k'. Get k' t \<noteq> None \<longrightarrow> k \<le> k')"
  proof (cases ?es)
    case Nil
    then show ?thesis using minimum_compact [OF assms(2)] mem by (auto simp: Minimum_def)
  next
    case (Cons e rest)
    have "Minimum t = Some e" using minimum_compact [OF assms(2)] Cons by (simp add: Minimum_def)
    moreover have "\<forall>k'. Get k' t \<noteq> None \<longrightarrow> fst e \<le> k'" "Get (fst e) t = Some (snd e)"
      using srt some mem [of "fst e" "snd e"] Cons by (auto simp: less_le)
    ultimately show ?thesis by (cases e) (auto; metis antisym option.inject)
  qed
  moreover have "Maximum t = Some (k, x) \<longleftrightarrow> Get k t = Some x \<and> (\<forall>k'. Get k' t \<noteq> None \<longrightarrow> k' \<le> k)"
  proof (cases ?es rule: rev_cases)
    case Nil
    then show ?thesis using maximum_compact(1) [OF assms(2)] mem by (auto simp: Maximum_def)
  next
    case (snoc rest e)
    have "Maximum t = Some e" using maximum_compact(1) [OF assms(2)] snoc by (simp add: Maximum_def)
    moreover have "\<forall>k'. Get k' t \<noteq> None \<longrightarrow> k' \<le> fst e" "Get (fst e) t = Some (snd e)"
      using srt some mem [of "fst e" "snd e"] snoc by (auto simp: less_le sorted_wrt_append)
    ultimately show ?thesis by (cases e) (auto; metis antisym option.inject)
  qed
  moreover have "\<exists>t'. Insert s v t = Ret (Get s t, t') \<and> tree_inv t' \<and> compact (root t')"
    by (rule Insert_tree [OF assms(1), of s v]) (use assms(2) in \<open>auto simp: tree_map_def\<close>)
  ultimately show ?thesis using Delete_tree(4) [OF assms] by simp
qed

theorem minimum_maximum_correct_witness:
  "compact (root (snd (Delete ''foo'' sample_tree))) \<and> Minimum sample_tree = Some (''foo'', 2)"
proof -
  have "Get k sample_tree = map_of [(''foo'', 2), (''foobar'', 1), (''zip'', 3)] k" for k
    using fun_cong [OF tree_map_of [OF sample_tree_inv(1)], of k]
    by (simp add: sample_tree_entries tree_map_def)
  then show ?thesis
    using minimum_maximum_correct [OF sample_tree_inv, of "''foo''" 0 "''foo''" 2] by auto
qed

text \<open>
  DeletePrefix leaves the emptied node attached to its parent. After inserting a and b and
  deleting the prefix a, the key b is still stored and counted, but Minimum descends into the
  emptied node and reports an empty tree.
\<close>

theorem DeletePrefix_breaks_Minimum:
  "\<exists>rs t. run_radix [OpInsert ''a'' (1::nat), OpInsert ''b'' 2, OpDeletePrefix ''a''] = Ret (rs, t)
     \<and> Get ''b'' t = Some 2 \<and> Len t = 1 \<and> Minimum t = None"
proof -
  have "(case run_radix [OpInsert ''a'' (1::nat), OpInsert ''b'' 2, OpDeletePrefix ''a''] of
      Panic \<Rightarrow> False
    | Ret (rs, t) \<Rightarrow> Get ''b'' t = Some 2 \<and> Len t = 1 \<and> Minimum t = None)"
    by code_simp
  then show ?thesis by (auto split: outcome.splits prod.splits)
qed

end
