(* ===== verification/ListIndex.thy ===== *)
theory ListIndex
  imports LinkedList Radix
begin

text \<open>
  RadixIndex of ds/list/list.go: a radix tree from a key of each value to the node that holds it.
  The loop takes the second result of the tree's Insert, which is true when an existing entry was
  replaced, for a sign of success.
\<close>

partial_function (option) radix_index_loop ::
  "('a \<Rightarrow> string) \<Rightarrow> ptr option \<Rightarrow> 'a Generic \<Rightarrow> ptr Tree \<Rightarrow> (ptr Tree \<times> err option) outcome option" where
  "radix_index_loop getKey node g tree =
     (case node of
        None \<Rightarrow> Some (Ret (tree, None))
      | Some p \<Rightarrow>
          (case Value p g of
             None \<Rightarrow> None
           | Some v \<Rightarrow>
               (case Radix.Insert (getKey v) p tree of
                  Panic \<Rightarrow> Some Panic
                | Ret (old, tree') \<Rightarrow>
                    (let result = (old \<noteq> None)
                     in if \<not> result then Some (Ret (tree', Some ''insert failed''))
                        else radix_index_loop getKey (Next p g) g tree'))))"

definition RadixIndex :: "('a \<Rightarrow> string) \<Rightarrow> 'a Generic \<Rightarrow> (ptr Tree \<times> err option) outcome option" where
  "RadixIndex getKey g = radix_index_loop getKey (HeadNode g) g newTree"

text \<open>
  RadixIndex returns on every well-formed list, but it fails on every non-empty one: it stops at
  the first node with the error of a failed insertion, although that insertion succeeded, and the
  tree it returns holds that node only.
\<close>

theorem RadixIndex_fails_on_nonempty:
  assumes "list_inv g"
  shows "case items g of
      [] \<Rightarrow> RadixIndex getKey g = Some (Ret (newTree, None))
    | (p, v) # rest \<Rightarrow> (\<exists>t. RadixIndex getKey g = Some (Ret (t, Some ''insert failed''))
        \<and> Radix.Get (getKey v) t = Some p \<and> Len t = 1)"
proof (cases "nodes g")
  case Nil
  have l: "linked g (nodes g)" using assms by (simp add: list_inv_linked)
  then show ?thesis
    using Nil by (simp add: RadixIndex_def HeadNode_def linked_head items_linked radix_index_loop.simps)
next
  case (Cons p ps)
  have l: "linked g ([] @ p # ps)" using assms Cons by (simp add: list_inv_linked)
  have it: "items g = item_at g p # map (item_at g) ps" using items_linked [OF l] by simp
  let ?v = "snd (item_at g p)"
  obtain t where t: "Radix.Insert (getKey ?v) p newTree = Ret (tree_map newTree (getKey ?v), t)"
    "tree_inv t" "tree_map t = (tree_map newTree)(getKey ?v \<mapsto> p)"
    using Insert_tree [OF new_tree(1)] .
  have "RadixIndex getKey g = Some (Ret (t, Some ''insert failed''))"
    using l t(1) linked_Value [OF l]
    by (simp add: RadixIndex_def HeadNode_def linked_head radix_index_loop.simps [of _ "Some p"] new_tree(2))
  moreover have "Radix.Get (getKey ?v) t = Some p" using t(3) by (metis fun_upd_same tree_map_def)
  moreover have "Len t = 1" using Len_card [OF t(2)] t(3) by (simp add: new_tree(2))
  ultimately show ?thesis by (simp add: it item_at_def)
qed

theorem RadixIndex_fails_on_nonempty_witness:
  "\<exists>t. RadixIndex (\<lambda>n. if n = 7 then ''seven'' else ''other'') three = Some (Ret (t, Some ''insert failed''))
     \<and> Radix.Get ''seven'' t = Some 0"
  using RadixIndex_fails_on_nonempty [OF three_inv, of "\<lambda>n. if n = 7 then ''seven'' else ''other''"]
  by (auto simp: three_items)

end
