(* ===== verification/Subscription.thy ===== *)
theory Subscription
  imports Prelude "HOL-Library.Multiset" "HOL-Library.Sublist"
begin

text \<open>
  The broadcaster of ds/sub/sub.go. Channels live in a store and are named by addresses. A send that
  would block for ever makes the operation \<^term>\<open>None\<close>. Go iterates over the map of subscribers
  in an unspecified order, so Broadcast and Close take the order as a list of ids.

  The second half describes a home and its subscribers as a transition system and shows that no
  operation of the home ever blocks and that no value is lost without an error.
\<close>

section \<open>State\<close>

record 'a innerSubscription =
  is_id :: int
  is_streamC :: ptr
  is_errorC :: ptr
  is_filter :: "'a \<Rightarrow> bool"

text \<open>The delete channel of a subscription is the home's, or a private one after a refused request.\<close>

datatype delete_chan = HomeDeleteC | PrivateDeleteC ptr

record 'a Subscription =
  s_id :: int
  s_deleteC :: delete_chan
  s_StreamC :: ptr
  s_ErrorC :: ptr

record 'a ResponseChannel =
  RespC :: ptr
  rc_filter :: "'a \<Rightarrow> bool"
  requestedBufferSize :: "16 word"

record 'a SubHome =
  sh_id :: int
  subs :: "int \<rightharpoonup> 'a innerSubscription"
  DeleteC :: "int chan"
  ReqC :: "'a ResponseChannel chan"

text \<open>The store of channels, with the next free address, beside the home.\<close>

record 'a world =
  home :: "'a SubHome"
  streams :: "ptr \<rightharpoonup> 'a chan"
  errors :: "ptr \<rightharpoonup> err option chan"
  resps :: "ptr \<rightharpoonup> 'a Subscription chan"
  deletes :: "ptr \<rightharpoonup> int chan"
  next_chan :: ptr

definition DEFAULT_STREAM_BUFFER_SIZE :: "16 word" where
  "DEFAULT_STREAM_BUFFER_SIZE = 10"

definition CreateSubHome :: "'a SubHome" where
  "CreateSubHome = \<lparr>sh_id = 0, subs = Map.empty, DeleteC = make_chan 10, ReqC = make_chan 10\<rparr>"

definition SubscriberCount :: "'a SubHome \<Rightarrow> nat" where
  "SubscriberCount sh = card (dom (subs sh))"

section \<open>Operations of the subscriber\<close>

text \<open>
  The request: either it is queued and the caller waits on a fresh response channel, or the queue is
  full and the caller gets a dead subscription that holds an error.
\<close>

definition SubscriptionRequestWithBufferSize ::
  "16 word \<Rightarrow> ('a \<Rightarrow> bool) \<Rightarrow> 'a world \<Rightarrow> ('a Subscription + ptr) \<times> 'a world" where
  "SubscriptionRequestWithBufferSize bufSize filterCallback w =
     (let respC = next_chan w;
          w1 = w\<lparr>resps := (resps w)(respC \<mapsto> make_chan 1), next_chan := Suc respC\<rparr>
      in case chan_send \<lparr>RespC = respC, rc_filter = filterCallback, requestedBufferSize = bufSize\<rparr>
                (ReqC (home w1)) of
           Some q \<Rightarrow> (Inr respC, w1\<lparr>home := (home w1)\<lparr>ReqC := q\<rparr>\<rparr>)
         | None \<Rightarrow>
             (let c = next_chan w1
              in (Inl \<lparr>s_id = -1, s_deleteC = PrivateDeleteC c, s_StreamC = c, s_ErrorC = c\<rparr>,
                  w1\<lparr>streams := (streams w1)(c \<mapsto> make_chan 0),
                     errors := (errors w1)(c \<mapsto> \<lparr>cbuf = [Some ''request queue full''], ccap = 1\<rparr>),
                     deletes := (deletes w1)(c \<mapsto> make_chan 1),
                     next_chan := Suc c\<rparr>)))"

definition SubscriptionRequest :: "('a \<Rightarrow> bool) \<Rightarrow> 'a world \<Rightarrow> ('a Subscription + ptr) \<times> 'a world" where
  "SubscriptionRequest filterCallback w =
     SubscriptionRequestWithBufferSize DEFAULT_STREAM_BUFFER_SIZE filterCallback w"

text \<open>Waiting on the response channel, the last step of a request.\<close>

definition await_response :: "ptr \<Rightarrow> 'a world \<Rightarrow> ('a Subscription \<times> 'a world) option" where
  "await_response respC w =
     Option.bind (resps w respC) (\<lambda>c. map_option (\<lambda>(s, c'). (s, w\<lparr>resps := (resps w)(respC \<mapsto> c')\<rparr>)) (chan_recv c))"

definition Unsubscribe :: "'a Subscription \<Rightarrow> 'a world \<Rightarrow> 'a world option" where
  "Unsubscribe s w =
     (case s_deleteC s of
        PrivateDeleteC p \<Rightarrow>
          Option.bind (deletes w p)
            (\<lambda>c. map_option (\<lambda>c'. w\<lparr>deletes := (deletes w)(p \<mapsto> c')\<rparr>) (chan_send (s_id s) c))
      | HomeDeleteC \<Rightarrow>
          map_option (\<lambda>d. w\<lparr>home := (home w)\<lparr>DeleteC := d\<rparr>\<rparr>) (chan_send (s_id s) (DeleteC (home w))))"

section \<open>Operations of the home\<close>

definition send_error :: "ptr \<Rightarrow> err option \<Rightarrow> 'a world \<Rightarrow> 'a world option" where
  "send_error p e w =
     Option.bind (errors w p) (\<lambda>c. map_option (\<lambda>c'. w\<lparr>errors := (errors w)(p \<mapsto> c')\<rparr>) (chan_send e c))"

definition drop_sub :: "int \<Rightarrow> 'a world \<Rightarrow> 'a world" where
  "drop_sub i w = w\<lparr>home := (home w)\<lparr>subs := (subs (home w))(i := None)\<rparr>\<rparr>"

definition queue_full :: "int \<Rightarrow> err" where
  "queue_full i = ''queue is full (sub type='' @ dec_int i @ '')''"

text \<open>The body of the loop of Broadcast for the subscriber with one id.\<close>

definition broadcast_one :: "'a \<Rightarrow> int \<Rightarrow> 'a world \<Rightarrow> 'a world option" where
  "broadcast_one value i w =
     (case subs (home w) i of
        None \<Rightarrow> Some w
      | Some v \<Rightarrow>
          (if is_filter v value
           then (case Option.bind (streams w (is_streamC v)) (chan_send value) of
                   Some c \<Rightarrow> Some (w\<lparr>streams := (streams w)(is_streamC v \<mapsto> c)\<rparr>)
                 | None \<Rightarrow> map_option (drop_sub i) (send_error (is_errorC v) (Some (queue_full i)) w))
           else Some w))"

fun Broadcast :: "int list \<Rightarrow> 'a \<Rightarrow> 'a world \<Rightarrow> 'a world option" where
  "Broadcast [] value w = Some w"
| "Broadcast (i # ids) value w = Option.bind (broadcast_one value i w) (Broadcast ids value)"

definition Delete :: "int \<Rightarrow> 'a world \<Rightarrow> 'a world option" where
  "Delete i w =
     (case subs (home w) i of
        None \<Rightarrow> Some w
      | Some p \<Rightarrow> map_option (drop_sub i) (send_error (is_errorC p) None w))"

fun close_loop :: "int list \<Rightarrow> 'a world \<Rightarrow> 'a world option" where
  "close_loop [] w = Some w"
| "close_loop (i # ids) w =
     (case subs (home w) i of
        None \<Rightarrow> close_loop ids w
      | Some v \<Rightarrow> Option.bind (send_error (is_errorC v) None w) (close_loop ids))"

definition Close :: "int list \<Rightarrow> 'a world \<Rightarrow> 'a world option" where
  "Close ids w = map_option (\<lambda>w'. w'\<lparr>home := (home w')\<lparr>subs := Map.empty\<rparr>\<rparr>) (close_loop ids w)"

definition Receive :: "'a ResponseChannel \<Rightarrow> 'a world \<Rightarrow> (ptr \<times> 'a world) option" where
  "Receive resp w =
     (let i = sh_id (home w);
          c = next_chan w;
          w1 = w\<lparr>streams := (streams w)(c \<mapsto> make_chan (unat (requestedBufferSize resp))),
                 errors := (errors w)(c \<mapsto> make_chan 1), next_chan := Suc c,
                 home := (home w)\<lparr>sh_id := i + 1,
                   subs := (subs (home w))(i \<mapsto>
                     \<lparr>is_id = i, is_streamC = c, is_errorC = c, is_filter = rc_filter resp\<rparr>)\<rparr>\<rparr>
      in Option.bind (resps w1 (RespC resp))
           (\<lambda>rc. map_option (\<lambda>rc'. (c, w1\<lparr>resps := (resps w1)(RespC resp \<mapsto> rc')\<rparr>))
             (chan_send \<lparr>s_id = i, s_deleteC = HomeDeleteC, s_StreamC = c, s_ErrorC = c\<rparr> rc)))"

section \<open>A home and its subscribers\<close>

text \<open>
  The ghost state records the values broadcast so far, the subscriptions the home has issued with
  the number of values broadcast before each, and what was read from every channel.
\<close>

record 'a ghost =
  sent :: "'a list"
  issued :: "'a innerSubscription set"
  since :: "ptr \<Rightarrow> nat"
  taken :: "ptr \<Rightarrow> 'a list"
  told :: "ptr \<Rightarrow> err option list"

definition init_world :: "'a world" where
  "init_world = \<lparr>home = CreateSubHome, streams = Map.empty, errors = Map.empty, resps = Map.empty,
     deletes = Map.empty, next_chan = 0\<rparr>"

definition init_ghost :: "'a ghost" where
  "init_ghost = \<lparr>sent = [], issued = {}, since = (\<lambda>_. 0), taken = (\<lambda>_. []), told = (\<lambda>_. [])\<rparr>"

definition take_request :: "'a world \<Rightarrow> ('a ResponseChannel \<times> 'a world) option" where
  "take_request w =
     map_option (\<lambda>(r, q). (r, w\<lparr>home := (home w)\<lparr>ReqC := q\<rparr>\<rparr>)) (chan_recv (ReqC (home w)))"

definition take_delete :: "'a world \<Rightarrow> (int \<times> 'a world) option" where
  "take_delete w =
     map_option (\<lambda>(i, d). (i, w\<lparr>home := (home w)\<lparr>DeleteC := d\<rparr>\<rparr>)) (chan_recv (DeleteC (home w)))"

definition enumerates :: "int list \<Rightarrow> 'a world \<Rightarrow> bool" where
  "enumerates ids w \<longleftrightarrow> distinct ids \<and> set ids = dom (subs (home w))"

inductive sub_step :: "'a world \<times> 'a ghost \<Rightarrow> 'a world \<times> 'a ghost \<Rightarrow> bool" where
  request: "SubscriptionRequestWithBufferSize n f w = (r, w') \<Longrightarrow> sub_step (w, g) (w', g)"
| accept: "await_response p w = Some (s, w') \<Longrightarrow> sub_step (w, g) (w', g)"
| unsubscribe: "Unsubscribe s w = Some w' \<Longrightarrow> sub_step (w, g) (w', g)"
| read: "streams w p = Some c \<Longrightarrow> chan_recv c = Some (v, c') \<Longrightarrow>
    sub_step (w, g) (w\<lparr>streams := (streams w)(p \<mapsto> c')\<rparr>, g\<lparr>taken := (taken g)(p := taken g p @ [v])\<rparr>)"
| read_error: "errors w p = Some c \<Longrightarrow> chan_recv c = Some (e, c') \<Longrightarrow>
    sub_step (w, g) (w\<lparr>errors := (errors w)(p \<mapsto> c')\<rparr>, g\<lparr>told := (told g)(p := told g p @ [e])\<rparr>)"
| serve: "take_request w = Some (resp, w1) \<Longrightarrow> Receive resp w1 = Some (c, w') \<Longrightarrow>
    sub_step (w, g) (w', g\<lparr>issued := insert (the (subs (home w') (sh_id (home w)))) (issued g),
      since := (since g)(c := length (sent g))\<rparr>)"
| broadcast: "enumerates ids w \<Longrightarrow> Broadcast ids v w = Some w' \<Longrightarrow>
    sub_step (w, g) (w', g\<lparr>sent := sent g @ [v]\<rparr>)"
| serve_delete: "take_delete w = Some (i, w1) \<Longrightarrow> Delete i w1 = Some w' \<Longrightarrow> sub_step (w, g) (w', g)"
| close: "enumerates ids w \<Longrightarrow> Close ids w = Some w' \<Longrightarrow> sub_step (w, g) (w', g)"

inductive sub_reachable :: "'a world \<times> 'a ghost \<Rightarrow> bool" where
  init: "sub_reachable (init_world, init_ghost)"
| step: "sub_reachable s \<Longrightarrow> sub_step s t \<Longrightarrow> sub_reachable t"

section \<open>The invariant\<close>

definition got :: "'a world \<Rightarrow> 'a ghost \<Rightarrow> ptr \<Rightarrow> 'a list" where
  "got w g p = taken g p @ (case streams w p of None \<Rightarrow> [] | Some c \<Rightarrow> cbuf c)"

definition heard :: "'a world \<Rightarrow> 'a ghost \<Rightarrow> ptr \<Rightarrow> err option list" where
  "heard w g p = told g p @ (case errors w p of None \<Rightarrow> [] | Some c \<Rightarrow> cbuf c)"

definition active :: "'a world \<Rightarrow> 'a innerSubscription \<Rightarrow> bool" where
  "active w a \<longleftrightarrow> subs (home w) (is_id a) = Some a"

text \<open>
  What holds of one issued subscription; the list \<open>vs\<close> holds the values broadcast to it so far. An
  active subscription has got all values that pass its filter and heard nothing; a finished one has
  got a prefix of them and heard exactly one message.
\<close>

definition sub_ok :: "'a list \<Rightarrow> 'a world \<Rightarrow> 'a ghost \<Rightarrow> 'a innerSubscription \<Rightarrow> bool" where
  "sub_ok vs w g a \<longleftrightarrow>
     is_streamC a < next_chan w \<and> is_errorC a < next_chan w \<and> is_id a < sh_id (home w)
     \<and> streams w (is_streamC a) \<noteq> None \<and> map_option ccap (errors w (is_errorC a)) = Some 1
     \<and> since g (is_streamC a) \<le> length (sent g)
     \<and> (if active w a
        then heard w g (is_errorC a) = []
          \<and> got w g (is_streamC a) = filter (is_filter a) (drop (since g (is_streamC a)) vs)
        else length (heard w g (is_errorC a)) = 1
          \<and> prefix (got w g (is_streamC a)) (filter (is_filter a) (drop (since g (is_streamC a)) (sent g))))"

definition separate :: "'a ghost \<Rightarrow> bool" where
  "separate g \<longleftrightarrow> (\<forall>a \<in> issued g. \<forall>b \<in> issued g. a \<noteq> b \<longrightarrow>
     is_streamC a \<noteq> is_streamC b \<and> is_errorC a \<noteq> is_errorC b \<and> is_id a \<noteq> is_id b)"

definition homes :: "'a world \<Rightarrow> 'a ghost \<Rightarrow> bool" where
  "homes w g \<longleftrightarrow> (\<forall>i a. subs (home w) i = Some a \<longrightarrow> a \<in> issued g \<and> is_id a = i)"

definition fresh_above :: "'a world \<Rightarrow> 'a ghost \<Rightarrow> bool" where
  "fresh_above w g \<longleftrightarrow> (\<forall>p \<ge> next_chan w. taken g p = [] \<and> told g p = [] \<and> streams w p = None \<and> errors w p = None)"

definition requests_ok :: "'a world \<Rightarrow> bool" where
  "requests_ok w \<longleftrightarrow> distinct (map RespC (cbuf (ReqC (home w))))
     \<and> (\<forall>r \<in> set (cbuf (ReqC (home w))). RespC r < next_chan w \<and> resps w (RespC r) = Some (make_chan 1))"

definition sub_inv :: "(int \<Rightarrow> 'a list) \<Rightarrow> 'a world \<Rightarrow> 'a ghost \<Rightarrow> bool" where
  "sub_inv snt w g \<longleftrightarrow>
     (\<forall>a \<in> issued g. sub_ok (snt (is_id a)) w g a) \<and> separate g \<and> homes w g \<and> fresh_above w g
     \<and> requests_ok w"

lemma sub_invD:
  assumes "sub_inv snt w g"
  shows sub_inv_ok: "a \<in> issued g \<Longrightarrow> sub_ok (snt (is_id a)) w g a"
    and sub_inv_separate: "separate g" and sub_inv_homes: "homes w g"
    and sub_inv_fresh: "fresh_above w g" and sub_inv_requests: "requests_ok w"
  using assms by (auto simp: sub_inv_def)

lemma separateD: "separate g \<Longrightarrow> a \<in> issued g \<Longrightarrow> b \<in> issued g \<Longrightarrow> a \<noteq> b \<Longrightarrow>
    is_streamC a \<noteq> is_streamC b \<and> is_errorC a \<noteq> is_errorC b \<and> is_id a \<noteq> is_id b"
  by (auto simp: separate_def)

text \<open>An active subscription has an empty error channel with room for one message.\<close>

lemma active_error_room:
  assumes "sub_ok vs w g a" and "active w a"
  shows "errors w (is_errorC a) = Some (make_chan 1) \<and> told g (is_errorC a) = []"
  using assms
  by (cases "errors w (is_errorC a)")
    (auto simp: sub_ok_def heard_def make_chan_def split: if_splits intro: chan.equality)

lemma send_error_active:
  assumes "sub_ok vs w g a" and "active w a"
  shows "send_error (is_errorC a) e w =
    Some (w\<lparr>errors := (errors w)(is_errorC a \<mapsto> \<lparr>cbuf = [e], ccap = 1\<rparr>)\<rparr>)"
  using active_error_room [OF assms] by (simp add: send_error_def chan_send_def make_chan_def)

text \<open>Finishing a subscription: its error channel gets one message and the home forgets it.\<close>

lemma sub_ok_frame:
  assumes "sub_ok vs w g a" and "next_chan w \<le> next_chan w'" "sh_id (home w) \<le> sh_id (home w')"
    and "streams w' (is_streamC a) = streams w (is_streamC a)"
    and "errors w' (is_errorC a) = errors w (is_errorC a)" "active w' a = active w a"
    and "since g' (is_streamC a) = since g (is_streamC a)" "taken g' (is_streamC a) = taken g (is_streamC a)"
    and "told g' (is_errorC a) = told g (is_errorC a)" "sent g' = sent g"
  shows "sub_ok vs w' g' a"
  using assms by (auto simp: sub_ok_def got_def heard_def)

lemma finish_inv:
  assumes inv: "sub_inv snt w g" and a: "subs (home w) i = Some a" and snt: "snt i = sent g"
  obtains w' where "map_option (drop_sub i) (send_error (is_errorC a) e w) = Some w'"
    and "sub_inv snt w' g" and "subs (home w') = (subs (home w))(i := None)"
proof -
  have ai: "a \<in> issued g" "is_id a = i" using sub_inv_homes [OF inv] a by (auto simp: homes_def)
  have act: "active w a" using a ai by (simp add: active_def)
  note ok = sub_inv_ok [OF inv ai(1)]
  let ?w = "drop_sub i (w\<lparr>errors := (errors w)(is_errorC a \<mapsto> \<lparr>cbuf = [e], ccap = 1\<rparr>)\<rparr>)"
  have eq: "map_option (drop_sub i) (send_error (is_errorC a) e w) = Some ?w"
    by (simp add: send_error_active [OF ok act])
  have "sub_ok (snt (is_id b)) ?w g b" if b: "b \<in> issued g" for b
  proof (cases "b = a")
    case True
    then show ?thesis
      using ok act active_error_room [OF ok act] snt ai
      by (auto simp: sub_ok_def active_def drop_sub_def heard_def got_def)
  next
    case False
    then show ?thesis
      using separateD [OF sub_inv_separate [OF inv] b ai(1)] ai(2)
      by (intro sub_ok_frame [OF sub_inv_ok [OF inv b]]) (auto simp: drop_sub_def active_def)
  qed
  moreover have "homes ?w g" using sub_inv_homes [OF inv] by (auto simp: homes_def drop_sub_def)
  moreover have "requests_ok ?w"
    using sub_inv_requests [OF inv] by (auto simp: requests_ok_def drop_sub_def)
  ultimately have "sub_inv snt ?w g"
    using sub_inv_separate [OF inv] sub_inv_fresh [OF inv] active_error_room [OF ok act]
    by (auto simp: sub_inv_def fresh_above_def drop_sub_def)
  then show ?thesis by (rule that [OF eq]) (simp add: drop_sub_def)
qed

section \<open>Every operation of the home keeps the invariant and returns\<close>

lemma broadcast_one_inv:
  assumes inv: "sub_inv snt w g" and snt: "snt i = sent g"
  obtains w' where "broadcast_one v i w = Some w'" and "sub_inv (snt(i := sent g @ [v])) w' g"
    and "dom (subs (home w')) \<subseteq> dom (subs (home w))"
proof (cases "subs (home w) i")
  case None
  have "sub_ok ((snt(i := sent g @ [v])) (is_id b)) w g b" if b: "b \<in> issued g" for b
    using sub_inv_ok [OF inv b] None by (auto simp: sub_ok_def active_def)
  with inv have "sub_inv (snt(i := sent g @ [v])) w g" by (simp add: sub_inv_def)
  with None show ?thesis by (intro that [of w]) (auto simp: broadcast_one_def)
next
  case (Some a)
  have ai: "a \<in> issued g" "is_id a = i" using sub_inv_homes [OF inv] Some by (auto simp: homes_def)
  have act: "active w a" using Some ai by (simp add: active_def)
  note ok = sub_inv_ok [OF inv ai(1)]
  obtain c where c: "streams w (is_streamC a) = Some c" using ok by (auto simp: sub_ok_def)
  have other: "sub_ok ((snt(i := sent g @ [v])) (is_id b)) w' g b"
    if "b \<in> issued g" "b \<noteq> a" "sub_ok (snt (is_id b)) w' g b" for b w'
    using that separateD [OF sub_inv_separate [OF inv] that(1) ai(1)] ai(2) by auto
  consider (skip) "\<not> is_filter a v" | (send) "is_filter a v" "length (cbuf c) < ccap c"
    | (full) "is_filter a v" "\<not> length (cbuf c) < ccap c" by blast
  then show ?thesis
  proof cases
    case skip
    have "sub_ok (sent g @ [v]) w g a"
      using ok act snt ai(2) skip by (auto simp: sub_ok_def)
    then have "sub_ok ((snt(i := sent g @ [v])) (is_id b)) w g b" if "b \<in> issued g" for b
      using other [OF that] sub_inv_ok [OF inv that] ai(2) by (cases "b = a") auto
    with inv have "sub_inv (snt(i := sent g @ [v])) w g" by (simp add: sub_inv_def)
    with skip Some show ?thesis by (intro that [of w]) (auto simp: broadcast_one_def)
  next
    case send
    let ?w = "w\<lparr>streams := (streams w)(is_streamC a \<mapsto> c\<lparr>cbuf := cbuf c @ [v]\<rparr>)\<rparr>"
    have eq: "broadcast_one v i w = Some ?w"
      using send Some c by (simp add: broadcast_one_def chan_send_def)
    have "sub_ok (sent g @ [v]) ?w g a"
      using ok act snt ai(2) send c by (auto simp: sub_ok_def got_def heard_def active_def)
    moreover have "sub_ok (snt (is_id b)) ?w g b" if "b \<in> issued g" "b \<noteq> a" for b
      using separateD [OF sub_inv_separate [OF inv] that(1) ai(1) that(2)]
      by (intro sub_ok_frame [OF sub_inv_ok [OF inv that(1)]]) (auto simp: active_def)
    ultimately have "sub_ok ((snt(i := sent g @ [v])) (is_id b)) ?w g b" if "b \<in> issued g" for b
      using other [OF that] ai(2) that by (cases "b = a") auto
    moreover have "homes ?w g" "requests_ok ?w" "fresh_above ?w g"
      using inv c by (auto simp: sub_inv_def homes_def requests_ok_def fresh_above_def)
    ultimately have "sub_inv (snt(i := sent g @ [v])) ?w g"
      using sub_inv_separate [OF inv] by (simp add: sub_inv_def)
    with eq show ?thesis by (rule that) simp
  next
    case full
    obtain w' where w': "map_option (drop_sub i) (send_error (is_errorC a) (Some (queue_full i)) w) = Some w'"
      "sub_inv snt w' g" "subs (home w') = (subs (home w))(i := None)"
      using finish_inv [OF inv Some snt] .
    have eq: "broadcast_one v i w = Some w'"
      using full Some c w'(1) by (simp add: broadcast_one_def chan_send_def)
    have "sub_ok ((snt(i := sent g @ [v])) (is_id b)) w' g b" if "b \<in> issued g" for b
      using sub_inv_ok [OF w'(2) that] w'(3) by (auto simp: sub_ok_def active_def)
    with w'(2) have "sub_inv (snt(i := sent g @ [v])) w' g" by (simp add: sub_inv_def)
    with eq show ?thesis by (rule that) (use w'(3) in auto)
  qed
qed

lemma Broadcast_loop_inv:
  assumes "sub_inv snt w g" and "distinct ids" and "\<forall>i \<in> set ids. snt i = sent g"
  shows "\<exists>w'. Broadcast ids v w = Some w'
    \<and> sub_inv (\<lambda>j. if j \<in> set ids then sent g @ [v] else snt j) w' g
    \<and> dom (subs (home w')) \<subseteq> dom (subs (home w))"
  using assms
proof (induction ids arbitrary: snt w)
  case (Cons i ids)
  obtain w1 where w1: "broadcast_one v i w = Some w1" "sub_inv (snt(i := sent g @ [v])) w1 g"
    "dom (subs (home w1)) \<subseteq> dom (subs (home w))"
    using broadcast_one_inv [OF Cons.prems(1)] Cons.prems(3) by auto
  obtain w' where w': "Broadcast ids v w1 = Some w'"
    "sub_inv (\<lambda>j. if j \<in> set ids then sent g @ [v] else (snt(i := sent g @ [v])) j) w' g"
    "dom (subs (home w')) \<subseteq> dom (subs (home w1))"
  proof -
    have "\<forall>j \<in> set ids. (snt(i := sent g @ [v])) j = sent g" using Cons.prems by auto
    from Cons.IH [OF w1(2) _ this] Cons.prems(2) show ?thesis using that by auto
  qed
  moreover have "(\<lambda>j. if j \<in> set ids then sent g @ [v] else (snt(i := sent g @ [v])) j) =
      (\<lambda>j. if j \<in> set (i # ids) then sent g @ [v] else snt j)" by auto
  ultimately show ?case using w1 by auto
qed simp

lemma Broadcast_inv:
  assumes inv: "sub_inv (\<lambda>_. sent g) w g" and ids: "enumerates ids w"
  shows "\<exists>w'. Broadcast ids v w = Some w' \<and> sub_inv (\<lambda>_. sent g @ [v]) w' (g\<lparr>sent := sent g @ [v]\<rparr>)"
proof -
  obtain w' where w': "Broadcast ids v w = Some w'"
    "sub_inv (\<lambda>j. if j \<in> set ids then sent g @ [v] else sent g) w' g"
    "dom (subs (home w')) \<subseteq> dom (subs (home w))"
    using Broadcast_loop_inv [OF inv, of ids v] ids unfolding enumerates_def by blast
  have "sub_ok (sent g @ [v]) w' (g\<lparr>sent := sent g @ [v]\<rparr>) a" if a: "a \<in> issued g" for a
  proof -
    have "active w' a \<Longrightarrow> is_id a \<in> set ids"
      using w'(3) ids by (auto simp: active_def enumerates_def)
    then show ?thesis
      using sub_inv_ok [OF w'(2) a]
      by (auto simp: sub_ok_def got_def heard_def split: if_splits)
  qed
  then have "sub_inv (\<lambda>_. sent g @ [v]) w' (g\<lparr>sent := sent g @ [v]\<rparr>)"
    using w'(2) by (auto simp: sub_inv_def separate_def homes_def fresh_above_def)
  with w'(1) show ?thesis by auto
qed

lemma Delete_inv:
  assumes "sub_inv (\<lambda>_. sent g) w g"
  shows "\<exists>w'. Delete i w = Some w' \<and> sub_inv (\<lambda>_. sent g) w' g
    \<and> subs (home w') = (subs (home w))(i := None)"
proof (cases "subs (home w) i")
  case None
  with assms show ?thesis by (auto simp: Delete_def)
next
  case (Some a)
  obtain w' where "map_option (drop_sub i) (send_error (is_errorC a) None w) = Some w'"
    "sub_inv (\<lambda>_. sent g) w' g" "subs (home w') = (subs (home w))(i := None)"
    using finish_inv [OF assms Some] by blast
  with Some show ?thesis by (auto simp: Delete_def)
qed

text \<open>Close has the effect of deleting the subscribers one by one.\<close>

fun delete_all :: "int list \<Rightarrow> 'a world \<Rightarrow> 'a world option" where
  "delete_all [] w = Some w"
| "delete_all (i # ids) w = Option.bind (Delete i w) (delete_all ids)"

lemma delete_all_inv:
  assumes "sub_inv (\<lambda>_. sent g) w g"
  shows "\<exists>w'. delete_all ids w = Some w' \<and> sub_inv (\<lambda>_. sent g) w' g
    \<and> dom (subs (home w')) = dom (subs (home w)) - set ids"
  using assms
proof (induction ids arbitrary: w)
  case (Cons i ids)
  obtain w1 where w1: "Delete i w = Some w1" "sub_inv (\<lambda>_. sent g) w1 g"
    "subs (home w1) = (subs (home w))(i := None)"
    using Delete_inv [OF Cons.prems] by blast
  with Cons.IH [OF w1(2)] show ?case by (auto split: if_splits)
qed simp

lemma send_error_drop: "send_error p e (drop_sub i w) = map_option (drop_sub i) (send_error p e w)"
  by (cases w; cases "errors w p"; cases "chan_send e (the (errors w p))")
    (auto simp: send_error_def drop_sub_def)

lemma subs_drop: "subs (home (drop_sub i w)) j = (if j = i then None else subs (home w) j)"
  by (simp add: drop_sub_def)

lemma send_error_home: "send_error p e w = Some w' \<Longrightarrow> home w' = home w"
  by (auto simp: send_error_def split: bind_splits)

lemma close_loop_drop:
  "i \<notin> set ids \<Longrightarrow> close_loop ids (drop_sub i w) = map_option (drop_sub i) (close_loop ids w)"
proof (induction ids arbitrary: w)
  case (Cons j ids)
  then show ?case
    by (cases "subs (home w) j"; cases "send_error (is_errorC (the (subs (home w) j))) None w")
      (auto simp: send_error_drop subs_drop)
qed simp

fun drop_subs :: "int list \<Rightarrow> 'a world \<Rightarrow> 'a world" where
  "drop_subs [] w = w"
| "drop_subs (i # ids) w = drop_subs ids (drop_sub i w)"

lemma drop_subs_eq: "drop_subs ids w =
    w\<lparr>home := (home w)\<lparr>subs := (\<lambda>j. if j \<in> set ids then None else subs (home w) j)\<rparr>\<rparr>"
  by (induction ids arbitrary: w) (auto simp: drop_sub_def fun_eq_iff)

lemma drop_absent: "subs (home w) i = None \<Longrightarrow> drop_sub i w = w"
  by (cases w) (simp add: drop_sub_def fun_upd_idem)

lemma close_loop_deletes:
  fixes w :: "'a world"
  shows "distinct ids \<Longrightarrow> map_option (drop_subs ids) (close_loop ids w) = delete_all ids w"
proof (induction ids arbitrary: w)
  case (Cons i ids)
  have step: "map_option (drop_subs (i # ids)) (close_loop ids w1) = delete_all ids (drop_sub i w1)" for w1 :: "'a world"
  proof -
    have "drop_subs (i # ids) = drop_subs ids \<circ> drop_sub i" by (rule ext) simp
    then show ?thesis
      using Cons.IH [of "drop_sub i w1"] Cons.prems close_loop_drop [of i ids w1]
      by (metis distinct.simps(2) option.map_comp)
  qed
  show ?case
  proof (cases "subs (home w) i")
    case None
    then show ?thesis using step [of w] by (simp add: Delete_def drop_absent del: drop_subs.simps)
  next
    case (Some a)
    then show ?thesis
      using step by (cases "send_error (is_errorC a) None w") (simp_all add: Delete_def del: drop_subs.simps)
  qed
qed simp

lemma close_loop_home: "close_loop ids w = Some w' \<Longrightarrow> home w' = home w"
  by (induction ids arbitrary: w) (auto split: option.splits bind_splits dest: send_error_home)

lemma Close_inv:
  assumes inv: "sub_inv (\<lambda>_. sent g) w g" and ids: "enumerates ids w"
  shows "\<exists>w'. Close ids w = Some w' \<and> sub_inv (\<lambda>_. sent g) w' g \<and> subs (home w') = Map.empty"
proof -
  obtain w' where w': "delete_all ids w = Some w'" "sub_inv (\<lambda>_. sent g) w' g"
    "dom (subs (home w')) = dom (subs (home w)) - set ids"
    using delete_all_inv [OF inv] by blast
  obtain w1 where w1: "close_loop ids w = Some w1" "drop_subs ids w1 = w'"
    using close_loop_deletes [of ids w] w'(1) ids by (auto simp: enumerates_def)
  have "home w1 = home w" using close_loop_home [OF w1(1)] .
  then have "(\<lambda>j. if j \<in> set ids then None else subs (home w1) j) = Map.empty"
    using ids by (auto simp: enumerates_def fun_eq_iff domIff)
  then have "Close ids w = Some w'" using w1 by (simp add: Close_def drop_subs_eq)
  then show ?thesis using w' ids by (auto simp: enumerates_def)
qed

lemma Receive_inv:
  assumes inv: "sub_inv (\<lambda>_. sent g) w g" and req: "take_request w = Some (resp, w1)"
  shows "\<exists>c w'. Receive resp w1 = Some (c, w') \<and>
    sub_inv (\<lambda>_. sent g) w' (g\<lparr>issued := insert (the (subs (home w') (sh_id (home w)))) (issued g),
      since := (since g)(c := length (sent g))\<rparr>)"
proof -
  obtain q where q: "cbuf (ReqC (home w)) = resp # q"
    "w1 = w\<lparr>home := (home w)\<lparr>ReqC := (ReqC (home w))\<lparr>cbuf := q\<rparr>\<rparr>\<rparr>"
    using req by (auto simp: take_request_def chan_recv_def split: list.splits)
  have rq: "requests_ok w" using inv by (rule sub_inv_requests)
  then have rc: "resps w (RespC resp) = Some (make_chan 1)" by (simp add: requests_ok_def q(1))
  let ?i = "sh_id (home w)" and ?c = "next_chan w"
  let ?a = "\<lparr>is_id = ?i, is_streamC = ?c, is_errorC = ?c, is_filter = rc_filter resp\<rparr>"
  obtain w' where w': "Receive resp w1 = Some (?c, w')" "sh_id (home w') = ?i + 1"
    "subs (home w') = (subs (home w))(?i \<mapsto> ?a)" "next_chan w' = Suc ?c"
    "streams w' = (streams w)(?c \<mapsto> make_chan (unat (requestedBufferSize resp)))"
    "errors w' = (errors w)(?c \<mapsto> make_chan 1)" "cbuf (ReqC (home w')) = q"
    "\<And>p. p \<noteq> RespC resp \<Longrightarrow> resps w' p = resps w p"
    using rc by (auto simp: Receive_def q(2) Let_def chan_send_def make_chan_def)
  let ?g = "g\<lparr>issued := insert ?a (issued g), since := (since g)(?c := length (sent g))\<rparr>"
  have bounds: "is_streamC b < ?c" "is_errorC b < ?c" "is_id b < ?i" if "b \<in> issued g" for b
    using sub_inv_ok [OF inv that] by (auto simp: sub_ok_def)
  have "sub_ok (sent g) w' ?g ?a"
    using w' sub_inv_fresh [OF inv]
    by (auto simp: sub_ok_def active_def got_def heard_def fresh_above_def make_chan_def)
  moreover have "sub_ok (sent g) w' ?g b" if "b \<in> issued g" for b
    using w' bounds [OF that]
    by (intro sub_ok_frame [OF sub_inv_ok [OF inv that]]) (auto simp: active_def)
  moreover have "separate ?g"
    using sub_inv_separate [OF inv] bounds unfolding separate_def by (auto; force)
  moreover have "homes w' ?g"
    using sub_inv_homes [OF inv] w' by (auto simp: homes_def)
  moreover have "fresh_above w' ?g"
    using sub_inv_fresh [OF inv] w' by (auto simp: fresh_above_def)
  moreover have "requests_ok w'"
  proof -
    have "distinct (map RespC q)" using rq by (simp add: requests_ok_def q(1))
    moreover have old: "RespC r \<noteq> RespC resp \<and> RespC r < ?c \<and> resps w (RespC r) = Some (make_chan 1)"
      if "r \<in> set q" for r
      using rq that by (simp add: requests_ok_def q(1)) (metis image_eqI)
    moreover have "resps w' (RespC r) = Some (make_chan 1)" if "r \<in> set q" for r
      using old [OF that] w'(8) [of "RespC r"] by simp
    ultimately show ?thesis
      unfolding requests_ok_def w'(4,7) by (auto simp: less_SucI)
  qed
  ultimately have "sub_inv (\<lambda>_. sent g) w' ?g" by (auto simp: sub_inv_def)
  then show ?thesis using w' by auto
qed

lemma requests_frame:
  assumes "requests_ok w" and "next_chan w \<le> next_chan w'"
    and "cbuf (ReqC (home w')) = cbuf (ReqC (home w))"
    and "\<And>r. r \<in> set (cbuf (ReqC (home w))) \<Longrightarrow> resps w' (RespC r) = resps w (RespC r)"
  shows "requests_ok w'"
  using assms by (fastforce simp: requests_ok_def)

text \<open>Steps of the subscribers that touch only queues of the home or private channels.\<close>

lemma client_frame:
  assumes "sub_inv snt w g" and "next_chan w \<le> next_chan w'"
    and "sh_id (home w') = sh_id (home w)" "subs (home w') = subs (home w)"
    and "\<And>p. p < next_chan w \<Longrightarrow> streams w' p = streams w p"
    and "\<And>p. p < next_chan w \<Longrightarrow> errors w' p = errors w p"
    and "\<And>p. next_chan w' \<le> p \<Longrightarrow> streams w' p = streams w p \<and> errors w' p = errors w p"
    and "requests_ok w'"
  shows "sub_inv snt w' g"
proof -
  have "sub_ok (snt (is_id a)) w' g a" if "a \<in> issued g" for a
    using sub_inv_ok [OF assms(1) that] assms(2-6)
    by (intro sub_ok_frame [OF sub_inv_ok [OF assms(1) that]]) (auto simp: sub_ok_def active_def)
  then show ?thesis
    using assms(1,2,4,7,8) by (auto simp: sub_inv_def homes_def fresh_above_def)
qed

lemma request_fields:
  fixes w :: "'a world" and f :: "'a \<Rightarrow> bool" and n :: "16 word"
  defines "w' \<equiv> snd (SubscriptionRequestWithBufferSize n f w)"
  shows "cbuf (ReqC (home w')) = cbuf (ReqC (home w))
      \<or> cbuf (ReqC (home w')) = cbuf (ReqC (home w)) @ [\<lparr>RespC = next_chan w, rc_filter = f, requestedBufferSize = n\<rparr>]"
    and "resps w' = (resps w)(next_chan w \<mapsto> make_chan 1)" and "next_chan w < next_chan w'"
    and "sh_id (home w') = sh_id (home w)" and "subs (home w') = subs (home w)"
    and "p < next_chan w \<Longrightarrow> streams w' p = streams w p" and "p < next_chan w \<Longrightarrow> errors w' p = errors w p"
    and "next_chan w' \<le> p \<Longrightarrow> streams w' p = streams w p \<and> errors w' p = errors w p"
  unfolding w'_def
  by (simp_all add: SubscriptionRequestWithBufferSize_def chan_send_def Let_def split: if_splits)

lemma request_inv:
  assumes "sub_inv snt w g" and "SubscriptionRequestWithBufferSize n f w = (r, w')"
  shows "sub_inv snt w' g"
proof -
  let ?p = "next_chan w" and ?q = "cbuf (ReqC (home w))"
  have rq: "distinct (map RespC ?q)"
    "\<And>x. x \<in> set ?q \<Longrightarrow> RespC x < ?p \<and> resps w (RespC x) = Some (make_chan 1)"
    using sub_inv_requests [OF assms(1)] by (auto simp: requests_ok_def)
  note fs = request_fields [where n = n and f = f and w = w, unfolded assms(2) snd_conv]
  have q': "cbuf (ReqC (home w')) = ?q
      \<or> cbuf (ReqC (home w')) = ?q @ [\<lparr>RespC = ?p, rc_filter = f, requestedBufferSize = n\<rparr>]"
    using fs(1) .
  note eq = fs(2,3)
  have np: "?p \<notin> RespC ` set ?q"
  proof
    assume "?p \<in> RespC ` set ?q"
    then obtain x where "x \<in> set ?q" "RespC x = ?p" by (metis imageE)
    with rq(2) [of x] show False by simp
  qed
  have "requests_ok w'"
    unfolding requests_ok_def
  proof (intro conjI ballI)
    show "distinct (map RespC (cbuf (ReqC (home w'))))"
      using q' rq(1) np by (elim disjE) simp_all
    fix x
    assume "x \<in> set (cbuf (ReqC (home w')))"
    then have "x \<in> set ?q \<or> RespC x = ?p" using q' by (elim disjE) auto
    then show "RespC x < next_chan w'" "resps w' (RespC x) = Some (make_chan 1)"
      using rq(2) [of x] eq(1,2) by (elim disjE; simp)+
  qed
  with fs show ?thesis by (intro client_frame [OF assms(1)]) simp_all
qed

lemma accept_inv:
  assumes "sub_inv snt w g" and "await_response p w = Some (s, w')"
  shows "sub_inv snt w' g"
proof -
  obtain c where c: "resps w p = Some c" "cbuf c \<noteq> []" "w' = w\<lparr>resps := (resps w)(p \<mapsto> c\<lparr>cbuf := tl (cbuf c)\<rparr>)\<rparr>"
    using assms(2) by (auto simp: await_response_def chan_recv_def split: bind_splits list.splits)
  note rq = sub_inv_requests [OF assms(1)]
  have "RespC r \<noteq> p" if "r \<in> set (cbuf (ReqC (home w)))" for r
    using rq c(1,2) that by (auto simp: requests_ok_def make_chan_def)
  then have "requests_ok w'"
    by (intro requests_frame [OF rq]) (simp_all add: c(3))
  then show ?thesis by (intro client_frame [OF assms(1)]) (simp_all add: c(3))
qed

lemma unsubscribe_inv:
  assumes "sub_inv snt w g" and "Unsubscribe s w = Some w'"
  shows "sub_inv snt w' g"
proof -
  have eq: "sh_id (home w') = sh_id (home w)" "subs (home w') = subs (home w)"
    "ReqC (home w') = ReqC (home w)" "streams w' = streams w" "errors w' = errors w"
    "resps w' = resps w" "next_chan w' = next_chan w"
    using assms(2) by (auto simp: Unsubscribe_def split: delete_chan.splits bind_splits)
  have "requests_ok w'"
    by (rule requests_frame [OF sub_inv_requests [OF assms(1)]]) (simp_all add: eq)
  then show ?thesis by (intro client_frame [OF assms(1)]) (simp_all add: eq)
qed

lemma take_delete_inv:
  assumes "sub_inv snt w g" and "take_delete w = Some (i, w')"
  shows "sub_inv snt w' g"
proof -
  have eq: "sh_id (home w') = sh_id (home w)" "subs (home w') = subs (home w)"
    "ReqC (home w') = ReqC (home w)" "streams w' = streams w" "errors w' = errors w"
    "resps w' = resps w" "next_chan w' = next_chan w"
    using assms(2) by (auto simp: take_delete_def)
  have "requests_ok w'"
    by (rule requests_frame [OF sub_inv_requests [OF assms(1)]]) (simp_all add: eq)
  then show ?thesis by (intro client_frame [OF assms(1)]) (simp_all add: eq)
qed

lemma read_inv:
  assumes "sub_inv snt w g" and "streams w p = Some c" "chan_recv c = Some (v, c')"
  shows "sub_inv snt (w\<lparr>streams := (streams w)(p \<mapsto> c')\<rparr>) (g\<lparr>taken := (taken g)(p := taken g p @ [v])\<rparr>)"
    (is "sub_inv snt ?w ?g")
proof -
  have "got ?w ?g q = got w g q" "heard ?w ?g q = heard w g q" for q
    using assms(2,3) by (auto simp: got_def heard_def chan_recv_def split: list.splits)
  then have "sub_ok (snt (is_id a)) ?w ?g a" if "a \<in> issued g" for a
    using sub_inv_ok [OF assms(1) that] by (simp add: sub_ok_def active_def)
  moreover have "homes ?w ?g" "requests_ok ?w" "fresh_above ?w ?g" "separate ?g"
    using assms(1,2) by (auto simp: sub_inv_def homes_def requests_ok_def fresh_above_def separate_def)
  ultimately show ?thesis by (simp add: sub_inv_def)
qed

lemma read_error_inv:
  assumes "sub_inv snt w g" and "errors w p = Some c" "chan_recv c = Some (e, c')"
  shows "sub_inv snt (w\<lparr>errors := (errors w)(p \<mapsto> c')\<rparr>) (g\<lparr>told := (told g)(p := told g p @ [e])\<rparr>)"
    (is "sub_inv snt ?w ?g")
proof -
  have "got ?w ?g q = got w g q" "heard ?w ?g q = heard w g q"
    "map_option ccap (errors ?w q) = map_option ccap (errors w q)" for q
    using assms(2,3) by (auto simp: got_def heard_def chan_recv_def split: list.splits)
  then have "sub_ok (snt (is_id a)) ?w ?g a" if "a \<in> issued g" for a
    using sub_inv_ok [OF assms(1) that] by (simp add: sub_ok_def active_def)
  moreover have "homes ?w ?g" "requests_ok ?w" "fresh_above ?w ?g" "separate ?g"
    using assms(1,2) by (auto simp: sub_inv_def homes_def requests_ok_def fresh_above_def separate_def)
  ultimately show ?thesis by (simp add: sub_inv_def)
qed

lemma init_inv: "sub_inv (\<lambda>_. sent init_ghost) init_world init_ghost"
  by (auto simp: sub_inv_def init_world_def init_ghost_def CreateSubHome_def separate_def homes_def
      fresh_above_def requests_ok_def make_chan_def)

lemma step_inv: "sub_step s t \<Longrightarrow> case s of (w, g) \<Rightarrow> sub_inv (\<lambda>_. sent g) w g \<Longrightarrow>
    case t of (w', g') \<Rightarrow> sub_inv (\<lambda>_. sent g') w' g'"
proof (induction rule: sub_step.induct)
  case (request n f w r w' g)
  then show ?case by (simp add: request_inv)
next
  case (accept p w s w' g)
  then show ?case by (simp add: accept_inv)
next
  case (unsubscribe s w w' g)
  then show ?case by (simp add: unsubscribe_inv)
next
  case (read w p c v c' g)
  then show ?case by (simp add: read_inv)
next
  case (read_error w p c e c' g)
  then show ?case by (simp add: read_error_inv)
next
  case (serve w resp w1 c w' g)
  then show ?case using Receive_inv [of g w resp w1] by auto
next
  case (broadcast ids w v w' g)
  then show ?case using Broadcast_inv [of g w ids v] by auto
next
  case (serve_delete w i w1 w' g)
  then show ?case using Delete_inv [OF take_delete_inv [of _ w g i w1], of i] by auto
next
  case (close ids w w' g)
  then show ?case using Close_inv [of g w ids] by auto
qed

lemma reachable_inv: "sub_reachable (w, g) \<Longrightarrow> sub_inv (\<lambda>_. sent g) w g"
proof -
  have "case s of (w, g) \<Rightarrow> sub_inv (\<lambda>_. sent g) w g" if "sub_reachable s" for s :: "'a world \<times> 'a ghost"
    using that
  proof induction
    case init
    then show ?case using init_inv by simp
  next
    case (step s t)
    then show ?case using step_inv by blast
  qed
  then show "sub_reachable (w, g) \<Longrightarrow> sub_inv (\<lambda>_. sent g) w g" by fastforce
qed

section \<open>The order of a broadcast does not matter\<close>

definition apart :: "'a world \<Rightarrow> bool" where
  "apart w \<longleftrightarrow> (\<forall>i j a b. subs (home w) i = Some a \<longrightarrow> subs (home w) j = Some b \<longrightarrow> i \<noteq> j \<longrightarrow>
     is_streamC a \<noteq> is_streamC b \<and> is_errorC a \<noteq> is_errorC b)"

lemma sub_inv_apart: "sub_inv snt w g \<Longrightarrow> apart w"
  unfolding apart_def sub_inv_def homes_def separate_def by metis

text \<open>
  One round of the loop for a subscriber depends on, and changes, only that subscriber's entry and
  its two channels.
\<close>

lemma broadcast_one_eq:
  "broadcast_one v i w =
     (case subs (home w) i of
        None \<Rightarrow> Some w
      | Some a \<Rightarrow>
          (if is_filter a v
           then (case Option.bind (streams w (is_streamC a)) (chan_send v) of
                   Some c \<Rightarrow> Some (w\<lparr>streams := (streams w)(is_streamC a \<mapsto> c)\<rparr>)
                 | None \<Rightarrow>
                     (case Option.bind (errors w (is_errorC a)) (chan_send (Some (queue_full i))) of
                        None \<Rightarrow> None
                      | Some e \<Rightarrow> Some (w\<lparr>errors := (errors w)(is_errorC a \<mapsto> e),
                          home := (home w)\<lparr>subs := (subs (home w))(i := None)\<rparr>\<rparr>)))
           else Some w))"
  by (auto simp: broadcast_one_def send_error_def drop_sub_def split: option.splits bind_splits)

lemma broadcast_one_local:
  assumes "apart w" and "broadcast_one v i w = Some w'" and "j \<noteq> i"
  shows "subs (home w') j = subs (home w) j"
    and "subs (home w) j = Some b \<Longrightarrow> streams w' (is_streamC b) = streams w (is_streamC b)"
    and "subs (home w) j = Some b \<Longrightarrow> errors w' (is_errorC b) = errors w (is_errorC b)"
  using assms
  by (auto simp: broadcast_one_eq apart_def split: option.splits if_splits bind_splits)

lemma broadcast_one_apart: "apart w \<Longrightarrow> broadcast_one v i w = Some w' \<Longrightarrow> apart w'"
  by (auto simp: broadcast_one_eq apart_def split: option.splits if_splits)

lemma broadcast_one_commute:
  assumes "apart w" and "i \<noteq> j"
  shows "Option.bind (broadcast_one v i w) (broadcast_one v j) =
    Option.bind (broadcast_one v j w) (broadcast_one v i)"
proof (cases "subs (home w) i"; cases "subs (home w) j")
  fix a b
  assume ab: "subs (home w) i = Some a" "subs (home w) j = Some b"
  then have ne: "is_streamC a \<noteq> is_streamC b" "is_errorC a \<noteq> is_errorC b"
    using assms by (auto simp: apart_def)
  show ?thesis
    using ab ne assms(2)
    by (cases w; cases "is_filter a v"; cases "is_filter b v";
        cases "Option.bind (streams w (is_streamC a)) (chan_send v)";
        cases "Option.bind (streams w (is_streamC b)) (chan_send v)";
        cases "Option.bind (errors w (is_errorC a)) (chan_send (Some (queue_full i)))";
        cases "Option.bind (errors w (is_errorC b)) (chan_send (Some (queue_full j)))")
      (simp_all add: broadcast_one_eq fun_upd_twist)
next
  assume "subs (home w) i = None" "subs (home w) j = None"
  then show ?thesis by (simp add: broadcast_one_eq)
next
  fix b
  assume "subs (home w) i = None" "subs (home w) j = Some b"
  then show ?thesis
    using assms
    by (cases "broadcast_one v j w") (auto simp: broadcast_one_local(1) broadcast_one_eq [of v i])
next
  fix a
  assume "subs (home w) i = Some a" "subs (home w) j = None"
  then show ?thesis
    using assms
    by (cases "broadcast_one v i w") (auto simp: broadcast_one_local(1) broadcast_one_eq [of v j])
qed

lemma Broadcast_fold: "Broadcast ids v w = fold (\<lambda>i x. Option.bind x (broadcast_one v i)) ids (Some w)"
proof (induction ids arbitrary: w)
  case (Cons i ids)
  have "fold (\<lambda>i x. Option.bind x (broadcast_one v i)) ids None = None" by (induction ids) auto
  with Cons show ?case by (cases "broadcast_one v i w") auto
qed simp

lemma Broadcast_permute:
  assumes "apart w" and "distinct ids" "distinct ids'" "set ids = set ids'"
  shows "Broadcast ids v w = Broadcast ids' v w"
  unfolding Broadcast_fold
proof (rule fold_permuted_eq [where P = "\<lambda>x. \<forall>w. x = Some w \<longrightarrow> apart w"])
  show "mset ids = mset ids'" using assms(2-4) by (simp add: set_eq_iff_mset_eq_distinct)
  show "\<forall>w'. Some w = Some w' \<longrightarrow> apart w'" using assms(1) by simp
next
  fix i and x :: "'a world option"
  assume "\<forall>w. x = Some w \<longrightarrow> apart w"
  then show "\<forall>w. Option.bind x (broadcast_one v i) = Some w \<longrightarrow> apart w"
    by (auto split: bind_splits dest: broadcast_one_apart)
next
  fix i j and x :: "'a world option"
  assume "\<forall>w. x = Some w \<longrightarrow> apart w"
  then show "Option.bind (Option.bind x (broadcast_one v j)) (broadcast_one v i) =
      Option.bind (Option.bind x (broadcast_one v i)) (broadcast_one v j)"
    by (cases x; cases "i = j") (auto intro: broadcast_one_commute)
qed

section \<open>A small run\<close>

text \<open>One subscriber with a buffer of one value: it is served and gets the value 5.\<close>

definition demo_sub :: "nat innerSubscription" where
  "demo_sub = \<lparr>is_id = 0, is_streamC = 1, is_errorC = 1, is_filter = (\<lambda>_. True)\<rparr>"

definition demo_world :: "nat list \<Rightarrow> nat world" where
  "demo_world vs = \<lparr>home = \<lparr>sh_id = 1, subs = [0 \<mapsto> demo_sub], DeleteC = make_chan 10, ReqC = make_chan 10\<rparr>,
     streams = [1 \<mapsto> \<lparr>cbuf = vs, ccap = 1\<rparr>], errors = [1 \<mapsto> make_chan 1],
     resps = [0 \<mapsto> \<lparr>cbuf = [\<lparr>s_id = 0, s_deleteC = HomeDeleteC, s_StreamC = 1, s_ErrorC = 1\<rparr>], ccap = 1\<rparr>],
     deletes = Map.empty, next_chan = 2\<rparr>"

definition demo_ghost :: "nat list \<Rightarrow> nat ghost" where
  "demo_ghost vs = \<lparr>sent = vs, issued = {demo_sub}, since = (\<lambda>_. 0)(1 := 0), taken = (\<lambda>_. []), told = (\<lambda>_. [])\<rparr>"

lemma demo_served: "sub_reachable (demo_world [], demo_ghost [])"
proof -
  let ?r = "\<lparr>RespC = 0, rc_filter = (\<lambda>_ :: nat. True), requestedBufferSize = 1\<rparr>"
  obtain w1 where w1: "SubscriptionRequestWithBufferSize 1 (\<lambda>_ :: nat. True) init_world = (Inr 0, w1)"
    "take_request w1 = Some (?r, w1\<lparr>home := CreateSubHome\<rparr>)" "sh_id (home w1) = 0"
    "Receive ?r (w1\<lparr>home := CreateSubHome\<rparr>) = Some (1, demo_world [])"
    by (simp add: SubscriptionRequestWithBufferSize_def init_world_def CreateSubHome_def chan_send_def
        make_chan_def take_request_def chan_recv_def Receive_def demo_world_def demo_sub_def)
  have "sub_reachable (w1, init_ghost)"
    using sub_reachable.step [OF sub_reachable.init sub_step.request [OF w1(1)]] .
  from sub_reachable.step [OF this sub_step.serve [OF w1(2,4)]]
  show ?thesis
    by (simp add: w1(3) demo_ghost_def init_ghost_def demo_world_def)
qed

lemma demo_enumerates: "enumerates [0] (demo_world vs)"
  by (simp add: enumerates_def demo_world_def)

lemma demo_got: "sub_reachable (demo_world [5], demo_ghost [5])"
proof -
  have "Broadcast [0] 5 (demo_world []) = Some (demo_world [5])"
    by (simp add: demo_world_def demo_sub_def broadcast_one_def chan_send_def)
  from sub_reachable.step [OF demo_served sub_step.broadcast [OF demo_enumerates this]]
  show ?thesis by (simp add: demo_ghost_def)
qed

section \<open>Properties\<close>

text \<open>
  C6. The home never blocks: in every reachable state, whatever the subscribers have read, a
  broadcast, a deletion, a close and the answer to a pending request all return. This is the remark
  of the source that the error channel is guaranteed to have one empty space.
\<close>

theorem sub_home_never_blocks:
  assumes "sub_reachable (w, g)"
  shows "(\<exists>w'. Delete i w = Some w')
    \<and> (enumerates ids w \<longrightarrow> (\<exists>w'. Broadcast ids v w = Some w') \<and> (\<exists>w'. Close ids w = Some w'))
    \<and> (take_request w = Some (resp, w1) \<longrightarrow> (\<exists>r. Receive resp w1 = Some r))"
proof -
  note inv = reachable_inv [OF assms]
  show ?thesis
    using Delete_inv [OF inv, of i] Broadcast_inv [OF inv, of ids v] Close_inv [OF inv, of ids]
      Receive_inv [OF inv, of resp w1] by blast
qed

theorem sub_home_never_blocks_witness:
  "(\<exists>w'. Broadcast [0] 6 (demo_world [5]) = Some w') \<and> (\<exists>w'. Close [0] (demo_world [5]) = Some w')"
  using sub_home_never_blocks [OF demo_got, of 0 "[0]" 6] by (simp add: demo_enumerates)

text \<open>
  C7. No value is lost silently. For every subscription a home has ever issued: what the subscriber
  has read together with what waits in its channel is a prefix of the values broadcast since it
  subscribed that pass its filter; while it is subscribed this is all of them and its error channel
  was never used; once it is not, its error channel carried exactly one message.
\<close>

theorem sub_no_silent_loss:
  assumes "sub_reachable (w, g)" and "a \<in> issued g"
  defines "due \<equiv> filter (is_filter a) (drop (since g (is_streamC a)) (sent g))"
  shows "prefix (got w g (is_streamC a)) due
    \<and> (active w a \<longrightarrow> got w g (is_streamC a) = due \<and> heard w g (is_errorC a) = [])
    \<and> (\<not> active w a \<longrightarrow> length (heard w g (is_errorC a)) = 1)"
  using sub_inv_ok [OF reachable_inv [OF assms(1)] assms(2)]
  by (auto simp: sub_ok_def due_def split: if_splits)

theorem sub_no_silent_loss_witness:
  "got (demo_world [5]) (demo_ghost [5]) 1 = [5] \<and> heard (demo_world [5]) (demo_ghost [5]) 1 = []"
  using sub_no_silent_loss [OF demo_got, of demo_sub]
  by (simp add: demo_ghost_def demo_sub_def active_def demo_world_def)



end
