(* ===== verification/Scheduler.thy ===== *)
theory Scheduler
  imports Prelude
begin

text \<open>
  The events of scheduler/event.go and scheduler/scheduler.go. The payload of an event is a Go
  interface value; its type is a parameter here, because every schedule has its own trigger type.
  Contexts are numbered; cancelling one is recorded in the list of finished contexts.
\<close>

type_synonym EventType = int

definition thresh :: int where
  "thresh = 1000"

definition EVENT_PERIOD_PRE_START :: EventType where "EVENT_PERIOD_PRE_START = 0"
definition EVENT_PERIOD_START :: EventType where "EVENT_PERIOD_START = 1"
definition EVENT_PERIOD_FINISH :: EventType where "EVENT_PERIOD_FINISH = 2"
definition EVENT_DELAY_CLOSE_PAYOUT :: EventType where "EVENT_DELAY_CLOSE_PAYOUT = 3"
definition EVENT_BID_CLOSED :: EventType where "EVENT_BID_CLOSED = 4"
definition EVENT_BID_FINAL :: EventType where "EVENT_BID_FINAL = 5"
definition EVENT_VALIDATOR_IS_ADDING :: EventType where "EVENT_VALIDATOR_IS_ADDING = 6"
definition EVENT_VALIDATOR_HAVE_WITHDRAWN :: EventType where "EVENT_VALIDATOR_HAVE_WITHDRAWN = 7"
definition EVENT_STAKER_IS_ADDING :: EventType where "EVENT_STAKER_IS_ADDING = 8"
definition EVENT_STAKER_HAVE_WITHDRAWN :: EventType where "EVENT_STAKER_HAVE_WITHDRAWN = 9"
definition EVENT_STAKER_HAVE_WITHDRAWN_EMPTY :: EventType where "EVENT_STAKER_HAVE_WITHDRAWN_EMPTY = 10"
definition EVENT_TYPE_READY_APPEND :: EventType where "EVENT_TYPE_READY_APPEND = 11"
definition EVENT_RECEIPT_NEW_COUNT :: EventType where "EVENT_RECEIPT_NEW_COUNT = 12"
definition EVENT_RECEIPT_APPROVED :: EventType where "EVENT_RECEIPT_APPROVED = 13"
definition TRIGGER_CRANK :: EventType where "TRIGGER_CRANK = thresh + 1"
definition TRIGGER_CLOSE_BIDS :: EventType where "TRIGGER_CLOSE_BIDS = thresh + 2"
definition TRIGGER_CLOSE_PAYOUT :: EventType where "TRIGGER_CLOSE_PAYOUT = thresh + 3"
definition TRIGGER_VALIDATOR_SET_PAYOUT :: EventType where "TRIGGER_VALIDATOR_SET_PAYOUT = thresh + 4"
definition TRIGGER_VALIDATOR_WITHDRAW_RECEIPT :: EventType where
  "TRIGGER_VALIDATOR_WITHDRAW_RECEIPT = thresh + 5"
definition TRIGGER_STAKER_ADD :: EventType where "TRIGGER_STAKER_ADD = thresh + 6"
definition TRIGGER_STAKER_WITHDRAW :: EventType where "TRIGGER_STAKER_WITHDRAW = thresh + 7"
definition TRIGGER_PERIOD_APPEND :: EventType where "TRIGGER_PERIOD_APPEND = thresh + 8"
definition TRIGGER_RECEIPT_APPROVE :: EventType where "TRIGGER_RECEIPT_APPROVE = thresh + 9"

lemmas event_codes =
  EVENT_PERIOD_PRE_START_def EVENT_PERIOD_START_def EVENT_PERIOD_FINISH_def
  EVENT_DELAY_CLOSE_PAYOUT_def EVENT_BID_CLOSED_def EVENT_BID_FINAL_def
  EVENT_VALIDATOR_IS_ADDING_def EVENT_VALIDATOR_HAVE_WITHDRAWN_def EVENT_STAKER_IS_ADDING_def
  EVENT_STAKER_HAVE_WITHDRAWN_def EVENT_STAKER_HAVE_WITHDRAWN_EMPTY_def EVENT_TYPE_READY_APPEND_def
  EVENT_RECEIPT_NEW_COUNT_def EVENT_RECEIPT_APPROVED_def TRIGGER_CRANK_def TRIGGER_CLOSE_BIDS_def
  TRIGGER_CLOSE_PAYOUT_def TRIGGER_VALIDATOR_SET_PAYOUT_def TRIGGER_VALIDATOR_WITHDRAW_RECEIPT_def
  TRIGGER_STAKER_ADD_def TRIGGER_STAKER_WITHDRAW_def TRIGGER_PERIOD_APPEND_def
  TRIGGER_RECEIPT_APPROVE_def thresh_def

record 'p Event =
  Slot :: uint64
  Type :: EventType
  IsStateChange :: bool
  Payload :: "'p option"

definition CreateEvent :: "EventType \<Rightarrow> bool \<Rightarrow> uint64 \<Rightarrow> 'p Event" where
  "CreateEvent eventType isStateChange slot =
     \<lparr>Slot = slot, Type = eventType, IsStateChange = isStateChange, Payload = None\<rparr>"

definition CreateWithPayload :: "EventType \<Rightarrow> bool \<Rightarrow> uint64 \<Rightarrow> 'p \<Rightarrow> 'p Event" where
  "CreateWithPayload eventType isStateChange slot payload =
     \<lparr>Slot = slot, Type = eventType, IsStateChange = isStateChange, Payload = Some payload\<rparr>"

definition IsTrigger :: "'p Event \<Rightarrow> bool" where
  "IsTrigger e = (thresh \<le> Type e)"

lemma event_fields [simp]:
  "Type (CreateEvent t b s) = t" "Type (CreateWithPayload t b s p) = t"
  "Slot (CreateEvent t b s) = s" "IsStateChange (CreateEvent t b s) = b"
  "Payload (CreateEvent t b s) = None" "Payload (CreateWithPayload t b s p) = Some p"
  by (simp_all add: CreateEvent_def CreateWithPayload_def)

text \<open>How often a type occurs in a sequence of events.\<close>

definition times :: "EventType \<Rightarrow> 'p Event list \<Rightarrow> nat" where
  "times t es = length (filter (\<lambda>e. Type e = t) es)"

lemma times_simps [simp]: "times t [] = 0"
  "times t (e # es) = (if Type e = t then 1 else 0) + times t es"
  "times t (xs @ ys) = times t xs + times t ys"
  by (auto simp: times_def)

lemma times_pos: "0 < times t es \<longleftrightarrow> t \<in> Type ` set es"
  by (induction es) auto

text \<open>A trigger carries a context that is done once the window to execute has passed.\<close>

type_synonym ctx = nat

record 'i Trigger =
  Context :: "ctx option"
  Subject :: 'i

definition ReadTrigger :: "'p Event \<Rightarrow> err + 'p" where
  "ReadTrigger e = (case Payload e of Some t \<Rightarrow> Inr t | None \<Rightarrow> Inl ''no trigger in payload'')"

text \<open>
  What the select of a goroutine receives: the closed context, an error of a subscription, or a value.
\<close>

datatype 'a msg = Done | Failed err | Got 'a

end
