(* ===== verification/PayoutClock.thy ===== *)
theory PayoutClock
  imports Scheduler
begin

text \<open>
  The goroutines that feed events into the payout schedule: the clock (scheduler/payout/clock.go),
  the data watcher (close.go), the bid watcher (bid.go) and the stake watcher (stake.go). Each is a
  loop over a select statement: a message of the model is the case that fired, the state is the
  local variables, and the output is the events sent on eventC. A send that races with a closed
  context is taken to complete; the message \<open>Done\<close> is the closed context.
\<close>

section \<open>The clock\<close>

definition PAYOUT_POST_FINISH_DELAY :: uint64 where
  "PAYOUT_POST_FINISH_DELAY = 100"

record clock =
  start :: uint64
  finish :: uint64
  closeOut :: uint64
  sentPreStart :: bool
  sentStart :: bool
  isStartStateTransition :: bool
  sentFinish :: bool
  isFinishStateTransition :: bool
  sentClose :: bool
  isCloseStateTransition :: bool

definition clock_init :: "uint64 \<Rightarrow> uint64 \<Rightarrow> clock" where
  "clock_init pstart plength =
     (let fin = pstart + plength - 1
      in \<lparr>start = pstart, finish = fin, closeOut = fin + PAYOUT_POST_FINISH_DELAY,
          sentPreStart = False, sentStart = False, isStartStateTransition = False,
          sentFinish = False, isFinishStateTransition = False, sentClose = False,
          isCloseStateTransition = False\<rparr>)"

text \<open>The body of the slot case, statement by statement; the last result goes to clockPeriodPostC.\<close>

definition clock_start :: "uint64 \<Rightarrow> clock \<Rightarrow> clock \<times> 'p Event list" where
  "clock_start slot c =
     (if \<not> sentStart c \<and> start c \<le> slot
      then (c\<lparr>sentStart := True\<rparr>, [CreateEvent EVENT_PERIOD_START (isStartStateTransition c) slot])
      else (c\<lparr>isStartStateTransition := True\<rparr>, []))"

definition clock_pre_start :: "uint64 \<Rightarrow> clock \<Rightarrow> clock \<times> 'p Event list" where
  "clock_pre_start slot c =
     (if \<not> sentPreStart c \<and> slot < start c
      then (c\<lparr>sentPreStart := True\<rparr>, [CreateEvent EVENT_PERIOD_PRE_START True slot])
      else (c, []))"

definition clock_finish :: "uint64 \<Rightarrow> clock \<Rightarrow> clock \<times> 'p Event list" where
  "clock_finish slot c =
     (if \<not> sentFinish c \<and> finish c \<le> slot
      then (c\<lparr>sentFinish := True\<rparr>, [CreateEvent EVENT_PERIOD_FINISH (isFinishStateTransition c) slot])
      else (c\<lparr>isFinishStateTransition := True\<rparr>, []))"

definition clock_close :: "uint64 \<Rightarrow> clock \<Rightarrow> clock \<times> 'p Event list \<times> bool option" where
  "clock_close slot c =
     (if \<not> sentClose c \<and> closeOut c \<le> slot
      then (c\<lparr>sentClose := True\<rparr>,
            [CreateEvent EVENT_DELAY_CLOSE_PAYOUT (isCloseStateTransition c) slot],
            Some (isCloseStateTransition c))
      else (c\<lparr>isCloseStateTransition := True\<rparr>, [], None))"

definition clock_slot :: "uint64 \<Rightarrow> clock \<Rightarrow> clock \<times> 'p Event list \<times> bool option" where
  "clock_slot slot c =
     (case clock_start slot c of (c1, e1) \<Rightarrow>
      case clock_pre_start slot c1 of (c2, e2) \<Rightarrow>
      case clock_finish slot c2 of (c3, e3) \<Rightarrow>
      case clock_close slot c3 of (c4, e4, post) \<Rightarrow> (c4, e1 @ e2 @ e3 @ e4, post))"

fun loopClock :: "uint64 msg list \<Rightarrow> clock \<Rightarrow> clock \<times> 'p Event list \<times> err option" where
  "loopClock [] c = (c, [], None)"
| "loopClock (m # ms) c =
     (if sentClose c then (c, [], None)
      else case m of
             Done \<Rightarrow> (c, [], None)
           | Failed e \<Rightarrow> (c, [], Some e)
           | Got slot \<Rightarrow>
               (case clock_slot slot c of (c', es, _) \<Rightarrow>
                case loopClock ms c' of (c'', es', e) \<Rightarrow> (c'', es @ es', e)))"

section \<open>The watcher of the payout data\<close>

text \<open>The fields of the on-chain payout account that the watchers read.\<close>

record payout_data =
  Bids :: pubkey
  ValidatorCount :: uint64
  StakerCount :: uint64

record payoutEventInfo =
  bidsAreClosed :: bool
  validatorHasAdded :: bool
  pei_validatorHasWithdrawn :: bool
  postDelayClockPast :: bool
  extraCanceled :: bool
  newData :: payout_data

definition pei_on_validator_has_withdrawn :: "bool \<Rightarrow> payoutEventInfo \<Rightarrow> payoutEventInfo \<times> 'p Event list" where
  "pei_on_validator_has_withdrawn t p =
     (p\<lparr>pei_validatorHasWithdrawn := True\<rparr>, [CreateEvent EVENT_VALIDATOR_HAVE_WITHDRAWN t 0])"

definition pei_on_validator_adding :: "bool \<Rightarrow> payoutEventInfo \<Rightarrow> payoutEventInfo \<times> 'p Event list" where
  "pei_on_validator_adding t p =
     (p\<lparr>validatorHasAdded := True\<rparr>, [CreateEvent EVENT_VALIDATOR_IS_ADDING t 0])"

definition pei_on_bid_closed :: "bool \<Rightarrow> payoutEventInfo \<Rightarrow> payoutEventInfo \<times> 'p Event list" where
  "pei_on_bid_closed t p =
     (p\<lparr>bidsAreClosed := True, extraCanceled := True\<rparr>, [CreateEvent EVENT_BID_CLOSED t 0])"

definition on_post_delay_close :: "bool \<Rightarrow> payoutEventInfo \<Rightarrow> payoutEventInfo" where
  "on_post_delay_close t p = p\<lparr>postDelayClockPast := True\<rparr>"

definition pei_init :: "payout_data \<Rightarrow> payoutEventInfo \<times> 'p Event list" where
  "pei_init d =
     (let p = \<lparr>bidsAreClosed = False, validatorHasAdded = False, pei_validatorHasWithdrawn = False,
               postDelayClockPast = False, extraCanceled = False, newData = d\<rparr>;
          (p1, es) = (if Bids d = Zero then pei_on_bid_closed False p else (p, []))
      in (p1\<lparr>validatorHasAdded := (0 < ValidatorCount d)\<rparr>, es))"

datatype pei_msg = ClockStart bool | ClockPost bool | NewData payout_data

definition pei_clock_start :: "bool \<Rightarrow> payoutEventInfo \<Rightarrow> payoutEventInfo \<times> 'p Event list" where
  "pei_clock_start t p =
     (if \<not> validatorHasAdded p
      then (case pei_on_validator_adding t p of (p1, e1) \<Rightarrow>
              if ValidatorCount (newData p1) = 0
              then (case pei_on_validator_has_withdrawn t p1 of (p2, e2) \<Rightarrow> (p2, e1 @ e2))
              else (p1, e1))
      else (p, []))"

definition pei_clock_post :: "bool \<Rightarrow> payoutEventInfo \<Rightarrow> payoutEventInfo \<times> 'p Event list" where
  "pei_clock_post t p =
     (if \<not> postDelayClockPast p
      then (let p1 = on_post_delay_close t p
            in if \<not> validatorHasAdded p1 \<and> ValidatorCount (newData p1) = 0
               then pei_on_validator_has_withdrawn t p1 else (p1, []))
      else (p, []))"

definition pei_data :: "payout_data \<Rightarrow> payoutEventInfo \<Rightarrow> payoutEventInfo \<times> 'p Event list" where
  "pei_data d p0 =
     (let p = p0\<lparr>newData := d\<rparr>;
          (p1, e1) = (if \<not> bidsAreClosed p \<and> Bids d = Zero then pei_on_bid_closed True p else (p, []));
          (p2, e2) = (if \<not> validatorHasAdded p1 \<and> 0 < ValidatorCount d
                      then pei_on_validator_adding True p1 else (p1, []));
          (p3, e3) = (if validatorHasAdded p2 \<and> \<not> pei_validatorHasWithdrawn p2 \<and> ValidatorCount d = 0
                      then pei_on_validator_has_withdrawn True p2 else (p2, []))
      in (p3, e1 @ e2 @ e3))"

definition pei_step :: "pei_msg \<Rightarrow> payoutEventInfo \<Rightarrow> payoutEventInfo \<times> 'p Event list" where
  "pei_step x p =
     (case x of
        ClockStart t \<Rightarrow> pei_clock_start t p
      | ClockPost t \<Rightarrow> pei_clock_post t p
      | NewData d \<Rightarrow> pei_data d p)"

fun loopPayoutEvent :: "pei_msg msg list \<Rightarrow> payoutEventInfo \<Rightarrow> payoutEventInfo \<times> 'p Event list \<times> err option" where
  "loopPayoutEvent [] p = (p, [], None)"
| "loopPayoutEvent (m # ms) p =
     (if bidsAreClosed p \<and> pei_validatorHasWithdrawn p then (p, [], None)
      else case m of
             Done \<Rightarrow> (p, [], None)
           | Failed e \<Rightarrow> (p, [], Some e)
           | Got x \<Rightarrow>
               (case pei_step x p of (p', es) \<Rightarrow>
                case loopPayoutEvent ms p' of (p'', es', e) \<Rightarrow> (p'', es @ es', e)))"

section \<open>The watchers of the bids and of the stake\<close>

text \<open>The first argument is the answer of BidStatus, the messages are the updates of the bid status.\<close>

fun bid_loop :: "bool msg list \<Rightarrow> 'p Event list \<times> err option" where
  "bid_loop [] = ([], None)"
| "bid_loop (Done # ms) = ([], None)"
| "bid_loop (Failed e # ms) = ([], Some e)"
| "bid_loop (Got isFinal # ms) =
     (if isFinal then ([CreateEvent EVENT_BID_FINAL True 0], None) else bid_loop ms)"

definition loopBidSubIsFinal :: "err + bool \<Rightarrow> bool msg list \<Rightarrow> 'p Event list \<times> err option" where
  "loopBidSubIsFinal bs ms =
     (case bs of
        Inl e \<Rightarrow> ([], Some e)
      | Inr isFinal \<Rightarrow>
          (if isFinal then ([CreateEvent EVENT_BID_FINAL False 0], None) else bid_loop ms))"

datatype stake_msg = StakeData uint64 | StakePost bool

text \<open>The loop runs while neither flag is set; the counter is the staker count last seen.\<close>

fun stake_loop :: "stake_msg msg list \<Rightarrow> uint64 \<Rightarrow> bool \<Rightarrow> bool \<Rightarrow> 'p Event list \<times> err option" where
  "stake_loop [] cnt added removed = ([], None)"
| "stake_loop (m # ms) cnt added removed =
     (if added \<or> removed then ([], None)
      else case m of
             Done \<Rightarrow> ([], None)
           | Failed e \<Rightarrow> ([], Some e)
           | Got (StakeData n) \<Rightarrow>
               (let added' = (added \<or> 0 < n);
                    e1 = (if \<not> added \<and> 0 < n then [CreateEvent EVENT_STAKER_IS_ADDING True 0] else [])
                in if added' \<and> \<not> removed \<and> n = 0
                   then (e1 @ [CreateEvent EVENT_STAKER_HAVE_WITHDRAWN True 0], None)
                   else (case stake_loop ms n added' removed of (es, e) \<Rightarrow> (e1 @ es, e)))
           | Got (StakePost t) \<Rightarrow>
               (if \<not> added \<and> cnt = 0
                then ([CreateEvent EVENT_STAKER_HAVE_WITHDRAWN t 0], None)
                else stake_loop ms cnt added removed))"

definition loopStakeStatus :: "payout_data \<Rightarrow> stake_msg msg list \<Rightarrow> 'p Event list \<times> err option" where
  "loopStakeStatus d ms =
     (if 0 < StakerCount d
      then (case stake_loop ms (StakerCount d) True False of
              (es, e) \<Rightarrow> (CreateEvent EVENT_STAKER_IS_ADDING False 0 # es, e))
      else stake_loop ms (StakerCount d) False False)"

section \<open>What the clock sends\<close>

text \<open>The types still to come for a clock state and the slots ahead of it.\<close>

definition due :: "clock \<Rightarrow> uint64 list \<Rightarrow> EventType list" where
  "due c slots =
     (if \<not> sentPreStart c \<and> slots \<noteq> [] \<and> hd slots < start c then [EVENT_PERIOD_PRE_START] else [])
   @ (if \<not> sentStart c \<and> (\<exists>s \<in> set slots. start c \<le> s) then [EVENT_PERIOD_START] else [])
   @ (if \<not> sentFinish c \<and> (\<exists>s \<in> set slots. finish c \<le> s) then [EVENT_PERIOD_FINISH] else [])
   @ (if \<not> sentClose c \<and> (\<exists>s \<in> set slots. closeOut c \<le> s) then [EVENT_DELAY_CLOSE_PAYOUT] else [])"

definition clock_inv :: "clock \<Rightarrow> uint64 list \<Rightarrow> bool" where
  "clock_inv c slots \<longleftrightarrow> start c \<le> finish c \<and> finish c \<le> closeOut c
     \<and> (sentClose c \<longrightarrow> sentFinish c) \<and> (sentFinish c \<longrightarrow> sentStart c)
     \<and> (sentStart c \<longrightarrow> (\<forall>s \<in> set slots. start c \<le> s))"

definition same_times :: "clock \<Rightarrow> clock \<Rightarrow> bool" where
  "same_times c c' \<longleftrightarrow> start c' = start c \<and> finish c' = finish c \<and> closeOut c' = closeOut c"

lemma clock_start_fields:
  assumes "clock_start slot c = (c', es)"
  shows "same_times c c'" "sentPreStart c' = sentPreStart c" "sentStart c' = (sentStart c \<or> start c \<le> slot)"
    "sentFinish c' = sentFinish c" "sentClose c' = sentClose c"
    "map Type es = (if \<not> sentStart c \<and> start c \<le> slot then [EVENT_PERIOD_START] else [])"
  using assms by (auto simp: clock_start_def same_times_def split: if_splits)

lemma clock_pre_start_fields:
  assumes "clock_pre_start slot c = (c', es)"
  shows "same_times c c'" "sentPreStart c' = (sentPreStart c \<or> slot < start c)" "sentStart c' = sentStart c"
    "sentFinish c' = sentFinish c" "sentClose c' = sentClose c"
    "map Type es = (if \<not> sentPreStart c \<and> slot < start c then [EVENT_PERIOD_PRE_START] else [])"
  using assms by (auto simp: clock_pre_start_def same_times_def split: if_splits)

lemma clock_finish_fields:
  assumes "clock_finish slot c = (c', es)"
  shows "same_times c c'" "sentPreStart c' = sentPreStart c" "sentStart c' = sentStart c"
    "sentFinish c' = (sentFinish c \<or> finish c \<le> slot)" "sentClose c' = sentClose c"
    "map Type es = (if \<not> sentFinish c \<and> finish c \<le> slot then [EVENT_PERIOD_FINISH] else [])"
  using assms by (auto simp: clock_finish_def same_times_def split: if_splits)

lemma clock_close_fields:
  assumes "clock_close slot c = (c', es, post)"
  shows "same_times c c'" "sentPreStart c' = sentPreStart c" "sentStart c' = sentStart c"
    "sentFinish c' = sentFinish c" "sentClose c' = (sentClose c \<or> closeOut c \<le> slot)"
    "post \<noteq> None \<longleftrightarrow> \<not> sentClose c \<and> closeOut c \<le> slot"
    "map Type es = (if \<not> sentClose c \<and> closeOut c \<le> slot then [EVENT_DELAY_CLOSE_PAYOUT] else [])"
  using assms by (auto simp: clock_close_def same_times_def split: if_splits)

lemma clock_slot_fields:
  assumes "clock_slot slot c = (c', es, post)"
  shows "start c' = start c" "finish c' = finish c" "closeOut c' = closeOut c"
    "sentPreStart c' = (sentPreStart c \<or> slot < start c)" "sentStart c' = (sentStart c \<or> start c \<le> slot)"
    "sentFinish c' = (sentFinish c \<or> finish c \<le> slot)" "sentClose c' = (sentClose c \<or> closeOut c \<le> slot)"
    "post \<noteq> None \<longleftrightarrow> \<not> sentClose c \<and> closeOut c \<le> slot"
    "map Type es =
       (if \<not> sentStart c \<and> start c \<le> slot then [EVENT_PERIOD_START] else [])
     @ (if \<not> sentPreStart c \<and> slot < start c then [EVENT_PERIOD_PRE_START] else [])
     @ (if \<not> sentFinish c \<and> finish c \<le> slot then [EVENT_PERIOD_FINISH] else [])
     @ (if \<not> sentClose c \<and> closeOut c \<le> slot then [EVENT_DELAY_CLOSE_PAYOUT] else [])"
proof -
  obtain c1 e1 c2 e2 c3 e3 e4 where st: "clock_start slot c = (c1, e1)"
    "clock_pre_start slot c1 = (c2, e2)" "clock_finish slot c2 = (c3, e3)"
    "clock_close slot c3 = (c', e4, post)" and es: "es = e1 @ e2 @ e3 @ e4"
    using assms by (auto simp: clock_slot_def split: prod.splits)
  note f = clock_start_fields [OF st(1)] clock_pre_start_fields [OF st(2)]
    clock_finish_fields [OF st(3)] clock_close_fields [OF st(4)]
  have t: "same_times c c1" "same_times c c2" "same_times c c3" "same_times c c'"
    using f by (simp_all add: same_times_def)
  show "start c' = start c" "finish c' = finish c" "closeOut c' = closeOut c"
    using t(4) by (simp_all add: same_times_def)
  note eqs = t(1-3) [unfolded same_times_def]
  show "sentPreStart c' = (sentPreStart c \<or> slot < start c)" "sentStart c' = (sentStart c \<or> start c \<le> slot)"
    "sentFinish c' = (sentFinish c \<or> finish c \<le> slot)" "sentClose c' = (sentClose c \<or> closeOut c \<le> slot)"
    "post \<noteq> None \<longleftrightarrow> \<not> sentClose c \<and> closeOut c \<le> slot"
    using f eqs by simp_all
  show "map Type es =
       (if \<not> sentStart c \<and> start c \<le> slot then [EVENT_PERIOD_START] else [])
     @ (if \<not> sentPreStart c \<and> slot < start c then [EVENT_PERIOD_PRE_START] else [])
     @ (if \<not> sentFinish c \<and> finish c \<le> slot then [EVENT_PERIOD_FINISH] else [])
     @ (if \<not> sentClose c \<and> closeOut c \<le> slot then [EVENT_DELAY_CLOSE_PAYOUT] else [])"
    by (simp only: es map_append f eqs)
qed

lemma clock_slot_due:
  assumes inv: "clock_inv c (slot # slots)" and srt: "sorted (slot # slots)"
    and step: "clock_slot slot c = (c', es, post)"
  shows "clock_inv c' slots" and "due c (slot # slots) = map Type es @ due c' slots"
proof -
  note f = clock_slot_fields [OF step]
  have le: "\<And>s. s \<in> set slots \<Longrightarrow> slot \<le> s" using srt by auto
  show "clock_inv c' slots"
    using inv le unfolding clock_inv_def f by (auto intro: order_trans)
  show "due c (slot # slots) = map Type es @ due c' slots"
  proof (cases "start c \<le> slot")
    case True
    moreover from this have "slots \<noteq> [] \<Longrightarrow> \<not> hd slots < start c"
      using le by (metis hd_in_set leD order_trans)
    ultimately show ?thesis
      unfolding due_def f using inv le by (auto simp: clock_inv_def)
  next
    case False
    then have "\<not> finish c \<le> slot" "\<not> closeOut c \<le> slot" "\<not> sentStart c" "\<not> sentFinish c" "\<not> sentClose c"
      using inv by (auto simp: clock_inv_def)
    with False show ?thesis unfolding due_def f by auto
  qed
qed

lemma loopClock_due:
  assumes "clock_inv c slots" and "sorted slots" and "loopClock (map Got slots) c = (c', es, e)"
  shows "map Type es = due c slots \<and> e = None
    \<and> (sentClose c' \<longleftrightarrow> sentClose c \<or> (\<exists>s \<in> set slots. closeOut c \<le> s))"
  using assms
proof (induction slots arbitrary: c es)
  case Nil
  then show ?case by (simp add: due_def)
next
  case (Cons slot slots)
  show ?case
  proof (cases "sentClose c")
    case True
    then have "\<not> hd (slot # slots) < start c" "sentStart c" "sentFinish c"
      using Cons.prems(1) by (auto simp: clock_inv_def)
    with True Cons.prems(3) show ?thesis by (auto simp: due_def)
  next
    case False
    then obtain c1 es1 post es2 where step: "clock_slot slot c = (c1, es1, post)"
      and loop: "loopClock (map Got slots) c1 = (c', es2, e)" and es: "es = es1 @ es2"
      using Cons.prems(3) by (auto split: prod.splits)
    note d = clock_slot_due [OF Cons.prems(1,2) step] and f = clock_slot_fields [OF step]
    have "sorted slots" using Cons.prems(2) by simp
    from Cons.IH [OF d(1) this loop] False show ?thesis by (auto simp: es d(2) f)
  qed
qed

text \<open>
  For a period that does not wrap around and slots that arrive in order, the clock sends
  PRE_START, START, FINISH and DELAY_CLOSE_PAYOUT in this order and each at most once: PRE_START
  exactly when the first slot lies before the start, START, FINISH and DELAY_CLOSE_PAYOUT exactly when
  a slot reaches the start, the last slot of the period and 100 slots after it; after the last of
  them the loop ends.
\<close>

theorem clock_events_in_order:
  assumes "0 < len" and "unat s + unat len + 99 < 2 ^ 64" and "sorted slots"
    and "loopClock (map Got slots) (clock_init s len) = (c, es, e)"
  shows "sorted_wrt (<) (map Type es) \<and> e = None
    \<and> (EVENT_PERIOD_PRE_START \<in> Type ` set es \<longleftrightarrow> slots \<noteq> [] \<and> hd slots < s)
    \<and> (EVENT_PERIOD_START \<in> Type ` set es \<longleftrightarrow> (\<exists>x \<in> set slots. s \<le> x))
    \<and> (EVENT_PERIOD_FINISH \<in> Type ` set es \<longleftrightarrow> (\<exists>x \<in> set slots. s + len - 1 \<le> x))
    \<and> (EVENT_DELAY_CLOSE_PAYOUT \<in> Type ` set es \<longleftrightarrow> (\<exists>x \<in> set slots. s + len + 99 \<le> x))
    \<and> (sentClose c \<longleftrightarrow> (\<exists>x \<in> set slots. s + len + 99 \<le> x))"
proof -
  let ?c = "clock_init s len"
  have pos: "0 < unat len" using assms(1) by (simp add: unat_gt_0)
  have a: "unat (s + len) = unat s + unat len" using assms(2) by (simp add: unat_add64)
  then have f: "unat (s + len - 1) = unat s + unat len - 1" using pos by (simp add: unat_pred64)
  have h: "unat (100 :: uint64) = 100" by simp
  have "unat (s + len - 1 + 100) = unat (s + len - 1) + unat (100 :: uint64)"
    by (rule unat_add64) (use assms(2) f h pos in linarith)
  then have cl: "unat (s + len - 1 + 100) = unat s + unat len + 99" using f h pos by linarith
  have "s \<le> s + len - 1" unfolding word_le_nat_alt f using pos by linarith
  moreover have "s + len - 1 \<le> s + len - 1 + 100" unfolding word_le_nat_alt f cl by linarith
  ultimately have inv: "clock_inv ?c slots"
    by (simp add: clock_inv_def clock_init_def PAYOUT_POST_FINISH_DELAY_def Let_def)
  have flags: "start ?c = s" "finish ?c = s + len - 1" "closeOut ?c = s + len + 99"
    "\<not> sentPreStart ?c" "\<not> sentStart ?c" "\<not> sentFinish ?c" "\<not> sentClose ?c"
    by (simp_all add: clock_init_def PAYOUT_POST_FINISH_DELAY_def Let_def)
  have types: "map Type es = due ?c slots" and cls: "sentClose c \<longleftrightarrow> (\<exists>x \<in> set slots. closeOut ?c \<le> x)"
    and "e = None"
    using loopClock_due [OF inv assms(3,4)] flags(7) by auto
  moreover have "sorted_wrt (<) (map Type es)" unfolding types by (simp add: due_def event_codes)
  moreover have "Type ` set es = set (due ?c slots)" using types by (metis image_set)
  ultimately show ?thesis
    using cls \<open>e = None\<close> flags by (auto simp: due_def event_codes)
qed

theorem clock_events_in_order_witness:
  "\<exists>c es. loopClock (map Got [8, 10, 19, 200]) (clock_init 10 10) = (c, es :: unit Event list, None)
     \<and> sorted_wrt (<) (map Type es) \<and> EVENT_PERIOD_PRE_START \<in> Type ` set es \<and> sentClose c"
proof -
  obtain c es e where r: "loopClock (map Got [8, 10, 19, 200]) (clock_init 10 10) = (c, es :: unit Event list, e)"
    by (metis prod_cases3)
  show ?thesis
    using clock_events_in_order [OF _ _ _ r] r by simp
qed

section \<open>What the watchers send\<close>

lemma stake_loop_stop: "stake_loop ms n True False = ([], None)"
  by (cases ms) auto

lemma stake_loop_exclusive:
  "stake_loop ms n False False = (es, e) \<Longrightarrow> EVENT_STAKER_IS_ADDING \<in> Type ` set es \<Longrightarrow>
     EVENT_STAKER_HAVE_WITHDRAWN \<notin> Type ` set es"
proof (induction ms arbitrary: n es)
  case (Cons m ms)
  show ?case
  proof (cases m)
    case (Got x)
    with Cons show ?thesis
      by (cases x) (auto simp: Let_def event_codes stake_loop_stop split: if_splits prod.splits)
  qed (use Cons.prems in auto)
qed simp

text \<open>
  The stake watcher leaves its loop as soon as a staker has been added, so once it has announced
  that a staker is adding it never announces that the stakers have withdrawn, whatever the data
  later says.
\<close>

theorem staker_withdrawal_missed:
  assumes "loopStakeStatus d ms = (es, e)" and "EVENT_STAKER_IS_ADDING \<in> Type ` set es"
  shows "EVENT_STAKER_HAVE_WITHDRAWN \<notin> Type ` set es"
proof (cases "0 < StakerCount d")
  case True
  with assms(1) have "es = [CreateEvent EVENT_STAKER_IS_ADDING False 0]"
    by (simp add: loopStakeStatus_def stake_loop_stop)
  then show ?thesis by (simp add: event_codes)
next
  case False
  with assms(1) have "stake_loop ms (StakerCount d) False False = (es, e)" by (simp add: loopStakeStatus_def)
  then show ?thesis using assms(2) by (rule stake_loop_exclusive)
qed

theorem staker_withdrawal_missed_witness:
  "EVENT_STAKER_HAVE_WITHDRAWN \<notin> Type ` set (fst (loopStakeStatus
     \<lparr>Bids = ''b'', ValidatorCount = 0, StakerCount = 0\<rparr>
     [Got (StakeData 2), Got (StakeData 0), Got (StakePost True)]) :: unit Event list)"
proof -
  have "loopStakeStatus \<lparr>Bids = ''b'', ValidatorCount = 0, StakerCount = 0\<rparr>
      [Got (StakeData 2), Got (StakeData 0), Got (StakePost True)]
    = ([CreateEvent EVENT_STAKER_IS_ADDING True 0] :: unit Event list, None)"
    by (simp add: loopStakeStatus_def)
  from staker_withdrawal_missed [OF this] this show ?thesis by simp
qed

text \<open>The data watcher announces each of its events at most once; its flags say which.\<close>

definition pei_inv :: "payoutEventInfo \<Rightarrow> 'p Event list \<Rightarrow> bool" where
  "pei_inv p es \<longleftrightarrow>
     times EVENT_BID_CLOSED es = (if bidsAreClosed p then 1 else 0)
   \<and> times EVENT_VALIDATOR_HAVE_WITHDRAWN es = (if pei_validatorHasWithdrawn p then 1 else 0)
   \<and> times EVENT_VALIDATOR_IS_ADDING es \<le> (if validatorHasAdded p then 1 else 0)
   \<and> (pei_validatorHasWithdrawn p \<longrightarrow> validatorHasAdded p \<or> postDelayClockPast p)"

lemmas pei_defs = pei_clock_post_def pei_data_def pei_on_validator_has_withdrawn_def
  pei_on_validator_adding_def pei_on_bid_closed_def on_post_delay_close_def Let_def

lemma pei_data_inv: "pei_inv p es \<Longrightarrow> pei_data d p = (p', es') \<Longrightarrow> pei_inv p' (es @ es')"
  by (auto simp: pei_inv_def pei_defs event_codes split: if_splits prod.splits)

lemma pei_post_inv: "pei_inv p es \<Longrightarrow> pei_clock_post t p = (p', es') \<Longrightarrow> pei_inv p' (es @ es')"
  by (auto simp: pei_inv_def pei_defs event_codes split: if_splits)

lemma pei_loop_inv:
  assumes "pei_inv p es" and "\<forall>t. Got (ClockStart t) \<notin> set ms"
    and "loopPayoutEvent ms p = (p', es', e)"
  shows "pei_inv p' (es @ es')"
  using assms
proof (induction ms arbitrary: p es es')
  case (Cons m ms)
  show ?case
  proof (cases "bidsAreClosed p \<and> pei_validatorHasWithdrawn p")
    case False
    show ?thesis
    proof (cases m)
      case (Got x)
      obtain p1 es1 es2 where r1: "pei_step x p = (p1, es1)"
        and l: "loopPayoutEvent ms p1 = (p', es2, e)" "es' = es1 @ es2"
        using Cons.prems(3) False Got by (auto split: prod.splits)
      have "pei_inv p1 (es @ es1)"
        using Cons.prems(1,2) Got r1 pei_data_inv pei_post_inv
        by (cases x) (auto simp: pei_step_def)
      from Cons.IH [OF this _ l(1)] Cons.prems(2) l(2) show ?thesis by simp
    qed (use Cons.prems False in auto)
  qed (use Cons.prems in auto)
qed auto

text \<open>
  C11. The data watcher announces that the bids are closed, that a validator is adding and that the
  validators have withdrawn at most once each, provided nothing is sent on clockPeriodStartC (the
  clock never does), and it has announced the closed bids and the withdrawal when its loop has
  ended by itself.
\<close>

theorem payout_watcher_announces_once:
  assumes "pei_init d = (p0, es0)" and "\<forall>t. Got (ClockStart t) \<notin> set ms"
    and "loopPayoutEvent ms p0 = (p, es, e)"
  shows "times EVENT_BID_CLOSED (es0 @ es) \<le> 1 \<and> times EVENT_VALIDATOR_IS_ADDING (es0 @ es) \<le> 1
    \<and> times EVENT_VALIDATOR_HAVE_WITHDRAWN (es0 @ es) \<le> 1
    \<and> (bidsAreClosed p \<and> pei_validatorHasWithdrawn p \<longleftrightarrow>
        EVENT_BID_CLOSED \<in> Type ` set (es0 @ es) \<and> EVENT_VALIDATOR_HAVE_WITHDRAWN \<in> Type ` set (es0 @ es))"
proof -
  have "pei_inv p0 es0"
    using assms(1) by (auto simp: pei_init_def pei_inv_def pei_defs event_codes split: if_splits)
  from pei_loop_inv [OF this assms(2,3)]
  show ?thesis unfolding times_pos [symmetric] pei_inv_def by (auto split: if_splits)
qed

theorem payout_watcher_announces_once_witness:
  "\<exists>p0 p es0 es e. pei_init \<lparr>Bids = ''b'', ValidatorCount = 0, StakerCount = 0\<rparr> = (p0, es0 :: unit Event list)
     \<and> loopPayoutEvent [Got (ClockPost True), Got (NewData \<lparr>Bids = Zero, ValidatorCount = 0, StakerCount = 0\<rparr>)] p0 = (p, es, e)
     \<and> times EVENT_BID_CLOSED (es0 @ es) \<le> 1"
proof -
  let ?ms = "[Got (ClockPost True), Got (NewData \<lparr>Bids = Zero, ValidatorCount = 0, StakerCount = 0\<rparr>)]"
  obtain p0 es0 where i: "pei_init \<lparr>Bids = ''b'', ValidatorCount = 0, StakerCount = 0\<rparr> = (p0, es0 :: unit Event list)"
    by fastforce
  obtain p es e where l: "loopPayoutEvent ?ms p0 = (p, es :: unit Event list, e)" by (metis prod_cases3)
  have "times EVENT_BID_CLOSED (es0 @ es) \<le> 1"
    using payout_watcher_announces_once [OF i _ l] by simp
  with i l show ?thesis by blast
qed

end
