(* ===== verification/PayoutSchedule.thy ===== *)
theory PayoutSchedule
  imports PayoutClock LinkedList Subscription
begin

text \<open>
  The payout schedule of scheduler/payout (internal.go, event.go, run.go, payout.go): the state of
  the goroutine, its handlers and its loop. The history is the linked list of the source. The values
  handed to the broadcaster are collected in an outbox, in order; what happens to them afterwards is
  the subject of the subscription theory. Cancel functions are the numbers of their contexts, and a
  cancelled context is recorded.
\<close>

type_synonym pevent = "pubkey Trigger Event"

record internal =
  payout :: pubkey
  hasStarted :: bool
  hasFinished :: bool
  isClockReadyToClose :: bool
  bidIsFinal :: bool
  bidHasClosed :: bool
  validatorAddingHasStarted :: bool
  validatorHasWithdrawn :: bool
  stakerAddingHasStarted :: bool
  stakerAddingIsDone :: bool
  cancelCrank :: "ctx option"
  cancelCloseBid :: "ctx option"
  cancelValidatorSetPayout :: "ctx option"
  cancelValidatorWithdraw :: "ctx option"
  keepPayoutOpen :: bool
  history :: "pevent Generic"
  closeSignalCList :: "nat list"
  outbox :: "pevent list"
  ctx_next :: ctx
  ctx_done :: "ctx list"

definition init_internal :: "pubkey \<Rightarrow> internal" where
  "init_internal p =
     \<lparr>payout = p, hasStarted = False, hasFinished = False, isClockReadyToClose = False,
      bidIsFinal = False, bidHasClosed = False, validatorAddingHasStarted = False,
      validatorHasWithdrawn = False, stakerAddingHasStarted = False, stakerAddingIsDone = False,
      cancelCrank = None, cancelCloseBid = None, cancelValidatorSetPayout = None,
      cancelValidatorWithdraw = None, keepPayoutOpen = True, history = CreateGeneric,
      closeSignalCList = [], outbox = [], ctx_next = 0, ctx_done = []\<rparr>"

definition broadcast :: "pevent \<Rightarrow> internal \<Rightarrow> internal" where
  "broadcast event s =
     s\<lparr>history := snd (LinkedList.Append event (history s)), outbox := outbox s @ [event]\<rparr>"

definition cancel :: "ctx \<Rightarrow> internal \<Rightarrow> internal" where
  "cancel c s = s\<lparr>ctx_done := c # ctx_done s\<rparr>"

text \<open>A fresh context derived from the schedule's own, with its cancel function.\<close>

definition generic_trigger :: "internal \<Rightarrow> pubkey Trigger \<times> ctx \<times> internal" where
  "generic_trigger s =
     (let c = ctx_next s in (\<lparr>Context = Some c, Subject = payout s\<rparr>, c, s\<lparr>ctx_next := Suc c\<rparr>))"

definition run_crank :: "internal \<Rightarrow> internal" where
  "run_crank s =
     (if \<not> hasStarted s then s
      else if bidIsFinal s \<or> bidHasClosed s then s
      else if cancelCrank s \<noteq> None then s
      else (case generic_trigger s of (t, c, s1) \<Rightarrow>
              broadcast (CreateWithPayload TRIGGER_CRANK True 0 t) (s1\<lparr>cancelCrank := Some c\<rparr>)))"

definition run_close_bids :: "internal \<Rightarrow> internal" where
  "run_close_bids s =
     (if bidHasClosed s then s
      else if cancelCloseBid s \<noteq> None then s
      else (case generic_trigger s of (t, c, s1) \<Rightarrow>
              broadcast (CreateWithPayload TRIGGER_CLOSE_BIDS True 0 t) (s1\<lparr>cancelCloseBid := Some c\<rparr>)))"

definition run_close_payout :: "internal \<Rightarrow> internal" where
  "run_close_payout s =
     (if \<not> bidHasClosed s then s
      else if \<not> isClockReadyToClose s then s
      else if \<not> validatorHasWithdrawn s then s
      else (broadcast (CreateWithPayload TRIGGER_CLOSE_PAYOUT True 0 \<lparr>Context = None, Subject = payout s\<rparr>) s)
             \<lparr>keepPayoutOpen := False\<rparr>)"

definition run_validator_set_payout :: "internal \<Rightarrow> internal" where
  "run_validator_set_payout s =
     (if hasStarted s then s
      else if cancelValidatorSetPayout s \<noteq> None then s
      else (case generic_trigger s of (t, c, s1) \<Rightarrow>
              broadcast (CreateWithPayload TRIGGER_VALIDATOR_SET_PAYOUT True 0 t)
                (s1\<lparr>cancelValidatorWithdraw := Some c\<rparr>)))"

definition run_validator_withdraw :: "internal \<Rightarrow> internal" where
  "run_validator_withdraw s =
     (if validatorHasWithdrawn s then s
      else (case generic_trigger s of (t, c, s1) \<Rightarrow>
              broadcast (CreateWithPayload TRIGGER_VALIDATOR_WITHDRAW_RECEIPT True 0 t)
                (s1\<lparr>cancelValidatorWithdraw := Some c\<rparr>)))"

definition on_pre_start :: "internal \<Rightarrow> internal" where
  "on_pre_start s = (if hasStarted s then s else run_validator_set_payout s)"

definition on_start :: "internal \<Rightarrow> internal" where
  "on_start s =
     (let s1 = s\<lparr>hasStarted := True\<rparr>;
          s2 = (case cancelValidatorSetPayout s1 of None \<Rightarrow> s1 | Some c \<Rightarrow> cancel c s1)
      in if \<not> bidIsFinal s2 then run_crank s2 else s2)"

definition on_finish :: "internal \<Rightarrow> internal" where
  "on_finish s =
     (let s1 = (if \<not> hasStarted s then on_start s else s); s2 = s1\<lparr>hasFinished := True\<rparr>
      in if \<not> bidHasClosed s2 then run_close_bids s2 else s2)"

definition on_clock_close_payout :: "internal \<Rightarrow> internal" where
  "on_clock_close_payout s =
     (let s1 = (if \<not> hasFinished s then on_finish s else s)
      in run_close_payout (s1\<lparr>isClockReadyToClose := True\<rparr>))"

definition on_bid_final :: "internal \<Rightarrow> internal" where
  "on_bid_final s =
     (let s1 = s\<lparr>bidIsFinal := True\<rparr>
      in case cancelCrank s1 of None \<Rightarrow> s1 | Some c \<Rightarrow> (cancel c s1)\<lparr>cancelCrank := None\<rparr>)"

definition on_bid_closed :: "internal \<Rightarrow> internal" where
  "on_bid_closed s =
     (let s1 = s\<lparr>bidIsFinal := True, bidHasClosed := True\<rparr>
      in run_close_payout
           (case cancelCloseBid s1 of None \<Rightarrow> s1 | Some c \<Rightarrow> (cancel c s1)\<lparr>cancelCloseBid := None\<rparr>))"

definition on_validator_is_adding :: "internal \<Rightarrow> internal" where
  "on_validator_is_adding s = s\<lparr>validatorAddingHasStarted := True\<rparr>"

definition on_validator_have_withdrawn :: "internal \<Rightarrow> internal" where
  "on_validator_have_withdrawn s =
     run_close_payout (s\<lparr>validatorAddingHasStarted := True, validatorHasWithdrawn := True\<rparr>)"

definition on_staker_is_adding :: "internal \<Rightarrow> internal" where
  "on_staker_is_adding s = s\<lparr>stakerAddingHasStarted := True\<rparr>"

definition on_staker_have_withdrawn :: "internal \<Rightarrow> internal" where
  "on_staker_have_withdrawn s =
     run_validator_withdraw (s\<lparr>stakerAddingHasStarted := True, stakerAddingIsDone := True\<rparr>)"

definition handler :: "EventType \<Rightarrow> (internal \<Rightarrow> internal) option" where
  "handler t =
     (if t = EVENT_PERIOD_PRE_START then Some on_pre_start
      else if t = EVENT_PERIOD_START then Some on_start
      else if t = EVENT_PERIOD_FINISH then Some on_finish
      else if t = EVENT_DELAY_CLOSE_PAYOUT then Some on_clock_close_payout
      else if t = EVENT_BID_CLOSED then Some on_bid_closed
      else if t = EVENT_BID_FINAL then Some on_bid_final
      else if t = EVENT_VALIDATOR_IS_ADDING then Some on_validator_is_adding
      else if t = EVENT_VALIDATOR_HAVE_WITHDRAWN then Some on_validator_have_withdrawn
      else if t = EVENT_STAKER_IS_ADDING then Some on_staker_is_adding
      else if t = EVENT_STAKER_HAVE_WITHDRAWN then Some on_staker_have_withdrawn
      else None)"

definition on_event :: "pevent \<Rightarrow> internal \<Rightarrow> err option \<times> internal" where
  "on_event event s =
     (case handler (Type event) of
        None \<Rightarrow> (Some ''unknown event'', s)
      | Some h \<Rightarrow> (None, if \<not> IsTrigger event then broadcast event (h s) else h s))"

text \<open>
  The loop. A message is the case of the select that fired; a subscription request is answered with
  the history, sent without blocking into the new stream, whose buffer size the request names.
\<close>

fun replay :: "pevent list \<Rightarrow> pevent chan \<Rightarrow> pevent chan" where
  "replay [] c = c"
| "replay (l # ls) c = (case chan_send l c of Some c' \<Rightarrow> replay ls c' | None \<Rightarrow> replay ls c)"

definition serve_history :: "16 word \<Rightarrow> internal \<Rightarrow> pevent chan outcome option" where
  "serve_history bufSize s =
     (case Array (CreateEvent 0 False 0) (history s) of
        None \<Rightarrow> None
      | Some Panic \<Rightarrow> Some Panic
      | Some (Ret ls) \<Rightarrow> Some (Ret (replay ls (make_chan (unat bufSize)))))"

datatype loop_msg = LoopDone | LoopEvent pevent | LoopCloseSignal nat | LoopOther

definition CloseSignal :: "nat \<Rightarrow> internal \<Rightarrow> internal" where
  "CloseSignal c s = s\<lparr>closeSignalCList := closeSignalCList s @ [c]\<rparr>"

fun loopInternal :: "loop_msg list \<Rightarrow> internal \<Rightarrow> err option \<times> internal" where
  "loopInternal [] s = (None, s)"
| "loopInternal (m # ms) s =
     (if \<not> keepPayoutOpen s then (None, s)
      else case m of
             LoopDone \<Rightarrow> (None, s)
           | LoopEvent e \<Rightarrow>
               (case on_event e s of
                  (Some x, s') \<Rightarrow> (Some x, s')
                | (None, s') \<Rightarrow> loopInternal ms s')
           | LoopCloseSignal c \<Rightarrow> loopInternal ms (CloseSignal c s)
           | LoopOther \<Rightarrow> loopInternal ms s)"

text \<open>When the loop has ended, every registered close signal gets the error.\<close>

definition finish :: "err option \<Rightarrow> internal \<Rightarrow> (nat \<times> err option) list" where
  "finish e s = map (\<lambda>c. (c, e)) (closeSignalCList s)"

section \<open>The history\<close>

definition history_inv :: "internal \<Rightarrow> bool" where
  "history_inv s \<longleftrightarrow> list_inv (history s) \<and> contents (history s) = outbox s"

lemma history_broadcast: "history_inv s \<Longrightarrow> history_inv (broadcast e s)"
  by (auto simp: history_inv_def broadcast_def contents_def generic.append_inv generic.append_seq)

lemmas run_defs = run_crank_def run_close_bids_def run_close_payout_def run_validator_set_payout_def
  run_validator_withdraw_def generic_trigger_def Let_def

lemmas on_defs = on_pre_start_def on_start_def on_finish_def on_clock_close_payout_def on_bid_final_def
  on_bid_closed_def on_validator_is_adding_def on_validator_have_withdrawn_def on_staker_is_adding_def
  on_staker_have_withdrawn_def

text \<open>A predicate that ignores everything but history and outbox is kept by the field updates.\<close>

lemma history_frame:
  "history s' = history s \<Longrightarrow> outbox s' = outbox s \<Longrightarrow> history_inv s' = history_inv s"
  by (simp add: history_inv_def)

lemma history_run:
  assumes "history_inv s"
  shows "history_inv (run_crank s)" "history_inv (run_close_bids s)" "history_inv (run_close_payout s)"
    "history_inv (run_validator_set_payout s)" "history_inv (run_validator_withdraw s)"
  using assms history_broadcast
  by (auto simp: run_defs history_frame [of "_\<lparr>keepPayoutOpen := _\<rparr>"]
      history_frame [of "s\<lparr>ctx_next := _, cancelCrank := _\<rparr>" s]
      history_frame [of "s\<lparr>ctx_next := _, cancelCloseBid := _\<rparr>" s]
      history_frame [of "s\<lparr>ctx_next := _, cancelValidatorWithdraw := _\<rparr>" s])

lemma history_set:
  "history_inv (s\<lparr>hasStarted := b\<rparr>) = history_inv s" "history_inv (s\<lparr>hasFinished := b\<rparr>) = history_inv s"
  "history_inv (s\<lparr>isClockReadyToClose := b\<rparr>) = history_inv s" "history_inv (s\<lparr>bidIsFinal := b\<rparr>) = history_inv s"
  "history_inv (s\<lparr>bidHasClosed := b\<rparr>) = history_inv s"
  "history_inv (s\<lparr>validatorAddingHasStarted := b\<rparr>) = history_inv s"
  "history_inv (s\<lparr>validatorHasWithdrawn := b\<rparr>) = history_inv s"
  "history_inv (s\<lparr>stakerAddingHasStarted := b\<rparr>) = history_inv s"
  "history_inv (s\<lparr>stakerAddingIsDone := b\<rparr>) = history_inv s"
  "history_inv (s\<lparr>cancelCrank := x\<rparr>) = history_inv s" "history_inv (s\<lparr>cancelCloseBid := x\<rparr>) = history_inv s"
  "history_inv (cancel c s) = history_inv s" "history_inv (CloseSignal n s) = history_inv s"
  by (simp_all add: history_inv_def cancel_def CloseSignal_def)

lemma history_on:
  assumes "history_inv s" and "handler t = Some h"
  shows "history_inv (h s)"
  using assms
  by (auto simp: handler_def on_defs Let_def history_run history_set split: if_splits option.splits)

lemma history_on_event: "history_inv s \<Longrightarrow> on_event e s = (x, s') \<Longrightarrow> history_inv s'"
  by (auto simp: on_event_def history_on history_broadcast split: option.splits if_splits)

section \<open>When the payout is closed\<close>

definition seen :: "EventType \<Rightarrow> internal \<Rightarrow> bool" where
  "seen t s \<longleftrightarrow> t \<in> Type ` set (outbox s)"

definition view :: "internal \<Rightarrow> bool list \<times> nat" where
  "view s = ([bidHasClosed s, isClockReadyToClose s, validatorHasWithdrawn s, keepPayoutOpen s,
     seen EVENT_BID_CLOSED s, seen EVENT_DELAY_CLOSE_PAYOUT s, seen EVENT_VALIDATOR_HAVE_WITHDRAWN s],
     times TRIGGER_CLOSE_PAYOUT (outbox s))"

lemma view_run [simp]:
  "view (run_crank s) = view s" "view (run_close_bids s) = view s"
  "view (run_validator_set_payout s) = view s" "view (run_validator_withdraw s) = view s"
  by (simp_all add: run_defs view_def seen_def broadcast_def event_codes)

lemma view_set [simp]:
  "view (s\<lparr>hasStarted := b\<rparr>) = view s" "view (s\<lparr>hasFinished := b\<rparr>) = view s" "view (s\<lparr>bidIsFinal := b\<rparr>) = view s"
  "view (s\<lparr>validatorAddingHasStarted := b\<rparr>) = view s" "view (s\<lparr>stakerAddingHasStarted := b\<rparr>) = view s"
  "view (s\<lparr>stakerAddingIsDone := b\<rparr>) = view s" "view (s\<lparr>cancelCrank := x\<rparr>) = view s"
  "view (s\<lparr>cancelCloseBid := x\<rparr>) = view s" "view (cancel c s) = view s" "view (CloseSignal n s) = view s"
  by (simp_all add: view_def seen_def cancel_def CloseSignal_def)

lemma view_on [simp]:
  "view (on_start s) = view s" "view (on_finish s) = view s" "view (on_pre_start s) = view s"
  "view (on_bid_final s) = view s" "view (on_validator_is_adding s) = view s"
  "view (on_staker_is_adding s) = view s" "view (on_staker_have_withdrawn s) = view s"
  by (auto simp: on_defs Let_def split: option.splits)

text \<open>
  Between two events: the flags say which of the three events were broadcast, and the trigger was
  sent, once, exactly when all three are set, which is when the loop stops.
\<close>

definition close_inv :: "internal \<Rightarrow> bool" where
  "close_inv s \<longleftrightarrow>
     (bidHasClosed s \<longleftrightarrow> seen EVENT_BID_CLOSED s)
   \<and> (isClockReadyToClose s \<longleftrightarrow> seen EVENT_DELAY_CLOSE_PAYOUT s)
   \<and> (validatorHasWithdrawn s \<longleftrightarrow> seen EVENT_VALIDATOR_HAVE_WITHDRAWN s)
   \<and> (keepPayoutOpen s \<longleftrightarrow> \<not> (bidHasClosed s \<and> isClockReadyToClose s \<and> validatorHasWithdrawn s))
   \<and> times TRIGGER_CLOSE_PAYOUT (outbox s) = (if keepPayoutOpen s then 0 else 1)"

lemma close_inv_view: "view s = view s' \<Longrightarrow> close_inv s = close_inv s'"
  by (simp add: close_inv_def view_def)

lemma view_fields:
  assumes "view s = view s'"
  shows "bidHasClosed s = bidHasClosed s'" "isClockReadyToClose s = isClockReadyToClose s'"
    "validatorHasWithdrawn s = validatorHasWithdrawn s'" "keepPayoutOpen s = keepPayoutOpen s'"
    "seen EVENT_BID_CLOSED s = seen EVENT_BID_CLOSED s'"
    "seen EVENT_DELAY_CLOSE_PAYOUT s = seen EVENT_DELAY_CLOSE_PAYOUT s'"
    "seen EVENT_VALIDATOR_HAVE_WITHDRAWN s = seen EVENT_VALIDATOR_HAVE_WITHDRAWN s'"
    "times TRIGGER_CLOSE_PAYOUT (outbox s) = times TRIGGER_CLOSE_PAYOUT (outbox s')"
  using assms by (simp_all add: view_def)

lemma broadcast_fields [simp]:
  "bidHasClosed (broadcast e s) = bidHasClosed s" "isClockReadyToClose (broadcast e s) = isClockReadyToClose s"
  "validatorHasWithdrawn (broadcast e s) = validatorHasWithdrawn s"
  "keepPayoutOpen (broadcast e s) = keepPayoutOpen s" "outbox (broadcast e s) = outbox s @ [e]"
  "bidIsFinal (broadcast e s) = bidIsFinal s" "cancelCrank (broadcast e s) = cancelCrank s"
  "cancelCloseBid (broadcast e s) = cancelCloseBid s" "ctx_next (broadcast e s) = ctx_next s"
  "ctx_done (broadcast e s) = ctx_done s" "hasStarted (broadcast e s) = hasStarted s"
  "cancelValidatorSetPayout (broadcast e s) = cancelValidatorSetPayout s"
  by (simp_all add: broadcast_def)

definition all_three :: "internal \<Rightarrow> bool" where
  "all_three s \<longleftrightarrow> bidHasClosed s \<and> isClockReadyToClose s \<and> validatorHasWithdrawn s"

lemma run_close_payout_fields [simp]:
  "bidHasClosed (run_close_payout s) = bidHasClosed s"
  "isClockReadyToClose (run_close_payout s) = isClockReadyToClose s"
  "validatorHasWithdrawn (run_close_payout s) = validatorHasWithdrawn s"
  "keepPayoutOpen (run_close_payout s) = (keepPayoutOpen s \<and> \<not> all_three s)"
  "times TRIGGER_CLOSE_PAYOUT (outbox (run_close_payout s))
     = times TRIGGER_CLOSE_PAYOUT (outbox s) + (if all_three s then 1 else 0)"
  by (simp_all add: run_close_payout_def all_three_def)

lemma run_close_payout_seen:
  "t \<noteq> TRIGGER_CLOSE_PAYOUT \<Longrightarrow> seen t (run_close_payout s) = seen t s"
  by (auto simp: run_close_payout_def seen_def)

lemma seen_broadcast: "seen t (broadcast e s) = (t = Type e \<or> seen t s)"
  by (auto simp: seen_def)

lemma event_codes_neq [simp]:
  "EVENT_BID_CLOSED \<noteq> EVENT_DELAY_CLOSE_PAYOUT" "EVENT_DELAY_CLOSE_PAYOUT \<noteq> EVENT_BID_CLOSED"
  "EVENT_BID_CLOSED \<noteq> EVENT_VALIDATOR_HAVE_WITHDRAWN" "EVENT_VALIDATOR_HAVE_WITHDRAWN \<noteq> EVENT_BID_CLOSED"
  "EVENT_DELAY_CLOSE_PAYOUT \<noteq> EVENT_VALIDATOR_HAVE_WITHDRAWN"
  "EVENT_VALIDATOR_HAVE_WITHDRAWN \<noteq> EVENT_DELAY_CLOSE_PAYOUT"
  "EVENT_BID_CLOSED \<noteq> TRIGGER_CLOSE_PAYOUT" "EVENT_DELAY_CLOSE_PAYOUT \<noteq> TRIGGER_CLOSE_PAYOUT"
  "EVENT_VALIDATOR_HAVE_WITHDRAWN \<noteq> TRIGGER_CLOSE_PAYOUT"
  by (simp_all add: event_codes)

lemma close_inv_cong:
  assumes "view s = view s'" "Type e \<noteq> EVENT_BID_CLOSED" "Type e \<noteq> EVENT_DELAY_CLOSE_PAYOUT"
    "Type e \<noteq> EVENT_VALIDATOR_HAVE_WITHDRAWN" "Type e \<noteq> TRIGGER_CLOSE_PAYOUT"
  shows "close_inv (broadcast e s) = close_inv s'"
proof -
  have "view (broadcast e s) = view s"
    using assms(2-) by (simp add: view_def seen_broadcast)
  then show ?thesis by (intro close_inv_view) (rule trans [OF _ assms(1)])
qed

text \<open>What the three deciding handlers share: the flag of the event is set, then the guards run.\<close>

lemma close_inv_run:
  assumes "keepPayoutOpen s" "times TRIGGER_CLOSE_PAYOUT (outbox s) = 0" "Type e \<noteq> TRIGGER_CLOSE_PAYOUT"
    "bidHasClosed s = (Type e = EVENT_BID_CLOSED \<or> seen EVENT_BID_CLOSED s)"
    "isClockReadyToClose s = (Type e = EVENT_DELAY_CLOSE_PAYOUT \<or> seen EVENT_DELAY_CLOSE_PAYOUT s)"
    "validatorHasWithdrawn s
       = (Type e = EVENT_VALIDATOR_HAVE_WITHDRAWN \<or> seen EVENT_VALIDATOR_HAVE_WITHDRAWN s)"
  shows "close_inv (broadcast e (run_close_payout s))"
  unfolding close_inv_def using assms by (auto simp: seen_broadcast run_close_payout_seen all_three_def)

lemma close_inv_bid_closed:
  assumes "close_inv s" "keepPayoutOpen s" "Type e = EVENT_BID_CLOSED"
  shows "close_inv (broadcast e (on_bid_closed s))"
proof (cases "cancelCloseBid s")
  case None
  then show ?thesis using assms
    by (simp add: on_bid_closed_def Let_def, intro close_inv_run) (auto simp: close_inv_def seen_def)
next
  case (Some c)
  then show ?thesis using assms
    by (simp add: on_bid_closed_def Let_def, intro close_inv_run) (auto simp: close_inv_def seen_def cancel_def)
qed

lemma close_inv_withdrawn:
  assumes "close_inv s" "keepPayoutOpen s" "Type e = EVENT_VALIDATOR_HAVE_WITHDRAWN"
  shows "close_inv (broadcast e (on_validator_have_withdrawn s))"
  unfolding on_validator_have_withdrawn_def
  using assms by (intro close_inv_run) (auto simp: close_inv_def seen_def)

lemma close_inv_clock:
  assumes "close_inv s" "keepPayoutOpen s" "Type e = EVENT_DELAY_CLOSE_PAYOUT"
  shows "close_inv (broadcast e (on_clock_close_payout s))"
proof -
  define s1 where "s1 = (if \<not> hasFinished s then on_finish s else s)"
  have v: "view s1 = view s" by (simp add: s1_def)
  have "close_inv s1" "keepPayoutOpen s1"
    using assms(1,2) close_inv_view [OF v] view_fields(4) [OF v] by simp_all
  then show ?thesis using assms(3) unfolding on_clock_close_payout_def s1_def [symmetric] Let_def
    by (intro close_inv_run) (auto simp: close_inv_def seen_def)
qed

text \<open>Handlers send nothing but triggers; the event itself is broadcast after its handler.\<close>

lemma seen_run:
  assumes "t < thresh"
  shows "seen t (run_crank s) = seen t s" "seen t (run_close_bids s) = seen t s"
    "seen t (run_validator_set_payout s) = seen t s" "seen t (run_validator_withdraw s) = seen t s"
    "seen t (run_close_payout s) = seen t s"
  using assms by (auto simp: run_defs seen_def event_codes)

lemma seen_set [simp]:
  "seen t (s\<lparr>hasStarted := b\<rparr>) = seen t s" "seen t (s\<lparr>hasFinished := b\<rparr>) = seen t s"
  "seen t (s\<lparr>bidIsFinal := b\<rparr>) = seen t s" "seen t (s\<lparr>bidHasClosed := b\<rparr>) = seen t s"
  "seen t (s\<lparr>isClockReadyToClose := b\<rparr>) = seen t s" "seen t (s\<lparr>validatorHasWithdrawn := b\<rparr>) = seen t s"
  "seen t (s\<lparr>validatorAddingHasStarted := b\<rparr>) = seen t s"
  "seen t (s\<lparr>stakerAddingHasStarted := b\<rparr>) = seen t s" "seen t (s\<lparr>stakerAddingIsDone := b\<rparr>) = seen t s"
  "seen t (s\<lparr>cancelCrank := x\<rparr>) = seen t s" "seen t (s\<lparr>cancelCloseBid := x\<rparr>) = seen t s"
  "seen t (cancel c s) = seen t s" "seen t (CloseSignal n s) = seen t s"
  by (simp_all add: seen_def cancel_def CloseSignal_def)

lemma seen_on:
  assumes "t < thresh"
  shows "seen t (on_start s) = seen t s" "seen t (on_finish s) = seen t s" "seen t (on_pre_start s) = seen t s"
    "seen t (on_bid_final s) = seen t s" "seen t (on_validator_is_adding s) = seen t s"
    "seen t (on_staker_is_adding s) = seen t s" "seen t (on_staker_have_withdrawn s) = seen t s"
    "seen t (on_clock_close_payout s) = seen t s" "seen t (on_bid_closed s) = seen t s"
    "seen t (on_validator_have_withdrawn s) = seen t s"
  using assms by (simp_all add: on_defs Let_def seen_run split: option.split)

lemma seen_handler: "handler t = Some h \<Longrightarrow> u < thresh \<Longrightarrow> seen u (h s) = seen u s"
  by (auto simp: handler_def seen_on split: if_splits)

lemma handler_event: "handler t = Some h \<Longrightarrow> t < thresh"
  by (auto simp: handler_def event_codes split: if_splits)

lemma on_event_ok:
  "on_event e s = (None, s') \<longleftrightarrow> (\<exists>h. handler (Type e) = Some h \<and> s' = broadcast e (h s))"
  by (auto simp: on_event_def IsTrigger_def dest: handler_event split: option.split)

lemma handler_cases:
  assumes "handler t = Some h"
  obtains (frame) "\<And>s. view (h s) = view s" "t \<noteq> EVENT_BID_CLOSED" "t \<noteq> EVENT_DELAY_CLOSE_PAYOUT"
      "t \<noteq> EVENT_VALIDATOR_HAVE_WITHDRAWN" "t \<noteq> TRIGGER_CLOSE_PAYOUT"
    | (closed) "t = EVENT_BID_CLOSED" "h = on_bid_closed"
    | (clock) "t = EVENT_DELAY_CLOSE_PAYOUT" "h = on_clock_close_payout"
    | (withdrawn) "t = EVENT_VALIDATOR_HAVE_WITHDRAWN" "h = on_validator_have_withdrawn"
  using assms by (auto simp: handler_def event_codes split: if_splits)

lemma close_inv_on_event:
  assumes "close_inv s" "keepPayoutOpen s" "on_event e s = (None, s')"
  shows "close_inv s'"
proof -
  obtain h where h: "handler (Type e) = Some h" "s' = broadcast e (h s)"
    using assms(3) on_event_ok by blast
  show ?thesis using h(1)
  proof (cases rule: handler_cases)
    case frame
    then show ?thesis using assms(1) h(2) close_inv_cong by simp
  qed (use assms h(2) close_inv_bid_closed close_inv_clock close_inv_withdrawn in auto)
qed

lemma close_inv_init: "close_inv (init_internal p)"
  by (simp add: close_inv_def init_internal_def seen_def)

definition input_events :: "loop_msg list \<Rightarrow> pevent list" where
  "input_events ms = List.map_filter (\<lambda>m. case m of LoopEvent e \<Rightarrow> Some e | _ \<Rightarrow> None) ms"

lemma input_events_simps [simp]:
  "input_events [] = []" "input_events (LoopEvent e # ms) = e # input_events ms"
  "input_events (LoopDone # ms) = input_events ms" "input_events (LoopCloseSignal c # ms) = input_events ms"
  "input_events (LoopOther # ms) = input_events ms"
  by (simp_all add: input_events_def List.map_filter_simps)

lemma loopInternal_close:
  assumes "close_inv s" "\<forall>e\<in>set (input_events ms). handler (Type e) \<noteq> None" "LoopDone \<notin> set ms"
  shows "\<exists>s'. loopInternal ms s = (None, s') \<and> close_inv s'
           \<and> (\<forall>t<thresh. (seen t s' \<longrightarrow> seen t s \<or> t \<in> Type ` set (input_events ms))
                \<and> (keepPayoutOpen s' \<longrightarrow> seen t s \<or> t \<in> Type ` set (input_events ms) \<longrightarrow> seen t s'))"
  using assms
proof (induction ms arbitrary: s)
  case (Cons m ms)
  show ?case
  proof (cases "keepPayoutOpen s")
    case True
    show ?thesis
    proof (cases m)
      case (LoopEvent e)
      then obtain h where h: "handler (Type e) = Some h" using Cons.prems(2) by auto
      have ev: "on_event e s = (None, broadcast e (h s))" using h on_event_ok by blast
      have "close_inv (broadcast e (h s))" by (rule close_inv_on_event [OF Cons.prems(1) True ev])
      from Cons.IH [OF this] Cons.prems LoopEvent True ev h show ?thesis
        by (auto simp: seen_broadcast seen_handler)
    next
      case (LoopCloseSignal c)
      have "close_inv (CloseSignal c s)" using Cons.prems(1) close_inv_view [of "CloseSignal c s" s] by simp
      from Cons.IH [OF this] Cons.prems LoopCloseSignal True show ?thesis by simp
    qed (use Cons True in auto)
  qed (use Cons.prems(1) in auto)
qed auto

section \<open>Triggers that are sent at most once\<close>

text \<open>
  The crank and the closing of the bids follow one pattern: a trigger type, the event that ends its
  window, the field with the cancel function and the flag that says the window is over.
\<close>

definition trigs :: "EventType \<Rightarrow> internal \<Rightarrow> pevent list" where
  "trigs t s = filter (\<lambda>e. Type e = t) (outbox s)"

definition once_inv ::
  "EventType \<Rightarrow> EventType \<Rightarrow> (internal \<Rightarrow> ctx option) \<Rightarrow> (internal \<Rightarrow> bool) \<Rightarrow> internal \<Rightarrow> bool" where
  "once_inv tt et canc over s \<longleftrightarrow>
     (trigs tt s = [] \<and> canc s = None
      \<or> (\<exists>e c. trigs tt s = [e] \<and> Payload e = Some \<lparr>Context = Some c, Subject = payout s\<rparr>
           \<and> (canc s = Some c \<or> canc s = None \<and> over s \<and> c \<in> set (ctx_done s))))
   \<and> (seen et s \<longrightarrow> canc s = None \<and> over s)"

lemma once_frame:
  assumes "once_inv tt et canc over s" "trigs tt s' = trigs tt s" "canc s' = canc s" "seen et s' = seen et s"
    "over s \<longrightarrow> over s'" "set (ctx_done s) \<subseteq> set (ctx_done s')" "payout s' = payout s"
  shows "once_inv tt et canc over s'"
  using assms by (auto simp: once_inv_def)

lemma once_D:
  assumes "once_inv tt et canc over s"
  shows "length (trigs tt s) \<le> 1"
    and "seen et s \<longrightarrow> (\<forall>e\<in>set (trigs tt s). \<exists>c\<in>set (ctx_done s). Payload e = Some \<lparr>Context = Some c, Subject = payout s\<rparr>)"
  using assms by (auto simp: once_inv_def)

lemma once_start:
  assumes "once_inv tt et canc over s" "canc s = None" "\<not> over s" "trigs tt s' = trigs tt s @ [e]"
    "Payload e = Some \<lparr>Context = Some c, Subject = payout s\<rparr>" "canc s' = Some c" "seen et s' = seen et s"
    "payout s' = payout s"
  shows "once_inv tt et canc over s'"
  using assms by (auto simp: once_inv_def)

lemma once_over:
  assumes "once_inv tt et canc over s" "trigs tt s' = trigs tt s" "canc s' = None" "over s'"
    "set (ctx_done s') = set (ctx_done s) \<union> set_option (canc s)" "payout s' = payout s"
  shows "once_inv tt et canc over s'"
  using assms by (auto simp: once_inv_def)

definition crank_inv :: "internal \<Rightarrow> bool" where
  "crank_inv = once_inv TRIGGER_CRANK EVENT_BID_FINAL cancelCrank bidIsFinal"

definition bids_inv :: "internal \<Rightarrow> bool" where
  "bids_inv = once_inv TRIGGER_CLOSE_BIDS EVENT_BID_CLOSED cancelCloseBid bidHasClosed"

lemmas once_defs = crank_inv_def bids_inv_def

lemma trigs_broadcast [simp]: "trigs t (broadcast e s) = (if Type e = t then trigs t s @ [e] else trigs t s)"
  by (simp add: trigs_def)

lemma trigs_update [simp]:
  "trigs t (s\<lparr>ctx_next := n\<rparr>) = trigs t s" "trigs t (s\<lparr>cancelCrank := x\<rparr>) = trigs t s"
  "trigs t (s\<lparr>cancelCloseBid := x\<rparr>) = trigs t s" "trigs t (s\<lparr>cancelValidatorWithdraw := x\<rparr>) = trigs t s"
  "trigs t (s\<lparr>keepPayoutOpen := b\<rparr>) = trigs t s" "trigs t (cancel c s) = trigs t s"
  "trigs t (s\<lparr>hasStarted := b\<rparr>) = trigs t s" "trigs t (s\<lparr>hasFinished := b\<rparr>) = trigs t s"
  "trigs t (s\<lparr>isClockReadyToClose := b\<rparr>) = trigs t s" "trigs t (s\<lparr>bidIsFinal := b\<rparr>) = trigs t s"
  "trigs t (s\<lparr>bidHasClosed := b\<rparr>) = trigs t s" "trigs t (s\<lparr>validatorAddingHasStarted := b\<rparr>) = trigs t s"
  "trigs t (s\<lparr>validatorHasWithdrawn := b\<rparr>) = trigs t s" "trigs t (s\<lparr>stakerAddingHasStarted := b\<rparr>) = trigs t s"
  "trigs t (s\<lparr>stakerAddingIsDone := b\<rparr>) = trigs t s" "trigs t (CloseSignal n s) = trigs t s"
  by (simp_all add: trigs_def cancel_def CloseSignal_def)

lemma broadcast_payout [simp]: "payout (broadcast e s) = payout s"
  by (simp add: broadcast_def)

lemma crank_run_crank: "crank_inv s \<Longrightarrow> crank_inv (run_crank s)"
proof (cases "hasStarted s \<and> \<not> bidIsFinal s \<and> \<not> bidHasClosed s \<and> cancelCrank s = None")
  case True
  assume "crank_inv s"
  then show ?thesis using True seen_run(1) [of EVENT_BID_FINAL s] unfolding crank_inv_def
    by (elim once_start [where c = "ctx_next s"
          and e = "CreateWithPayload TRIGGER_CRANK True 0 \<lparr>Context = Some (ctx_next s), Subject = payout s\<rparr>"])
      (simp_all add: run_defs event_codes)
qed (auto simp: run_crank_def)

lemma crank_run_other:
  assumes "crank_inv s"
  shows "crank_inv (run_close_bids s)" "crank_inv (run_close_payout s)"
    "crank_inv (run_validator_set_payout s)" "crank_inv (run_validator_withdraw s)"
  using assms seen_run [of EVENT_BID_FINAL s] unfolding crank_inv_def
  by (auto elim!: once_frame simp: run_defs event_codes)

lemma bids_run_close_bids: "bids_inv s \<Longrightarrow> bids_inv (run_close_bids s)"
proof (cases "\<not> bidHasClosed s \<and> cancelCloseBid s = None")
  case True
  assume "bids_inv s"
  then show ?thesis using True seen_run(2) [of EVENT_BID_CLOSED s] unfolding bids_inv_def
    by (elim once_start [where c = "ctx_next s"
          and e = "CreateWithPayload TRIGGER_CLOSE_BIDS True 0 \<lparr>Context = Some (ctx_next s), Subject = payout s\<rparr>"])
      (simp_all add: run_defs event_codes)
qed (auto simp: run_close_bids_def)

lemma bids_run_other:
  assumes "bids_inv s"
  shows "bids_inv (run_crank s)" "bids_inv (run_close_payout s)"
    "bids_inv (run_validator_set_payout s)" "bids_inv (run_validator_withdraw s)"
  using assms seen_run [of EVENT_BID_CLOSED s] unfolding bids_inv_def
  by (auto elim!: once_frame simp: run_defs event_codes)

lemma once_set:
  assumes "once_inv tt et canc over s" "canc s' = canc s" "over s \<longrightarrow> over s'" "outbox s' = outbox s"
    "set (ctx_done s) \<subseteq> set (ctx_done s')" "payout s' = payout s"
  shows "once_inv tt et canc over s'"
  by (rule once_frame [OF assms(1)]) (use assms in \<open>auto simp: trigs_def seen_def\<close>)

lemma once_flags [simp]:
  assumes "once_inv tt et canc over s"
  shows "canc = cancelCrank \<or> canc = cancelCloseBid \<Longrightarrow> over = bidIsFinal \<or> over = bidHasClosed
      \<Longrightarrow> once_inv tt et canc over (s\<lparr>hasStarted := b\<rparr>)
        \<and> once_inv tt et canc over (s\<lparr>hasFinished := b\<rparr>)
        \<and> once_inv tt et canc over (s\<lparr>isClockReadyToClose := b\<rparr>)
        \<and> once_inv tt et canc over (s\<lparr>validatorAddingHasStarted := b\<rparr>)
        \<and> once_inv tt et canc over (s\<lparr>validatorHasWithdrawn := b\<rparr>)
        \<and> once_inv tt et canc over (s\<lparr>stakerAddingHasStarted := b\<rparr>)
        \<and> once_inv tt et canc over (s\<lparr>stakerAddingIsDone := b\<rparr>)
        \<and> once_inv tt et canc over (cancel c s)
        \<and> once_inv tt et canc over (CloseSignal n s)
        \<and> once_inv tt et canc over (s\<lparr>bidIsFinal := True\<rparr>)
        \<and> once_inv tt et canc over (s\<lparr>bidHasClosed := True\<rparr>)"
  by (intro conjI; rule once_set [OF assms]; auto simp: cancel_def CloseSignal_def)

lemma crank_flags [simp]:
  "crank_inv s \<Longrightarrow> crank_inv (s\<lparr>hasStarted := b\<rparr>)" "crank_inv s \<Longrightarrow> crank_inv (s\<lparr>hasFinished := b\<rparr>)"
  "crank_inv s \<Longrightarrow> crank_inv (s\<lparr>isClockReadyToClose := b\<rparr>)"
  "crank_inv s \<Longrightarrow> crank_inv (s\<lparr>validatorAddingHasStarted := b\<rparr>)"
  "crank_inv s \<Longrightarrow> crank_inv (s\<lparr>validatorHasWithdrawn := b\<rparr>)"
  "crank_inv s \<Longrightarrow> crank_inv (s\<lparr>stakerAddingHasStarted := b\<rparr>)"
  "crank_inv s \<Longrightarrow> crank_inv (s\<lparr>stakerAddingIsDone := b\<rparr>)" "crank_inv s \<Longrightarrow> crank_inv (cancel c s)"
  "crank_inv s \<Longrightarrow> crank_inv (CloseSignal n s)" "crank_inv s \<Longrightarrow> crank_inv (s\<lparr>bidIsFinal := True\<rparr>)"
  "crank_inv s \<Longrightarrow> crank_inv (s\<lparr>bidHasClosed := True\<rparr>)"
  by (simp_all add: crank_inv_def)

lemma bids_flags [simp]:
  "bids_inv s \<Longrightarrow> bids_inv (s\<lparr>hasStarted := b\<rparr>)" "bids_inv s \<Longrightarrow> bids_inv (s\<lparr>hasFinished := b\<rparr>)"
  "bids_inv s \<Longrightarrow> bids_inv (s\<lparr>isClockReadyToClose := b\<rparr>)"
  "bids_inv s \<Longrightarrow> bids_inv (s\<lparr>validatorAddingHasStarted := b\<rparr>)"
  "bids_inv s \<Longrightarrow> bids_inv (s\<lparr>validatorHasWithdrawn := b\<rparr>)"
  "bids_inv s \<Longrightarrow> bids_inv (s\<lparr>stakerAddingHasStarted := b\<rparr>)"
  "bids_inv s \<Longrightarrow> bids_inv (s\<lparr>stakerAddingIsDone := b\<rparr>)" "bids_inv s \<Longrightarrow> bids_inv (cancel c s)"
  "bids_inv s \<Longrightarrow> bids_inv (CloseSignal n s)" "bids_inv s \<Longrightarrow> bids_inv (s\<lparr>bidIsFinal := True\<rparr>)"
  "bids_inv s \<Longrightarrow> bids_inv (s\<lparr>bidHasClosed := True\<rparr>)"
  by (simp_all add: bids_inv_def)

lemma crank_cancel_fields:
  "crank_inv s \<Longrightarrow> crank_inv (s\<lparr>cancelCloseBid := x\<rparr>)" "bids_inv s \<Longrightarrow> bids_inv (s\<lparr>cancelCrank := x\<rparr>)"
  unfolding once_defs by (erule once_set; simp)+

lemma crank_bid_final: "crank_inv s \<Longrightarrow> crank_inv (on_bid_final s)"
  unfolding crank_inv_def by (erule once_over) (auto simp: on_bid_final_def Let_def cancel_def trigs_def split: option.split)

lemma bid_closed_over:
  assumes "bids_inv s"
  shows "bids_inv (on_bid_closed s)"
  unfolding on_bid_closed_def Let_def
  by (rule bids_run_other(2), insert assms, unfold bids_inv_def, erule once_over)
    (auto simp: cancel_def trigs_def split: option.split)

lemma on_over:
  "cancelCrank (on_bid_final s) = None" "bidIsFinal (on_bid_final s)"
  "cancelCloseBid (on_bid_closed s) = None" "bidHasClosed (on_bid_closed s)"
  by (auto simp: on_bid_final_def on_bid_closed_def Let_def cancel_def run_close_payout_def split: option.split)

lemmas once_rules = crank_run_crank crank_run_other bids_run_close_bids bids_run_other crank_cancel_fields

lemma crank_handler: "crank_inv s \<Longrightarrow> handler t = Some h \<Longrightarrow> crank_inv (h s)"
  using crank_bid_final
  by (auto simp: handler_def on_pre_start_def on_start_def on_finish_def on_clock_close_payout_def
      on_bid_closed_def on_validator_is_adding_def on_validator_have_withdrawn_def on_staker_is_adding_def
      on_staker_have_withdrawn_def Let_def once_rules split: if_splits option.splits)

lemma bids_handler: "bids_inv s \<Longrightarrow> handler t = Some h \<Longrightarrow> bids_inv (h s)"
  using bid_closed_over
  by (auto simp: handler_def on_pre_start_def on_start_def on_finish_def on_clock_close_payout_def
      on_bid_final_def on_validator_is_adding_def on_validator_have_withdrawn_def on_staker_is_adding_def
      on_staker_have_withdrawn_def Let_def once_rules split: if_splits option.splits)

lemma once_broadcast:
  assumes "once_inv tt et canc over s" "Type e \<noteq> tt" "Type e = et \<Longrightarrow> canc s = None \<and> over s"
    "canc (broadcast e s) = canc s" "over (broadcast e s) = over s"
  shows "once_inv tt et canc over (broadcast e s)"
  using assms by (auto simp: once_inv_def seen_broadcast)

lemma once_on_event:
  assumes "crank_inv s" "bids_inv s" "on_event e s = (x, s')"
  shows "crank_inv s' \<and> bids_inv s'"
proof (cases x)
  case None
  then obtain h where h: "handler (Type e) = Some h" "s' = broadcast e (h s)"
    using assms(3) on_event_ok by blast
  have lt: "Type e < thresh" by (rule handler_event [OF h(1)])
  have f: "Type e = EVENT_BID_FINAL \<Longrightarrow> h = on_bid_final" "Type e = EVENT_BID_CLOSED \<Longrightarrow> h = on_bid_closed"
    using h(1) by (auto simp: handler_def event_codes)
  have "crank_inv (broadcast e (h s))" unfolding crank_inv_def
    by (rule once_broadcast) (use crank_handler [OF assms(1) h(1)] lt f on_over in \<open>auto simp: crank_inv_def event_codes\<close>)
  moreover have "bids_inv (broadcast e (h s))" unfolding bids_inv_def
    by (rule once_broadcast) (use bids_handler [OF assms(2) h(1)] lt f on_over in \<open>auto simp: bids_inv_def event_codes\<close>)
  ultimately show ?thesis using h(2) by simp
qed (use assms in \<open>auto simp: on_event_def split: option.splits\<close>)

text \<open>An invariant of the handlers is an invariant of the loop.\<close>

lemma loopInternal_invariant:
  assumes "loopInternal ms s = (x, s')" "I s" "\<And>e s x s'. I s \<Longrightarrow> on_event e s = (x, s') \<Longrightarrow> I s'"
    "\<And>c s. I s \<Longrightarrow> I (CloseSignal c s)"
  shows "I s'"
  using assms(1,2)
proof (induction ms arbitrary: s)
  case (Cons m ms)
  then show ?case
    by (cases "keepPayoutOpen s"; cases m) (auto split: prod.splits option.splits intro: assms(3,4))
qed auto

lemma once_init: "crank_inv (init_internal p) \<and> bids_inv (init_internal p)"
  by (simp add: once_defs once_inv_def trigs_def seen_def init_internal_def)

section \<open>The window to set the payout\<close>

definition setp_ctx :: "internal \<Rightarrow> ctx set" where
  "setp_ctx s = {c. \<exists>e\<in>set (trigs TRIGGER_VALIDATOR_SET_PAYOUT s). \<exists>t. Payload e = Some t \<and> Context t = Some c}"

definition other_ctx :: "internal \<Rightarrow> ctx set" where
  "other_ctx s = set_option (cancelCrank s) \<union> set_option (cancelCloseBid s) \<union> set (ctx_done s)"

text \<open>The cancel function of the set-payout trigger is stored in another field, and never called.\<close>

definition setp_inv :: "internal \<Rightarrow> bool" where
  "setp_inv s \<longleftrightarrow> cancelValidatorSetPayout s = None \<and> (\<forall>c\<in>other_ctx s \<union> setp_ctx s. c < ctx_next s)
     \<and> other_ctx s \<inter> setp_ctx s = {}"

lemma setp_frame:
  assumes "setp_inv s" "cancelValidatorSetPayout s' = None" "ctx_next s \<le> ctx_next s'"
    "other_ctx s' \<subseteq> other_ctx s" "setp_ctx s' = setp_ctx s"
  shows "setp_inv s'"
proof -
  have lt: "\<forall>c\<in>other_ctx s \<union> setp_ctx s. c < ctx_next s" and dj: "other_ctx s \<inter> setp_ctx s = {}"
    using assms(1) by (auto simp: setp_inv_def)
  have "\<forall>c\<in>other_ctx s' \<union> setp_ctx s'. c < ctx_next s"
    using lt assms(4,5) by blast
  then have "\<forall>c\<in>other_ctx s' \<union> setp_ctx s'. c < ctx_next s'"
    using assms(3) by (meson less_le_trans)
  moreover have "other_ctx s' \<inter> setp_ctx s' = {}" using dj assms(4,5) by blast
  ultimately show ?thesis using assms(2) by (simp add: setp_inv_def)
qed

lemma setp_fresh:
  assumes "setp_inv s" "cancelValidatorSetPayout s' = None" "ctx_next s' = Suc (ctx_next s)"
    "other_ctx s' \<subseteq> insert (ctx_next s) (other_ctx s) \<and> setp_ctx s' = setp_ctx s
      \<or> other_ctx s' = other_ctx s \<and> setp_ctx s' = insert (ctx_next s) (setp_ctx s)"
  shows "setp_inv s'"
proof -
  have lt: "\<forall>c\<in>other_ctx s \<union> setp_ctx s. c < ctx_next s" and dj: "other_ctx s \<inter> setp_ctx s = {}"
    using assms(1) by (auto simp: setp_inv_def)
  have new: "ctx_next s \<notin> other_ctx s \<union> setp_ctx s" using lt by auto
  have sub: "other_ctx s' \<union> setp_ctx s' \<subseteq> insert (ctx_next s) (other_ctx s \<union> setp_ctx s)"
    using assms(4) by auto
  have "other_ctx s' \<inter> setp_ctx s' = {}" using assms(4) dj new by auto
  moreover have "\<forall>c\<in>other_ctx s' \<union> setp_ctx s'. c < ctx_next s'" using lt sub assms(3) by (auto simp: less_Suc_eq)
  ultimately show ?thesis using assms(2) by (simp add: setp_inv_def)
qed

lemma setp_ctx_broadcast:
  "setp_ctx (broadcast e s) = (if Type e = TRIGGER_VALIDATOR_SET_PAYOUT
     then setp_ctx s \<union> {c. \<exists>t. Payload e = Some t \<and> Context t = Some c} else setp_ctx s)"
  by (auto simp: setp_ctx_def)

lemma setp_ctx_update [simp]:
  "setp_ctx (s\<lparr>ctx_next := n\<rparr>) = setp_ctx s" "setp_ctx (s\<lparr>cancelCrank := x\<rparr>) = setp_ctx s"
  "setp_ctx (s\<lparr>cancelCloseBid := x\<rparr>) = setp_ctx s" "setp_ctx (s\<lparr>cancelValidatorWithdraw := x\<rparr>) = setp_ctx s"
  "setp_ctx (s\<lparr>keepPayoutOpen := b\<rparr>) = setp_ctx s"
  by (simp_all add: setp_ctx_def)

lemma setp_none: "setp_inv s \<Longrightarrow> cancelValidatorSetPayout s = None"
  by (simp add: setp_inv_def)

lemma setp_run_crank: "setp_inv s \<Longrightarrow> setp_inv (run_crank s)"
  by (cases "hasStarted s \<and> \<not> bidIsFinal s \<and> \<not> bidHasClosed s \<and> cancelCrank s = None")
    (frule setp_none, erule setp_fresh, auto simp: run_crank_def generic_trigger_def Let_def setp_none setp_ctx_broadcast other_ctx_def event_codes)

lemma setp_run_close_bids: "setp_inv s \<Longrightarrow> setp_inv (run_close_bids s)"
  by (cases "\<not> bidHasClosed s \<and> cancelCloseBid s = None")
    (frule setp_none, erule setp_fresh, auto simp: run_close_bids_def generic_trigger_def Let_def setp_none setp_ctx_broadcast other_ctx_def event_codes)

lemma setp_run_validator_set_payout: "setp_inv s \<Longrightarrow> setp_inv (run_validator_set_payout s)"
  by (cases "hasStarted s")
    (simp add: run_validator_set_payout_def, frule setp_none, erule setp_fresh,
      auto simp: run_validator_set_payout_def generic_trigger_def Let_def setp_none setp_ctx_broadcast other_ctx_def)

lemma setp_run_validator_withdraw: "setp_inv s \<Longrightarrow> setp_inv (run_validator_withdraw s)"
  by (cases "validatorHasWithdrawn s")
    (simp add: run_validator_withdraw_def, frule setp_none, erule setp_fresh,
      auto simp: run_validator_withdraw_def generic_trigger_def Let_def setp_none setp_ctx_broadcast other_ctx_def event_codes)

lemma setp_run_close_payout: "setp_inv s \<Longrightarrow> setp_inv (run_close_payout s)"
  by (frule setp_none, erule setp_frame) (auto simp: run_close_payout_def setp_none setp_ctx_broadcast other_ctx_def event_codes)

lemmas setp_run = setp_run_crank setp_run_close_bids setp_run_validator_set_payout setp_run_validator_withdraw
  setp_run_close_payout

lemma setp_set:
  assumes "setp_inv s"
  shows "setp_inv (s\<lparr>hasStarted := b\<rparr>)" "setp_inv (s\<lparr>hasFinished := b\<rparr>)" "setp_inv (s\<lparr>isClockReadyToClose := b\<rparr>)"
    "setp_inv (s\<lparr>bidIsFinal := b\<rparr>)" "setp_inv (s\<lparr>bidHasClosed := b\<rparr>)" "setp_inv (s\<lparr>validatorAddingHasStarted := b\<rparr>)"
    "setp_inv (s\<lparr>validatorHasWithdrawn := b\<rparr>)" "setp_inv (s\<lparr>stakerAddingHasStarted := b\<rparr>)"
    "setp_inv (s\<lparr>stakerAddingIsDone := b\<rparr>)" "setp_inv (CloseSignal n s)"
  using assms by (simp_all add: setp_inv_def setp_ctx_def other_ctx_def CloseSignal_def trigs_def)

lemma setp_cancel:
  assumes "setp_inv s"
  shows "cancelCrank s = Some c \<Longrightarrow> setp_inv ((cancel c s)\<lparr>cancelCrank := None\<rparr>)"
    "cancelCloseBid s = Some c \<Longrightarrow> setp_inv ((cancel c s)\<lparr>cancelCloseBid := None\<rparr>)"
  using assms by (auto simp: setp_inv_def setp_ctx_def other_ctx_def cancel_def trigs_def)

lemma setp_start: "setp_inv s \<Longrightarrow> setp_inv (on_start s)"
  using setp_set(1) [of s True]
  by (auto simp: on_start_def Let_def setp_run setp_none)

lemma setp_handler:
  assumes "setp_inv s" "handler t = Some h"
  shows "setp_inv (h s)"
  using assms
  by (auto simp: handler_def on_pre_start_def on_finish_def on_clock_close_payout_def on_bid_final_def
      on_bid_closed_def on_validator_is_adding_def on_validator_have_withdrawn_def on_staker_is_adding_def
      on_staker_have_withdrawn_def Let_def setp_run setp_set setp_cancel setp_start split: if_splits option.splits)

lemma setp_on_event:
  assumes "setp_inv s" "on_event e s = (x, s')"
  shows "setp_inv s'"
proof (cases x)
  case None
  then obtain h where h: "handler (Type e) = Some h" "s' = broadcast e (h s)"
    using assms(2) on_event_ok by blast
  show ?thesis unfolding h(2)
    by (rule setp_frame [OF setp_handler [OF assms(1) h(1)]])
      (use setp_handler [OF assms(1) h(1)] handler_event [OF h(1)]
        in \<open>auto simp: setp_inv_def setp_ctx_def other_ctx_def event_codes\<close>)
qed (use assms in \<open>auto simp: on_event_def split: option.splits\<close>)

lemma setp_init: "setp_inv (init_internal p)"
  by (simp add: setp_inv_def setp_ctx_def other_ctx_def init_internal_def trigs_def)

section \<open>Subscribers that come late\<close>

lemma replay_take: "cbuf (replay ls c) = cbuf c @ take (ccap c - length (cbuf c)) ls \<and> ccap (replay ls c) = ccap c"
proof (induction ls arbitrary: c)
  case (Cons l ls)
  then show ?case
    by (cases "length (cbuf c) < ccap c") (auto simp: chan_send_def take_Cons' split: option.split)
qed simp

lemma replay_make: "replay ls (make_chan n) = \<lparr>cbuf = take n ls, ccap = n\<rparr>"
  using replay_take [of ls "make_chan n"] by (auto simp: make_chan_def)

lemma history_init: "history_inv (init_internal p)"
  by (simp add: history_inv_def init_internal_def generic.create_inv generic.create_seq contents_def)

lemma history_loop: "loopInternal ms (init_internal p) = (x, s) \<Longrightarrow> history_inv s"
  by (erule loopInternal_invariant [where I = history_inv, OF _ history_init])
    (simp_all add: history_on_event history_set)

definition ev :: "EventType \<Rightarrow> pevent" where
  "ev t = CreateEvent t True 0"

definition demo_events :: "loop_msg list" where
  "demo_events = map (LoopEvent \<circ> ev)
     [EVENT_PERIOD_PRE_START, EVENT_PERIOD_START, EVENT_BID_FINAL, EVENT_PERIOD_FINISH, EVENT_BID_CLOSED,
      EVENT_STAKER_HAVE_WITHDRAWN, EVENT_VALIDATOR_HAVE_WITHDRAWN, EVENT_DELAY_CLOSE_PAYOUT]"

definition demo_end :: internal where
  "demo_end = snd (loopInternal demo_events (init_internal ''P''))"

lemma demo_loop: "loopInternal demo_events (init_internal ''P'') = (fst (loopInternal demo_events (init_internal ''P'')), demo_end)"
  by (simp add: demo_end_def)

lemma demo_outbox:
  "map (\<lambda>e. (Type e, map_option Context (Payload e))) (outbox demo_end) =
     [(TRIGGER_VALIDATOR_SET_PAYOUT, Some (Some 0)), (EVENT_PERIOD_PRE_START, None), (TRIGGER_CRANK, Some (Some 1)),
      (EVENT_PERIOD_START, None), (EVENT_BID_FINAL, None), (TRIGGER_CLOSE_BIDS, Some (Some 2)),
      (EVENT_PERIOD_FINISH, None), (EVENT_BID_CLOSED, None), (TRIGGER_VALIDATOR_WITHDRAW_RECEIPT, Some (Some 3)),
      (EVENT_STAKER_HAVE_WITHDRAWN, None), (EVENT_VALIDATOR_HAVE_WITHDRAWN, None),
      (TRIGGER_CLOSE_PAYOUT, Some None), (EVENT_DELAY_CLOSE_PAYOUT, None)]"
  by code_simp

lemma demo_ctx_done: "ctx_done demo_end = [2, 1]"
  by code_simp

section \<open>Properties\<close>

text \<open>
  C9. The schedule of a payout announces that the payout can be closed exactly when the bids are
  closed, the validators have withdrawn and the delay after the finish has passed, in whatever order
  the three happened and whatever else came between them; it announces it once, and the loop ends
  with it. Until then the loop goes on. This is for every sequence of known events with no
  cancellation of the schedule's context.
\<close>

theorem payout_closed_when_all_three_happened:
  assumes "\<forall>e\<in>set (input_events ms). handler (Type e) \<noteq> None" and "LoopDone \<notin> set ms"
  shows "\<exists>s. loopInternal ms (init_internal p) = (None, s)
           \<and> (keepPayoutOpen s \<longleftrightarrow>
                \<not> {EVENT_BID_CLOSED, EVENT_DELAY_CLOSE_PAYOUT, EVENT_VALIDATOR_HAVE_WITHDRAWN}
                     \<subseteq> Type ` set (input_events ms))
           \<and> times TRIGGER_CLOSE_PAYOUT (outbox s) = (if keepPayoutOpen s then 0 else 1)"
proof -
  have none: "\<not> seen t (init_internal p)" for t by (simp add: seen_def init_internal_def)
  have lt: "EVENT_BID_CLOSED < thresh" "EVENT_DELAY_CLOSE_PAYOUT < thresh"
    "EVENT_VALIDATOR_HAVE_WITHDRAWN < thresh" by (simp_all add: event_codes)
  obtain s where s: "loopInternal ms (init_internal p) = (None, s)" "close_inv s"
    and sub: "\<And>t. t < thresh \<Longrightarrow> seen t s \<Longrightarrow> t \<in> Type ` set (input_events ms)"
    and sup: "\<And>t. t < thresh \<Longrightarrow> keepPayoutOpen s \<Longrightarrow> t \<in> Type ` set (input_events ms) \<Longrightarrow> seen t s"
    using loopInternal_close [OF close_inv_init [of p] assms] none by blast
  have "keepPayoutOpen s \<longleftrightarrow>
      \<not> {EVENT_BID_CLOSED, EVENT_DELAY_CLOSE_PAYOUT, EVENT_VALIDATOR_HAVE_WITHDRAWN} \<subseteq> Type ` set (input_events ms)"
    using s(2) sub [OF lt(1)] sub [OF lt(2)] sub [OF lt(3)] sup [OF lt(1)] sup [OF lt(2)] sup [OF lt(3)]
    unfolding close_inv_def by blast
  then show ?thesis using s by (auto simp: close_inv_def)
qed

lemma demo_input:
  "map Type (input_events demo_events) =
     [EVENT_PERIOD_PRE_START, EVENT_PERIOD_START, EVENT_BID_FINAL, EVENT_PERIOD_FINISH, EVENT_BID_CLOSED,
      EVENT_STAKER_HAVE_WITHDRAWN, EVENT_VALIDATOR_HAVE_WITHDRAWN, EVENT_DELAY_CLOSE_PAYOUT]
   \<and> (\<forall>e\<in>set (input_events demo_events). handler (Type e) \<noteq> None) \<and> LoopDone \<notin> set demo_events"
  by code_simp

theorem payout_closed_when_all_three_happened_witness:
  "\<exists>s. loopInternal demo_events (init_internal ''P'') = (None, s) \<and> \<not> keepPayoutOpen s
     \<and> times TRIGGER_CLOSE_PAYOUT (outbox s) = 1"
proof -
  have "{EVENT_BID_CLOSED, EVENT_DELAY_CLOSE_PAYOUT, EVENT_VALIDATOR_HAVE_WITHDRAWN}
      \<subseteq> set (map Type (input_events demo_events))"
    by (simp only: demo_input [THEN conjunct1]) simp
  then show ?thesis using payout_closed_when_all_three_happened [of demo_events "''P''"] demo_input by auto
qed

text \<open>
  C10. The triggers to crank and to close the bids are sent at most once in the life of a schedule,
  about its own payout, however often the events repeat; once the bids are final, the context of
  the crank trigger has been cancelled, and once they are closed, that of the closing trigger.
\<close>

theorem crank_and_close_bids_once:
  assumes "loopInternal ms (init_internal p) = (x, s)"
  shows "times TRIGGER_CRANK (outbox s) \<le> 1 \<and> times TRIGGER_CLOSE_BIDS (outbox s) \<le> 1
    \<and> (seen EVENT_BID_FINAL s \<longrightarrow> (\<forall>e\<in>set (trigs TRIGGER_CRANK s). \<exists>c\<in>set (ctx_done s).
          Payload e = Some \<lparr>Context = Some c, Subject = payout s\<rparr>))
    \<and> (seen EVENT_BID_CLOSED s \<longrightarrow> (\<forall>e\<in>set (trigs TRIGGER_CLOSE_BIDS s). \<exists>c\<in>set (ctx_done s).
          Payload e = Some \<lparr>Context = Some c, Subject = payout s\<rparr>))"
proof -
  have "crank_inv s \<and> bids_inv s"
    by (rule loopInternal_invariant [OF assms, where I = "\<lambda>s. crank_inv s \<and> bids_inv s"])
      (rule once_init, blast intro: once_on_event [THEN conjunct1] once_on_event [THEN conjunct2], simp)
  then show ?thesis using once_D unfolding once_defs times_def trigs_def [symmetric] by blast
qed

theorem crank_and_close_bids_once_witness:
  "times TRIGGER_CRANK (outbox demo_end) \<le> 1 \<and> times TRIGGER_CLOSE_BIDS (outbox demo_end) \<le> 1"
  using crank_and_close_bids_once [OF demo_loop] by simp

text \<open>
  The context of a trigger to set the payout is never cancelled while the schedule runs: the
  cancel function is stored in the field for the withdrawal, and the field that on_start looks at
  stays empty. A validator that waits for that context, as the comment of the trigger tells it to,
  waits until the whole schedule ends.
\<close>

theorem set_payout_window_never_closed:
  assumes "loopInternal ms (init_internal p) = (x, s)" and "e \<in> set (outbox s)"
    and "Type e = TRIGGER_VALIDATOR_SET_PAYOUT" and "Payload e = Some \<lparr>Context = Some c, Subject = i\<rparr>"
  shows "c \<notin> set (ctx_done s)"
proof -
  have "setp_inv s"
    by (rule loopInternal_invariant [OF assms(1), where I = setp_inv, OF setp_init])
      (simp_all add: setp_on_event setp_set)
  moreover have "c \<in> setp_ctx s" using assms(2-4) by (auto simp: setp_ctx_def trigs_def)
  ultimately show ?thesis by (auto simp: setp_inv_def other_ctx_def)
qed

lemma demo_set_payout:
  "outbox demo_end ! 0 = CreateWithPayload TRIGGER_VALIDATOR_SET_PAYOUT True 0 \<lparr>Context = Some 0, Subject = ''P''\<rparr>
   \<and> length (outbox demo_end) = 13"
  by code_simp

theorem set_payout_window_never_closed_witness: "seen EVENT_PERIOD_START demo_end \<and> 0 \<notin> set (ctx_done demo_end)"
proof
  show "seen EVENT_PERIOD_START demo_end" by code_simp
  show "0 \<notin> set (ctx_done demo_end)"
    by (rule set_payout_window_never_closed [OF demo_loop nth_mem [of 0]])
      (simp_all add: demo_set_payout)
qed

text \<open>
  A subscriber that joins late is sent the history before anything else: the events broadcast so
  far, in order, but only as many as its channel holds. What does not fit is dropped without an
  error, and the newest events are the ones lost.
\<close>

theorem late_subscriber_gets_first_events:
  assumes "loopInternal ms (init_internal p) = (x, s)" and "length (outbox s) < 2 ^ 32"
  shows "serve_history n s = Some (Ret \<lparr>cbuf = take (unat n) (outbox s), ccap = unat n\<rparr>)"
proof -
  have h: "list_inv (history s)" "contents (history s) = outbox s"
    using history_loop [OF assms(1)] by (simp_all add: history_inv_def)
  have "length (items (history s)) < 2 ^ 32" using assms(2) h(2) [symmetric] by (simp add: contents_def)
  then show ?thesis using array_contents [OF h(1)] h(2) by (simp add: serve_history_def replay_make)
qed

theorem late_subscriber_gets_first_events_witness:
  "\<exists>c. serve_history 10 demo_end = Some (Ret c) \<and> TRIGGER_CLOSE_PAYOUT \<notin> Type ` set (cbuf c)"
proof -
  have "serve_history 10 demo_end = Some (Ret \<lparr>cbuf = take 10 (outbox demo_end), ccap = 10\<rparr>)"
    using late_subscriber_gets_first_events [OF demo_loop, of 10] by (simp add: demo_set_payout)
  moreover have "TRIGGER_CLOSE_PAYOUT \<notin> Type ` set (take 10 (outbox demo_end))" by code_simp
  ultimately show ?thesis by simp
qed

end
