(* ===== verification/PipelineSchedule.thy ===== *)
theory PipelineSchedule
  imports Scheduler
begin

text \<open>
  The pipeline schedule of scheduler/pipeline (internal.go, pipeline.go): the goroutine that asks for
  a new period to be appended whenever the last known period ends within the look-ahead, the
  goroutines it starts for each new period, and those that wait for an append to be over. They meet
  on two channels, eventC with room for one event and deleteCancelC without a buffer, so the model is
  a transition system over all of them; a label says which goroutine moves. Slots, periods and the
  look-ahead come from outside. The subscribers of the schedule are left to the broadcaster.
\<close>

section \<open>Data\<close>

record Period =
  p_start :: uint64
  p_length :: uint64
  p_blank :: bool

record PeriodRing =
  pr_ring :: "Period list"
  pr_start :: uint16
  pr_length :: uint16

record TriggerAppend =
  ta_context :: ctx
  ta_pipeline :: pubkey
  ta_start :: uint64

type_synonym aevent = "TriggerAppend Event"

definition SLOT_TOO_CLOSE_THRESHOLD :: uint64 where
  "SLOT_TOO_CLOSE_THRESHOLD = 50"

section \<open>A goroutine per period\<close>

text \<open>Where a loopPeriod goroutine stands: at the loop head, at one of its sends, or at its end.\<close>

datatype period_pc = AtLoop | SendStart uint64 | SendFinish | PeriodEnded

record period_loop =
  pl_start :: uint64
  pl_finish :: uint64
  pl_hasStarted :: bool
  pl_startIsStateChange :: bool
  pl_finishIsStateChange :: bool
  pl_slot :: uint64
  pl_pc :: period_pc

definition loopPeriod_init :: "Period \<Rightarrow> period_loop" where
  "loopPeriod_init pwd =
     \<lparr>pl_start = p_start pwd, pl_finish = p_start pwd + p_length pwd - 1, pl_hasStarted = False,
      pl_startIsStateChange = False, pl_finishIsStateChange = False, pl_slot = 0, pl_pc = AtLoop\<rparr>"

text \<open>The loop condition and, when it fails, the code after the loop.\<close>

definition loopPeriod_exit :: "period_loop \<Rightarrow> period_loop option" where
  "loopPeriod_exit t =
     (if pl_pc t = AtLoop \<and> \<not> pl_finish t \<le> pl_slot t then Some (t\<lparr>pl_pc := SendFinish\<rparr>) else None)"

definition loopPeriod_after_start :: "period_loop \<Rightarrow> period_loop" where
  "loopPeriod_after_start t =
     (if pl_slot t < pl_finish t then t\<lparr>pl_finishIsStateChange := True, pl_pc := AtLoop\<rparr> else t\<lparr>pl_pc := AtLoop\<rparr>)"

text \<open>One turn of the loop: a slot is read and the start of the period announced or not.\<close>

definition loopPeriod_slot :: "uint64 \<Rightarrow> period_loop \<Rightarrow> period_loop option" where
  "loopPeriod_slot s t =
     (if pl_pc t = AtLoop \<and> pl_finish t \<le> pl_slot t then
        let t1 = t\<lparr>pl_slot := s\<rparr> in
        if \<not> pl_hasStarted t \<and> pl_start t \<le> s
        then Some (t1\<lparr>pl_hasStarted := True, pl_pc := SendStart s\<rparr>)
        else Some (loopPeriod_after_start (t1\<lparr>pl_startIsStateChange := True\<rparr>))
      else None)"

text \<open>What a goroutine offers on eventC, and its state once the event has been taken.\<close>

definition loopPeriod_send :: "period_loop \<Rightarrow> (aevent \<times> period_loop) option" where
  "loopPeriod_send t =
     (case pl_pc t of
        SendStart s \<Rightarrow> Some (CreateEvent EVENT_PERIOD_START (pl_startIsStateChange t) s, loopPeriod_after_start t)
      | SendFinish \<Rightarrow>
          Some (CreateEvent EVENT_PERIOD_FINISH (pl_finishIsStateChange t) (pl_slot t), t\<lparr>pl_pc := PeriodEnded\<rparr>)
      | _ \<Rightarrow> None)"

section \<open>Goroutines that wait for an append\<close>

datatype waiter = WaitAppend ctx uint64 | SendDelete uint64 | WaitEnded

definition loopWaitAppend_wake :: "ctx list \<Rightarrow> waiter \<Rightarrow> waiter option" where
  "loopWaitAppend_wake done w =
     (case w of WaitAppend c start \<Rightarrow> (if c \<in> set done then Some (SendDelete start) else None) | _ \<Rightarrow> None)"

section \<open>The schedule\<close>

datatype main = Idle | PeriodAt PeriodRing uint16 | Sending aevent main

record sched =
  pipeline :: pubkey
  slot :: uint64
  lastPeriodStart :: uint64
  lastPeriodFinish :: uint64
  lastSentAppend :: uint64
  lookAhead :: uint64
  cancelAppend :: "ctx option"
  main_pc :: main
  eventC :: "aevent chan"
  period_loops :: "period_loop list"
  waiters :: "waiter list"
  outbox :: "aevent list"
  ctx_next :: ctx
  ctx_done :: "ctx list"
  panicked :: bool

definition append_cancel :: "sched \<Rightarrow> sched" where
  "append_cancel s =
     (case cancelAppend s of None \<Rightarrow> s | Some c \<Rightarrow> s\<lparr>ctx_done := c # ctx_done s, cancelAppend := None\<rparr>)"

definition CreateTrigger :: "uint64 \<Rightarrow> sched \<Rightarrow> TriggerAppend \<times> ctx \<times> sched" where
  "CreateTrigger start s =
     (let c = ctx_next s in (\<lparr>ta_context = c, ta_pipeline = pipeline s, ta_start = start\<rparr>, c, s\<lparr>ctx_next := Suc c\<rparr>))"

definition append_start :: "sched \<Rightarrow> uint64" where
  "append_start s =
     (let last = lastPeriodFinish s + 1; start = (if slot s < last then last else slot s)
      in if start - slot s < SLOT_TOO_CLOSE_THRESHOLD then 0 else start)"

text \<open>Go on with \<open>k\<close> after the call: at once, or after the send on eventC.\<close>

definition on_latest :: "main \<Rightarrow> sched \<Rightarrow> sched" where
  "on_latest k s =
     (if slot s = 0 then s\<lparr>main_pc := k\<rparr>
      else if cancelAppend s = None \<and> lastPeriodFinish s < slot s + lookAhead s then
        let start = append_start s in
        case CreateTrigger start (s\<lparr>lastSentAppend := lastPeriodFinish s + 1\<rparr>) of
          (trigger, cancel, s1) \<Rightarrow>
            s1\<lparr>cancelAppend := Some cancel, waiters := waiters s1 @ [WaitAppend (ta_context trigger) start],
               main_pc := Sending (CreateWithPayload TRIGGER_PERIOD_APPEND True (slot s) trigger) k\<rparr>
      else s\<lparr>main_pc := k\<rparr>)"

definition on_period :: "PeriodRing \<Rightarrow> sched \<Rightarrow> sched" where
  "on_period pr s = (append_cancel s)\<lparr>main_pc := PeriodAt pr 0\<rparr>"

text \<open>One turn of the loop over the ring.\<close>

definition on_period_step :: "PeriodRing \<Rightarrow> uint16 \<Rightarrow> sched \<Rightarrow> sched" where
  "on_period_step pr i s =
     (let n = of_nat (length (pr_ring pr)) :: uint16 in
      if \<not> i < pr_length pr then s\<lparr>main_pc := Idle\<rparr>
      else if n = 0 then s\<lparr>panicked := True\<rparr>
      else
        let pwd = pr_ring pr ! unat ((i + pr_start pr) mod n); k = PeriodAt pr (i + 1) in
        if \<not> p_blank pwd \<and> lastPeriodStart s < p_start pwd
        then on_latest k (s\<lparr>lastPeriodStart := p_start pwd, lastPeriodFinish := p_start pwd + p_length pwd - 1,
                            period_loops := period_loops s @ [loopPeriod_init pwd]\<rparr>)
        else s\<lparr>main_pc := k\<rparr>)"

definition broadcast :: "aevent \<Rightarrow> sched \<Rightarrow> sched" where
  "broadcast event s = s\<lparr>outbox := outbox s @ [event]\<rparr>"

definition initial :: "pubkey \<Rightarrow> uint64 \<Rightarrow> PeriodRing \<Rightarrow> sched" where
  "initial p look ring =
     on_period ring
       \<lparr>pipeline = p, slot = 0, lastPeriodStart = 0, lastPeriodFinish = 0, lastSentAppend = 0,
        lookAhead = look, cancelAppend = None, main_pc = Idle, eventC = make_chan 1, period_loops = [],
        waiters = [], outbox = [], ctx_next = 0, ctx_done = [], panicked = False\<rparr>"

section \<open>Steps\<close>

datatype label =
    GetSlot uint64 | GetLookAhead uint64 | GetPeriod PeriodRing | GetEvent | GetDelete nat
  | PeriodTurn | MainSend
  | LoopExit nat | LoopSlot nat uint64 | LoopSend nat
  | Wake nat | Timeout ctx

text \<open>The select of the main loop, when the goroutine is at it.\<close>

fun main_select :: "label \<Rightarrow> sched \<Rightarrow> sched option" where
  "main_select (GetSlot x) s = Some (on_latest Idle (s\<lparr>slot := x\<rparr>))"
| "main_select (GetLookAhead x) s = Some (on_latest Idle (s\<lparr>lookAhead := x\<rparr>))"
| "main_select (GetPeriod pr) s = Some (on_period pr s)"
| "main_select GetEvent s =
     (case chan_recv (eventC s) of Some (e, c) \<Rightarrow> Some (broadcast e (s\<lparr>eventC := c\<rparr>)) | None \<Rightarrow> None)"
| "main_select (GetDelete i) s =
     (if i < length (waiters s)
      then case waiters s ! i of
             SendDelete _ \<Rightarrow> Some (append_cancel (s\<lparr>waiters := (waiters s)[i := WaitEnded]\<rparr>))
           | _ \<Rightarrow> None
      else None)"
| "main_select _ s = None"

text \<open>The main goroutine inside a handler: a turn of the loop over the ring, or a send that has room.\<close>

definition main_inside :: "label \<Rightarrow> sched \<Rightarrow> sched option" where
  "main_inside l s =
     (case main_pc s of
        Idle \<Rightarrow> None
      | PeriodAt pr i \<Rightarrow> (if l = PeriodTurn then Some (on_period_step pr i s) else None)
      | Sending e k \<Rightarrow>
          (if l = MainSend
           then map_option (\<lambda>c. s\<lparr>eventC := c, main_pc := k\<rparr>) (chan_send e (eventC s))
           else None))"

definition set_loop :: "nat \<Rightarrow> sched \<Rightarrow> period_loop \<Rightarrow> sched" where
  "set_loop i s t = s\<lparr>period_loops := (period_loops s)[i := t]\<rparr>"

text \<open>The other goroutines, and the clock that lets a trigger's context expire.\<close>

fun other_step :: "label \<Rightarrow> sched \<Rightarrow> sched option" where
  "other_step (LoopExit i) s =
     (if i < length (period_loops s) then map_option (set_loop i s) (loopPeriod_exit (period_loops s ! i)) else None)"
| "other_step (LoopSlot i x) s =
     (if i < length (period_loops s) then map_option (set_loop i s) (loopPeriod_slot x (period_loops s ! i)) else None)"
| "other_step (LoopSend i) s =
     (if i < length (period_loops s)
      then case loopPeriod_send (period_loops s ! i) of
             None \<Rightarrow> None
           | Some (e, t) \<Rightarrow> map_option (\<lambda>c. set_loop i (s\<lparr>eventC := c\<rparr>) t) (chan_send e (eventC s))
      else None)"
| "other_step (Wake i) s =
     (if i < length (waiters s)
      then map_option (\<lambda>w. s\<lparr>waiters := (waiters s)[i := w]\<rparr>) (loopWaitAppend_wake (ctx_done s) (waiters s ! i))
      else None)"
| "other_step (Timeout c) s = (if c < ctx_next s then Some (s\<lparr>ctx_done := c # ctx_done s\<rparr>) else None)"
| "other_step _ s = None"

definition step :: "label \<Rightarrow> sched \<Rightarrow> sched option" where
  "step l s =
     (if panicked s then None
      else case other_step l s of
             Some s' \<Rightarrow> Some s'
           | None \<Rightarrow> (if main_pc s = Idle then main_select l s else main_inside l s))"

abbreviation run :: "label list \<Rightarrow> sched \<Rightarrow> sched option" where
  "run \<equiv> run_steps step"

section \<open>Invariants of the schedule\<close>

text \<open>A step is one of the main goroutine's or one of another goroutine's.\<close>

lemma step_cases:
  assumes "step l s = Some s'"
  obtains (other) "other_step l s = Some s'"
    | (select) "main_pc s = Idle" "main_select l s = Some s'"
    | (turn) pr i where "main_pc s = PeriodAt pr i" "l = PeriodTurn" "s' = on_period_step pr i s"
    | (send) e k c where "main_pc s = Sending e k" "l = MainSend" "chan_send e (eventC s) = Some c"
        "s' = s\<lparr>eventC := c, main_pc := k\<rparr>"
  using assms by (auto simp: step_def main_inside_def split: option.splits if_splits main.splits)

subsection \<open>Triggers\<close>

fun pending :: "main \<Rightarrow> aevent list" where
  "pending (Sending e k) = [e]"
| "pending _ = []"

definition all_events :: "sched \<Rightarrow> aevent list" where
  "all_events s = outbox s @ cbuf (eventC s) @ pending (main_pc s)"

definition good_trigger :: "nat \<Rightarrow> aevent \<Rightarrow> bool" where
  "good_trigger n e \<longleftrightarrow>
     (\<forall>t. Payload e = Some t \<longrightarrow>
        ta_context t < n \<and> (ta_start t = 0 \<or> unat (Slot e) + 50 \<le> unat (ta_start t)))"

definition trigger_inv :: "sched \<Rightarrow> bool" where
  "trigger_inv s \<longleftrightarrow>
     (\<forall>c<ctx_next s. c \<in> set (ctx_done s) \<or> cancelAppend s = Some c)
   \<and> (\<forall>e\<in>set (all_events s). good_trigger (ctx_next s) e)"

fun calm :: "main \<Rightarrow> bool" where
  "calm (Sending e k) = False"
| "calm _ = True"

text \<open>What is to be done after a send never contains another send.\<close>

fun plain :: "main \<Rightarrow> bool" where
  "plain (Sending e k) = calm k"
| "plain _ = True"

lemma pending_calm [simp]: "calm k \<Longrightarrow> pending k = []"
  by (cases k) auto

lemma append_start_far: "append_start s = 0 \<or> unat (slot s) + 50 \<le> unat (append_start s)"
proof -
  define last where "last = lastPeriodFinish s + 1"
  define start where "start = (if slot s < last then last else slot s)"
  have le: "slot s \<le> start" by (auto simp: start_def)
  then have "\<not> start - slot s < 50 \<Longrightarrow> unat (slot s) + 50 \<le> unat start"
    by (simp add: word_less_nat_alt unat_sub word_le_nat_alt)
  then show ?thesis
    by (simp add: append_start_def Let_def SLOT_TOO_CLOSE_THRESHOLD_def flip: last_def start_def)
qed

lemma good_mono: "good_trigger n e \<Longrightarrow> n \<le> m \<Longrightarrow> good_trigger m e"
  by (auto simp: good_trigger_def)

lemma trigger_on_latest:
  assumes "trigger_inv (s\<lparr>main_pc := Idle\<rparr>)" "calm k"
  shows "trigger_inv (on_latest k s)"
proof (cases "slot s \<noteq> 0 \<and> cancelAppend s = None \<and> lastPeriodFinish s < slot s + lookAhead s")
  case True
  have over: "\<forall>c<ctx_next s. c \<in> set (ctx_done s)" using assms(1) True by (simp add: trigger_inv_def)
  have ok: "\<forall>e\<in>set (outbox s @ cbuf (eventC s)). good_trigger (Suc (ctx_next s)) e"
    using assms(1) good_mono [OF _ le_SucI [OF order_refl]] by (auto simp: trigger_inv_def all_events_def)
  have new: "good_trigger (Suc (ctx_next s))
      (CreateWithPayload TRIGGER_PERIOD_APPEND True (slot s)
        \<lparr>ta_context = ctx_next s, ta_pipeline = pipeline s, ta_start = append_start s\<rparr>)"
    using append_start_far [of s] by (auto simp: good_trigger_def CreateWithPayload_def)
  show ?thesis using True over ok new
    by (auto simp: on_latest_def CreateTrigger_def Let_def trigger_inv_def all_events_def less_Suc_eq)
qed (use assms in \<open>auto simp: on_latest_def trigger_inv_def all_events_def\<close>)

lemma trigger_frame:
  assumes "trigger_inv s" "ctx_next s' = ctx_next s" "set (ctx_done s) \<subseteq> set (ctx_done s')"
    "cancelAppend s' = cancelAppend s \<or> set_option (cancelAppend s) \<subseteq> set (ctx_done s')"
    "set (all_events s') \<subseteq> set (all_events s) \<union> {e. Payload e = None}"
  shows "trigger_inv s'"
proof -
  have "\<forall>e\<in>set (all_events s'). good_trigger (ctx_next s') e"
    using assms(1,2,5) by (fastforce simp: trigger_inv_def good_trigger_def)
  moreover have "\<forall>c<ctx_next s'. c \<in> set (ctx_done s') \<or> cancelAppend s' = Some c"
    using assms(1-4) by (fastforce simp: trigger_inv_def)
  ultimately show ?thesis by (simp add: trigger_inv_def)
qed

lemma trigger_other:
  assumes "trigger_inv s" "other_step l s = Some s'"
  shows "trigger_inv s' \<and> main_pc s' = main_pc s"
proof
  show "main_pc s' = main_pc s"
    using assms(2) by (cases l) (auto simp: set_loop_def split: if_splits option.splits)
  show "trigger_inv s'"
  proof (rule trigger_frame [OF assms(1)])
    show "ctx_next s' = ctx_next s" "set (ctx_done s) \<subseteq> set (ctx_done s')"
      "cancelAppend s' = cancelAppend s \<or> set_option (cancelAppend s) \<subseteq> set (ctx_done s')"
      using assms(2) by (cases l; auto simp: set_loop_def split: if_splits option.splits)+
    show "set (all_events s') \<subseteq> set (all_events s) \<union> {e. Payload e = None}"
      using assms(2)
      by (cases l) (auto simp: set_loop_def all_events_def loopPeriod_send_def chan_send_def
          split: if_splits option.splits period_pc.splits)
  qed
qed

lemma plain_on_latest: "calm k \<Longrightarrow> plain (main_pc (on_latest k s))"
  by (cases k) (auto simp: on_latest_def CreateTrigger_def Let_def)

lemma append_cancel_pc [simp]: "main_pc (append_cancel s) = main_pc s" "eventC (append_cancel s) = eventC s"
  "outbox (append_cancel s) = outbox s" "period_loops (append_cancel s) = period_loops s"
  by (simp_all add: append_cancel_def split: option.split)

lemma trigger_append_cancel: "trigger_inv s \<Longrightarrow> trigger_inv (append_cancel s)"
  by (erule trigger_frame) (auto simp: append_cancel_def all_events_def split: option.split)

lemma trigger_select:
  assumes "trigger_inv s" "main_pc s = Idle" "main_select l s = Some s'"
  shows "trigger_inv s' \<and> plain (main_pc s')"
proof -
  have idle: "trigger_inv (s\<lparr>slot := x, main_pc := Idle\<rparr>)" "trigger_inv (s\<lparr>lookAhead := x, main_pc := Idle\<rparr>)" for x
    using assms(1,2) by (auto simp: trigger_inv_def all_events_def)
  show ?thesis
  proof (cases l)
    case (GetPeriod pr)
    have "trigger_inv ((append_cancel s)\<lparr>main_pc := PeriodAt pr 0\<rparr>)"
      by (rule trigger_frame [OF trigger_append_cancel [OF assms(1)]]) (auto simp: all_events_def)
    then show ?thesis using GetPeriod assms(3) by (auto simp: on_period_def)
  next
    case GetEvent
    then obtain e c where c: "chan_recv (eventC s) = Some (e, c)" "s' = broadcast e (s\<lparr>eventC := c\<rparr>)"
      using assms(3) by (auto split: option.splits)
    have "trigger_inv s'" unfolding c(2)
      by (rule trigger_frame [OF assms(1)])
        (use c(1) in \<open>auto simp: broadcast_def all_events_def chan_recv_def split: list.splits\<close>)
    then show ?thesis using c(2) assms(2) by (simp add: broadcast_def)
  next
    case (GetDelete i)
    then have s': "s' = append_cancel (s\<lparr>waiters := (waiters s)[i := WaitEnded]\<rparr>)"
      using assms(3) by (auto split: if_splits waiter.splits)
    have "trigger_inv (s\<lparr>waiters := (waiters s)[i := WaitEnded]\<rparr>)"
      by (rule trigger_frame [OF assms(1)]) (auto simp: all_events_def)
    then show ?thesis unfolding s' using assms(2) by (simp add: trigger_append_cancel)
  qed (use assms(3) idle trigger_on_latest plain_on_latest in auto)
qed

lemma trigger_turn:
  assumes "trigger_inv s" "main_pc s = PeriodAt pr i"
  shows "trigger_inv (on_period_step pr i s) \<and> plain (main_pc (on_period_step pr i s))"
proof -
  have frame: "trigger_inv (s\<lparr>main_pc := k\<rparr>)" if "calm k" for k
    by (rule trigger_frame [OF assms(1)]) (use assms(2) that in \<open>auto simp: all_events_def\<close>)
  have "trigger_inv (s\<lparr>panicked := True\<rparr>)"
    by (rule trigger_frame [OF assms(1)]) (auto simp: all_events_def)
  moreover have "trigger_inv (s\<lparr>lastPeriodStart := a, lastPeriodFinish := b, period_loops := ps, main_pc := Idle\<rparr>)"
    for a b ps by (rule trigger_frame [OF assms(1)]) (auto simp: all_events_def)
  ultimately show ?thesis using frame assms(2)
    by (auto simp: on_period_step_def Let_def trigger_on_latest plain_on_latest)
qed

lemma trigger_step:
  assumes "trigger_inv s \<and> plain (main_pc s)" "step l s = Some s'"
  shows "trigger_inv s' \<and> plain (main_pc s')"
  using assms(2)
proof (cases rule: step_cases)
  case other
  then show ?thesis using assms(1) trigger_other by auto
next
  case select
  then show ?thesis using assms(1) trigger_select by auto
next
  case (turn pr i)
  then show ?thesis using assms(1) trigger_turn by auto
next
  case (send e k c)
  have "calm k" using assms(1) send(1) by simp
  moreover have "trigger_inv s'" unfolding send(4)
    by (rule trigger_frame [OF conjunct1 [OF assms(1)]])
      (use send \<open>calm k\<close> in \<open>auto simp: all_events_def chan_send_def split: if_splits\<close>)
  ultimately show ?thesis using send(4) by (cases k) auto
qed

lemma trigger_initial: "trigger_inv (initial p look ring) \<and> plain (main_pc (initial p look ring))"
  by (simp add: trigger_inv_def initial_def on_period_def append_cancel_def all_events_def make_chan_def)

subsection \<open>The goroutines of the periods\<close>

definition finish_of :: "Period \<Rightarrow> uint64" where
  "finish_of pwd = p_start pwd + p_length pwd - 1"

fun ring_ok :: "main \<Rightarrow> bool" where
  "ring_ok (PeriodAt pr i) = (\<forall>x\<in>set (pr_ring pr). p_blank x \<or> finish_of x \<noteq> 0)"
| "ring_ok (Sending e k) = ring_ok k"
| "ring_ok Idle = True"

fun label_ok :: "label \<Rightarrow> bool" where
  "label_ok (GetPeriod pr) = (\<forall>x\<in>set (pr_ring pr). p_blank x \<or> finish_of x \<noteq> 0)"
| "label_ok _ = True"

definition loop_ok :: "period_loop \<Rightarrow> bool" where
  "loop_ok t \<longleftrightarrow> pl_finish t \<noteq> 0 \<and> pl_slot t = 0 \<and> \<not> pl_finishIsStateChange t
     \<and> (\<forall>s. pl_pc t \<noteq> SendStart s)"

definition finish_event :: "aevent \<Rightarrow> bool" where
  "finish_event e \<longleftrightarrow> Type e = TRIGGER_PERIOD_APPEND \<or> e = CreateEvent EVENT_PERIOD_FINISH False 0"

definition finish_inv :: "sched \<Rightarrow> bool" where
  "finish_inv s \<longleftrightarrow> ring_ok (main_pc s) \<and> (\<forall>t\<in>set (period_loops s). loop_ok t)
     \<and> (\<forall>e\<in>set (all_events s). finish_event e)"

lemma loop_init_ok: "finish_of x \<noteq> 0 \<Longrightarrow> loop_ok (loopPeriod_init x)"
  by (simp add: loop_ok_def loopPeriod_init_def finish_of_def)

lemma loop_steps_ok:
  assumes "loop_ok t"
  shows "loopPeriod_exit t = Some t' \<Longrightarrow> loop_ok t'" "loopPeriod_slot x t = None"
    "loopPeriod_send t = Some (e, t') \<Longrightarrow> loop_ok t' \<and> finish_event e"
  using assms
  by (auto simp: loop_ok_def loopPeriod_exit_def loopPeriod_slot_def loopPeriod_send_def finish_event_def
      CreateEvent_def split: if_splits period_pc.splits)

lemma finish_other:
  assumes "finish_inv s" "other_step l s = Some s'"
  shows "finish_inv s'"
proof -
  have ok: "loop_ok (period_loops s ! i)" if "i < length (period_loops s)" for i
    using assms(1) that by (simp add: finish_inv_def)
  have upd: "\<forall>t\<in>set ((period_loops s)[i := t']). loop_ok t" if "loop_ok t'" for i t'
    using assms(1) that set_update_subset_insert [of "period_loops s" i t'] by (auto simp: finish_inv_def)
  show ?thesis
  proof (cases l)
    case (LoopSend i)
    then obtain e t c where "i < length (period_loops s)" "loopPeriod_send (period_loops s ! i) = Some (e, t)"
      "chan_send e (eventC s) = Some c" "s' = set_loop i (s\<lparr>eventC := c\<rparr>) t"
      using assms(2) by (auto split: if_splits option.splits)
    then show ?thesis using assms(1) upd [of t i] loop_steps_ok(3) [OF ok, of i e t]
      by (auto simp: finish_inv_def set_loop_def all_events_def chan_send_def split: if_splits)
  next
    case (LoopExit i)
    then obtain t where "i < length (period_loops s)" "loopPeriod_exit (period_loops s ! i) = Some t"
      "s' = set_loop i s t"
      using assms(2) by (auto split: if_splits option.splits)
    then show ?thesis using assms(1) upd [of t i] loop_steps_ok(1) [OF ok, of i t]
      by (simp add: finish_inv_def set_loop_def all_events_def)
  next
    case (LoopSlot i x)
    then show ?thesis using assms(2) loop_steps_ok(2) [OF ok] by (auto split: if_splits)
  qed (use assms in \<open>auto simp: finish_inv_def all_events_def split: if_splits\<close>)
qed

lemma finish_on_latest:
  assumes "finish_inv (s\<lparr>main_pc := Idle\<rparr>)" "calm k" "ring_ok k"
  shows "finish_inv (on_latest k s)"
  using assms
  by (auto simp: on_latest_def CreateTrigger_def Let_def finish_inv_def all_events_def finish_event_def)

lemma finish_select:
  assumes "finish_inv s" "main_pc s = Idle" "main_select l s = Some s'" "label_ok l"
  shows "finish_inv s'"
proof (cases l)
  case (GetSlot x)
  have "finish_inv (s\<lparr>slot := x, main_pc := Idle\<rparr>)" using assms(1,2) by (simp add: finish_inv_def all_events_def)
  then show ?thesis using GetSlot assms(3) finish_on_latest [of "s\<lparr>slot := x\<rparr>" Idle] by simp
next
  case (GetLookAhead x)
  have "finish_inv (s\<lparr>lookAhead := x, main_pc := Idle\<rparr>)" using assms(1,2) by (simp add: finish_inv_def all_events_def)
  then show ?thesis using GetLookAhead assms(3) finish_on_latest [of "s\<lparr>lookAhead := x\<rparr>" Idle] by simp
next
  case (GetDelete i)
  then show ?thesis using assms
    by (auto simp: finish_inv_def all_events_def split: if_splits waiter.splits)
next
  case GetEvent
  then show ?thesis using assms
    by (auto simp: finish_inv_def all_events_def broadcast_def chan_recv_def split: option.splits list.splits)
qed (use assms in \<open>auto simp: finish_inv_def all_events_def on_period_def\<close>)

lemma ring_index:
  assumes "(of_nat (length xs) :: uint16) \<noteq> 0"
  shows "xs ! unat (i mod (of_nat (length xs) :: uint16)) \<in> set xs"
proof -
  have "unat (i mod (of_nat (length xs) :: uint16)) < unat (of_nat (length xs) :: uint16)"
    using assms by (simp add: unat_mod unat_gt_0 del: of_nat_eq_0_iff)
  also have "\<dots> \<le> length xs" by (simp add: unat_of_nat take_bit_eq_mod)
  finally show ?thesis by simp
qed

lemma finish_turn:
  assumes "finish_inv s" "main_pc s = PeriodAt pr i"
  shows "finish_inv (on_period_step pr i s)"
proof -
  let ?n = "of_nat (length (pr_ring pr)) :: uint16" and ?k = "PeriodAt pr (i + 1)"
  let ?x = "pr_ring pr ! unat ((i + pr_start pr) mod ?n)"
  let ?s = "s\<lparr>lastPeriodStart := p_start ?x, lastPeriodFinish := p_start ?x + p_length ?x - 1,
      period_loops := period_loops s @ [loopPeriod_init ?x]\<rparr>"
  have k: "ring_ok ?k" "\<forall>t\<in>set (period_loops s). loop_ok t" "\<forall>e\<in>set (outbox s @ cbuf (eventC s)). finish_event e"
    using assms by (auto simp: finish_inv_def all_events_def)
  show ?thesis
  proof (cases "i < pr_length pr \<and> ?n \<noteq> 0 \<and> \<not> p_blank ?x \<and> lastPeriodStart s < p_start ?x")
    case True
    then have "loop_ok (loopPeriod_init ?x)"
      using k(1) ring_index [of "pr_ring pr" "i + pr_start pr"] loop_init_ok by auto
    then have "finish_inv (?s\<lparr>main_pc := Idle\<rparr>)" using k by (simp add: finish_inv_def all_events_def)
    then have "finish_inv (on_latest ?k ?s)" using k(1) finish_on_latest by simp
    then show ?thesis using True by (simp add: on_period_step_def Let_def)
  next
    case False
    then have "on_period_step pr i s \<in> {s\<lparr>main_pc := Idle\<rparr>, s\<lparr>panicked := True\<rparr>, s\<lparr>main_pc := ?k\<rparr>}"
      by (auto simp: on_period_step_def Let_def)
    then show ?thesis using k assms by (auto simp: finish_inv_def all_events_def)
  qed
qed

lemma finish_step:
  assumes "label_ok l" "finish_inv s \<and> plain (main_pc s)" "step l s = Some s'"
  shows "finish_inv s'"
  using assms(3)
proof (cases rule: step_cases)
  case (send e k c)
  then show ?thesis using assms(2)
    by (auto simp: finish_inv_def all_events_def chan_send_def split: if_splits)
next
  case other
  then show ?thesis using assms(2) finish_other by blast
next
  case select
  then show ?thesis using assms(1,2) finish_select by blast
next
  case (turn pr i)
  then show ?thesis using assms(2) finish_turn by blast
qed

subsection \<open>A send that blocks the only reader\<close>

definition stuck_inv :: "sched \<Rightarrow> sched \<Rightarrow> bool" where
  "stuck_inv s0 s \<longleftrightarrow> main_pc s = main_pc s0 \<and> eventC s = eventC s0 \<and> outbox s = outbox s0"

lemma stuck_step:
  assumes "main_pc s0 = Sending e k" "ccap (eventC s0) \<le> length (cbuf (eventC s0))"
    "stuck_inv s0 s" "step l s = Some s'"
  shows "stuck_inv s0 s'"
proof -
  have full: "chan_send x (eventC s) = None" for x
    using assms(2,3) by (simp add: stuck_inv_def chan_send_def)
  show ?thesis using assms(4)
  proof (cases rule: step_cases)
    case other
    then show ?thesis using assms(3) full
      by (cases l) (auto simp: stuck_inv_def set_loop_def split: if_splits option.splits)
  qed (use assms(1,3) full in \<open>auto simp: stuck_inv_def\<close>)
qed

section \<open>Examples\<close>

definition demo_ring :: "uint64 \<Rightarrow> PeriodRing" where
  "demo_ring x = \<lparr>pr_ring = [\<lparr>p_start = x, p_length = 100, p_blank = False\<rparr>], pr_start = 0, pr_length = 1\<rparr>"

definition no_ring :: PeriodRing where
  "no_ring = \<lparr>pr_ring = [], pr_start = 0, pr_length = 0\<rparr>"

text \<open>
  A slot arrives and an append is asked for; the new period arrives while the look-ahead still reaches
  past it, so a second append is to be asked for, but the goroutine of the period is faster.
\<close>

definition race :: "label list" where
  "race = [PeriodTurn, GetSlot 1000, MainSend, GetEvent, GetPeriod (demo_ring 1010), PeriodTurn, LoopExit 0, LoopSend 0]"

definition raced :: sched where
  "raced = (case run race (initial ''P'' 500 no_ring) of Some s \<Rightarrow> s | None \<Rightarrow> initial ''P'' 500 no_ring)"

lemma raced_run: "run race (initial ''P'' 500 no_ring) = Some raced"
proof -
  have "run race (initial ''P'' 500 no_ring) \<noteq> None" by code_simp
  then show ?thesis by (auto simp: raced_def)
qed

fun is_sending :: "main \<Rightarrow> bool" where
  "is_sending (Sending e k) = True"
| "is_sending _ = False"

lemma raced_state:
  "is_sending (main_pc raced)" "ccap (eventC raced) = 1" "length (cbuf (eventC raced)) = 1"
  "ctx_next raced = 2" "ctx_done raced = [0]" "cancelAppend raced = Some 1" "length (outbox raced) = 1"
  by code_simp+

section \<open>Properties\<close>

text \<open>
  C12. At any moment of any interleaving there is at most one append trigger whose context has not
  been cancelled or timed out: of all contexts handed out, every one but the current one is done.
  Every trigger asks for a start that is at least 50 slots after the slot it was sent at, or for the
  start 0, by which the program takes the slot it runs at.
\<close>

theorem one_append_outstanding:
  assumes "run ls (initial p look ring) = Some s"
  shows "(\<forall>c<ctx_next s. c \<in> set (ctx_done s) \<or> cancelAppend s = Some c)
    \<and> (\<forall>e\<in>set (outbox s). \<forall>t. Payload e = Some t \<longrightarrow>
          ta_context t < ctx_next s \<and> (ta_start t = 0 \<or> unat (Slot e) + 50 \<le> unat (ta_start t)))"
proof -
  have "trigger_inv s \<and> plain (main_pc s)"
    by (rule run_steps_invariant [where I = "\<lambda>s. trigger_inv s \<and> plain (main_pc s)", OF assms trigger_initial])
      (rule trigger_step)
  then show ?thesis by (auto simp: trigger_inv_def good_trigger_def all_events_def)
qed

theorem one_append_outstanding_witness:
  "(0 \<in> set (ctx_done raced) \<or> cancelAppend raced = Some 0) \<and> (1 \<in> set (ctx_done raced) \<or> cancelAppend raced = Some 1)"
  using one_append_outstanding [OF raced_run] by (simp add: raced_state)

text \<open>
  The goroutine of a period tests the loop condition the wrong way round (it runs while the
  finish lies before the last slot seen, which is 0 at first). So for periods that do not finish in
  slot 0 no schedule ever announces the start of a period, and the finish is announced at once, with
  slot 0 and as if it were no state change, whatever slots arrive.
\<close>

theorem periods_finish_at_once:
  assumes "run ls (initial p look ring) = Some s"
    and "\<forall>l\<in>set (GetPeriod ring # ls). label_ok l"
  shows "\<forall>e\<in>set (outbox s). Type e = TRIGGER_PERIOD_APPEND \<or> e = CreateEvent EVENT_PERIOD_FINISH False 0"
proof -
  let ?I = "\<lambda>s. trigger_inv s \<and> plain (main_pc s) \<and> finish_inv s"
  have "finish_inv (initial p look ring)"
    using assms(2) by (simp add: finish_inv_def initial_def on_period_def append_cancel_def all_events_def make_chan_def)
  then have init: "?I (initial p look ring)" using trigger_initial by simp
  have "?I s"
  proof (rule run_steps_invariant [where I = ?I, OF assms(1) init])
    fix l s s' assume "l \<in> set ls" "?I s" "step l s = Some s'"
    then show "?I s'" using assms(2) trigger_step [of s l s'] finish_step [of l s s'] by simp
  qed
  then show ?thesis by (auto simp: finish_inv_def all_events_def finish_event_def)
qed

definition announced :: "label list" where
  "announced = [PeriodTurn, LoopExit 0, LoopSend 0, PeriodTurn, GetEvent]"

theorem periods_finish_at_once_witness:
  "\<exists>s. run announced (initial ''P'' 500 (demo_ring 1010)) = Some s
     \<and> outbox s = [CreateEvent EVENT_PERIOD_FINISH False 0]"
proof -
  have "run announced (initial ''P'' 500 (demo_ring 1010)) \<noteq> None" by code_simp
  then obtain s where s: "run announced (initial ''P'' 500 (demo_ring 1010)) = Some s" by auto
  have ok: "\<forall>l\<in>set (GetPeriod (demo_ring 1010) # announced). label_ok l"
    by (simp add: announced_def demo_ring_def finish_of_def)
  have "map_option (\<lambda>s. map Type (outbox s)) (run announced (initial ''P'' 500 (demo_ring 1010)))
      = Some [EVENT_PERIOD_FINISH]" by code_simp
  then obtain e where e: "outbox s = [e]" "Type e = EVENT_PERIOD_FINISH" using s by auto
  then show ?thesis using periods_finish_at_once [OF s ok] s by (auto simp: event_codes)
qed

text \<open>
  The main goroutine sends its triggers on the channel that only it reads. When the one place
  of the channel is taken at that moment (the goroutine of a period just started can take it) it
  never comes back from the send: from there on, in whatever way the goroutines move, it stays at
  the send and nothing more is broadcast. Only cancelling the schedule ends it.
\<close>

theorem send_to_itself_blocks:
  assumes "run ls (initial p look ring) = Some s" and "main_pc s = Sending e k"
    and "ccap (eventC s) \<le> length (cbuf (eventC s))" and "run ms s = Some s'"
  shows "main_pc s' = Sending e k \<and> outbox s' = outbox s"
proof -
  have "stuck_inv s s'"
    by (rule run_steps_invariant [where I = "stuck_inv s", OF assms(4)])
      (simp add: stuck_inv_def, rule stuck_step [OF assms(2,3)])
  then show ?thesis using assms(2) by (simp add: stuck_inv_def)
qed

theorem send_to_itself_blocks_witness:
  "run race (initial ''P'' 500 no_ring) = Some raced
   \<and> (\<exists>e k. main_pc raced = Sending e k
        \<and> (\<forall>ms s'. run ms raced = Some s' \<longrightarrow> main_pc s' = Sending e k \<and> outbox s' = outbox raced))"
proof -
  obtain e k where m: "main_pc raced = Sending e k" using raced_state(1) by (cases "main_pc raced") auto
  show ?thesis using send_to_itself_blocks [OF raced_run m] raced_run raced_state(2,3) m by simp
qed

end
