(* ===== verification/ReceiptSchedule.thy ===== *)
theory ReceiptSchedule
  imports Scheduler
begin

text \<open>
  The receipt schedule of scheduler/receipt (update.go, period.go, internal.go). A receipt counts the
  transactions a validator has processed (TxSent) and those it has signed for (ValidatorSigned). The
  update goroutine asks for an approval whenever the count grows past what is signed; the period
  goroutine forwards the end of the period; the main goroutine broadcasts what it lets through.
\<close>

record receipt_data =
  TxSent :: uint64
  ValidatorSigned :: uint64

record receipt_trigger =
  rt_context :: ctx
  rt_receipt :: pubkey
  rt_data :: receipt_data

type_synonym revent = "receipt_trigger Event"

section \<open>The update goroutine\<close>

record txInfo =
  cancelApprove :: "ctx option"
  lastTxSent :: uint64
  ti_next :: ctx
  ti_done :: "ctx list"

definition cancel_approve :: "txInfo \<Rightarrow> txInfo" where
  "cancel_approve ti =
     (case cancelApprove ti of None \<Rightarrow> ti | Some c \<Rightarrow> ti\<lparr>ti_done := c # ti_done ti, cancelApprove := None\<rparr>)"

text \<open>Before the loop: what is announced about the data found at the start.\<close>

definition update_init :: "receipt_data \<Rightarrow> txInfo \<times> revent list" where
  "update_init d =
     (\<lparr>cancelApprove = None, lastTxSent = TxSent d, ti_next = 0, ti_done = []\<rparr>,
      if 0 < TxSent d \<and> TxSent d \<noteq> ValidatorSigned d then [CreateEvent EVENT_RECEIPT_NEW_COUNT False 0]
      else if 0 < TxSent d \<and> TxSent d = ValidatorSigned d then [CreateEvent EVENT_RECEIPT_APPROVED False 0]
      else [])"

text \<open>One message with new data.\<close>

definition update_data :: "pubkey \<Rightarrow> receipt_data \<Rightarrow> txInfo \<Rightarrow> txInfo \<times> revent list" where
  "update_data rid d ti =
     (if lastTxSent ti < TxSent d \<and> TxSent d \<noteq> ValidatorSigned d then
        let ti1 = cancel_approve ti; c = ti_next ti1 in
        (ti1\<lparr>cancelApprove := Some c, ti_next := Suc c, lastTxSent := TxSent d\<rparr>,
         [CreateWithPayload TRIGGER_RECEIPT_APPROVE True 0 \<lparr>rt_context = c, rt_receipt = rid, rt_data = d\<rparr>])
      else if lastTxSent ti \<le> TxSent d \<and> TxSent d = ValidatorSigned d then
        ((cancel_approve ti)\<lparr>lastTxSent := TxSent d\<rparr>, [CreateEvent EVENT_RECEIPT_APPROVED True 0])
      else (ti\<lparr>lastTxSent := TxSent d\<rparr>, []))"

fun update_loop :: "pubkey \<Rightarrow> receipt_data msg list \<Rightarrow> txInfo \<Rightarrow> txInfo \<times> revent list \<times> err option" where
  "update_loop rid [] ti = (ti, [], None)"
| "update_loop rid (Done # ms) ti = (ti, [], None)"
| "update_loop rid (Failed e # ms) ti = (ti, [], Some e)"
| "update_loop rid (Got d # ms) ti =
     (case update_data rid d ti of (ti1, es) \<Rightarrow>
        case update_loop rid ms ti1 of (ti2, es2, e) \<Rightarrow> (ti2, es @ es2, e))"

definition loopUpdate ::
  "pubkey \<Rightarrow> err + receipt_data \<Rightarrow> receipt_data msg list \<Rightarrow> txInfo \<times> revent list \<times> err option" where
  "loopUpdate rid start ms =
     (case start of
        Inl e \<Rightarrow> (fst (update_init \<lparr>TxSent = 0, ValidatorSigned = 0\<rparr>), [], Some e)
      | Inr d \<Rightarrow>
          (case update_init d of (ti, es) \<Rightarrow>
             case update_loop rid ms ti of (ti2, es2, e) \<Rightarrow> (ti2, es @ es2, e)))"

section \<open>The period goroutine\<close>

fun loopPeriodClock :: "revent msg list \<Rightarrow> revent list \<times> err option" where
  "loopPeriodClock [] = ([], None)"
| "loopPeriodClock (Done # ms) = ([], None)"
| "loopPeriodClock (Failed e # ms) = ([], Some e)"
| "loopPeriodClock (Got event # ms) =
     (if Type event = EVENT_PERIOD_FINISH then ([event], None)
      else if Type event = EVENT_DELAY_CLOSE_PAYOUT then ([event], None)
      else loopPeriodClock ms)"

section \<open>The main goroutine\<close>

definition lets_through :: "revent \<Rightarrow> bool" where
  "lets_through event =
     (if Type event = TRIGGER_RECEIPT_APPROVE then True
      else if Type event = EVENT_RECEIPT_APPROVED then True
      else if Type event = EVENT_RECEIPT_NEW_COUNT then True
      else False)"

text \<open>The events that reach eventC, in the order they arrive, give the events that are broadcast.\<close>

fun loopInternal :: "revent msg list \<Rightarrow> revent list \<times> err option" where
  "loopInternal [] = ([], None)"
| "loopInternal (Done # ms) = ([], None)"
| "loopInternal (Failed e # ms) = ([], Some e)"
| "loopInternal (Got event # ms) =
     (case loopInternal ms of (es, e) \<Rightarrow> (if lets_through event then event # es else es, e))"

section \<open>Approvals\<close>

text \<open>The reference: an approval is asked for each time the count grows and is not signed.\<close>

fun due_approvals :: "uint64 \<Rightarrow> receipt_data list \<Rightarrow> receipt_data list" where
  "due_approvals n [] = []"
| "due_approvals n (d # ds) =
     (if n < TxSent d \<and> TxSent d \<noteq> ValidatorSigned d then d # due_approvals (TxSent d) ds
      else due_approvals (TxSent d) ds)"

definition approve_data :: "revent list \<Rightarrow> receipt_data list" where
  "approve_data es = map rt_data (List.map_filter Payload es)"

definition live_inv :: "txInfo \<Rightarrow> bool" where
  "live_inv ti \<longleftrightarrow> (\<forall>c<ti_next ti. c \<in> set (ti_done ti) \<or> cancelApprove ti = Some c)"

lemma live_cancel: "live_inv ti \<Longrightarrow> live_inv (cancel_approve ti) \<and> cancelApprove (cancel_approve ti) = None
    \<and> ti_next (cancel_approve ti) = ti_next ti"
  by (auto simp: live_inv_def cancel_approve_def split: option.split)

lemma approve_data_simps [simp]:
  "approve_data [] = []" "approve_data (xs @ ys) = approve_data xs @ approve_data ys"
  "approve_data [CreateEvent t b s] = []" "approve_data [CreateWithPayload t b s p] = [rt_data p]"
  by (simp_all add: approve_data_def map_filter_append List.map_filter_simps)

lemma update_data_approvals:
  "update_data rid d ti = (ti', es) \<Longrightarrow>
     lastTxSent ti' = TxSent d \<and> approve_data es @ due_approvals (TxSent d) ds = due_approvals (lastTxSent ti) (d # ds)"
  by (auto simp: update_data_def Let_def split: if_splits)

lemma update_data_live:
  assumes "update_data rid d ti = (ti', es)" "live_inv ti"
  shows "live_inv ti' \<and> (TxSent d = ValidatorSigned d \<and> lastTxSent ti \<le> TxSent d \<longrightarrow> cancelApprove ti' = None)"
  using assms(1) live_cancel [OF assms(2)] assms(2)
  by (auto simp: update_data_def Let_def live_inv_def less_Suc_eq split: if_splits)

lemma update_loop_approvals:
  "update_loop rid (map Got ds) ti = (ti', es, e) \<Longrightarrow> live_inv ti \<Longrightarrow>
     e = None \<and> approve_data es = due_approvals (lastTxSent ti) ds \<and> live_inv ti'"
proof (induction ds arbitrary: ti es)
  case (Cons d ds)
  obtain ti1 es1 where s: "update_data rid d ti = (ti1, es1)" by (cases "update_data rid d ti")
  obtain ti2 es2 e2 where l: "update_loop rid (map Got ds) ti1 = (ti2, es2, e2)"
    by (cases "update_loop rid (map Got ds) ti1") auto
  from Cons.prems(1) s l have "ti' = ti2" "es = es1 @ es2" "e = e2" by simp_all
  moreover have "live_inv ti1" using update_data_live [OF s Cons.prems(2)] ..
  ultimately show ?case
    using Cons.IH [of ti1 es2] l update_data_approvals [OF s, of ds] by simp
qed simp

lemma update_loop_last:
  "update_loop rid (map Got (ds @ [d])) ti = (ti', es, e) \<Longrightarrow> live_inv ti \<Longrightarrow>
     sorted (map TxSent (ds @ [d])) \<Longrightarrow> \<forall>x\<in>set (ds @ [d]). lastTxSent ti \<le> TxSent x \<Longrightarrow>
     TxSent d = ValidatorSigned d \<Longrightarrow> cancelApprove ti' = None"
proof (induction ds arbitrary: ti es)
  case Nil
  obtain ti1 es1 where s: "update_data rid d ti = (ti1, es1)" by (cases "update_data rid d ti")
  show ?case using Nil s update_data_live [OF s Nil.prems(2)] by simp
next
  case (Cons x ds)
  obtain ti1 es1 where s: "update_data rid x ti = (ti1, es1)" by (cases "update_data rid x ti")
  obtain ti2 es2 e2 where l: "update_loop rid (map Got (ds @ [d])) ti1 = (ti2, es2, e2)"
    by (cases "update_loop rid (map Got (ds @ [d])) ti1") auto
  have last: "lastTxSent ti1 = TxSent x" using update_data_approvals [OF s] by blast
  have r: "ti2 = ti'" "e2 = e" using Cons.prems(1) s l by simp_all
  show ?case
    using Cons.IH [OF l [unfolded r]] update_data_live [OF s Cons.prems(2)] Cons.prems(3,5) last by simp
qed

section \<open>Properties\<close>

text \<open>
  C13. For every sequence of receipt data the update goroutine asks for an approval exactly when the
  count has grown since the last data and is not the signed count, with that data; the data found
  at the start is announced but no approval is asked for it. At most one approval is open at a time,
  and when the counts arrive in order and the last one is signed, none is.
\<close>

theorem approvals_follow_counts:
  assumes "loopUpdate rid (Inr d0) (map Got ds) = (ti, es, e)"
  shows "e = None \<and> approve_data es = due_approvals (TxSent d0) ds
    \<and> (\<forall>c<ti_next ti. c \<in> set (ti_done ti) \<or> cancelApprove ti = Some c)
    \<and> (ds \<noteq> [] \<and> sorted (map TxSent (d0 # ds)) \<and> TxSent (last ds) = ValidatorSigned (last ds)
         \<longrightarrow> cancelApprove ti = None)"
proof -
  obtain ti0 es0 where i: "update_init d0 = (ti0, es0)" by (cases "update_init d0")
  obtain ti1 es1 e1 where l: "update_loop rid (map Got ds) ti0 = (ti1, es1, e1)"
    by (cases "update_loop rid (map Got ds) ti0") auto
  have r: "ti = ti1" "es = es0 @ es1" "e = e1" using assms i l by (simp_all add: loopUpdate_def)
  have s0: "live_inv ti0" "lastTxSent ti0 = TxSent d0" "approve_data es0 = []"
    using i by (auto simp: update_init_def live_inv_def split: if_splits)
  have a: "e1 = None \<and> approve_data es1 = due_approvals (lastTxSent ti0) ds \<and> live_inv ti1"
    by (rule update_loop_approvals [OF l s0(1)])
  have "cancelApprove ti1 = None"
    if "ds \<noteq> []" "sorted (map TxSent (d0 # ds))" "TxSent (last ds) = ValidatorSigned (last ds)"
    using update_loop_last [of rid "butlast ds" "last ds" ti0 ti1 es1 e1] that l s0 by simp
  then show ?thesis using a r s0 by (auto simp: live_inv_def)
qed

theorem approvals_follow_counts_witness:
  "\<exists>ti es. loopUpdate ''R'' (Inr \<lparr>TxSent = 5, ValidatorSigned = 3\<rparr>)
       (map Got [\<lparr>TxSent = 5, ValidatorSigned = 4\<rparr>, \<lparr>TxSent = 7, ValidatorSigned = 4\<rparr>, \<lparr>TxSent = 7, ValidatorSigned = 7\<rparr>])
     = (ti, es, None) \<and> approve_data es = [\<lparr>TxSent = 7, ValidatorSigned = 4\<rparr>] \<and> cancelApprove ti = None"
proof -
  let ?ds = "[\<lparr>TxSent = 5, ValidatorSigned = 4\<rparr>, \<lparr>TxSent = 7, ValidatorSigned = 4\<rparr>, \<lparr>TxSent = 7, ValidatorSigned = 7\<rparr>]"
  obtain ti es e where r: "loopUpdate ''R'' (Inr \<lparr>TxSent = 5, ValidatorSigned = 3\<rparr>) (map Got ?ds) = (ti, es, e)"
    by (cases "loopUpdate ''R'' (Inr \<lparr>TxSent = 5, ValidatorSigned = 3\<rparr>) (map Got ?ds)")
  show ?thesis using approvals_follow_counts [OF r] r by auto
qed

end
