(* ===== verification/StakerSchedule.thy ===== *)
theory StakerSchedule
  imports Scheduler
begin

text \<open>
  The staker schedule of scheduler/staker (open.go, withdraw.go, internal.go): one goroutine waits
  until the staker has a receipt with the validator, the next one waits for the end of the period or
  the withdrawal, and the main goroutine broadcasts what they report.
\<close>

record StakerReceiptGroup =
  sg_id :: pubkey
  sg_receipt :: pubkey
  IsOpen :: bool

record TriggerStaker =
  ts_context :: ctx
  ts_staker :: pubkey
  ts_receipt :: pubkey
  ts_payout :: pubkey

datatype staker_payload = Add TriggerStaker | Withdraw TriggerStaker StakerReceiptGroup

type_synonym sevent = "staker_payload Event"

section \<open>Waiting for the receipt\<close>

fun open_loop :: "StakerReceiptGroup msg list \<Rightarrow> (StakerReceiptGroup \<times> bool) option \<times> err list" where
  "open_loop [] = (None, [])"
| "open_loop (Done # ms) = (None, [])"
| "open_loop (Failed e # ms) = (None, [e])"
| "open_loop (Got rg # ms) = (Some (rg, True), [])"

text \<open>
  The trigger carries the goroutine's context. A failed query is reported and treated as an empty
  list. The results are the events, the receipt with its transition flag, and the errors.
\<close>

definition loopOpenReceipt ::
  "TriggerStaker \<Rightarrow> err + StakerReceiptGroup list \<Rightarrow> StakerReceiptGroup msg list
     \<Rightarrow> sevent list \<times> (StakerReceiptGroup \<times> bool) option \<times> err list" where
  "loopOpenReceipt t all ms =
     (let errs = (case all of Inl e \<Rightarrow> [e] | Inr _ \<Rightarrow> []); rgs = (case all of Inl _ \<Rightarrow> [] | Inr l \<Rightarrow> l)
      in case List.find (\<lambda>rg. sg_receipt rg = ts_receipt t) rgs of
           Some rg \<Rightarrow> ([], Some (rg, False), errs)
         | None \<Rightarrow>
             (case open_loop ms of (r, errs2) \<Rightarrow>
                ([CreateWithPayload TRIGGER_STAKER_ADD True 0 (Add t)], r, errs @ errs2)))"

section \<open>Waiting for the withdrawal\<close>

datatype withdraw_msg = ReceiptUpdate StakerReceiptGroup | PayoutEvent EventType

fun loopWithdraw ::
  "TriggerStaker \<Rightarrow> StakerReceiptGroup \<Rightarrow> withdraw_msg msg list \<Rightarrow> sevent list \<times> err option" where
  "loopWithdraw t srg [] = ([], None)"
| "loopWithdraw t srg (Done # ms) = ([], None)"
| "loopWithdraw t srg (Failed e # ms) = ([], Some e)"
| "loopWithdraw t srg (Got (ReceiptUpdate g) # ms) =
     (if \<not> IsOpen g then ([CreateEvent EVENT_STAKER_HAVE_WITHDRAWN True 0], None) else loopWithdraw t g ms)"
| "loopWithdraw t srg (Got (PayoutEvent ty) # ms) =
     (if ty = EVENT_PERIOD_FINISH then ([CreateWithPayload TRIGGER_STAKER_WITHDRAW True 0 (Withdraw t srg)], None)
      else loopWithdraw t srg ms)"

section \<open>The main goroutine\<close>

record staker_sched =
  cancelAdd :: "ctx option"
  cancelWithdraw :: "ctx option"
  outbox :: "sevent list"
  started :: "(ctx \<times> StakerReceiptGroup) list"
  ctx_next :: ctx
  ctx_done :: "ctx list"

definition init_sched :: staker_sched where
  "init_sched = \<lparr>cancelAdd = Some 0, cancelWithdraw = None, outbox = [], started = [], ctx_next = 1, ctx_done = []\<rparr>"

definition broadcast :: "sevent \<Rightarrow> staker_sched \<Rightarrow> staker_sched" where
  "broadcast event s = s\<lparr>outbox := outbox s @ [event]\<rparr>"

definition on_event :: "sevent \<Rightarrow> staker_sched \<Rightarrow> staker_sched" where
  "on_event event s =
     (let s1 = broadcast event s in
      if Type event = EVENT_STAKER_HAVE_WITHDRAWN
      then case cancelWithdraw s1 of
             None \<Rightarrow> s1
           | Some c \<Rightarrow> s1\<lparr>ctx_done := c # ctx_done s1, cancelWithdraw := None\<rparr>
      else s1)"

text \<open>The goroutine loopWithdraw is started with the new context.\<close>

definition on_staker_receipt :: "StakerReceiptGroup \<times> bool \<Rightarrow> staker_sched \<Rightarrow> staker_sched" where
  "on_staker_receipt srgt s =
     (let s1 = broadcast (CreateEvent EVENT_STAKER_IS_ADDING (snd srgt) 0) s;
          s2 = (case cancelAdd s1 of
                  None \<Rightarrow> s1
                | Some c \<Rightarrow> s1\<lparr>ctx_done := c # ctx_done s1, cancelAdd := None\<rparr>);
          c = ctx_next s2
      in s2\<lparr>cancelWithdraw := Some c, ctx_next := Suc c, started := started s2 @ [(c, fst srgt)]\<rparr>)"

datatype sched_msg = NewReceipt "StakerReceiptGroup \<times> bool" | NewEvent sevent

fun loopInternal :: "sched_msg msg list \<Rightarrow> staker_sched \<Rightarrow> staker_sched \<times> err option" where
  "loopInternal [] s = (s, None)"
| "loopInternal (Done # ms) s = (s, None)"
| "loopInternal (Failed e # ms) s = (s, Some e)"
| "loopInternal (Got (NewReceipt r) # ms) s = loopInternal ms (on_staker_receipt r s)"
| "loopInternal (Got (NewEvent e) # ms) s = loopInternal ms (on_event e s)"

section \<open>A whole life of the schedule\<close>

text \<open>
  The three goroutines in the order in which they hand over to each other: the receipt is found, then
  the withdrawal goroutine reads its messages, and the main goroutine gets all their reports.
\<close>

definition life ::
  "TriggerStaker \<Rightarrow> err + StakerReceiptGroup list \<Rightarrow> StakerReceiptGroup msg list \<Rightarrow> withdraw_msg msg list
     \<Rightarrow> staker_sched \<times> err option" where
  "life t all ms ws =
     (case loopOpenReceipt t all ms of (es, r, _) \<Rightarrow>
        loopInternal
          (map (Got \<circ> NewEvent) es
           @ (case r of
                None \<Rightarrow> []
              | Some (rg, b) \<Rightarrow>
                  Got (NewReceipt (rg, b)) # map (Got \<circ> NewEvent) (fst (loopWithdraw (t\<lparr>ts_context := 1\<rparr>) rg ws))))
          init_sched)"

text \<open>The first message that decides: the end of the period, or the closed receipt.\<close>

fun decides :: "withdraw_msg \<Rightarrow> bool" where
  "decides (ReceiptUpdate g) = (\<not> IsOpen g)"
| "decides (PayoutEvent ty) = (ty = EVENT_PERIOD_FINISH)"

fun closes :: "withdraw_msg \<Rightarrow> bool" where
  "closes (ReceiptUpdate g) = (\<not> IsOpen g)"
| "closes (PayoutEvent ty) = False"

lemma loopWithdraw_types:
  "map Type (fst (loopWithdraw t g (map Got ws))) =
     (case List.find decides ws of
        None \<Rightarrow> []
      | Some w \<Rightarrow> [if closes w then EVENT_STAKER_HAVE_WITHDRAWN else TRIGGER_STAKER_WITHDRAW])"
proof (induction ws arbitrary: g)
  case (Cons w ws)
  then show ?case by (cases w) auto
qed simp

lemma loopInternal_events:
  "loopInternal (map (Got \<circ> NewEvent) es) s = (fold on_event es s, None)"
  by (induction es arbitrary: s) auto

lemma loopInternal_append:
  "loopInternal (map (Got \<circ> NewEvent) es @ ms) s = loopInternal ms (fold on_event es s)"
  by (induction es arbitrary: s) auto

lemma on_event_other:
  "Type e \<noteq> EVENT_STAKER_HAVE_WITHDRAWN \<Longrightarrow> on_event e s = s\<lparr>outbox := outbox s @ [e]\<rparr>"
  by (simp add: on_event_def broadcast_def Let_def)

lemma fold_withdraw:
  "map Type es = (if w then [EVENT_STAKER_HAVE_WITHDRAWN] else xs) \<Longrightarrow> length xs \<le> 1
     \<Longrightarrow> EVENT_STAKER_HAVE_WITHDRAWN \<notin> set xs \<Longrightarrow> cancelWithdraw s = Some c
     \<Longrightarrow> outbox (fold on_event es s) = outbox s @ es
        \<and> cancelWithdraw (fold on_event es s) = (if w then None else Some c)
        \<and> ctx_done (fold on_event es s) = (if w then c # ctx_done s else ctx_done s)"
  by (cases es; cases "tl es") (auto simp: on_event_def broadcast_def Let_def split: if_splits)

section \<open>Properties\<close>

text \<open>
  Once the staker's receipt is there, the schedule reports that the staker is adding and then
  exactly one thing more: that the staker has withdrawn, if the receipt closes before the period
  finishes, or the trigger to withdraw, if the period finishes first. After the trigger the
  goroutine is gone, so the withdrawal it asks for is never reported and the context of the
  trigger is never cancelled, whatever the receipt does afterwards.
\<close>

theorem withdrawal_after_finish_not_noticed:
  assumes "loopOpenReceipt t all ms = (es, Some r, errs)" and "life t all ms (map Got ws) = (s, e)"
    and "List.find decides ws = Some w"
  shows "map Type (outbox s) = map Type es @ [EVENT_STAKER_IS_ADDING,
           if closes w then EVENT_STAKER_HAVE_WITHDRAWN else TRIGGER_STAKER_WITHDRAW]
     \<and> (1 \<in> set (ctx_done s) \<longleftrightarrow> closes w) \<and> e = None"
proof -
  obtain rg b where r: "r = (rg, b)" by (cases r)
  let ?t = "t\<lparr>ts_context := 1\<rparr>"
  let ?wes = "fst (loopWithdraw ?t rg (map Got ws))"
  have es: "es = [] \<or> es = [CreateWithPayload TRIGGER_STAKER_ADD True 0 (Add t)]"
    using assms(1) by (auto simp: loopOpenReceipt_def Let_def split: option.splits prod.splits)
  let ?s0 = "fold on_event es init_sched" and ?s1 = "on_staker_receipt (rg, b) (fold on_event es init_sched)"
  have s0: "?s0 = init_sched\<lparr>outbox := es\<rparr>"
    using es by (auto simp: on_event_other event_codes init_sched_def)
  have s1: "cancelWithdraw ?s1 = Some 1" "ctx_done ?s1 = [0]"
    "outbox ?s1 = es @ [CreateEvent EVENT_STAKER_IS_ADDING b 0]"
    unfolding s0 by (simp_all add: on_staker_receipt_def broadcast_def init_sched_def Let_def)
  have run: "s = fold on_event ?wes ?s1 \<and> e = None"
    using assms(2) unfolding life_def
    by (simp add: assms(1) r loopInternal_append loopInternal_events)
  have ty: "map Type ?wes = (if closes w then [EVENT_STAKER_HAVE_WITHDRAWN] else [TRIGGER_STAKER_WITHDRAW])"
    using loopWithdraw_types [of ?t rg ws] assms(3) by simp
  show ?thesis using fold_withdraw [OF ty _ _ s1(1)] run s1 ty by (simp add: event_codes)
qed

theorem withdrawal_after_finish_not_noticed_witness:
  "\<exists>s. life \<lparr>ts_context = 0, ts_staker = ''S'', ts_receipt = ''R'', ts_payout = ''P''\<rparr> (Inr [])
         [Got \<lparr>sg_id = ''G'', sg_receipt = ''R'', IsOpen = True\<rparr>]
         (map Got [PayoutEvent EVENT_PERIOD_FINISH, ReceiptUpdate \<lparr>sg_id = ''G'', sg_receipt = ''R'', IsOpen = False\<rparr>])
       = (s, None)
     \<and> map Type (outbox s) = [TRIGGER_STAKER_ADD, EVENT_STAKER_IS_ADDING, TRIGGER_STAKER_WITHDRAW]
     \<and> 1 \<notin> set (ctx_done s)"
proof -
  let ?t = "\<lparr>ts_context = 0, ts_staker = ''S'', ts_receipt = ''R'', ts_payout = ''P''\<rparr>"
  let ?g = "\<lparr>sg_id = ''G'', sg_receipt = ''R'', IsOpen = True\<rparr>"
  let ?ws = "[PayoutEvent EVENT_PERIOD_FINISH, ReceiptUpdate \<lparr>sg_id = ''G'', sg_receipt = ''R'', IsOpen = False\<rparr>]"
  obtain s e where l: "life ?t (Inr []) [Got ?g] (map Got ?ws) = (s, e)"
    by (cases "life ?t (Inr []) [Got ?g] (map Got ?ws)")
  have o: "loopOpenReceipt ?t (Inr []) [Got ?g]
      = ([CreateWithPayload TRIGGER_STAKER_ADD True 0 (Add ?t)], Some (?g, True), [])"
    by (simp add: loopOpenReceipt_def)
  show ?thesis using withdrawal_after_finish_not_noticed [OF o l, of "PayoutEvent EVENT_PERIOD_FINISH"] l by simp
qed

end
