(* ===== verification/ValidatorSchedule.thy ===== *)
theory ValidatorSchedule
  imports Scheduler
begin

text \<open>
  The validator schedule of scheduler/validator (internal.go, event.go, run.go, receipt.go, open.go).
  The main goroutine listens to the payout schedule, waits for the validator's receipt and, with the
  goroutine of the receipt, for the stakers. A send on errorC, clockPeriodStartC or
  clockPeriodPostCloseC goes to a channel with one place; on errorC the main goroutine is also the
  only reader, so a handler that finds it full never returns, which is the value \<open>None\<close>.
\<close>

record TriggerValidator =
  tv_context :: "ctx option"
  tv_validator :: pubkey
  tv_payout :: pubkey
  tv_receipt :: pubkey
  tv_pipeline :: pubkey

type_synonym vevent = "TriggerValidator Event"
type_synonym payout_event = "pubkey Trigger Event"

record validator_sched =
  v_pipeline :: pubkey
  v_payout :: pubkey
  v_validator :: pubkey
  errorC :: "err option chan"
  clockPeriodStartC :: "bool chan"
  sentPeriodStart :: bool
  clockPeriodPostCloseC :: "bool chan"
  sentPeriodPostClose :: bool
  receiptData :: "nat option"
  receipt :: pubkey
  cancelStake :: "ctx option"
  ctxValidatorWithraw :: "ctx option"
  cancelValidatorWithraw :: "ctx option"
  isValidatorWithdrawTransition :: bool
  outbox :: "vevent list"
  ctx_next :: ctx
  ctx_done :: "ctx list"

definition init_sched :: "pubkey \<Rightarrow> pubkey \<Rightarrow> pubkey \<Rightarrow> validator_sched" where
  "init_sched pl p v =
     \<lparr>v_pipeline = pl, v_payout = p, v_validator = v, errorC = make_chan 1,
      clockPeriodStartC = make_chan 1, sentPeriodStart = False,
      clockPeriodPostCloseC = make_chan 1, sentPeriodPostClose = False,
      receiptData = None, receipt = [], cancelStake = None, ctxValidatorWithraw = None,
      cancelValidatorWithraw = None, isValidatorWithdrawTransition = False,
      outbox = [], ctx_next = 0, ctx_done = []\<rparr>"

definition broadcast :: "vevent \<Rightarrow> validator_sched \<Rightarrow> validator_sched" where
  "broadcast event s = s\<lparr>outbox := outbox s @ [event]\<rparr>"

definition trigger :: "ctx option \<Rightarrow> validator_sched \<Rightarrow> TriggerValidator" where
  "trigger c s =
     \<lparr>tv_context = c, tv_validator = v_validator s, tv_payout = v_payout s, tv_receipt = receipt s,
      tv_pipeline = v_pipeline s\<rparr>"

definition send_error :: "err option \<Rightarrow> validator_sched \<Rightarrow> validator_sched option" where
  "send_error e s = map_option (\<lambda>c. s\<lparr>errorC := c\<rparr>) (chan_send e (errorC s))"

section \<open>Triggers\<close>

definition run_validator_set_payout :: "payout_event \<Rightarrow> validator_sched \<Rightarrow> validator_sched option" where
  "run_validator_set_payout event s =
     (case ReadTrigger event of
        Inl err \<Rightarrow> send_error (Some err) s
      | Inr oldTrigger \<Rightarrow>
          Some (broadcast (CreateWithPayload TRIGGER_VALIDATOR_SET_PAYOUT False 0 (trigger (Context oldTrigger) s)) s))"

definition run_validator_withdraw :: "validator_sched \<Rightarrow> validator_sched" where
  "run_validator_withdraw s =
     (if receiptData s = None then s
      else case ctxValidatorWithraw s of
             None \<Rightarrow> s
           | Some c \<Rightarrow>
               broadcast (CreateWithPayload TRIGGER_VALIDATOR_WITHDRAW_RECEIPT (isValidatorWithdrawTransition s) 0
                            (trigger (Some c) s)) s)"

section \<open>Events of the payout\<close>

definition on_pre_start_kill :: "payout_event \<Rightarrow> validator_sched \<Rightarrow> validator_sched option" where
  "on_pre_start_kill event s =
     (if \<not> sentPeriodStart s
      then map_option (\<lambda>c. s\<lparr>sentPeriodStart := True, clockPeriodStartC := c\<rparr>)
             (chan_send (IsStateChange event) (clockPeriodStartC s))
      else Some s)"

definition on_post :: "payout_event \<Rightarrow> validator_sched \<Rightarrow> validator_sched option" where
  "on_post event s =
     (if \<not> sentPeriodPostClose s
      then map_option (\<lambda>c. s\<lparr>sentPeriodPostClose := True, clockPeriodPostCloseC := c\<rparr>)
             (chan_send (IsStateChange event) (clockPeriodPostCloseC s))
      else Some s)"

definition on_payout_event :: "payout_event \<Rightarrow> validator_sched \<Rightarrow> validator_sched option" where
  "on_payout_event event s =
     (if Type event = TRIGGER_VALIDATOR_SET_PAYOUT then run_validator_set_payout event s
      else if Type event = EVENT_PERIOD_PRE_START then Some s
      else if Type event = EVENT_PERIOD_START then on_pre_start_kill event s
      else if Type event = EVENT_PERIOD_FINISH then on_pre_start_kill event s
      else if Type event = EVENT_DELAY_CLOSE_PAYOUT
      then case on_pre_start_kill event s of None \<Rightarrow> None | Some s1 \<Rightarrow> on_post event s1
      else Some s)"

section \<open>Events of the receipt\<close>

definition on_staker_have_withdrawn :: "vevent \<Rightarrow> validator_sched \<Rightarrow> validator_sched option" where
  "on_staker_have_withdrawn event s =
     (let s1 = broadcast event s in
      if cancelValidatorWithraw s1 = None then
        let c = ctx_next s1 in
        Some (run_validator_withdraw
          (s1\<lparr>ctxValidatorWithraw := Some c, cancelValidatorWithraw := Some c, ctx_next := Suc c,
              isValidatorWithdrawTransition := IsStateChange event\<rparr>))
      else send_error (Some ''duplicate withdraw trigger'') s1)"

definition on_receipt_event :: "vevent \<Rightarrow> validator_sched \<Rightarrow> validator_sched option" where
  "on_receipt_event event s =
     (if Type event = EVENT_STAKER_IS_ADDING then Some (broadcast event s)
      else if Type event = EVENT_STAKER_HAVE_WITHDRAWN then on_staker_have_withdrawn event s
      else if Type event = EVENT_STAKER_HAVE_WITHDRAWN_EMPTY then on_staker_have_withdrawn event s
      else if Type event = EVENT_VALIDATOR_HAVE_WITHDRAWN then
        let s1 = (case cancelValidatorWithraw s of
                    None \<Rightarrow> s
                  | Some c \<Rightarrow> s\<lparr>ctx_done := c # ctx_done s, cancelValidatorWithraw := None\<rparr>)
        in send_error None (broadcast event s1)
      else Some s)"

text \<open>The receipt arrives; the goroutine loopWaitStakeFinish is started.\<close>

definition on_receipt :: "pubkey \<Rightarrow> nat \<Rightarrow> bool \<Rightarrow> validator_sched \<Rightarrow> validator_sched option" where
  "on_receipt r d isStateChange s =
     (case on_receipt_event (CreateEvent EVENT_VALIDATOR_IS_ADDING isStateChange 0) s of
        None \<Rightarrow> None
      | Some s1 \<Rightarrow>
          Some (run_validator_withdraw
            (s1\<lparr>receipt := r, receiptData := Some d, cancelStake := Some (ctx_next s1), ctx_next := Suc (ctx_next s1)\<rparr>)))"

section \<open>Waiting for the stakers\<close>

text \<open>
  What the goroutine receives: the closed context, the end of the close delay, an error of the data
  subscription (nil when the receipt account closes), or the number of stakers.
\<close>

datatype wait_msg = WaitDone | PostClose bool | DataError "err option" | Stakers nat

record wait_stake =
  stakersAddingStarted :: bool
  stakerCounter :: nat
  sentStakerAreAdding :: bool
  sentStakerHaveWithdrawnEmpty :: bool
  sentStakerHaveWithdrawn :: bool

definition wait_init :: "nat \<Rightarrow> wait_stake \<times> vevent list" where
  "wait_init n =
     (\<lparr>stakersAddingStarted = (0 < n), stakerCounter = n, sentStakerAreAdding = False,
       sentStakerHaveWithdrawnEmpty = False, sentStakerHaveWithdrawn = False\<rparr>,
      if 0 < n then [CreateEvent EVENT_STAKER_IS_ADDING False 0] else [])"

definition wait_post :: "bool \<Rightarrow> wait_stake \<Rightarrow> wait_stake \<times> vevent list" where
  "wait_post b w =
     (if \<not> sentStakerHaveWithdrawnEmpty w \<and> \<not> stakersAddingStarted w \<and> stakerCounter w = 0
      then (w\<lparr>sentStakerHaveWithdrawnEmpty := True\<rparr>, [CreateEvent EVENT_STAKER_HAVE_WITHDRAWN_EMPTY b 0])
      else (w, []))"

definition wait_adding :: "wait_stake \<Rightarrow> wait_stake \<times> vevent list" where
  "wait_adding w =
     (if \<not> sentStakerAreAdding w \<and> \<not> stakersAddingStarted w \<and> 0 < stakerCounter w
      then (w\<lparr>sentStakerAreAdding := True, stakersAddingStarted := True\<rparr>, [CreateEvent EVENT_STAKER_IS_ADDING True 0])
      else (w, []))"

definition wait_withdrawn :: "wait_stake \<Rightarrow> wait_stake \<times> vevent list" where
  "wait_withdrawn w =
     (if \<not> sentStakerHaveWithdrawn w \<and> stakersAddingStarted w \<and> stakerCounter w = 0
      then (w\<lparr>sentStakerHaveWithdrawn := True\<rparr>, [CreateEvent EVENT_STAKER_HAVE_WITHDRAWN True 0])
      else (w, []))"

definition wait_data :: "nat \<Rightarrow> wait_stake \<Rightarrow> wait_stake \<times> vevent list" where
  "wait_data n w =
     (case wait_adding (w\<lparr>stakerCounter := n\<rparr>) of (w1, es1) \<Rightarrow>
        case wait_withdrawn w1 of (w2, es2) \<Rightarrow> (w2, es1 @ es2))"

fun wait_loop :: "wait_msg list \<Rightarrow> wait_stake \<Rightarrow> vevent list \<times> err option" where
  "wait_loop [] w = ([], None)"
| "wait_loop (WaitDone # ms) w = ([], None)"
| "wait_loop (DataError (Some e) # ms) w = ([], Some e)"
| "wait_loop (DataError None # ms) w = ([CreateEvent EVENT_VALIDATOR_HAVE_WITHDRAWN True 0], None)"
| "wait_loop (PostClose b # ms) w =
     (case wait_post b w of (w1, es1) \<Rightarrow> case wait_loop ms w1 of (es2, e) \<Rightarrow> (es1 @ es2, e))"
| "wait_loop (Stakers n # ms) w =
     (case wait_data n w of (w1, es1) \<Rightarrow> case wait_loop ms w1 of (es2, e) \<Rightarrow> (es1 @ es2, e))"

definition loopWaitStakeFinish :: "err + nat \<Rightarrow> wait_msg list \<Rightarrow> vevent list \<times> err option" where
  "loopWaitStakeFinish start ms =
     (case start of
        Inl e \<Rightarrow> ([], Some e)
      | Inr n \<Rightarrow> (case wait_init n of (w, es) \<Rightarrow> case wait_loop ms w of (es2, e) \<Rightarrow> (es @ es2, e)))"

section \<open>Waiting for the receipt\<close>

datatype open_msg = OpenDone | OpenError err | OpenReceipt pubkey pubkey nat | PeriodStarted

text \<open>The receipt that is handed to the main goroutine, with its transition flag.\<close>

fun open_loop :: "pubkey \<Rightarrow> open_msg list \<Rightarrow> (pubkey \<times> nat \<times> bool) option \<times> err option" where
  "open_loop p [] = (None, None)"
| "open_loop p (OpenDone # ms) = (None, None)"
| "open_loop p (OpenError e # ms) = (None, Some e)"
| "open_loop p (OpenReceipt r pay d # ms) = (if pay = p then (Some (r, d, True), None) else open_loop p ms)"
| "open_loop p (PeriodStarted # ms) = (None, None)"

definition loopOpenReceipt ::
  "pubkey \<Rightarrow> (pubkey \<times> nat) option \<Rightarrow> open_msg list \<Rightarrow> (pubkey \<times> nat \<times> bool) option \<times> err option" where
  "loopOpenReceipt p present ms =
     (case present of Some (r, d) \<Rightarrow> (Some (r, d, False), None) | None \<Rightarrow> open_loop p ms)"

section \<open>The main loop\<close>

datatype main_msg = MainDone | ErrorArrived | PayoutError err | PayoutEvent payout_event
  | ReceiptArrived pubkey nat bool | ReceiptEvent vevent

text \<open>The result is \<open>None\<close> when a handler blocks.\<close>

fun loopInternal :: "main_msg list \<Rightarrow> validator_sched \<Rightarrow> (validator_sched \<times> err option) option" where
  "loopInternal [] s = Some (s, None)"
| "loopInternal (MainDone # ms) s = Some (s, None)"
| "loopInternal (ErrorArrived # ms) s =
     (case chan_recv (errorC s) of
        None \<Rightarrow> loopInternal ms s
      | Some (e, c) \<Rightarrow> Some (s\<lparr>errorC := c\<rparr>, e))"
| "loopInternal (PayoutError e # ms) s = Some (s, Some e)"
| "loopInternal (PayoutEvent e # ms) s =
     (case on_payout_event e s of None \<Rightarrow> None | Some s1 \<Rightarrow> loopInternal ms s1)"
| "loopInternal (ReceiptArrived r d b # ms) s =
     (case on_receipt r d b s of None \<Rightarrow> None | Some s1 \<Rightarrow> loopInternal ms s1)"
| "loopInternal (ReceiptEvent e # ms) s =
     (case on_receipt_event e s of None \<Rightarrow> None | Some s1 \<Rightarrow> loopInternal ms s1)"

section \<open>What the goroutine of the receipt can report\<close>

definition is_withdrawal :: "vevent \<Rightarrow> bool" where
  "is_withdrawal e \<longleftrightarrow> Type e = EVENT_STAKER_HAVE_WITHDRAWN \<or> Type e = EVENT_STAKER_HAVE_WITHDRAWN_EMPTY"

text \<open>
  The shape of its reports: stakers adding, one withdrawal at most (none when there was one before),
  and the end of the validator last. The flag says whether a withdrawal was reported already.
\<close>

fun reports :: "bool \<Rightarrow> vevent list \<Rightarrow> bool" where
  "reports w [] = True"
| "reports w (e # es) =
     (if Type e = EVENT_STAKER_IS_ADDING then reports w es
      else if is_withdrawal e then \<not> w \<and> reports True es
      else Type e = EVENT_VALIDATOR_HAVE_WITHDRAWN \<and> es = [])"

definition wait_inv :: "wait_stake \<Rightarrow> bool" where
  "wait_inv w \<longleftrightarrow> (sentStakerHaveWithdrawn w \<longrightarrow> stakersAddingStarted w)"

definition both :: "wait_stake \<Rightarrow> vevent list \<Rightarrow> bool" where
  "both w es \<longleftrightarrow>
     (sentStakerHaveWithdrawn w \<or> EVENT_STAKER_HAVE_WITHDRAWN \<in> Type ` set es)
   \<and> (sentStakerHaveWithdrawnEmpty w \<or> EVENT_STAKER_HAVE_WITHDRAWN_EMPTY \<in> Type ` set es)"

abbreviation withdrawn :: "wait_stake \<Rightarrow> bool" where
  "withdrawn w \<equiv> sentStakerHaveWithdrawn w \<or> sentStakerHaveWithdrawnEmpty w"

lemma wait_post_reports:
  assumes "wait_post b w = (w1, es1)" "wait_inv w" "\<not> both w (es1 @ es)" "reports (withdrawn w1) es"
  shows "wait_inv w1 \<and> reports (withdrawn w) (es1 @ es)"
  using assms by (auto simp: wait_post_def wait_inv_def both_def is_withdrawal_def event_codes split: if_splits)

lemma wait_data_reports:
  assumes "wait_data n w = (w1, es1)" "wait_inv w" "\<not> both w (es1 @ es)" "reports (withdrawn w1) es"
  shows "reports (withdrawn w) (es1 @ es)"
  using assms
  by (auto simp: wait_data_def wait_adding_def wait_withdrawn_def both_def is_withdrawal_def event_codes
      split: if_splits prod.splits)

lemma wait_steps:
  "wait_post b w = (w1, es1) \<Longrightarrow> wait_inv w \<Longrightarrow> wait_inv w1 \<and> (both w1 es \<longrightarrow> both w (es1 @ es))"
  "wait_data n w = (w1, es1) \<Longrightarrow> wait_inv w \<Longrightarrow> wait_inv w1 \<and> (both w1 es \<longrightarrow> both w (es1 @ es))"
  by (auto simp: wait_post_def wait_data_def wait_adding_def wait_withdrawn_def wait_inv_def both_def
      split: if_splits prod.splits)

lemma wait_loop_reports:
  "wait_loop ms w = (es, e) \<Longrightarrow> wait_inv w \<Longrightarrow> \<not> both w es \<Longrightarrow> reports (withdrawn w) es"
proof (induction ms w arbitrary: es rule: wait_loop.induct)
  case (5 b ms w)
  obtain w1 es1 where p: "wait_post b w = (w1, es1)" by (cases "wait_post b w")
  obtain es2 e2 where l: "wait_loop ms w1 = (es2, e2)" by (cases "wait_loop ms w1")
  have es: "es = es1 @ es2" "e2 = e" using "5.prems"(1) p l by simp_all
  have "reports (withdrawn w1) es2"
    using "5.IH" [OF p [symmetric], of es2] l es(2) wait_steps(1) [OF p "5.prems"(2), of es2] "5.prems"(3) es(1) by simp
  then show ?case using wait_post_reports [OF p "5.prems"(2)] "5.prems"(3) es(1) by simp
next
  case (6 n ms w)
  obtain w1 es1 where p: "wait_data n w = (w1, es1)" by (cases "wait_data n w")
  obtain es2 e2 where l: "wait_loop ms w1 = (es2, e2)" by (cases "wait_loop ms w1")
  have es: "es = es1 @ es2" "e2 = e" using "6.prems"(1) p l by simp_all
  have "reports (withdrawn w1) es2"
    using "6.IH" [OF p [symmetric], of es2] l es(2) wait_steps(2) [OF p "6.prems"(2), of es2] "6.prems"(3) es(1) by simp
  then show ?case using wait_data_reports [OF p "6.prems"(2)] "6.prems"(3) es(1) by simp
qed (auto simp: is_withdrawal_def event_codes)

lemma wait_reports:
  assumes "loopWaitStakeFinish (Inr n) ms = (es, e)"
    "\<not> (EVENT_STAKER_HAVE_WITHDRAWN \<in> Type ` set es \<and> EVENT_STAKER_HAVE_WITHDRAWN_EMPTY \<in> Type ` set es)"
  shows "reports False es"
proof -
  obtain w es0 where i: "wait_init n = (w, es0)" by (cases "wait_init n")
  obtain es1 e1 where l: "wait_loop ms w = (es1, e1)" by (cases "wait_loop ms w")
  have es: "es = es0 @ es1" using assms(1) i l by (simp add: loopWaitStakeFinish_def)
  have w: "wait_inv w" "\<not> withdrawn w" using i by (auto simp: wait_init_def wait_inv_def)
  have "\<not> both w es1" using assms(2) w(2) es by (auto simp: both_def)
  then have "reports False es1" using wait_loop_reports [OF l w(1)] w(2) by simp
  then show ?thesis using i es by (auto simp: wait_init_def split: if_splits)
qed

section \<open>The main goroutine against these reports\<close>

definition chans_ok :: "validator_sched \<Rightarrow> bool" where
  "chans_ok s \<longleftrightarrow>
     (\<not> sentPeriodStart s \<longrightarrow> clockPeriodStartC s = make_chan 1)
   \<and> (\<not> sentPeriodPostClose s \<longrightarrow> clockPeriodPostCloseC s = make_chan 1)"

text \<open>
  The phases: before the receipt; with it, a flag for the withdrawal and one for the end.
\<close>

definition phase :: "bool \<Rightarrow> bool \<Rightarrow> bool \<Rightarrow> validator_sched \<Rightarrow> bool" where
  "phase r w z s \<longleftrightarrow> chans_ok s \<and> (receiptData s \<noteq> None \<longleftrightarrow> r)
     \<and> (ctxValidatorWithraw s \<noteq> None \<longleftrightarrow> w) \<and> (\<not> z \<longrightarrow> (cancelValidatorWithraw s \<noteq> None \<longleftrightarrow> w))
     \<and> errorC s = \<lparr>cbuf = (if z then [None] else []), ccap = 1\<rparr>
     \<and> times TRIGGER_VALIDATOR_WITHDRAW_RECEIPT (outbox s) = (if w then 1 else 0)
     \<and> times EVENT_VALIDATOR_IS_ADDING (outbox s) = 0"

lemma phase_init: "phase False False False (init_sched pl p v)"
  by (simp add: phase_def init_sched_def chans_ok_def make_chan_def)

lemma phase_payout:
  assumes "phase r w z s" "Type e = TRIGGER_VALIDATOR_SET_PAYOUT \<longrightarrow> Payload e \<noteq> None"
  shows "\<exists>s'. on_payout_event e s = Some s' \<and> phase r w z s'"
proof -
  have pre: "\<exists>s'. on_pre_start_kill e s = Some s' \<and> phase r w z s'"
    using assms(1) by (auto simp: on_pre_start_kill_def chan_send_def phase_def chans_ok_def make_chan_def)
  have post: "\<exists>s'. on_post e x = Some s' \<and> phase r w z s'" if "phase r w z x" for x
    using that by (auto simp: on_post_def chan_send_def phase_def chans_ok_def make_chan_def)
  have set: "\<exists>s'. run_validator_set_payout e s = Some s' \<and> phase r w z s'" if "Payload e \<noteq> None"
    using that assms(1)
    by (auto simp: run_validator_set_payout_def ReadTrigger_def broadcast_def phase_def chans_ok_def event_codes)
  show ?thesis using pre post set assms by (auto simp: on_payout_event_def)
qed

lemma phase_receipt:
  assumes "phase False False False s"
  shows "\<exists>s'. on_receipt r d b s = Some s' \<and> phase True False False s'"
  using assms
  by (auto simp: on_receipt_def on_receipt_event_def run_validator_withdraw_def phase_def chans_ok_def event_codes)

lemma phase_adding:
  "phase True w False s \<Longrightarrow> Type e = EVENT_STAKER_IS_ADDING \<Longrightarrow>
     \<exists>s'. on_receipt_event e s = Some s' \<and> phase True w False s'"
  by (auto simp: on_receipt_event_def broadcast_def phase_def chans_ok_def event_codes)

lemma phase_withdrawal:
  assumes "phase True False False s" "is_withdrawal e"
  shows "\<exists>s'. on_receipt_event e s = Some s' \<and> phase True True False s'"
proof -
  obtain d where "receiptData s = Some d" using assms(1) by (auto simp: phase_def)
  then have "\<exists>s'. on_staker_have_withdrawn e s = Some s' \<and> phase True True False s'"
    using assms
    by (auto simp: on_staker_have_withdrawn_def broadcast_def run_validator_withdraw_def phase_def chans_ok_def
        is_withdrawal_def event_codes Let_def)
  then show ?thesis using assms(2) by (auto simp: on_receipt_event_def is_withdrawal_def event_codes)
qed

lemma phase_end:
  "phase True w False s \<Longrightarrow> Type e = EVENT_VALIDATOR_HAVE_WITHDRAWN \<Longrightarrow>
     \<exists>s'. on_receipt_event e s = Some s' \<and> phase True w True s'"
  by (auto simp: on_receipt_event_def broadcast_def send_error_def chan_send_def phase_def chans_ok_def
      event_codes Let_def split: option.split)

fun is_payout :: "main_msg \<Rightarrow> bool" where
  "is_payout (PayoutEvent e) = True"
| "is_payout _ = False"

fun with_payload :: "main_msg \<Rightarrow> bool" where
  "with_payload (PayoutEvent e) = (Type e = TRIGGER_VALIDATOR_SET_PAYOUT \<longrightarrow> Payload e \<noteq> None)"
| "with_payload _ = True"

lemma loop_payouts:
  "phase r w z s \<Longrightarrow> \<forall>m\<in>set xs. with_payload m \<Longrightarrow> \<forall>m\<in>set xs. is_payout m
     \<Longrightarrow> \<exists>s'. loopInternal xs s = Some (s', None) \<and> phase r w z s'"
proof (induction xs arbitrary: s)
  case (Cons m xs)
  then obtain e where m: "m = PayoutEvent e" by (cases m) auto
  obtain s1 where "on_payout_event e s = Some s1" "phase r w z s1"
    using phase_payout [OF Cons.prems(1), of e] Cons.prems(2) m by auto
  then show ?case using Cons.IH [of s1] Cons.prems(2,3) m by simp
qed simp

lemma loop_reports:
  assumes "phase True w False s" "reports w es" "\<forall>m\<in>set xs. with_payload m"
    "filter (\<lambda>m. \<not> is_payout m) xs = map ReceiptEvent es"
  shows "\<exists>s'. loopInternal xs s = Some (s', None)
     \<and> phase True (w \<or> (\<exists>e\<in>set es. is_withdrawal e)) (\<exists>e\<in>set es. Type e = EVENT_VALIDATOR_HAVE_WITHDRAWN) s'"
  using assms
proof (induction xs arbitrary: s w es)
  case (Cons m xs)
  show ?case
  proof (cases "is_payout m")
    case True
    then obtain e where m: "m = PayoutEvent e" by (cases m) auto
    obtain s1 where s1: "on_payout_event e s = Some s1" "phase True w False s1"
      using phase_payout [OF Cons.prems(1), of e] Cons.prems(3) m by auto
    show ?thesis using Cons.IH [OF s1(2) Cons.prems(2)] Cons.prems(3,4) m s1(1) by simp
  next
    case False
    then obtain e es' where m: "m = ReceiptEvent e" "es = e # es'" using Cons.prems(4) by (cases es) auto
    have rest: "filter (\<lambda>m. \<not> is_payout m) xs = map ReceiptEvent es'" "\<forall>m\<in>set xs. with_payload m"
      using Cons.prems(3,4) m by simp_all
    consider "Type e = EVENT_STAKER_IS_ADDING" "reports w es'"
      | "is_withdrawal e" "\<not> w" "reports True es'"
      | "Type e = EVENT_VALIDATOR_HAVE_WITHDRAWN" "es' = []"
      using Cons.prems(2) m(2) by (auto split: if_splits)
    then show ?thesis
    proof cases
      case 1
      then show ?thesis
        using phase_adding [OF Cons.prems(1) 1(1)] Cons.IH [OF _ 1(2) rest(2,1)] m
        by (auto simp: is_withdrawal_def event_codes)
    next
      case 2
      then show ?thesis
        using phase_withdrawal [of s e] Cons.prems(1) Cons.IH [OF _ 2(3) rest(2,1)] m
        by (auto simp: is_withdrawal_def event_codes)
    next
      case 3
      obtain s1 where s1: "on_receipt_event e s = Some s1" "phase True w True s1"
        using phase_end [OF Cons.prems(1) 3(1)] by auto
      have "\<forall>m\<in>set xs. is_payout m" using rest(1) 3(2) by (simp add: filter_empty_conv)
      then have "\<exists>s'. loopInternal xs s1 = Some (s', None) \<and> phase True w True s'"
        using rest(2) s1(2) loop_payouts by blast
      then show ?thesis using m s1(1) 3 by (auto simp: is_withdrawal_def event_codes)
    qed
  qed
qed auto

lemma loop_until_receipt:
  assumes "phase False False False s" "reports False es" "\<forall>m\<in>set xs. with_payload m"
    "filter (\<lambda>m. \<not> is_payout m) xs = ReceiptArrived r d b # map ReceiptEvent es"
  shows "\<exists>s'. loopInternal xs s = Some (s', None)
     \<and> phase True (\<exists>e\<in>set es. is_withdrawal e) (\<exists>e\<in>set es. Type e = EVENT_VALIDATOR_HAVE_WITHDRAWN) s'"
  using assms
proof (induction xs arbitrary: s)
  case (Cons m xs)
  show ?case
  proof (cases "is_payout m")
    case True
    then obtain e where m: "m = PayoutEvent e" by (cases m) auto
    obtain s1 where s1: "on_payout_event e s = Some s1" "phase False False False s1"
      using phase_payout [OF Cons.prems(1), of e] Cons.prems(3) m by auto
    show ?thesis using Cons.IH [OF s1(2) Cons.prems(2)] Cons.prems(3,4) m s1(1) by simp
  next
    case False
    then have m: "m = ReceiptArrived r d b" using Cons.prems(4) by simp
    obtain s1 where s1: "on_receipt r d b s = Some s1" "phase True False False s1"
      using phase_receipt [OF Cons.prems(1), of r d b] by auto
    show ?thesis using loop_reports [OF s1(2) Cons.prems(2), of xs] Cons.prems(3,4) m s1(1) by simp
  qed
qed simp

section \<open>Properties\<close>


definition demo_reports :: "vevent list" where
  "demo_reports = [CreateEvent EVENT_STAKER_IS_ADDING True 0, CreateEvent EVENT_STAKER_HAVE_WITHDRAWN True 0,
     CreateEvent EVENT_VALIDATOR_HAVE_WITHDRAWN True 0]"

lemma demo_wait:
  "loopWaitStakeFinish (Inr 0) [Stakers 2, Stakers 1, Stakers 0, PostClose True, DataError None] = (demo_reports, None)"
  by (simp add: loopWaitStakeFinish_def demo_reports_def wait_init_def wait_data_def wait_adding_def
      wait_withdrawn_def wait_post_def)


end
