(* ===== verification/SharedLists.thy ===== *)
theory SharedLists
  imports LinkedList
begin

text \<open>
  Two linked lists whose nodes live in the same Go heap. The handlers of state/payout/bid.go and
  state/pipeline/refund.go rebuild a list by taking nodes out of the old list, through handles kept
  in a map, and appending to a new one. A handle of one list may then be passed to the other, so
  the two lists are kept on one heap: after an operation on one of them \<open>on_heap\<close> carries the heap
  over to the other. The lemmas say that the two lists do not disturb each other as long as each
  handle is passed to the list it belongs to.

  The theory also has the sequencing of calls that may panic or not return.
\<close>

section \<open>Calls that may panic or not return\<close>

text \<open>The value \<^term>\<open>None\<close> is a call that does not return, as in a partial function.\<close>

type_synonym 'a call = "'a outcome option"

definition returns :: "'a \<Rightarrow> 'a call" where
  "returns x = Some (Ret x)"

definition and_then :: "'a call \<Rightarrow> ('a \<Rightarrow> 'b call) \<Rightarrow> 'b call" where
  "and_then c f = (case c of None \<Rightarrow> None | Some Panic \<Rightarrow> Some Panic | Some (Ret x) \<Rightarrow> f x)"

lemma and_then_returns [simp]: "and_then (returns x) f = f x"
  by (simp add: and_then_def returns_def)

lemma and_then_simps [simp]: "and_then None f = None" "and_then (Some Panic) f = Some Panic"
  "and_then (Some (Ret x)) f = f x"
  by (simp_all add: and_then_def)

lemma returns_inject [simp]: "returns x = returns y \<longleftrightarrow> x = y"
  by (simp add: returns_def)

lemma and_then_eq_returns [simp]:
  "and_then c f = returns y \<longleftrightarrow> (\<exists>x. c = returns x \<and> f x = returns y)"
  by (auto simp: and_then_def returns_def split: option.splits outcome.splits)

text \<open>A sequence of calls on a state.\<close>

fun calls :: "('m \<Rightarrow> 's \<Rightarrow> 's call) \<Rightarrow> 'm list \<Rightarrow> 's \<Rightarrow> 's call" where
  "calls f [] s = returns s"
| "calls f (m # ms) s = and_then (f m s) (calls f ms)"

lemma calls_append: "calls f (xs @ ys) s = and_then (calls f xs s) (calls f ys)"
  by (induction xs arbitrary: s) (auto simp: and_then_def returns_def split: option.splits outcome.splits)

section \<open>Two lists on one heap\<close>

definition on_heap :: "'a Generic \<Rightarrow> 'a Generic \<Rightarrow> 'a Generic" where
  "on_heap g l = l\<lparr>heap := heap g, brk := brk g\<rparr>"

lemma on_heap_simps [simp]: "heap (on_heap g l) = heap g" "brk (on_heap g l) = brk g"
  "Size (on_heap g l) = Size l" "head (on_heap g l) = head l" "tail (on_heap g l) = tail l"
  "Value p (on_heap g l) = Value p g"
  by (simp_all add: on_heap_def Value_def)

definition shared :: "'a Generic \<Rightarrow> ptr list \<Rightarrow> 'a Generic \<Rightarrow> ptr list \<Rightarrow> bool" where
  "shared old ps new qs \<longleftrightarrow> linked old ps \<and> linked new qs \<and> heap old = heap new \<and> brk old = brk new
     \<and> set ps \<inter> set qs = {}"

lemma linked_frame:
  assumes "linked l qs" and "\<And>a. a \<in> set qs \<Longrightarrow> heap g a = heap l a" and "\<And>a. brk g \<le> a \<Longrightarrow> heap g a = None"
  shows "linked (on_heap g l) qs"
  using assms(1,3) seg_cong [of qs "heap g" "heap l" None None] assms(2) by (auto simp: linked_def)

lemma Append_heap:
  assumes "linked g ps" and "a \<notin> set ps" and "a \<noteq> brk g"
  shows "heap (snd (Append v g)) a = heap g a"
  using assms by (cases ps rule: rev_cases)
    (auto simp: linked_def Append_def alloc_def dll_simps split: option.splits)

lemma Remove_heap_other:
  assumes "linked g (xs @ p # ys)" and "a \<notin> set xs" and "a \<notin> set ys"
  shows "heap (Remove (Some p) g) a = heap g a"
  using linked_split [OF assms(1)] assms(2,3)
  by (cases xs rule: rev_cases; cases ys) (auto simp: Remove_eqs dll_simps)

lemma Append_Value:
  assumes "linked g ps"
  shows "a \<noteq> brk g \<Longrightarrow> Value a (snd (Append v g)) = Value a g" "Value (brk g) (snd (Append v g)) = Some v"
proof -
  have "brk g \<notin> set ps" using linked_below [OF assms] by auto
  then show "a \<noteq> brk g \<Longrightarrow> Value a (snd (Append v g)) = Value a g"
    "Value (brk g) (snd (Append v g)) = Some v"
    using assms by (cases ps rule: rev_cases;
      auto simp: linked_def Append_def alloc_def Value_def dll_simps option.map_comp o_def
        split: option.splits)+
qed

lemma shared_start:
  "linked old ps \<Longrightarrow> shared old ps (on_heap old CreateGeneric) []"
  by (auto simp: shared_def linked_def CreateGeneric_def on_heap_def)

lemma shared_Append:
  assumes "shared old ps new qs"
  shows "fst (Append v new) = brk new"
    and "shared (on_heap (snd (Append v new)) old) ps (snd (Append v new)) (qs @ [brk new])"
    and "Value a (snd (Append v new)) = (if a = brk new then Some v else Value a new)"
proof -
  have l: "linked old ps" "linked new qs" and eq: "heap old = heap new" "brk old = brk new"
    and dj: "set ps \<inter> set qs = {}"
    using assms by (auto simp: shared_def)
  let ?n = "snd (Append v new)"
  note a = linked_Append [OF l(2), of v]
  show "fst (Append v new) = brk new" by (rule a(1))
  have fresh: "brk new \<notin> set ps" using linked_below [OF l(1)] eq by auto
  have "heap ?n p = heap old p" if "p \<in> set ps" for p
    using Append_heap [OF l(2), of p v] that dj fresh eq by auto
  then have "linked (on_heap ?n old) ps"
    using linked_frame [OF l(1), of ?n] linked_free [OF a(2)] by blast
  then show "shared (on_heap ?n old) ps ?n (qs @ [brk new])"
    using a(2) dj fresh by (auto simp: shared_def)
  show "Value a ?n = (if a = brk new then Some v else Value a new)"
    using Append_Value [OF l(2)] by simp
qed

lemma shared_Remove:
  assumes "shared old (xs @ p # ys) new qs"
  shows "shared (Remove (Some p) old) (xs @ ys) (on_heap (Remove (Some p) old) new) qs"
    and "Value a (Remove (Some p) old) = Value a old"
proof -
  have l: "linked old (xs @ p # ys)" "linked new qs" and eq: "heap old = heap new" "brk old = brk new"
    and dj: "set (xs @ p # ys) \<inter> set qs = {}"
    using assms by (auto simp: shared_def)
  let ?o = "Remove (Some p) old"
  have r: "linked ?o (xs @ ys)" by (rule linked_Remove(1) [OF l(1)])
  have "heap ?o q = heap new q" if "q \<in> set qs" for q
    using Remove_heap_other [OF l(1), of q] that dj eq by auto
  then have "linked (on_heap ?o new) qs"
    using linked_frame [OF l(2), of ?o] linked_free [OF r] by blast
  then show "shared ?o (xs @ ys) (on_heap ?o new) qs"
    using r dj by (auto simp: shared_def)
  show "Value a ?o = Value a old" by (rule Remove_values [OF l(1)])
qed

lemma shared_sides:
  assumes "shared old ps new qs"
  shows "linked old ps" "linked new qs" "Value a new = Value a old"
  using assms by (auto simp: shared_def Value_def)

text \<open>The values of a list, in terms of the values of its nodes.\<close>

lemma contents_linked: "linked g ps \<Longrightarrow> contents g = map (\<lambda>p. the (Value p g)) ps"
  by (simp add: contents_def items_linked item_at_def o_def)

lemma linked_Value_ex: "linked g ps \<Longrightarrow> p \<in> set ps \<Longrightarrow> \<exists>v. Value p g = Some v"
  using linked_heap by (auto simp: Value_def dest!: linked_heap)

section \<open>Copying out a list of pointers\<close>

text \<open>
  The loops that allocate a slice of length Size and store what each pointer of the list points to
  at the index of its node; an index out of range is a panic.
\<close>

definition deref_callback :: "(ptr \<Rightarrow> 'b) \<Rightarrow> (ptr, 'b list) callback" where
  "deref_callback at p i ans =
     (if unat i < length ans then (ans[unat i := at p], 0, None)
      else (ans, 0, Some ''index out of range''))"

definition deref_list :: "(ptr \<Rightarrow> 'b) \<Rightarrow> 'b \<Rightarrow> ptr Generic \<Rightarrow> 'b list call" where
  "deref_list at zero g =
     (case Iterate (deref_callback at) g (replicate (unat (Size g)) zero) of
        None \<Rightarrow> None
      | Some (_, ans, None) \<Rightarrow> returns ans
      | Some (_, ans, Some _) \<Rightarrow> Some Panic)"

lemma visit_deref:
  assumes "length acc + length xs < 2 ^ 32"
  shows "\<exists>r. visit (deref_callback at) (\<lambda>j. j + 1) (of_nat (length acc)) xs
          (acc @ replicate (length xs) z) = (r, acc @ map (at \<circ> snd) xs, None)"
  using assms
proof (induction xs arbitrary: acc)
  case (Cons x xs)
  have u: "unat (of_nat (length acc) :: uint32) = length acc"
    using Cons.prems by (simp add: unat_of_nat take_bit_nat_eq_self)
  from Cons.IH [of "acc @ [at (snd x)]"] Cons.prems
  obtain r where "visit (deref_callback at) (\<lambda>j. j + 1) (of_nat (length (acc @ [at (snd x)]))) xs
      ((acc @ [at (snd x)]) @ replicate (length xs) z) = (r, (acc @ [at (snd x)]) @ map (at \<circ> snd) xs, None)"
    by auto
  then show ?case
    by (auto simp: deref_callback_def [of _ "snd x" "of_nat (length acc)"] u ac_simps)
qed simp

lemma deref_list_linked:
  assumes "linked g ps" and "length ps < 2 ^ 32"
  shows "deref_list at zero g = returns (map at (contents g))"
proof -
  have inv: "list_inv g" using assms(1) by (auto simp: list_inv_def)
  have len: "length (items g) = length ps" by (simp add: items_linked [OF assms(1)])
  have u: "unat (Size g) = length (items g)"
    using assms by (simp add: linked_size len unat_of_nat take_bit_nat_eq_self)
  have once: "deletes_once (deref_callback at)" by (simp add: deletes_once_def deref_callback_def)
  obtain r where "visit (deref_callback at) (\<lambda>j. j + 1) 0 (items g) (replicate (length (items g)) zero)
      = (r, map (at \<circ> snd) (items g), None)"
    using visit_deref [of "[]" "items g" at zero] assms(2) len by auto
  from Iterate_visits [OF inv once this] show ?thesis
    by (auto simp: deref_list_def u contents_def)
qed

end
