(* ===== verification/PayoutState.thy ===== *)
theory PayoutState
  imports SharedLists
begin

text \<open>
  The state of one payout, state/payout: the bid book of bid.go, the account data and the receipts
  of update.go, and the main loop of internal.go that serialises the updates.

  The book keeps pointers to bids. The update loop of \<open>on_bid_list\<close> ranges over the book with a
  loop variable that Go 1.18 (the language version of go.mod) allocates once per loop and assigns
  in every round, and it stores the address of that variable. The bids therefore live in a store of
  cells; every call allocates one cell.

  A subscription home is represented by the list of the values broadcast so far.
\<close>

section \<open>The bid book\<close>

record bid =
  User :: pubkey
  Deposit :: uint64
  IsBlank :: bool

record BidList =
  Book :: "bid list"
  TotalDeposits :: uint64
  BiddingFinished :: bool

record bidInfo =
  is_final :: bool
  is_closed :: bool
  totalDeposits :: uint64
  bids :: "ptr Generic"
  search :: "pubkey \<rightharpoonup> ptr"
  cells :: "bid list"

record BidStatus =
  st_Bid :: "bid list"
  st_IsFinal :: bool
  st_TotalDeposits :: uint64
  st_IsOpen :: bool

definition zero_bid :: bid where
  "zero_bid = \<lparr>User = Zero, Deposit = 0, IsBlank = False\<rparr>"

definition init_bid :: bidInfo where
  "init_bid = \<lparr>is_final = False, is_closed = False, totalDeposits = 0, bids = CreateGeneric,
     search = Map.empty, cells = []\<rparr>"

definition getBlankBidStatus :: BidStatus where
  "getBlankBidStatus = \<lparr>st_Bid = [], st_IsFinal = True, st_TotalDeposits = 0, st_IsOpen = False\<rparr>"

definition bid_status :: "bidInfo \<Rightarrow> BidStatus call" where
  "bid_status bi =
     (if is_closed bi then returns getBlankBidStatus
      else and_then (deref_list (\<lambda>p. cells bi ! p) zero_bid (bids bi))
        (\<lambda>l. returns \<lparr>st_Bid = l, st_IsFinal = is_final bi, st_TotalDeposits = totalDeposits bi,
           st_IsOpen = True\<rparr>))"

text \<open>One round of the loop over the book; \<open>c\<close> is the cell of the loop variable.\<close>

type_synonym book_state = "ptr Generic \<times> ptr Generic \<times> (pubkey \<rightharpoonup> ptr) \<times> bid list"

fun book_step :: "ptr \<Rightarrow> bid \<Rightarrow> book_state \<Rightarrow> book_state call" where
  "book_step c b (old, new, srch, cs) =
     (let cs1 = cs[c := b]
      in if IsBlank b then returns (old, new, srch, cs1)
         else case srch (User b) of
           Some oldNode \<Rightarrow>
             (let old1 = Remove (Some oldNode) old
              in case Value oldNode old1 of
                   None \<Rightarrow> Some Panic
                 | Some v \<Rightarrow>
                     (case Append v (on_heap old1 new) of (n, new1) \<Rightarrow>
                        returns (on_heap new1 old1, new1, srch(User b \<mapsto> n), cs1)))
         | None \<Rightarrow>
             (case Append c new of (n, new1) \<Rightarrow>
                returns (on_heap new1 old, new1, srch(User b \<mapsto> n), cs1)))"

definition forget :: "bid list \<Rightarrow> (ptr, pubkey \<rightharpoonup> ptr) callback" where
  "forget cs obj i srch =
     (if \<not> IsBlank (cs ! obj) then srch(User (cs ! obj) := None) else srch, 0, None)"

definition forget_left :: "book_state \<Rightarrow> book_state call" where
  "forget_left t =
     (case t of (old, new, srch, cs) \<Rightarrow>
        if 0 < Size old
        then (case Iterate (forget cs) old srch of
                None \<Rightarrow> None
              | Some (old', srch', _) \<Rightarrow> returns (old', new, srch', cs))
        else returns t)"

definition update_book :: "BidList \<Rightarrow> bidInfo \<Rightarrow> bidInfo call" where
  "update_book bl bi =
     and_then
       (and_then
         (calls (book_step (length (cells bi))) (Book bl)
            (bids bi, on_heap (bids bi) CreateGeneric, search bi, cells bi @ [zero_bid]))
         forget_left)
       (\<lambda>(old, new, srch, cs). returns
          (bi\<lparr>totalDeposits := TotalDeposits bl, is_final := BiddingFinished bl,
             bids := new, search := srch, cells := cs\<rparr>))"

section \<open>The payout\<close>

text \<open>
  Of the payout account only the address of its bid account matters here; of a receipt its
  validator.
\<close>

record payout_account =
  pa_bids :: pubkey
  pa_rest :: string

record receipt_with_data =
  rw_id :: pubkey
  rw_validator :: pubkey
  rw_rest :: string

text \<open>
  The fields \<open>sent_\<close> are what the three homes have broadcast; \<open>watched\<close> are the receipts for which a
  goroutine receipt_delete waits.
\<close>

record payout =
  pdata :: payout_account
  bi :: bidInfo
  receipts :: "pubkey \<rightharpoonup> receipt_with_data"
  sent_bids :: "BidStatus list"
  sent_data :: "payout_account list"
  sent_receipts :: "receipt_with_data list"
  watched :: "pubkey list"

definition CreatePayout :: "payout_account \<Rightarrow> payout" where
  "CreatePayout d = \<lparr>pdata = d, bi = init_bid, receipts = Map.empty, sent_bids = [], sent_data = [],
     sent_receipts = [], watched = []\<rparr>"

definition bid_broadcast :: "payout \<Rightarrow> payout call" where
  "bid_broadcast s = and_then (bid_status (bi s)) (\<lambda>st. returns (s\<lparr>sent_bids := sent_bids s @ [st]\<rparr>))"

definition close_bid_list :: "payout \<Rightarrow> payout call" where
  "close_bid_list s = bid_broadcast (s\<lparr>bi := (bi s)\<lparr>is_closed := True\<rparr>\<rparr>)"

definition on_bid_list :: "BidList \<Rightarrow> payout \<Rightarrow> payout call" where
  "on_bid_list bl s =
     (if is_final (bi s) then returns s
      else and_then (update_book bl (bi s)) (\<lambda>b. bid_broadcast (s\<lparr>bi := b\<rparr>)))"

definition on_data :: "payout_account \<Rightarrow> payout \<Rightarrow> payout call" where
  "on_data d s =
     and_then (if pa_bids d = Zero then close_bid_list s else returns s)
       (\<lambda>s1. returns (s1\<lparr>sent_data := sent_data s1 @ [d], pdata := d\<rparr>))"

definition on_receipt :: "receipt_with_data \<Rightarrow> payout \<Rightarrow> bool \<times> payout" where
  "on_receipt r s =
     (if receipts s (rw_validator r) \<noteq> None then (True, s)
      else (False, s\<lparr>receipts := (receipts s)(rw_validator r \<mapsto> r), sent_receipts := sent_receipts s @ [r]\<rparr>))"

definition UpdateReceipt :: "receipt_with_data \<Rightarrow> payout \<Rightarrow> payout" where
  "UpdateReceipt r s =
     (case on_receipt r s of (setDelete, s1) \<Rightarrow>
        if setDelete then s1\<lparr>watched := watched s1 @ [rw_id r]\<rparr> else s1)"

definition receipt_delete :: "pubkey \<Rightarrow> payout \<Rightarrow> payout" where
  "receipt_delete i s =
     (if i \<in> set (watched s)
      then s\<lparr>receipts := (receipts s)(i := None), watched := removeAll i (watched s)\<rparr> else s)"

text \<open>The messages of the main loop, and what happens to a receipt outside of it.\<close>

datatype payout_msg =
  PData payout_account | PBids BidList | PReceipt receipt_with_data | PReceiptClosed pubkey

fun handle :: "payout_msg \<Rightarrow> payout \<Rightarrow> payout call" where
  "handle (PData d) s = on_data d s"
| "handle (PBids bl) s = on_bid_list bl s"
| "handle (PReceipt r) s = returns (UpdateReceipt r s)"
| "handle (PReceiptClosed i) s = returns (receipt_delete i s)"

definition loopInternal :: "payout_msg list \<Rightarrow> payout \<Rightarrow> payout call" where
  "loopInternal = calls handle"

section \<open>Queries\<close>

text \<open>
  The query BidStatus: the main loop puts nil into the error channel and then the status into the
  answer channel; the caller takes whichever channel it finds ready. \<open>answered\<close> says that the status
  had been sent as well when it looked, \<open>pick_answer\<close> which one Go's select takes then.
\<close>

definition zero_status :: BidStatus where
  "zero_status = \<lparr>st_Bid = [], st_IsFinal = False, st_TotalDeposits = 0, st_IsOpen = False\<rparr>"

definition query_BidStatus :: "bool \<Rightarrow> bool \<Rightarrow> payout \<Rightarrow> BidStatus call" where
  "query_BidStatus answered pick_answer s =
     (if answered \<and> pick_answer then bid_status (bi s) else returns zero_status)"

text \<open>
  The share of a bidder. float64 arithmetic is a parameter of the model: the conversion of an
  integer, and the division.
\<close>

definition MAX_PC :: uint64 where
  "MAX_PC = 100000000000000"

definition SafeConvertUIntToFloat :: "(uint64 \<Rightarrow> 'f) \<Rightarrow> uint64 \<Rightarrow> err + 'f" where
  "SafeConvertUIntToFloat float64 x = (if MAX_PC \<le> x then Inl ''integer out of range'' else Inr (float64 x))"

fun share_of :: "(uint64 \<Rightarrow> 'f) \<Rightarrow> ('f \<Rightarrow> 'f \<Rightarrow> 'f) \<Rightarrow> uint64 \<Rightarrow> pubkey \<Rightarrow> bid list \<Rightarrow> err + 'f" where
  "share_of float64 quot tot bidder [] = Inr (float64 0)"
| "share_of float64 quot tot bidder (b # bs) =
     (if User b = bidder
      then (case SafeConvertUIntToFloat float64 tot of
              Inl e \<Rightarrow> Inl e
            | Inr t \<Rightarrow> (case SafeConvertUIntToFloat float64 (Deposit b) of
                           Inl e \<Rightarrow> Inl e | Inr d \<Rightarrow> Inr (quot d t)))
      else share_of float64 quot tot bidder bs)"

definition Share :: "(uint64 \<Rightarrow> 'f) \<Rightarrow> ('f \<Rightarrow> 'f \<Rightarrow> 'f) \<Rightarrow> BidStatus \<Rightarrow> pubkey \<Rightarrow> err + 'f" where
  "Share float64 quot bs bidder =
     (if st_TotalDeposits bs = 0 then Inr (float64 0)
      else share_of float64 quot (st_TotalDeposits bs) bidder (st_Bid bs))"

text \<open>The filter that OnReceipt registers.\<close>

definition OnReceipt_filter :: "pubkey \<Rightarrow> receipt_with_data \<Rightarrow> bool" where
  "OnReceipt_filter validator x = (validator = Zero \<or> rw_validator x = validator)"

section \<open>The book while users only join\<close>

definition users :: "BidList \<Rightarrow> pubkey list" where
  "users bl = map User (filter (\<lambda>b. \<not> IsBlank b) (Book bl))"

text \<open>
  The relation between the book and its users: the nodes of the list belong to the users \<open>us\<close>, in this
  order, \<open>search\<close> finds the node of each, and the node of \<open>u\<close> points to the cell \<open>f u\<close>.
\<close>

definition holds_cells :: "ptr Generic \<Rightarrow> (pubkey \<Rightarrow> ptr) \<Rightarrow> pubkey list \<Rightarrow> ptr list \<Rightarrow> bool" where
  "holds_cells g f = list_all2 (\<lambda>u p. Value p g = Some (f u))"

definition tracks :: "bidInfo \<Rightarrow> pubkey list \<Rightarrow> (pubkey \<Rightarrow> ptr) \<Rightarrow> bool" where
  "tracks b us f \<longleftrightarrow> (\<exists>ps. linked (bids b) ps \<and> distinct us \<and> holds_cells (bids b) f us ps
     \<and> search b = map_of (zip us ps))"

text \<open>The same relation in the middle of the loop: \<open>us\<close> are the users before, \<open>vs\<close> those seen so far.\<close>

definition left :: "pubkey list \<Rightarrow> pubkey list \<Rightarrow> pubkey list" where
  "left us vs = filter (\<lambda>u. u \<notin> set vs) us"

definition new_cell :: "pubkey list \<Rightarrow> (pubkey \<Rightarrow> ptr) \<Rightarrow> ptr \<Rightarrow> pubkey \<Rightarrow> ptr" where
  "new_cell us f c u = (if u \<in> set us then f u else c)"

fun midway :: "pubkey list \<Rightarrow> (pubkey \<Rightarrow> ptr) \<Rightarrow> ptr \<Rightarrow> pubkey list \<Rightarrow> book_state \<Rightarrow> bool" where
  "midway us f c vs (old, new, srch, cs) =
     (\<exists>ps qs. shared old ps new qs \<and> holds_cells old f (left us vs) ps
        \<and> holds_cells old (new_cell us f c) vs qs \<and> distinct vs
        \<and> srch = map_of (zip (left us vs) ps) ++ map_of (zip vs qs))"

lemma holds_cells_length: "holds_cells g f us ps \<Longrightarrow> length us = length ps"
  by (simp add: holds_cells_def list_all2_lengthD)

lemma holds_cells_cong:
  assumes "holds_cells g f us ps" and "\<And>p. p \<in> set ps \<Longrightarrow> Value p g' = Value p g"
  shows "holds_cells g' f us ps"
  using assms by (auto simp: holds_cells_def list_all2_conv_all_nth)

lemma holds_cells_append: "holds_cells g f us ps \<Longrightarrow> holds_cells g f vs qs \<Longrightarrow> holds_cells g f (us @ vs) (ps @ qs)"
  by (simp add: holds_cells_def list_all2_appendI)

lemma shared_fresh: "shared old ps new qs \<Longrightarrow> p \<in> set ps \<union> set qs \<Longrightarrow> p \<noteq> brk new"
  using linked_below by (fastforce simp: shared_def)

lemma map_of_zip_notin: "length us = length ps \<Longrightarrow> u \<notin> set us \<Longrightarrow> map_of (zip us ps) u = None"
  by (metis domIff dom_map_of_zip)

lemma map_of_zip_snoc:
  assumes "length vs = length qs" and "u \<notin> set vs"
  shows "map_of (zip (vs @ [u]) (qs @ [n])) = (map_of (zip vs qs))(u \<mapsto> n)"
  using map_of_zip_notin [OF assms] assms(1) by (auto simp: map_add_def fun_eq_iff simp del: map_of_zip_is_None split: option.splits)

lemma map_of_zip_drop:
  assumes "length w1 = length p1"
  shows "(map_of (zip (w1 @ u # w2) (p1 @ p # p2)) ++ m)(u \<mapsto> n) = (map_of (zip (w1 @ w2) (p1 @ p2)) ++ m)(u \<mapsto> n)"
  using assms by (auto simp: map_add_def fun_eq_iff simp del: map_of_zip_is_None split: option.splits)

lemma midway_new:
  assumes m: "midway us f c vs (old, new, srch, cs)" and u: "u \<notin> set vs" "u \<notin> set us"
  shows "midway us f c (vs @ [u]) (on_heap (snd (Append c new)) old, snd (Append c new),
           srch(u \<mapsto> fst (Append c new)), cs')"
proof -
  obtain ps qs where sh: "shared old ps new qs" and h: "holds_cells old f (left us vs) ps"
    "holds_cells old (new_cell us f c) vs qs" and d: "distinct vs"
    and s: "srch = map_of (zip (left us vs) ps) ++ map_of (zip vs qs)" using m by auto
  note a = shared_Append [OF sh, where v = c]
  let ?n = "snd (Append c new)"
  have eq: "left us (vs @ [u]) = left us vs" using u by (auto simp: left_def intro!: filter_cong)
  have val: "Value p (on_heap ?n old) = Value p old" if "p \<in> set ps \<union> set qs" for p
    using shared_fresh [OF sh that] a(3) shared_sides(3) [OF sh] by simp
  have "holds_cells (on_heap ?n old) f (left us (vs @ [u])) ps"
    unfolding eq using h(1) by (rule holds_cells_cong) (use val in auto)
  moreover have "holds_cells (on_heap ?n old) (new_cell us f c) (vs @ [u]) (qs @ [brk new])"
  proof (rule holds_cells_append)
    show "holds_cells (on_heap ?n old) (new_cell us f c) vs qs"
      using h(2) by (rule holds_cells_cong) (use val in auto)
    show "holds_cells (on_heap ?n old) (new_cell us f c) [u] [brk new]"
      using a(3) u by (simp add: holds_cells_def new_cell_def)
  qed
  moreover have "srch(u \<mapsto> fst (Append c new)) =
      map_of (zip (left us (vs @ [u])) ps) ++ map_of (zip (vs @ [u]) (qs @ [brk new]))"
    by (simp add: eq s a(1) map_of_zip_snoc [OF holds_cells_length [OF h(2)] u(1)])
  ultimately show ?thesis using a(2) d u by auto
qed

lemma zip_split:
  assumes "list_all2 P (xs @ u # ys) ps"
  obtains p1 p p2 where "ps = p1 @ p # p2" "list_all2 P xs p1" "P u p" "list_all2 P ys p2"
  using assms by (auto simp: list_all2_append1 list_all2_Cons1)

lemma left_split:
  assumes "distinct us" and "u \<in> set us" and "u \<notin> set vs"
  obtains w1 w2 where "left us vs = w1 @ u # w2" "left us (vs @ [u]) = w1 @ w2" "u \<notin> set w1" "u \<notin> set w2"
proof -
  have "u \<in> set (left us vs)" using assms by (simp add: left_def)
  then obtain w1 w2 where w: "left us vs = w1 @ u # w2" by (meson split_list)
  have "distinct (left us vs)" using assms by (simp add: left_def)
  then have n: "u \<notin> set w1" "u \<notin> set w2" unfolding w by auto
  have "filter (\<lambda>x. x \<noteq> u) w1 = w1" "filter (\<lambda>x. x \<noteq> u) w2 = w2"
    by (rule filter_True; use n in blast)+
  moreover have "left us (vs @ [u]) = filter (\<lambda>x. x \<noteq> u) (left us vs)"
    by (auto simp: left_def intro!: filter_cong)
  ultimately have "left us (vs @ [u]) = w1 @ w2" unfolding w by simp
  then show ?thesis using w n that by blast
qed

lemma midway_old:
  assumes m: "midway us f c vs (old, new, srch, cs)" and u: "u \<notin> set vs" "u \<in> set us" "distinct us"
  obtains p where "srch u = Some p" "Value p (Remove (Some p) old) = Some (f u)"
    and "midway us f c (vs @ [u])
      (on_heap (snd (Append (f u) (on_heap (Remove (Some p) old) new))) (Remove (Some p) old),
       snd (Append (f u) (on_heap (Remove (Some p) old) new)),
       srch(u \<mapsto> fst (Append (f u) (on_heap (Remove (Some p) old) new))), cs')"
proof -
  obtain ps qs where sh: "shared old ps new qs" and h: "holds_cells old f (left us vs) ps"
    "holds_cells old (new_cell us f c) vs qs" and d: "distinct vs"
    and s: "srch = map_of (zip (left us vs) ps) ++ map_of (zip vs qs)" using m by auto
  obtain w1 w2 where w: "left us vs = w1 @ u # w2" "left us (vs @ [u]) = w1 @ w2" "u \<notin> set w1" "u \<notin> set w2"
    using left_split [OF u(3,2,1)] by blast
  obtain p1 p p2 where p: "ps = p1 @ p # p2" "holds_cells old f w1 p1" "Value p old = Some (f u)"
    "holds_cells old f w2 p2"
    using h(1) unfolding w holds_cells_def by (elim zip_split) blast
  let ?o = "Remove (Some p) old"
  note r = shared_Remove [OF sh [unfolded p(1)]]
  let ?n = "snd (Append (f u) (on_heap ?o new))"
  note a = shared_Append [OF r(1), where v = "f u"]
  have len: "length w1 = length p1" "length w2 = length p2" "length vs = length qs"
    using p h(2) by (auto dest: holds_cells_length)
  have val: "Value x (on_heap ?n ?o) = Value x old" if "x \<in> set (p1 @ p2) \<union> set qs" for x
    using shared_fresh [OF r(1) that] a(3) r(2) by simp
  have "map_of (zip vs qs) u = None" "map_of (zip w1 p1) u = None"
    using map_of_zip_notin [OF len(3) u(1)] map_of_zip_notin [OF len(1) w(3)] .
  then have "srch u = Some p" by (simp add: s w p(1) len map_add_def del: map_of_zip_is_None)
  moreover have "Value p ?o = Some (f u)" using r(2) p(3) by simp
  moreover have "midway us f c (vs @ [u]) (on_heap ?n ?o, ?n,
      srch(u \<mapsto> fst (Append (f u) (on_heap ?o new))), cs')"
  proof -
    have "holds_cells (on_heap ?n ?o) f (left us (vs @ [u])) (p1 @ p2)"
      unfolding w(2) using holds_cells_append [OF p(2,4)] by (rule holds_cells_cong) (use val in auto)
    moreover have "holds_cells (on_heap ?n ?o) (new_cell us f c) (vs @ [u]) (qs @ [brk ?o])"
    proof (rule holds_cells_append)
      show "holds_cells (on_heap ?n ?o) (new_cell us f c) vs qs"
        using h(2) by (rule holds_cells_cong) (use val in auto)
      show "holds_cells (on_heap ?n ?o) (new_cell us f c) [u] [brk ?o]"
        using a(3) u by (simp add: holds_cells_def new_cell_def)
    qed
    moreover have "srch(u \<mapsto> fst (Append (f u) (on_heap ?o new))) =
        map_of (zip (left us (vs @ [u])) (p1 @ p2)) ++ map_of (zip (vs @ [u]) (qs @ [brk ?o]))"
      by (simp add: w s p(1) a(1) map_of_zip_snoc [OF len(3) u(1)] map_of_zip_drop [OF len(1)])
    ultimately show ?thesis using a(2) d u by auto
  qed
  ultimately show ?thesis by (rule that)
qed

text \<open>The whole loop. The cells change at the loop variable only, and end with the last entry.\<close>

lemma book_step_blank: "IsBlank b \<Longrightarrow> book_step c b (old, new, srch, cs) = returns (old, new, srch, cs[c := b])"
  by simp

lemma book_step_midway:
  assumes m: "midway us f c vs (old, new, srch, cs)" and u: "\<not> IsBlank b" "User b \<notin> set vs" "distinct us"
  shows "\<exists>old' new' srch'. book_step c b (old, new, srch, cs) = returns (old', new', srch', cs[c := b])
    \<and> midway us f c (vs @ [User b]) (old', new', srch', cs[c := b])"
proof (cases "User b \<in> set us")
  case True
  obtain p where p: "srch (User b) = Some p" "Value p (Remove (Some p) old) = Some (f (User b))"
    "midway us f c (vs @ [User b])
      (on_heap (snd (Append (f (User b)) (on_heap (Remove (Some p) old) new))) (Remove (Some p) old),
       snd (Append (f (User b)) (on_heap (Remove (Some p) old) new)),
       srch(User b \<mapsto> fst (Append (f (User b)) (on_heap (Remove (Some p) old) new))), cs[c := b])"
    using midway_old [OF m u(2) True u(3)] .
  then show ?thesis using u(1)
    by (cases "Append (f (User b)) (on_heap (Remove (Some p) old) new)") (simp add: Let_def del: midway.simps)
next
  case False
  obtain ps qs where "length (left us vs) = length ps" "length vs = length qs"
    "srch = map_of (zip (left us vs) ps) ++ map_of (zip vs qs)"
    using m by (auto dest: holds_cells_length)
  moreover from this have "map_of (zip vs qs) (User b) = None" "map_of (zip (left us vs) ps) (User b) = None"
    using map_of_zip_notin u(2) False by (auto simp: left_def)
  ultimately have "srch (User b) = None" by (simp add: map_add_def del: map_of_zip_is_None)
  moreover note midway_new [OF m u(2) False, of "cs[c := b]"]
  ultimately show ?thesis using u(1)
    by (cases "Append c new") (simp add: Let_def del: midway.simps)
qed

lemma book_loop_midway:
  assumes "midway us f c vs (old, new, srch, cs)" and "distinct us"
    and "distinct (vs @ map User (filter (\<lambda>b. \<not> IsBlank b) bs))"
  shows "\<exists>old' new' srch'. calls (book_step c) bs (old, new, srch, cs)
      = returns (old', new', srch', fold (\<lambda>b cs. cs[c := b]) bs cs)
    \<and> midway us f c (vs @ map User (filter (\<lambda>b. \<not> IsBlank b) bs))
        (old', new', srch', fold (\<lambda>b cs. cs[c := b]) bs cs)"
  using assms
proof (induction bs arbitrary: vs old new srch cs)
  case (Cons b bs)
  show ?case
  proof (cases "IsBlank b")
    case True
    have "midway us f c vs (old, new, srch, cs[c := b])" using Cons.prems(1) by simp
    from Cons.IH [OF this Cons.prems(2)] Cons.prems(3) True show ?thesis
      by (simp add: book_step_blank del: midway.simps book_step.simps)
  next
    case False
    then obtain old' new' srch' where
      "book_step c b (old, new, srch, cs) = returns (old', new', srch', cs[c := b])"
      "midway us f c (vs @ [User b]) (old', new', srch', cs[c := b])"
      using book_step_midway [OF Cons.prems(1) False _ Cons.prems(2)] Cons.prems(3)
      by (auto simp del: midway.simps book_step.simps)
    with Cons.IH [OF this(2) Cons.prems(2)] Cons.prems(3) False show ?thesis
      by (simp del: midway.simps book_step.simps)
  qed
qed (simp del: midway.simps)

lemma fold_cell: "bs \<noteq> [] \<Longrightarrow> fold (\<lambda>b cs. cs[c := b]) bs cs = cs[c := last bs]"
  by (induction bs arbitrary: cs) auto

lemma midway_start:
  assumes "tracks b us f"
  shows "midway us f c [] (bids b, on_heap (bids b) CreateGeneric, search b, cs)"
proof -
  obtain ps where "linked (bids b) ps" "holds_cells (bids b) f us ps" "search b = map_of (zip us ps)"
    using assms by (auto simp: tracks_def)
  then show ?thesis
    using shared_start [of "bids b" ps] by (auto simp: left_def holds_cells_def)
qed

lemma left_all [simp]: "set us \<subseteq> set vs \<Longrightarrow> left us vs = []"
  by (auto simp: left_def filter_empty_conv)

lemma update_book_tracks:
  assumes t: "tracks b us f" and d: "distinct (users bl)" and g: "set us \<subseteq> set (users bl)" and ne: "Book bl \<noteq> []"
  shows "\<exists>b'. update_book bl b = returns b' \<and> tracks b' (users bl) (new_cell us f (length (cells b)))
    \<and> cells b' = cells b @ [last (Book bl)] \<and> is_closed b' = is_closed b
    \<and> is_final b' = BiddingFinished bl \<and> totalDeposits b' = TotalDeposits bl"
proof -
  let ?c = "length (cells b)"
  have du: "distinct us" using t by (auto simp: tracks_def)
  obtain old new srch where run: "calls (book_step ?c) (Book bl)
      (bids b, on_heap (bids b) CreateGeneric, search b, cells b @ [zero_bid])
      = returns (old, new, srch, cells b @ [last (Book bl)])"
    and m: "midway us f ?c (users bl) (old, new, srch, cells b @ [last (Book bl)])"
    using book_loop_midway [OF midway_start [OF t, of ?c "cells b @ [zero_bid]"] du, of "Book bl"] d
    unfolding fold_cell [OF ne] users_def by (auto simp del: midway.simps)
  obtain qs where sh: "shared old [] new qs" "holds_cells old (new_cell us f ?c) (users bl) qs"
    "srch = map_of (zip (users bl) qs)"
    using m g by (auto simp: holds_cells_def)
  have "Size old = 0" using sh(1) by (auto simp: shared_def linked_def)
  then have "forget_left (old, new, srch, cells b @ [last (Book bl)]) =
      returns (old, new, srch, cells b @ [last (Book bl)])" by (simp add: forget_left_def)
  moreover have "holds_cells new (new_cell us f ?c) (users bl) qs"
    using sh(2) by (rule holds_cells_cong) (simp add: shared_sides(3) [OF sh(1)])
  ultimately show ?thesis
    using run sh d by (auto simp: update_book_def tracks_def shared_def)
qed

lemma bid_status_tracks:
  assumes "tracks b us f" and "length us < 2 ^ 32" and "\<not> is_closed b"
  shows "bid_status b = returns \<lparr>st_Bid = map (\<lambda>u. cells b ! f u) us, st_IsFinal = is_final b,
    st_TotalDeposits = totalDeposits b, st_IsOpen = True\<rparr>"
proof -
  obtain ps where ps: "linked (bids b) ps" "holds_cells (bids b) f us ps"
    using assms(1) by (auto simp: tracks_def)
  have "contents (bids b) = map f us"
    unfolding contents_linked [OF ps(1)]
    using ps(2) by (auto simp: holds_cells_def list_all2_conv_all_nth intro!: nth_equalityI)
  moreover have "length ps < 2 ^ 32" using assms(2) holds_cells_length [OF ps(2)] by simp
  ultimately show ?thesis
    using deref_list_linked [OF ps(1)] assms(3) by (simp add: bid_status_def o_def)
qed

text \<open>The book in which a user appears first.\<close>

definition first_book :: "pubkey \<Rightarrow> BidList list \<Rightarrow> BidList" where
  "first_book u bls = the (List.find (\<lambda>bl. u \<in> set (users bl)) bls)"

definition last_users :: "BidList list \<Rightarrow> pubkey list" where
  "last_users bls = (if bls = [] then [] else users (last bls))"

fun growing :: "pubkey list \<Rightarrow> BidList list \<Rightarrow> bool" where
  "growing us [] = True"
| "growing us (bl # bls) = (Book bl \<noteq> [] \<and> distinct (users bl) \<and> length (users bl) < 2 ^ 32
     \<and> set us \<subseteq> set (users bl) \<and> growing (users bl) bls)"

lemma growing_snoc: "growing us (bls @ [bl]) \<longleftrightarrow> growing us bls \<and>
    growing (if bls = [] then us else users (last bls)) [bl]"
  by (induction bls arbitrary: us) auto

lemma find_snoc: "List.find P (xs @ [x]) = (case List.find P xs of None \<Rightarrow> if P x then Some x else None | Some y \<Rightarrow> Some y)"
  by (induction xs) auto

lemma books_run:
  assumes "growing [] bls" and "\<forall>bl \<in> set (butlast bls). \<not> BiddingFinished bl"
  shows "\<exists>s f. loopInternal (map PBids bls) (CreatePayout d) = returns s \<and> tracks (bi s) (last_users bls) f
    \<and> \<not> is_closed (bi s) \<and> is_final (bi s) = (bls \<noteq> [] \<and> BiddingFinished (last bls))
    \<and> (bls \<noteq> [] \<longrightarrow> totalDeposits (bi s) = TotalDeposits (last bls))
    \<and> (\<forall>u. u \<in> set (last_users bls) \<longleftrightarrow> (\<exists>bl \<in> set bls. u \<in> set (users bl)))
    \<and> (\<forall>u \<in> set (last_users bls). f u < length (cells (bi s))
         \<and> cells (bi s) ! f u = last (Book (first_book u bls)))"
  using assms
proof (induction bls rule: rev_induct)
  case Nil
  show ?case
    by (auto simp: loopInternal_def CreatePayout_def init_bid_def tracks_def last_users_def
        holds_cells_def linked_Create)
next
  case (snoc bl bls)
  have bf: "\<forall>x \<in> set bls. \<not> BiddingFinished x" using snoc.prems(2) by simp
  then have "\<forall>x \<in> set (butlast bls). \<not> BiddingFinished x" by (meson in_set_butlastD)
  with snoc.IH snoc.prems(1) obtain s f where IH: "loopInternal (map PBids bls) (CreatePayout d) = returns s"
    "tracks (bi s) (last_users bls) f" "\<not> is_closed (bi s)"
    "is_final (bi s) = (bls \<noteq> [] \<and> BiddingFinished (last bls))"
    "\<forall>u. u \<in> set (last_users bls) \<longleftrightarrow> (\<exists>bl \<in> set bls. u \<in> set (users bl))"
    "\<forall>u \<in> set (last_users bls). f u < length (cells (bi s)) \<and> cells (bi s) ! f u = last (Book (first_book u bls))"
    by (auto simp: growing_snoc)
  have gr: "Book bl \<noteq> []" "distinct (users bl)" "length (users bl) < 2 ^ 32"
    "set (last_users bls) \<subseteq> set (users bl)"
    using snoc.prems(1) by (auto simp: growing_snoc last_users_def split: if_splits)
  have nf: "\<not> is_final (bi s)" using IH(4) bf by auto
  let ?c = "length (cells (bi s))" and ?us = "last_users bls"
  obtain b' where b': "update_book bl (bi s) = returns b'" "tracks b' (users bl) (new_cell ?us f ?c)"
    "cells b' = cells (bi s) @ [last (Book bl)]" "is_closed b' = is_closed (bi s)"
    "is_final b' = BiddingFinished bl" "totalDeposits b' = TotalDeposits bl"
    using update_book_tracks [OF IH(2) gr(2,4,1)] by blast
  have "bid_status b' \<noteq> None \<and> bid_status b' \<noteq> Some Panic"
    using bid_status_tracks [OF b'(2) gr(3)] IH(3) b'(4) by (simp add: returns_def)
  then obtain s' where s': "bid_broadcast (s\<lparr>bi := b'\<rparr>) = returns s'" "bi s' = b'"
    using bid_status_tracks [OF b'(2) gr(3)] IH(3) b'(4) by (auto simp: bid_broadcast_def)
  have run: "loopInternal (map PBids (bls @ [bl])) (CreatePayout d) = returns s'"
    using IH(1) nf b'(1) s'(1) by (simp add: loopInternal_def calls_append on_bid_list_def)
  have fb: "first_book u (bls @ [bl]) = (if u \<in> set ?us then first_book u bls else bl)"
    if "u \<in> set (users bl)" for u
    using that IH(5) find_None_iff [of "\<lambda>bl. u \<in> set (users bl)" bls]
    by (cases "List.find (\<lambda>bl. u \<in> set (users bl)) bls") (auto simp: first_book_def find_snoc)
  have cell: "new_cell ?us f ?c u < length (cells b') \<and>
      cells b' ! new_cell ?us f ?c u = last (Book (first_book u (bls @ [bl])))"
    if "u \<in> set (users bl)" for u
    using IH(6) that by (auto simp: fb new_cell_def b'(3) nth_append)
  have mem: "u \<in> set (users bl) \<longleftrightarrow> (\<exists>x \<in> set (bls @ [bl]). u \<in> set (users x))" for u
    using gr(4) IH(5) by auto
  have lu: "last_users (bls @ [bl]) = users bl" by (simp add: last_users_def)
  have "tracks (bi s') (last_users (bls @ [bl])) (new_cell ?us f ?c)" "\<not> is_closed (bi s')"
    "is_final (bi s') = (bls @ [bl] \<noteq> [] \<and> BiddingFinished (last (bls @ [bl])))"
    "totalDeposits (bi s') = TotalDeposits (last (bls @ [bl]))"
    using b' s'(2) IH(3) unfolding lu by simp_all
  with run show ?case
    unfolding lu using cell mem s'(2) by blast
qed

section \<open>After the auction\<close>

fun closes_bids :: "payout_msg \<Rightarrow> bool" where
  "closes_bids (PData d) = (pa_bids d = Zero)"
| "closes_bids _ = False"

fun arrival :: "payout_msg \<Rightarrow> receipt_with_data option" where
  "arrival (PReceipt r) = Some r"
| "arrival _ = None"

definition arrivals :: "payout_msg list \<Rightarrow> receipt_with_data list" where
  "arrivals = List.map_filter arrival"

lemma receipts_only [simp]: "bi (UpdateReceipt r s) = bi s" "sent_bids (UpdateReceipt r s) = sent_bids s"
  "bi (receipt_delete i s) = bi s" "sent_bids (receipt_delete i s) = sent_bids s"
  by (simp_all add: UpdateReceipt_def on_receipt_def receipt_delete_def)

lemma close_bid_list_returns: "close_bid_list s = returns
    (s\<lparr>bi := (bi s)\<lparr>is_closed := True\<rparr>, sent_bids := sent_bids s @ [getBlankBidStatus]\<rparr>)"
  by (simp add: close_bid_list_def bid_broadcast_def bid_status_def)

lemma handle_final:
  assumes "is_final (bi s)"
  shows "\<exists>s'. handle m s = returns s' \<and> is_final (bi s')
    \<and> bi s' = (if closes_bids m then (bi s)\<lparr>is_closed := True\<rparr> else bi s)
    \<and> sent_bids s' = sent_bids s @ (if closes_bids m then [getBlankBidStatus] else [])"
  using assms by (cases m) (auto simp: on_data_def on_bid_list_def close_bid_list_returns)

lemma closed_status: "is_closed b \<Longrightarrow> bid_status b = returns getBlankBidStatus"
  by (simp add: bid_status_def)

lemma run_final:
  assumes "is_final (bi s)"
  shows "\<exists>s'. calls handle ms s = returns s'
    \<and> bi s' = (if \<exists>m \<in> set ms. closes_bids m then (bi s)\<lparr>is_closed := True\<rparr> else bi s)
    \<and> sent_bids s' = sent_bids s @ replicate (length (filter closes_bids ms)) getBlankBidStatus"
  using assms
proof (induction ms arbitrary: s)
  case (Cons m ms)
  obtain s1 where "handle m s = returns s1" "is_final (bi s1)"
    "bi s1 = (if closes_bids m then (bi s)\<lparr>is_closed := True\<rparr> else bi s)"
    "sent_bids s1 = sent_bids s @ (if closes_bids m then [getBlankBidStatus] else [])"
    using handle_final [OF Cons.prems, of m] by blast
  with Cons.IH [of s1] show ?case by auto
qed simp

section \<open>Receipts\<close>

text \<open>Receipts are filed under their validator and taken out under their own address.\<close>

definition filed :: "receipt_with_data list \<Rightarrow> payout \<Rightarrow> bool" where
  "filed rs s \<longleftrightarrow> (\<forall>v. receipts s v = List.find (\<lambda>r. rw_validator r = v) rs)"

definition announced :: "payout \<Rightarrow> bool" where
  "announced s \<longleftrightarrow> distinct (map rw_validator (sent_receipts s))
     \<and> (\<forall>v r. receipts s v = Some r \<longleftrightarrow> r \<in> set (sent_receipts s) \<and> rw_validator r = v)"

definition receipts_inv :: "receipt_with_data list \<Rightarrow> payout \<Rightarrow> bool" where
  "receipts_inv rs s \<longleftrightarrow> filed rs s \<and> announced s"

lemma bid_broadcast_receipts:
  "bid_broadcast s = returns s' \<Longrightarrow> receipts s' = receipts s \<and> sent_receipts s' = sent_receipts s"
  by (auto simp: bid_broadcast_def)

lemma receipts_inv_cong:
  "receipts s' = receipts s \<Longrightarrow> sent_receipts s' = sent_receipts s \<Longrightarrow> receipts_inv rs s' = receipts_inv rs s"
  by (simp add: receipts_inv_def filed_def announced_def)

lemma other_handlers_receipts:
  assumes "handle m s = returns s'" and "\<forall>r. m \<noteq> PReceipt r" and "\<forall>i. m \<noteq> PReceiptClosed i"
  shows "receipts s' = receipts s \<and> sent_receipts s' = sent_receipts s"
  using assms by (cases m)
    (auto simp: on_data_def on_bid_list_def close_bid_list_returns split: if_splits dest!: bid_broadcast_receipts)

lemma UpdateReceipt_new: "receipts s (rw_validator r) = None \<Longrightarrow>
    UpdateReceipt r s = s\<lparr>receipts := (receipts s)(rw_validator r \<mapsto> r), sent_receipts := sent_receipts s @ [r]\<rparr>"
  by (simp add: UpdateReceipt_def on_receipt_def)

lemma UpdateReceipt_known: "receipts s (rw_validator r) \<noteq> None \<Longrightarrow>
    UpdateReceipt r s = s\<lparr>watched := watched s @ [rw_id r]\<rparr>"
  by (simp add: UpdateReceipt_def on_receipt_def)

lemma UpdateReceipt_filed: "filed rs s \<Longrightarrow> filed (rs @ [r]) (UpdateReceipt r s)"
  by (cases "receipts s (rw_validator r)")
    (auto simp: filed_def UpdateReceipt_new UpdateReceipt_known find_snoc split: option.splits)

lemma UpdateReceipt_announced:
  assumes "announced s"
  shows "announced (UpdateReceipt r s)"
proof (cases "receipts s (rw_validator r)")
  case None
  have ne: "rw_validator x \<noteq> rw_validator r" if "x \<in> set (sent_receipts s)" for x
    using assms None that unfolding announced_def by (metis option.distinct(1))
  then have "rw_validator r \<notin> rw_validator ` set (sent_receipts s)" by (metis imageE)
  then show ?thesis using assms None ne by (auto simp: announced_def UpdateReceipt_new)
next
  case (Some r')
  then have "UpdateReceipt r s = s\<lparr>watched := watched s @ [rw_id r]\<rparr>" by (simp add: UpdateReceipt_known)
  then show ?thesis using assms by (simp add: announced_def)
qed

lemma UpdateReceipt_inv: "receipts_inv rs s \<Longrightarrow> receipts_inv (rs @ [r]) (UpdateReceipt r s)"
  by (simp add: receipts_inv_def UpdateReceipt_filed UpdateReceipt_announced)

lemma receipt_delete_inv:
  assumes "receipts_inv rs s" and "i \<notin> rw_validator ` set rs"
  shows "receipts_inv rs (receipt_delete i s)"
proof -
  have "receipts s i = None"
    using assms find_None_iff [of "\<lambda>r. rw_validator r = i" rs] by (auto simp: receipts_inv_def filed_def)
  then have "receipts (receipt_delete i s) = receipts s"
    by (auto simp: receipt_delete_def)
  moreover have "sent_receipts (receipt_delete i s) = sent_receipts s" by (simp add: receipt_delete_def)
  ultimately show ?thesis using assms(1) receipts_inv_cong by blast
qed

lemma run_receipts:
  assumes "calls handle ms s = returns s'" and "receipts_inv rs s"
    and "\<forall>i. PReceiptClosed i \<in> set ms \<longrightarrow> i \<notin> rw_validator ` set (rs @ arrivals ms)"
  shows "receipts_inv (rs @ arrivals ms) s'"
  using assms
proof (induction ms arbitrary: s rs)
  case Nil
  then show ?case by (simp add: arrivals_def List.map_filter_simps)
next
  case (Cons m ms)
  obtain s1 where s1: "handle m s = returns s1" "calls handle ms s1 = returns s'"
    using Cons.prems(1) by auto
  let ?new = "case arrival m of None \<Rightarrow> [] | Some r \<Rightarrow> [r]"
  have ar: "arrivals (m # ms) = ?new @ arrivals ms"
    by (simp add: arrivals_def List.map_filter_simps split: option.splits)
  have "receipts_inv (rs @ ?new) s1"
  proof (cases m)
    case (PReceipt r)
    then show ?thesis using s1(1) UpdateReceipt_inv [OF Cons.prems(2), of r] by auto
  next
    case (PReceiptClosed i)
    then have "i \<notin> rw_validator ` set rs" using Cons.prems(3) by auto
    then show ?thesis using s1(1) PReceiptClosed receipt_delete_inv [OF Cons.prems(2)] by auto
  qed (use other_handlers_receipts [OF s1(1)] Cons.prems(2) receipts_inv_cong [of s1 s rs] in simp_all)
  moreover have "\<forall>i. PReceiptClosed i \<in> set ms \<longrightarrow> i \<notin> rw_validator ` set ((rs @ ?new) @ arrivals ms)"
    using Cons.prems(3) unfolding ar by auto
  ultimately show ?case using Cons.IH [OF s1(2), of "rs @ ?new"] unfolding ar by simp
qed

section \<open>Properties\<close>

text \<open>
  The bid book, for any number of updates during which users only join (every user of a book is
  in the next one), whatever their bids: all updates return, and the status lists one bid for each
  user of the latest book in its order, final flag and total deposits being those of the latest
  book; but the bid listed for a user is the last entry of the first book the user appeared in. The
  loop variable whose address is stored holds that entry, and later updates keep the old pointer.
\<close>

theorem book_shows_last_entry:
  assumes "growing [] bls" and "bls \<noteq> []" and "\<forall>bl \<in> set (butlast bls). \<not> BiddingFinished bl"
  shows "\<exists>s. loopInternal (map PBids bls) (CreatePayout d) = returns s
    \<and> bid_status (bi s) = returns
        \<lparr>st_Bid = map (\<lambda>u. last (Book (first_book u bls))) (users (last bls)),
         st_IsFinal = BiddingFinished (last bls), st_TotalDeposits = TotalDeposits (last bls), st_IsOpen = True\<rparr>"
proof -
  obtain s f where s: "loopInternal (map PBids bls) (CreatePayout d) = returns s"
    "tracks (bi s) (last_users bls) f" "\<not> is_closed (bi s)"
    "is_final (bi s) = BiddingFinished (last bls)" "totalDeposits (bi s) = TotalDeposits (last bls)"
    "\<forall>u \<in> set (last_users bls). cells (bi s) ! f u = last (Book (first_book u bls))"
    using books_run [OF assms(1,3)] assms(2) by blast
  have lu: "last_users bls = users (last bls)" using assms(2) by (simp add: last_users_def)
  have "length (users (last bls)) < 2 ^ 32"
    using assms(1,2) by (cases bls rule: rev_cases) (auto simp: growing_snoc)
  then show ?thesis
    using s bid_status_tracks [OF s(2)] unfolding lu by (auto cong: map_cong)
qed

definition demo_book :: "uint64 \<Rightarrow> uint64 \<Rightarrow> BidList" where
  "demo_book a b = \<lparr>Book = [\<lparr>User = ''alice'', Deposit = a, IsBlank = False\<rparr>,
     \<lparr>User = [], Deposit = 0, IsBlank = True\<rparr>, \<lparr>User = ''bob'', Deposit = b, IsBlank = False\<rparr>],
     TotalDeposits = a + b, BiddingFinished = False\<rparr>"

definition demo_account :: "pubkey \<Rightarrow> payout_account" where
  "demo_account b = \<lparr>pa_bids = b, pa_rest = []\<rparr>"

lemma demo_users: "users (demo_book a b) = [''alice'', ''bob'']"
  by (simp add: users_def demo_book_def)

theorem book_shows_last_entry_witness:
  "\<exists>s. loopInternal [PBids (demo_book 5 7), PBids (demo_book 50 70)]
         (CreatePayout (demo_account ''bids'')) = returns s
     \<and> bid_status (bi s) = returns
         \<lparr>st_Bid = replicate 2 \<lparr>User = ''bob'', Deposit = 7, IsBlank = False\<rparr>,
          st_IsFinal = False, st_TotalDeposits = 120, st_IsOpen = True\<rparr>"
  using book_shows_last_entry [of "[demo_book 5 7, demo_book 50 70]" "demo_account ''bids''"]
  by (simp add: demo_users first_book_def) (simp add: demo_book_def numeral_2_eq_2)

text \<open>
  C15. Once the bidding is final, every sequence of messages returns and the status no longer changes,
  whatever bid lists arrive, until the payout account reports that its bid account is gone; from
  then on it is the blank status for good. The only further broadcasts are one blank status for each
  such report.
\<close>

theorem final_status_frozen:
  assumes "is_final (bi s)" and "bid_status (bi s) = returns st"
  shows "\<exists>s'. loopInternal ms s = returns s'
    \<and> bid_status (bi s') = returns (if \<exists>m \<in> set ms. closes_bids m then getBlankBidStatus else st)
    \<and> sent_bids s' = sent_bids s @ replicate (length (filter closes_bids ms)) getBlankBidStatus"
proof -
  obtain s' where "calls handle ms s = returns s'"
    "bi s' = (if \<exists>m \<in> set ms. closes_bids m then (bi s)\<lparr>is_closed := True\<rparr> else bi s)"
    "sent_bids s' = sent_bids s @ replicate (length (filter closes_bids ms)) getBlankBidStatus"
    using run_final [OF assms(1), of ms] by blast
  then show ?thesis
    using assms(2) closed_status [of "(bi s)\<lparr>is_closed := True\<rparr>"] by (auto simp: loopInternal_def)
qed

definition demo_final :: payout where
  "demo_final = (CreatePayout (demo_account ''bids''))\<lparr>bi := init_bid\<lparr>is_final := True\<rparr>\<rparr>"

theorem final_status_frozen_witness:
  "\<exists>s'. loopInternal [PBids (demo_book 5 7), PData (demo_account Zero)] demo_final = returns s'
     \<and> bid_status (bi s') = returns getBlankBidStatus \<and> sent_bids s' = [getBlankBidStatus]"
proof -
  have st: "bid_status (bi demo_final) = returns \<lparr>st_Bid = [], st_IsFinal = True, st_TotalDeposits = 0, st_IsOpen = True\<rparr>"
    using deref_list_linked [OF linked_Create, of "\<lambda>p. [] ! p" zero_bid]
    by (simp add: demo_final_def bid_status_def init_bid_def contents_def generic.create_seq)
  have "is_final (bi demo_final)" by (simp add: demo_final_def)
  from final_status_frozen [OF this st, of "[PBids (demo_book 5 7), PData (demo_account Zero)]"]
  show ?thesis by (simp add: demo_final_def CreatePayout_def demo_account_def)
qed

text \<open>
  Receipts of a payout, in every reachable state: under each validator the payout keeps the first
  receipt that arrived for it and has announced exactly these receipts, once for each validator. This
  holds although receipts close: as long as no receipt has the address of a validator, no closing
  takes a receipt out, since the table is keyed by validator and the deletion uses the address of
  the receipt.
\<close>

theorem receipts_stay_filed:
  assumes "loopInternal ms (CreatePayout d) = returns s"
    and "\<forall>i. PReceiptClosed i \<in> set ms \<longrightarrow> i \<notin> rw_validator ` set (arrivals ms)"
  shows "receipts s v = List.find (\<lambda>r. rw_validator r = v) (arrivals ms)
    \<and> distinct (map rw_validator (sent_receipts s))
    \<and> (receipts s v = Some r \<longleftrightarrow> r \<in> set (sent_receipts s) \<and> rw_validator r = v)"
proof -
  have "receipts_inv [] (CreatePayout d)" by (simp add: receipts_inv_def filed_def announced_def CreatePayout_def)
  then have "receipts_inv (arrivals ms) s"
    using run_receipts [of ms "CreatePayout d" s "[]"] assms by (simp add: loopInternal_def)
  then show ?thesis unfolding receipts_inv_def filed_def announced_def by blast
qed

definition demo_receipt :: "pubkey \<Rightarrow> receipt_with_data" where
  "demo_receipt r = \<lparr>rw_id = r, rw_validator = ''validator'', rw_rest = []\<rparr>"

theorem receipts_stay_filed_witness:
  "\<exists>s. loopInternal [PReceipt (demo_receipt ''r1''), PReceipt (demo_receipt ''r1''), PReceiptClosed ''r1'']
         (CreatePayout (demo_account ''bids'')) = returns s
     \<and> receipts s ''validator'' = Some (demo_receipt ''r1'')"
proof -
  let ?ms = "[PReceipt (demo_receipt ''r1''), PReceipt (demo_receipt ''r1''), PReceiptClosed ''r1'']"
  obtain s where s: "loopInternal ?ms (CreatePayout (demo_account ''bids'')) = returns s"
    by (simp add: loopInternal_def)
  show ?thesis
    using s receipts_stay_filed [OF s, of "''validator''"]
    by (simp add: arrivals_def List.map_filter_simps demo_receipt_def)
qed

end
