(* ===== verification/PipelineState.thy ===== *)
theory PipelineState
  imports SharedLists "HOL-Library.Multiset"
begin

text \<open>
  The state of one pipeline, state/pipeline: the list of its payouts ordered by period and the table
  of their nodes (update.go), the current payout, the refund claims (refund.go), the stake of its
  validators (internal.go, validator.go), and the conversion of a period ring (pipeline.go).

  Payouts and validators are known by their addresses. A subscription home is represented by the
  list of the values broadcast so far. As in the bid book, the claims are pointers to the loop
  variable of the update, one cell per update.
\<close>

section \<open>Data\<close>

record cba_payout =
  pd_pipeline :: pubkey
  pd_start :: uint64
  pd_length :: uint64

record PayoutWithData =
  pw_id :: pubkey
  pw_payout :: pubkey
  pw_data :: cba_payout

record PeriodWithPayout =
  pp_payout :: pubkey
  pp_start :: uint64
  pp_length :: uint64

record PeriodRing =
  Ring :: "PeriodWithPayout list"
  Start :: uint16
  Length :: uint16

record Claim =
  cl_user :: pubkey
  cl_balance :: uint64

record StakeStatus =
  Activated :: uint64
  Total :: uint64

text \<open>The subscription to the stake of a validator; the status is a pointer that may be nil.\<close>

record validatorStakeSub =
  vs_status :: "StakeStatus option"
  vs_start :: uint64
  vs_finish :: uint64

record validatorStakeUpdate =
  vu_vote :: pubkey
  vu_status :: StakeStatus
  vu_start :: uint64
  vu_finish :: uint64

record pipeline =
  pip_data :: string
  periods :: "PeriodRing option"
  payoutLinkedList :: "PayoutWithData Generic"
  payoutById :: "pubkey \<rightharpoonup> ptr"
  activePayout :: "ptr option"
  refund_list :: "ptr Generic"
  claimMap :: "pubkey \<rightharpoonup> ptr"
  claim_cells :: "Claim list"
  activatedStake :: int
  totalStake :: int
  stakeSubs :: "pubkey \<rightharpoonup> validatorStakeSub"
  sent_data :: "string list"
  sent_periods :: "PeriodRing list"
  sent_payouts :: "PayoutWithData list"
  sent_claims :: "Claim list"
  sent_validators :: "(pubkey \<times> uint64 \<times> uint64) list"
  sent_stake :: "(int \<times> int) list"

definition new_pipeline :: "string \<Rightarrow> pipeline" where
  "new_pipeline d = \<lparr>pip_data = d, periods = None, payoutLinkedList = CreateGeneric, payoutById = Map.empty,
     activePayout = None, refund_list = CreateGeneric, claimMap = Map.empty, claim_cells = [],
     activatedStake = 0, totalStake = 1, stakeSubs = Map.empty, sent_data = [], sent_periods = [],
     sent_payouts = [], sent_claims = [], sent_validators = [], sent_stake = []\<rparr>"

section \<open>Payouts\<close>

text \<open>
  The walk of \<open>on_payout_insert\<close> from a node: a node with the same payout gets the new data; before
  the first node with a later period the new entry takes over the node and the old value moves to a
  node inserted after it.
\<close>

partial_function (option) insert_walk ::
  "PayoutWithData \<Rightarrow> ptr option \<Rightarrow> PayoutWithData Generic \<Rightarrow> (ptr option \<times> PayoutWithData Generic) call" where
  "insert_walk pwd node g =
     (case node of
        None \<Rightarrow> returns (None, g)
      | Some p \<Rightarrow>
          (case Value p g of
             None \<Rightarrow> Some Panic
           | Some v \<Rightarrow>
               (if pw_payout v = pw_payout pwd then returns (Some p, ChangeValue p pwd g)
                else if pd_start (pw_data pwd) < pd_start (pw_data v)
                then (case Insert v (Some p) g of
                        Panic \<Rightarrow> Some Panic
                      | Ret (_, g1) \<Rightarrow> returns (Some p, ChangeValue p pwd g1))
                else insert_walk pwd (Next p g) g)))"

definition on_payout_insert ::
  "PayoutWithData \<Rightarrow> PayoutWithData Generic \<Rightarrow> (ptr option \<times> PayoutWithData Generic) call" where
  "on_payout_insert pwd g =
     (if Size g = 0 then (case Append pwd g of (n, g1) \<Rightarrow> returns (Some n, g1))
      else case TailNode g of
        None \<Rightarrow> Some Panic
      | Some t \<Rightarrow>
          (case Value t g of
             None \<Rightarrow> Some Panic
           | Some v \<Rightarrow>
               (if pd_start (pw_data v) < pd_start (pw_data pwd)
                then (case Append pwd g of (n, g1) \<Rightarrow> returns (Some n, g1))
                else insert_walk pwd (HeadNode g) g)))"

text \<open>
  An index into the ring: the sum wraps at 16 bits, a ring whose length is 0 at that width is a
  division by zero, and an index behind the end a panic.
\<close>

definition ring_at :: "PeriodRing \<Rightarrow> uint16 \<Rightarrow> PeriodWithPayout outcome" where
  "ring_at r i =
     (let n = of_nat (length (Ring r)) :: uint16
      in if n = 0 then Panic
         else let k = unat ((i + Start r) mod n)
              in if k < length (Ring r) then Ret (Ring r ! k) else Panic)"

definition on_payout_find_current :: "pipeline \<Rightarrow> pipeline call" where
  "on_payout_find_current s =
     (case periods s of
        None \<Rightarrow> returns s
      | Some r \<Rightarrow>
          (if Length r = 0 then returns s
           else case ring_at r 0 of
                  Panic \<Rightarrow> Some Panic
                | Ret x \<Rightarrow> returns (s\<lparr>activePayout := payoutById s (pp_payout x)\<rparr>)))"

definition on_payout :: "pubkey \<Rightarrow> cba_payout \<Rightarrow> pipeline \<Rightarrow> pipeline call" where
  "on_payout p d s =
     and_then (on_payout_insert \<lparr>pw_id = p, pw_payout = p, pw_data = d\<rparr> (payoutLinkedList s))
       (\<lambda>(node, g).
          let s1 = s\<lparr>payoutLinkedList := g\<rparr>
          in case node of
               None \<Rightarrow> returns s1
             | Some n \<Rightarrow>
                 (case Value n g of
                    None \<Rightarrow> Some Panic
                  | Some v \<Rightarrow> on_payout_find_current
                      (s1\<lparr>payoutById := (payoutById s1)(p \<mapsto> n), sent_payouts := sent_payouts s1 @ [v]\<rparr>)))"

text \<open>An update of a payout account looks for the node under the address of the pipeline.\<close>

definition on_payout_update :: "cba_payout \<Rightarrow> pipeline \<Rightarrow> pipeline call" where
  "on_payout_update d s =
     (case payoutById s (pd_pipeline d) of
        None \<Rightarrow> returns s
      | Some n \<Rightarrow>
          (case Value n (payoutLinkedList s) of
             None \<Rightarrow> Some Panic
           | Some v \<Rightarrow>
               (let v1 = \<lparr>pw_id = Zero, pw_payout = pw_payout v, pw_data = d\<rparr>
                in returns (s\<lparr>payoutLinkedList := ChangeValue n v1 (payoutLinkedList s),
                              sent_payouts := sent_payouts s @ [v1]\<rparr>))))"

definition finish_payout :: "pubkey \<Rightarrow> pipeline \<Rightarrow> pipeline" where
  "finish_payout p s =
     (case payoutById s p of
        None \<Rightarrow> s
      | Some n \<Rightarrow> s\<lparr>payoutLinkedList := Remove (Some n) (payoutLinkedList s),
                       payoutById := (payoutById s)(p := None)\<rparr>)"

definition on_period :: "PeriodRing \<Rightarrow> pipeline \<Rightarrow> pipeline call" where
  "on_period r s = on_payout_find_current (s\<lparr>periods := Some r, sent_periods := sent_periods s @ [r]\<rparr>)"

definition on_data :: "string \<Rightarrow> pipeline \<Rightarrow> pipeline" where
  "on_data d s = s\<lparr>pip_data := d, sent_data := sent_data s @ [d]\<rparr>"

text \<open>The queries PayoutWithData and AllPayouts, and PeriodRing as a list.\<close>

definition zero_payout :: PayoutWithData where
  "zero_payout = \<lparr>pw_id = Zero, pw_payout = Zero, pw_data = \<lparr>pd_pipeline = Zero, pd_start = 0, pd_length = 0\<rparr>\<rparr>"

definition AllPayouts :: "pipeline \<Rightarrow> PayoutWithData list call" where
  "AllPayouts s = Array zero_payout (payoutLinkedList s)"

fun convert_ring :: "PeriodRing \<Rightarrow> nat \<Rightarrow> uint16 \<Rightarrow> PeriodWithPayout Generic \<Rightarrow> PeriodWithPayout Generic outcome" where
  "convert_ring pr 0 i g = Ret g"
| "convert_ring pr (Suc n) i g =
     (case ring_at pr i of
        Panic \<Rightarrow> Panic
      | Ret x \<Rightarrow> convert_ring pr n (i + 1) (snd (Append x g)))"

definition ConvertPeriodRingToLinkedList :: "PeriodRing \<Rightarrow> PeriodWithPayout Generic outcome" where
  "ConvertPeriodRingToLinkedList pr = convert_ring pr (unat (Length pr)) 0 CreateGeneric"

section \<open>Refund claims\<close>

type_synonym claim_state = "ptr Generic \<times> ptr Generic \<times> (pubkey \<rightharpoonup> ptr) \<times> Claim list \<times> Claim list"

fun claim_step :: "ptr \<Rightarrow> Claim \<Rightarrow> claim_state \<Rightarrow> claim_state" where
  "claim_step c x (old, new, m, cs, out) =
     (let cs1 = cs[c := x]
      in if 0 < cl_balance x
         then (let old1 = (case m (cl_user x) of None \<Rightarrow> old | Some n \<Rightarrow> Remove (Some n) old);
                   (n, new1) = Append c (on_heap old1 new)
               in (on_heap new1 old1, new1, m(cl_user x \<mapsto> n), cs1, out @ [cs1 ! c]))
         else (old, new, m, cs1, out))"

text \<open>The users left over are told that nothing is due; their cells are set to zero.\<close>

definition refunded :: "(ptr, (pubkey \<rightharpoonup> ptr) \<times> Claim list \<times> Claim list) callback" where
  "refunded p i t =
     (case t of (m, cs, out) \<Rightarrow>
        let x = (cs ! p)\<lparr>cl_balance := 0\<rparr>
        in ((m(cl_user (cs ! p) := None), cs[p := x], out @ [x]), 0, None))"

definition zero_claim :: Claim where
  "zero_claim = \<lparr>cl_user = Zero, cl_balance = 0\<rparr>"

definition on_refund :: "Claim list \<Rightarrow> pipeline \<Rightarrow> pipeline call" where
  "on_refund refunds s =
     (let c = length (claim_cells s)
      in case fold (claim_step c) refunds
                (refund_list s, on_heap (refund_list s) CreateGeneric, claimMap s,
                 claim_cells s @ [zero_claim], sent_claims s) of
           (old, new, m, cs, out) \<Rightarrow>
             (case Iterate refunded old (m, cs, out) of
                None \<Rightarrow> None
              | Some (_, (m1, cs1, out1), _) \<Rightarrow>
                  returns (s\<lparr>refund_list := new, claimMap := m1, claim_cells := cs1, sent_claims := out1\<rparr>)))"

definition AllClaim :: "pipeline \<Rightarrow> Claim list call" where
  "AllClaim s = deref_list (\<lambda>p. claim_cells s ! p) zero_claim (refund_list s)"

definition OnClaim_filter :: "pubkey \<Rightarrow> Claim \<Rightarrow> bool" where
  "OnClaim_filter user c = (user = Zero \<or> user = cl_user c)"

section \<open>Stake of the validators\<close>

definition ActiveStakeChange :: "StakeStatus \<Rightarrow> StakeStatus \<Rightarrow> int" where
  "ActiveStakeChange old new = uint (Activated new) - uint (Activated old)"

definition on_validator :: "pubkey \<Rightarrow> pipeline \<Rightarrow> bool \<times> pipeline" where
  "on_validator vote s =
     (if stakeSubs s vote \<noteq> None then (True, s)
      else (False, s\<lparr>stakeSubs := (stakeSubs s)(vote \<mapsto> \<lparr>vs_status = None, vs_start = 0, vs_finish = 0\<rparr>)\<rparr>))"

text \<open>The case of the main loop that takes a change of stake; it reads the old status first.\<close>

definition update_stake :: "validatorStakeUpdate \<Rightarrow> pipeline \<Rightarrow> pipeline call" where
  "update_stake u s =
     (case stakeSubs s (vu_vote u) of
        None \<Rightarrow> returns s
      | Some x \<Rightarrow>
          (case vs_status x of
             None \<Rightarrow> Some Panic
           | Some oldStatus \<Rightarrow>
               (let gone = (vs_finish x \<le> vu_finish u \<and> Activated (vu_status u) = 0 \<and> Total (vu_status u) = 0);
                    newStatus = (if gone then \<lparr>Activated = 0, Total = 0\<rparr> else vu_status u);
                    subs = (if gone then (stakeSubs s)(vu_vote u := None)
                            else (stakeSubs s)(vu_vote u \<mapsto>
                              \<lparr>vs_status = Some (vu_status u), vs_start = vu_start u, vs_finish = vu_finish u\<rparr>));
                    act = activatedStake s + ActiveStakeChange oldStatus newStatus;
                    tot = uint (Total newStatus)
                in returns (s\<lparr>stakeSubs := subs, activatedStake := act, totalStake := tot,
                              sent_stake := sent_stake s @ [(act, tot)]\<rparr>))))"

text \<open>
  The share of the stake is one over the quotient, 0 here standing for the answer 0; DivMod is
  Euclidean and puts the remainder into the field activatedStake.
\<close>

definition stake_share :: "pipeline \<Rightarrow> uint64 \<times> pipeline" where
  "stake_share s =
     (if totalStake s = 0 \<or> activatedStake s = 0 then (0, s)
      else (of_int (totalStake s div \<bar>activatedStake s\<bar>),
            s\<lparr>activatedStake := totalStake s mod \<bar>activatedStake s\<bar>\<rparr>))"

section \<open>The main loop\<close>

datatype pipeline_msg =
  LData string | LPeriod PeriodRing | LPayout pubkey cba_payout | LPayoutUpdate cba_payout
| LFinishPayout pubkey | LValidator pubkey uint64 uint64 | LRegister pubkey | LStake validatorStakeUpdate

fun handle :: "pipeline_msg \<Rightarrow> pipeline \<Rightarrow> pipeline call" where
  "handle (LData d) s = returns (on_data d s)"
| "handle (LPeriod r) s = on_period r s"
| "handle (LPayout p d) s = on_payout p d s"
| "handle (LPayoutUpdate d) s = on_payout_update d s"
| "handle (LFinishPayout p) s = returns (finish_payout p s)"
| "handle (LValidator v a b) s = returns (s\<lparr>sent_validators := sent_validators s @ [(v, a, b)]\<rparr>)"
| "handle (LRegister vote) s = returns (snd (on_validator vote s))"
| "handle (LStake u) s = update_stake u s"

text \<open>The loop starts with the ring and the refunds that CreatePipeline has fetched.\<close>

definition loopInternal :: "string \<Rightarrow> PeriodRing \<Rightarrow> Claim list \<Rightarrow> pipeline_msg list \<Rightarrow> pipeline call" where
  "loopInternal d pr rf ms =
     and_then (and_then (on_period pr (new_pipeline d)) (on_refund rf)) (calls handle ms)"

text \<open>The settings an administrator may send.\<close>

record PipelineSettings =
  CrankFee :: "(uint64 \<times> uint64) option"
  BidSpace :: uint16
  RefundSpace :: uint16
  PayoutShare :: "(uint64 \<times> uint64) option"

definition Check :: "PipelineSettings \<Rightarrow> err option" where
  "Check ps =
     (if CrankFee ps = None then Some ''no crank fee''
      else if BidSpace ps < 10 then Some ''bid space too low''
      else if PayoutShare ps = None then Some ''no payout share''
      else None)"

section \<open>The order of the payouts\<close>

abbreviation start_of :: "PayoutWithData \<Rightarrow> uint64" where
  "start_of v \<equiv> pd_start (pw_data v)"

definition place :: "PayoutWithData \<Rightarrow> PayoutWithData list \<Rightarrow> PayoutWithData list" where
  "place pwd vs = takeWhile (\<lambda>v. start_of v \<le> start_of pwd) vs @ pwd # dropWhile (\<lambda>v. start_of v \<le> start_of pwd) vs"

abbreviation val :: "'a Generic \<Rightarrow> ptr \<Rightarrow> 'a" where
  "val g p \<equiv> the (Value p g)"

lemma linked_val: "linked g ps \<Longrightarrow> p \<in> set ps \<Longrightarrow> Value p g = Some (val g p)"
  using linked_Value_ex by fastforce

text \<open>Inserting before a node by moving its value: the new list and its values.\<close>

lemma swap_insert:
  assumes l: "linked g (xs @ p # ys)"
  obtains g1 where "Insert v (Some p) g = Ret (Some (brk g), g1)"
    and "linked (ChangeValue p w g1) (xs @ p # brk g # ys)"
    and "items (ChangeValue p w g1) = map (item_at g) xs @ (p, w) # (brk g, v) # map (item_at g) ys"
proof -
  obtain g1 where g1: "Insert v (Some p) g = Ret (Some (brk g), g1)" "linked g1 (xs @ p # brk g # ys)"
    "items g1 = map (item_at g) (xs @ [p]) @ (brk g, v) # map (item_at g) ys"
    using linked_Insert [OF l] .
  note c = linked_ChangeValue [OF g1(2), of p w]
  have d: "p \<notin> set xs" "p \<notin> set ys" "brk g \<noteq> p" using linked_distinct [OF g1(2)] by auto
  have keep: "map (\<lambda>(q, x). (q, if q = p then w else x)) (map (item_at g) zs) = map (item_at g) zs"
    if "p \<notin> set zs" for zs
    using that by (induction zs) (auto simp: item_at_def)
  have "items (ChangeValue p w g1) = map (item_at g) xs @ (p, w) # (brk g, v) # map (item_at g) ys"
    using c(2) d keep [of xs] keep [of ys] by (simp add: g1(3)) (simp add: item_at_def)
  with g1(1) c(1) show ?thesis by (rule that)
qed

lemma contents_items: "contents g = map snd (items g)"
  by (simp add: contents_def)

lemma item_Value: "linked g ps \<Longrightarrow> (p, v) \<in> set (items g) \<Longrightarrow> Value p g = Some v"
  by (auto simp: items_linked item_at_def dest: linked_Value_ex)

lemma remove_item:
  assumes "linked g ps" and "items g = xs @ (n, v) # ys"
  shows "items (Remove (Some n) g) = xs @ ys"
proof -
  have inv: "list_inv g" using assms(1) by (auto simp: list_inv_def)
  have "distinct (map fst (items g))" by (rule generic.handles [OF inv])
  then have "fst x \<noteq> n" if "x \<in> set (xs @ ys)" for x using that unfolding assms(2) by (auto simp: image_iff)
  then have "filter (\<lambda>x. fst x \<noteq> n) (xs @ ys) = xs @ ys" by (intro filter_True) blast
  then show ?thesis using inv_Remove(2) [OF inv, of n] by (simp add: assms(2))
qed

lemma insert_walk_step: "Value p g = Some v \<Longrightarrow> insert_walk pwd (Some p) g =
    (if pw_payout v = pw_payout pwd then returns (Some p, ChangeValue p pwd g)
     else if start_of pwd < start_of v
     then (case Insert v (Some p) g of Panic \<Rightarrow> Some Panic | Ret (_, g1) \<Rightarrow> returns (Some p, ChangeValue p pwd g1))
     else insert_walk pwd (Next p g) g)"
  by (simp add: insert_walk.simps)

lemma insert_walk_none:
  assumes "linked g (xs @ ys)" and "\<And>y. y \<in> set ys \<Longrightarrow> pw_payout (val g y) \<noteq> pw_payout pwd"
    and "\<And>y. y \<in> set ys \<Longrightarrow> start_of (val g y) \<le> start_of pwd"
  shows "insert_walk pwd (hd_or ys None) g = returns (None, g)"
  using assms
proof (induction ys arbitrary: xs)
  case Nil
  then show ?case by (simp add: insert_walk.simps)
next
  case (Cons y ys)
  obtain v where v: "Value y g = Some v" using linked_Value_ex [OF Cons.prems(1)] by auto
  have "Next y g = hd_or ys None" using linked_split(2) [OF Cons.prems(1)] .
  moreover have "insert_walk pwd (hd_or ys None) g = returns (None, g)"
    using Cons.IH [of "xs @ [y]"] Cons.prems by simp
  moreover have "\<not> start_of pwd < start_of v" "pw_payout v \<noteq> pw_payout pwd"
    using Cons.prems(2,3) [of y] v by (simp_all add: not_less)
  ultimately show ?case by (simp add: insert_walk_step [OF v])
qed

lemma insert_walk_some:
  assumes "linked g (xs @ zs @ p # ys)"
    and "\<And>y. y \<in> set (zs @ [p]) \<Longrightarrow> pw_payout (val g y) \<noteq> pw_payout pwd"
    and "\<And>y. y \<in> set zs \<Longrightarrow> start_of (val g y) \<le> start_of pwd" and "start_of pwd < start_of (val g p)"
  shows "\<exists>g'. insert_walk pwd (hd_or (zs @ [p]) None) g = returns (Some p, g')
    \<and> linked g' (xs @ zs @ p # brk g # ys)
    \<and> items g' = map (item_at g) (xs @ zs) @ (p, pwd) # (brk g, val g p) # map (item_at g) ys"
  using assms
proof (induction zs arbitrary: xs)
  case Nil
  then have l: "linked g (xs @ p # ys)" by simp
  obtain g1 where "Insert (val g p) (Some p) g = Ret (Some (brk g), g1)"
    "linked (ChangeValue p pwd g1) (xs @ p # brk g # ys)"
    "items (ChangeValue p pwd g1) = map (item_at g) xs @ (p, pwd) # (brk g, val g p) # map (item_at g) ys"
    using swap_insert [OF l] .
  moreover obtain v where v: "Value p g = Some v" using linked_Value_ex [OF l] by auto
  moreover have "pw_payout v \<noteq> pw_payout pwd" "start_of pwd < start_of v" using Nil(2) [of p] Nil(4) v by simp_all
  ultimately show ?case by (simp add: insert_walk_step [OF v])
next
  case (Cons z zs)
  have l: "linked g (xs @ z # (zs @ p # ys))" using Cons.prems(1) by simp
  obtain v where v: "Value z g = Some v" using linked_Value_ex [OF l] by auto
  have "Next z g = hd_or (zs @ [p]) None" using linked_split(2) [OF l] by simp
  moreover have "\<not> start_of pwd < start_of v" "pw_payout v \<noteq> pw_payout pwd"
    using Cons.prems(2,3) [of z] v by (simp_all add: not_less)
  ultimately have "insert_walk pwd (hd_or ((z # zs) @ [p]) None) g = insert_walk pwd (hd_or (zs @ [p]) None) g"
    by (simp add: insert_walk_step [OF v])
  moreover note Cons.IH [of "xs @ [z]"]
  ultimately show ?case using Cons.prems by simp
qed

lemma size_zero:
  assumes "linked g ps" and "length ps < 2 ^ 32"
  shows "Size g = 0 \<longleftrightarrow> ps = []"
proof -
  have "unat (Size g) = length ps"
    using assms by (simp add: linked_size unat_of_nat take_bit_nat_eq_self)
  then show ?thesis using linked_size [OF assms(1)] by auto
qed

lemma on_payout_insert_eqs:
  assumes l: "linked g ps" and n: "length ps < 2 ^ 32"
  shows "ps = [] \<Longrightarrow> on_payout_insert pwd g = returns (Some (brk g), snd (Append pwd g))"
    and "ps = qs @ [t] \<Longrightarrow> start_of (val g t) < start_of pwd \<Longrightarrow>
      on_payout_insert pwd g = returns (Some (brk g), snd (Append pwd g))"
    and "ps = qs @ [t] \<Longrightarrow> \<not> start_of (val g t) < start_of pwd \<Longrightarrow>
      on_payout_insert pwd g = insert_walk pwd (hd_or ps None) g"
proof -
  have z: "Size g = 0 \<longleftrightarrow> ps = []" by (rule size_zero [OF l n])
  have a: "Append pwd g = (brk g, snd (Append pwd g))" using linked_Append(1) [OF l, of pwd] by (cases "Append pwd g") simp
  show "ps = [] \<Longrightarrow> on_payout_insert pwd g = returns (Some (brk g), snd (Append pwd g))"
    by (subst on_payout_insert_def, subst a) (simp add: z)
  fix qs t
  assume ps: "ps = qs @ [t]"
  then obtain v where v: "Value t g = Some v" using linked_Value_ex [OF l] by auto
  have t: "TailNode g = Some t" "HeadNode g = hd_or ps None"
    using ps linked_tail [OF l] linked_head [OF l] by (simp_all add: TailNode_def HeadNode_def)
  show "start_of (val g t) < start_of pwd \<Longrightarrow> on_payout_insert pwd g = returns (Some (brk g), snd (Append pwd g))"
    by (subst on_payout_insert_def, subst a) (simp add: z ps t v)
  show "\<not> start_of (val g t) < start_of pwd \<Longrightarrow> on_payout_insert pwd g = insert_walk pwd (hd_or ps None) g"
    using t v z ps by (simp add: on_payout_insert_def)
qed

text \<open>The insertion of a payout that is not listed yet.\<close>

lemma takeWhile_append_le:
  "(\<And>x. x \<in> set xs \<Longrightarrow> P x) \<Longrightarrow> \<not> P y \<Longrightarrow> takeWhile P (xs @ y # ys) = xs \<and> dropWhile P (xs @ y # ys) = y # ys"
  by (induction xs) auto

lemma first_later:
  assumes "\<exists>v \<in> set vs. (s :: uint64) < f v"
  obtains xs q ys where "vs = xs @ q # ys" "\<And>x. x \<in> set xs \<Longrightarrow> f x \<le> s" "s < f q"
  using split_list_first_prop [OF assms] by (metis linorder_not_le)

lemma place_end: "(\<And>v. v \<in> set vs \<Longrightarrow> start_of v \<le> start_of pwd) \<Longrightarrow> place pwd vs = vs @ [pwd]"
  by (simp add: place_def takeWhile_eq_all_conv [THEN iffD2] dropWhile_eq_Nil_conv [THEN iffD2])

lemma place_split:
  "(\<And>v. v \<in> set xs \<Longrightarrow> start_of v \<le> start_of pwd) \<Longrightarrow> start_of pwd < start_of q \<Longrightarrow>
     place pwd (xs @ q # ys) = xs @ pwd # q # ys"
  using takeWhile_append_le [of xs "\<lambda>v. start_of v \<le> start_of pwd" q ys] by (auto simp: place_def)

lemma insert_before_later:
  assumes l: "linked g (zs @ p # ys)" and n: "length (zs @ p # ys) < 2 ^ 32"
    and fresh: "\<And>v. v \<in> set (contents g) \<Longrightarrow> pw_payout v \<noteq> pw_payout pwd"
    and sorted: "sorted (map start_of (contents g))"
    and le: "\<And>z. z \<in> set zs \<Longrightarrow> start_of (val g z) \<le> start_of pwd" and lt: "start_of pwd < start_of (val g p)"
  shows "\<exists>g'. on_payout_insert pwd g = returns (Some p, g') \<and> linked g' (zs @ p # brk g # ys)
    \<and> items g' = map (item_at g) zs @ (p, pwd) # (brk g, val g p) # map (item_at g) ys"
proof -
  have c: "contents g = map (val g) (zs @ p # ys)" by (rule contents_linked [OF l])
  obtain qs t where t: "zs @ p # ys = qs @ [t]" by (cases "zs @ p # ys" rule: rev_cases) auto
  have "start_of (val g p) \<le> start_of (val g t)"
    using sorted t unfolding c by (cases ys rule: rev_cases) (auto simp: sorted_append)
  then have "\<not> start_of (val g t) < start_of pwd" using lt by auto
  then have "on_payout_insert pwd g = insert_walk pwd (hd_or (zs @ p # ys) None) g"
    using on_payout_insert_eqs(3) [OF l n t] by blast
  moreover have "pw_payout (val g y) \<noteq> pw_payout pwd" if "y \<in> set (zs @ [p])" for y
    using fresh that unfolding c by auto
  then have "\<exists>g'. insert_walk pwd (hd_or (zs @ [p]) None) g = returns (Some p, g')
    \<and> linked g' ([] @ zs @ p # brk g # ys)
    \<and> items g' = map (item_at g) ([] @ zs) @ (p, pwd) # (brk g, val g p) # map (item_at g) ys"
    using insert_walk_some [of g "[]" zs p ys pwd] l le lt by simp
  ultimately show ?thesis by simp
qed

lemma item_at_snd [simp]: "snd (item_at g p) = val g p"
  by (simp add: item_at_def)

lemma on_payout_insert_place:
  assumes l: "linked g ps" and n: "length ps < 2 ^ 32"
    and fresh: "\<And>v. v \<in> set (contents g) \<Longrightarrow> pw_payout v \<noteq> pw_payout pwd"
    and sorted: "sorted (map start_of (contents g))"
    and ne: "contents g \<noteq> [] \<Longrightarrow> start_of (last (contents g)) \<noteq> start_of pwd"
  shows "\<exists>k g' ps'. on_payout_insert pwd g = returns (Some k, g') \<and> linked g' ps' \<and> length ps' = Suc (length ps)
    \<and> contents g' = place pwd (contents g) \<and> Value k g' = Some pwd"
proof (cases "\<exists>v \<in> set ps. start_of pwd < start_of (val g v)")
  case True
  obtain zs p ys where sp: "ps = zs @ p # ys" "\<And>z. z \<in> set zs \<Longrightarrow> start_of (val g z) \<le> start_of pwd"
    "start_of pwd < start_of (val g p)"
    using first_later [of ps "start_of pwd" "\<lambda>p. start_of (val g p)"] True by blast
  obtain g' where g': "on_payout_insert pwd g = returns (Some p, g')" "linked g' (zs @ p # brk g # ys)"
    "items g' = map (item_at g) zs @ (p, pwd) # (brk g, val g p) # map (item_at g) ys"
    using insert_before_later [OF l [unfolded sp(1)] n [unfolded sp(1)] fresh sorted sp(2,3)] by blast
  have "place pwd (contents g) = contents g'"
    using place_split [of "map (val g) zs" pwd "val g p" "map (val g) ys"] sp(2,3)
    by (auto simp: contents_linked [OF l] sp(1) contents_items [of g'] g'(3) o_def)
  moreover have "Value p g' = Some pwd"
    using g'(3) unfolding items_linked [OF g'(2)] using linked_val [OF g'(2), of p] by (simp add: item_at_def)
  ultimately show ?thesis using g' sp(1) by fastforce
next
  case False
  then have le: "start_of v \<le> start_of pwd" if "v \<in> set (contents g)" for v
    using that by (auto simp: contents_linked [OF l] not_less)
  have "on_payout_insert pwd g = returns (Some (brk g), snd (Append pwd g))"
  proof (cases ps rule: rev_cases)
    case (snoc qs t)
    then have "start_of (val g t) \<noteq> start_of pwd" using ne by (simp add: contents_linked [OF l])
    then have "start_of (val g t) < start_of pwd" using le [of "val g t"] snoc by (simp add: contents_linked [OF l])
    then show ?thesis using on_payout_insert_eqs(2) [OF l n snoc] by blast
  qed (use on_payout_insert_eqs(1) [OF l n] in blast)
  moreover have "contents (snd (Append pwd g)) = place pwd (contents g)"
  proof -
    have "place pwd (contents g) = contents g @ [pwd]" by (rule place_end) (rule le)
    then show ?thesis using linked_Append(3) [OF l, of pwd] by (simp add: contents_items)
  qed
  ultimately show ?thesis
    using linked_Append(2) [OF l, of pwd] Append_Value(2) [OF l, of pwd] by fastforce
qed

lemma place_insort:
  assumes "sorted (map start_of vs)" and "\<And>v. v \<in> set vs \<Longrightarrow> start_of v \<noteq> start_of pwd"
  shows "place pwd vs = insort_key start_of pwd vs"
  using assms
proof (induction vs)
  case (Cons v vs)
  then show ?case
  proof (cases "start_of v \<le> start_of pwd")
    case True
    then have "\<not> start_of pwd \<le> start_of v" using Cons.prems(2) [of v] by auto
    then show ?thesis using Cons True by (simp add: place_def)
  next
    case False
    then have "start_of pwd \<le> start_of v" by simp
    then show ?thesis using False by (simp add: place_def)
  qed
qed (simp add: place_def)

section \<open>Runs\<close>

text \<open>The ring has no entry, or can be read without a panic.\<close>

definition ring_ok :: "PeriodRing \<Rightarrow> bool" where
  "ring_ok r \<longleftrightarrow> Length r = 0 \<or> 0 < length (Ring r) \<and> length (Ring r) < 2 ^ 16"

definition rings_ok :: "pipeline \<Rightarrow> bool" where
  "rings_ok s \<longleftrightarrow> (case periods s of None \<Rightarrow> True | Some r \<Rightarrow> ring_ok r)"

lemma ring_at_ok:
  assumes "0 < length (Ring r)" and "length (Ring r) < 2 ^ 16"
  shows "ring_at r i = Ret (Ring r ! (unat (i + Start r) mod length (Ring r)))"
proof -
  have u: "unat (of_nat (length (Ring r)) :: uint16) = length (Ring r)"
    using assms by (simp add: unat_of_nat take_bit_nat_eq_self)
  then have "(of_nat (length (Ring r)) :: uint16) \<noteq> 0" using assms(1) by (metis gr_implies_not0 unat_0)
  then show ?thesis using assms(1) u by (simp add: ring_at_def Let_def unat_mod_distrib)
qed

lemma find_current_ok:
  assumes "rings_ok s"
  shows "\<exists>a. on_payout_find_current s = returns (s\<lparr>activePayout := a\<rparr>)"
proof (cases "periods s")
  case (Some r)
  show ?thesis
  proof (cases "Length r = 0")
    case False
    then have "0 < length (Ring r)" "length (Ring r) < 2 ^ 16" using assms Some by (simp_all add: rings_ok_def ring_ok_def)
    from ring_at_ok [OF this] show ?thesis using Some False by (auto simp: on_payout_find_current_def)
  qed (use Some in \<open>auto simp: on_payout_find_current_def intro: exI [of _ "activePayout s"]\<close>)
qed (auto simp: on_payout_find_current_def intro: exI [of _ "activePayout s"])

definition entry :: "pubkey \<Rightarrow> cba_payout \<Rightarrow> PayoutWithData" where
  "entry p d = \<lparr>pw_id = p, pw_payout = p, pw_data = d\<rparr>"

text \<open>Messages that bring payouts but neither update nor finish one, nor change stake.\<close>

fun arrives :: "pipeline_msg \<Rightarrow> PayoutWithData option" where
  "arrives (LPayout p d) = Some (entry p d)"
| "arrives _ = None"

fun quiet :: "pipeline_msg \<Rightarrow> bool" where
  "quiet (LPeriod r) = ring_ok r"
| "quiet (LPayoutUpdate d) = False"
| "quiet (LFinishPayout p) = False"
| "quiet (LStake u) = False"
| "quiet _ = True"

definition listed :: "PayoutWithData list \<Rightarrow> pipeline \<Rightarrow> bool" where
  "listed es s \<longleftrightarrow> (\<exists>ps. linked (payoutLinkedList s) ps \<and> length ps = length es)
     \<and> mset (contents (payoutLinkedList s)) = mset es \<and> sorted (map start_of (contents (payoutLinkedList s)))
     \<and> rings_ok s"

lemma on_payout_lists:
  assumes "listed es s" and "length es < 2 ^ 32" and "pw_payout (entry p d) \<notin> pw_payout ` set es"
    and "pd_start d \<notin> start_of ` set es"
  shows "\<exists>s'. on_payout p d s = returns s' \<and> listed (es @ [entry p d]) s'"
proof -
  let ?g = "payoutLinkedList s" and ?e = "entry p d"
  obtain ps where l: "linked ?g ps" "length ps = length es" using assms(1) by (auto simp: listed_def)
  have m: "mset (contents ?g) = mset es" and srt: "sorted (map start_of (contents ?g))" and r: "rings_ok s"
    using assms(1) by (auto simp: listed_def)
  have se: "set (contents ?g) = set es" using m by (metis set_mset_mset)
  have ne: "start_of v \<noteq> start_of ?e" if "v \<in> set (contents ?g)" for v
    using that assms(4) se by (force simp: entry_def)
  obtain k g' ps' where g': "on_payout_insert ?e ?g = returns (Some k, g')" "linked g' ps'"
    "length ps' = Suc (length ps)" "contents g' = place ?e (contents ?g)" "Value k g' = Some ?e"
  proof -
    have "length ps < 2 ^ 32" using assms(2) l(2) by simp
    moreover have "pw_payout v \<noteq> pw_payout ?e" if "v \<in> set (contents ?g)" for v
      using that assms(3) se by (metis imageI)
    moreover have "contents ?g \<noteq> [] \<Longrightarrow> start_of (last (contents ?g)) \<noteq> start_of ?e"
      using ne last_in_set by blast
    ultimately show ?thesis using on_payout_insert_place [OF l(1), of ?e] srt that by blast
  qed
  have c: "contents g' = insort_key start_of ?e (contents ?g)"
    using g'(4) place_insort [OF srt ne] by metis
  let ?s = "s\<lparr>payoutLinkedList := g', payoutById := (payoutById s)(p \<mapsto> k), sent_payouts := sent_payouts s @ [?e]\<rparr>"
  have "rings_ok ?s" using r by (simp add: rings_ok_def)
  from find_current_ok [OF this] obtain a where a: "on_payout_find_current ?s = returns (?s\<lparr>activePayout := a\<rparr>)" ..
  have "on_payout p d s = returns (?s\<lparr>activePayout := a\<rparr>)"
    using g'(1,5) a by (simp add: on_payout_def entry_def)
  moreover have "listed (es @ [?e]) (?s\<lparr>activePayout := a\<rparr>)"
    using g'(2,3) l(2) r m srt by (auto simp: listed_def rings_ok_def c sorted_insort_key)
  ultimately show ?thesis by blast
qed

lemma handle_lists_other:
  assumes "listed es s" and "quiet m" and "arrives m = None"
  shows "\<exists>s'. handle m s = returns s' \<and> listed es s'"
proof (cases m)
  case (LPeriod r)
  have "rings_ok (s\<lparr>periods := Some r, sent_periods := sent_periods s @ [r]\<rparr>)"
    using assms(2) LPeriod by (simp add: rings_ok_def)
  from find_current_ok [OF this] LPeriod assms(1,2) show ?thesis
    by (auto simp: on_period_def listed_def rings_ok_def)
qed (use assms in \<open>auto simp: listed_def rings_ok_def on_data_def on_validator_def\<close>)

lemma run_lists:
  assumes "listed es s" and "\<forall>m \<in> set ms. quiet m"
    and "distinct (map pw_payout (es @ List.map_filter arrives ms))"
    and "distinct (map start_of (es @ List.map_filter arrives ms))"
    and "length (es @ List.map_filter arrives ms) < 2 ^ 32"
  shows "\<exists>s'. calls handle ms s = returns s' \<and> listed (es @ List.map_filter arrives ms) s'"
  using assms
proof (induction ms arbitrary: es s)
  case Nil
  then show ?case by (simp add: List.map_filter_simps)
next
  case (Cons m ms)
  let ?new = "case arrives m of None \<Rightarrow> [] | Some r \<Rightarrow> [r]"
  have ar: "List.map_filter arrives (m # ms) = ?new @ List.map_filter arrives ms"
    by (simp add: List.map_filter_simps split: option.splits)
  have q: "quiet m" using Cons.prems(2) by simp
  obtain s1 where s1: "handle m s = returns s1" "listed (es @ ?new) s1"
  proof (cases "arrives m")
    case None
    then show ?thesis using handle_lists_other [OF Cons.prems(1) q] that by auto
  next
    case (Some e)
    then obtain p d where e: "m = LPayout p d" "e = entry p d" by (cases m) auto
    have "length es < 2 ^ 32" using Cons.prems(5) by simp
    moreover have "pw_payout (entry p d) \<notin> pw_payout ` set es" "pd_start d \<notin> start_of ` set es"
      using Cons.prems(3,4) unfolding ar Some e(2) by (auto simp: entry_def)
    ultimately obtain s1 where "on_payout p d s = returns s1" "listed (es @ [entry p d]) s1"
      using on_payout_lists [OF Cons.prems(1)] by blast
    then show ?thesis using that [of s1] e Some by simp
  qed
  then show ?case using Cons.IH [of "es @ ?new" s1] Cons.prems(2-5) unfolding ar by simp
qed

section \<open>The ring as a list, and the first refunds\<close>

lemma convert_ring_contents:
  assumes "0 < length (Ring pr)" and "length (Ring pr) < 2 ^ 16" and "list_inv g"
  shows "\<exists>g'. convert_ring pr n i g = Ret g' \<and> list_inv g' \<and> contents g' = contents g @
    map (\<lambda>k. Ring pr ! (unat (i + of_nat k + Start pr) mod length (Ring pr))) [0..<n]"
  using assms(3)
proof (induction n arbitrary: i g)
  case (Suc n)
  let ?x = "Ring pr ! (unat (i + Start pr) mod length (Ring pr))"
  have "list_inv (snd (Append ?x g))" "contents (snd (Append ?x g)) = contents g @ [?x]"
    using inv_Append [OF Suc.prems, of ?x] by (simp_all add: contents_def)
  with Suc.IH [of "snd (Append ?x g)" "i + 1"] obtain g' where
    "convert_ring pr n (i + 1) (snd (Append ?x g)) = Ret g'" "list_inv g'" "contents g' = (contents g @ [?x]) @
      map (\<lambda>k. Ring pr ! (unat (i + 1 + of_nat k + Start pr) mod length (Ring pr))) [0..<n]" by auto
  moreover have "i + 1 + of_nat k + Start pr = i + of_nat (Suc k) + Start pr" for k by simp
  ultimately show ?case
    using ring_at_ok [OF assms(1,2), of i] by (simp add: map_upt_Suc del: upt_Suc of_nat_Suc)
qed simp

text \<open>The entries of a ring, from its start and around its end.\<close>

lemma ConvertPeriodRing_entries:
  assumes "0 < length (Ring pr)" and "unat (Start pr) + unat (Length pr) < 2 ^ 16" and "length (Ring pr) < 2 ^ 16"
  shows "\<exists>g. ConvertPeriodRingToLinkedList pr = Ret g \<and> list_inv g \<and> contents g =
    map (\<lambda>k. Ring pr ! ((unat (Start pr) + k) mod length (Ring pr))) [0..<unat (Length pr)]"
proof -
  have "unat (of_nat k + Start pr) = unat (Start pr) + k" if "k < unat (Length pr)" for k
    using that assms(2) by (simp add: unat_word_ariths unat_of_nat take_bit_nat_eq_self)
  then show ?thesis
    using convert_ring_contents [OF assms(1,3) generic.create_inv, of "unat (Length pr)" 0]
    by (auto simp: ConvertPeriodRingToLinkedList_def contents_def generic.create_seq)
qed

definition due :: "Claim list \<Rightarrow> Claim list" where
  "due = filter (\<lambda>x. 0 < cl_balance x)"

lemma fold_last: "xs \<noteq> [] \<Longrightarrow> fold (\<lambda>x cs. cs[c := x]) xs cs = cs[c := last xs]"
  by (induction xs arbitrary: cs) auto

lemma claim_loop_fresh:
  assumes "shared old [] new qs" and "contents new = replicate k c" and "c < length cs"
    and "\<And>u. u \<in> cl_user ` set (due xs) \<Longrightarrow> m u = None" and "distinct (map cl_user (due xs))"
  shows "\<exists>old' new' qs' m'. fold (claim_step c) xs (old, new, m, cs, out)
      = (old', new', m', fold (\<lambda>x cs. cs[c := x]) xs cs, out @ due xs)
    \<and> shared old' [] new' qs' \<and> contents new' = replicate (k + length (due xs)) c"
  using assms
proof (induction xs arbitrary: old new qs m cs out k)
  case Nil
  then show ?case by (auto simp: due_def)
next
  case (Cons x xs)
  show ?case
  proof (cases "0 < cl_balance x")
    case True
    have mx: "m (cl_user x) = None" using Cons.prems(4) True by (simp add: due_def)
    have eqh: "on_heap old new = new" using Cons.prems(1) by (auto simp: shared_def on_heap_def)
    note a = shared_Append [OF Cons.prems(1), where v = c]
    let ?n = "snd (Append c new)"
    have st: "claim_step c x (old, new, m, cs, out) =
        (on_heap ?n old, ?n, m(cl_user x \<mapsto> brk new), cs[c := x], out @ [x])"
      using True mx Cons.prems(3) a(1) by (simp add: Let_def eqh split: prod.splits) (metis fst_conv snd_conv)
    have "contents ?n = replicate (Suc k) c"
      using linked_Append(3) [OF shared_sides(2) [OF Cons.prems(1)], of c] Cons.prems(2)
      by (simp add: contents_def replicate_append_same)
    moreover have dx: "due (x # xs) = x # due xs" using True by (simp add: due_def)
    moreover have "(m(cl_user x \<mapsto> brk new)) u = None" if "u \<in> cl_user ` set (due xs)" for u
    proof -
      have "cl_user x \<notin> cl_user ` set (due xs)" using Cons.prems(5) unfolding dx by simp
      then have "u \<noteq> cl_user x" using that by metis
      then show ?thesis using Cons.prems(4) [of u] that unfolding dx by simp
    qed
    ultimately show ?thesis
      using Cons.IH [OF a(2), of "Suc k" "cs[c := x]" "m(cl_user x \<mapsto> brk new)" "out @ [x]"] Cons.prems(3,5)
      by (simp add: st del: claim_step.simps fun_upd_apply)
  next
    case False
    then have "claim_step c x (old, new, m, cs, out) = (old, new, m, cs[c := x], out)" by simp
    with Cons.IH [OF Cons.prems(1,2), of "cs[c := x]" m out] Cons.prems(3-5) False show ?thesis
      by (simp add: due_def)
  qed
qed

text \<open>
  The claims after the first refund update: every claim due is broadcast as it is, but the list the
  pipeline keeps reads the last entry of the update in every place.
\<close>

lemma first_refunds:
  assumes "distinct (map cl_user (due xs))" and "xs \<noteq> []" and "length (due xs) < 2 ^ 32"
  shows "\<exists>s. on_refund xs (new_pipeline d) = returns s \<and> sent_claims s = due xs
    \<and> AllClaim s = returns (replicate (length (due xs)) (last xs))"
proof -
  let ?s = "new_pipeline d"
  have sh: "shared (refund_list ?s) [] (on_heap (refund_list ?s) CreateGeneric) []"
    by (rule shared_start) (simp add: new_pipeline_def linked_Create)
  have c0: "contents (on_heap (refund_list ?s) CreateGeneric) = replicate 0 0"
    using contents_linked [OF shared_sides(2) [OF sh]] by simp
  obtain old new qs m where f: "fold (claim_step 0) xs
      (refund_list ?s, on_heap (refund_list ?s) CreateGeneric, claimMap ?s, [zero_claim], [])
      = (old, new, m, [last xs], due xs)"
    and n: "shared old [] new qs" "contents new = replicate (length (due xs)) 0"
    using claim_loop_fresh [OF sh c0, of "[zero_claim]" xs "claimMap ?s" "[]"] assms(1,2)
    by (auto simp: new_pipeline_def fold_last)
  have "head old = None" using n(1) by (auto simp: shared_def linked_def)
  then have "Iterate refunded old (m, [last xs], due xs) = Some (old, (m, [last xs], due xs), None)"
    by (simp add: Iterate_def iterate_loop.simps)
  with f have "on_refund xs ?s = returns (?s\<lparr>refund_list := new, claimMap := m, claim_cells := [last xs], sent_claims := due xs\<rparr>)"
    by (simp add: on_refund_def new_pipeline_def)
  moreover have "linked new qs" using n(1) by (auto simp: shared_def)
  moreover have "length qs < 2 ^ 32"
    using assms(3) n(2) contents_linked [OF \<open>linked new qs\<close>] by (metis length_map length_replicate)
  ultimately show ?thesis
    using deref_list_linked [of new qs "\<lambda>p. [last xs] ! p" zero_claim] n(2)
    by (auto simp: AllClaim_def map_replicate)
qed

section \<open>Stake\<close>

definition stakes_unknown :: "pipeline \<Rightarrow> bool" where
  "stakes_unknown s \<longleftrightarrow> (\<forall>v x. stakeSubs s v = Some x \<longrightarrow> vs_status x = None)
     \<and> activatedStake s = 0 \<and> totalStake s = 1 \<and> sent_stake s = []"

definition same_stake :: "pipeline \<Rightarrow> pipeline \<Rightarrow> bool" where
  "same_stake s s' \<longleftrightarrow> stakeSubs s' = stakeSubs s \<and> activatedStake s' = activatedStake s
     \<and> totalStake s' = totalStake s \<and> sent_stake s' = sent_stake s"

lemma find_current_stake: "on_payout_find_current s = returns s' \<Longrightarrow> same_stake s s'"
  by (auto simp: on_payout_find_current_def same_stake_def returns_def split: option.splits if_splits outcome.splits)

lemma on_payout_stake:
  assumes "on_payout p d s = returns s'"
  shows "same_stake s s'"
proof -
  obtain node g where i: "on_payout_insert \<lparr>pw_id = p, pw_payout = p, pw_data = d\<rparr> (payoutLinkedList s) = returns (node, g)"
    using assms unfolding on_payout_def by auto
  show ?thesis
  proof (cases node)
    case None
    then show ?thesis using assms i by (auto simp: on_payout_def same_stake_def)
  next
    case (Some n)
    then obtain v where "Value n g = Some v" using assms i
      by (cases "Value n g") (auto simp: on_payout_def returns_def)
    with assms i Some have "on_payout_find_current (s\<lparr>payoutLinkedList := g, payoutById := (payoutById s)(p \<mapsto> n),
        sent_payouts := sent_payouts s @ [v]\<rparr>) = returns s'" by (simp add: on_payout_def)
    from find_current_stake [OF this] show ?thesis by (simp add: same_stake_def)
  qed
qed

lemma handle_stake:
  assumes "handle m s = returns s'" and "\<forall>u. m \<noteq> LStake u" and "\<forall>v. m \<noteq> LRegister v"
  shows "same_stake s s'"
proof (cases m)
  case (LPeriod r)
  then show ?thesis using assms(1) find_current_stake [of "s\<lparr>periods := Some r, sent_periods := sent_periods s @ [r]\<rparr>" s']
    by (simp add: on_period_def same_stake_def)
next
  case (LPayout p d)
  then show ?thesis using assms(1) on_payout_stake by simp
next
  case (LPayoutUpdate d)
  then show ?thesis using assms(1)
    by (auto simp: on_payout_update_def same_stake_def returns_def Let_def split: option.splits)
next
  case (LFinishPayout p)
  then show ?thesis using assms(1) by (auto simp: finish_payout_def same_stake_def split: option.splits)
qed (use assms in \<open>auto simp: same_stake_def on_data_def\<close>)

lemma update_stake_unknown:
  assumes "stakes_unknown s"
  shows "update_stake u s = (if stakeSubs s (vu_vote u) = None then returns s else Some Panic)"
  using assms by (auto simp: update_stake_def stakes_unknown_def split: option.splits)

lemma handle_unknown:
  assumes "stakes_unknown s" and "handle m s = returns s'"
  shows "stakes_unknown s' \<and> (\<forall>v. stakeSubs s v \<noteq> None \<or> m = LRegister v \<longrightarrow> stakeSubs s' v \<noteq> None)"
proof (cases m)
  case (LStake u)
  then show ?thesis using assms update_stake_unknown [OF assms(1)] by (auto simp: returns_def split: if_splits)
next
  case (LRegister v)
  then have "s' = snd (on_validator v s)" using assms(2) by simp
  then show ?thesis using assms(1) LRegister by (auto simp: on_validator_def stakes_unknown_def)
qed (use assms handle_stake [OF assms(2)] in \<open>auto simp: same_stake_def stakes_unknown_def\<close>)

lemma run_unknown:
  assumes "calls handle ms s = returns s'" and "stakes_unknown s"
  shows "stakes_unknown s' \<and> (\<forall>v. stakeSubs s v \<noteq> None \<or> LRegister v \<in> set ms \<longrightarrow> stakeSubs s' v \<noteq> None)"
  using assms
proof (induction ms arbitrary: s)
  case (Cons m ms)
  then obtain s1 where s1: "handle m s = returns s1" "calls handle ms s1 = returns s'" by auto
  from handle_unknown [OF Cons.prems(2) s1(1)] Cons.IH [OF s1(2)] show ?case by auto
qed simp

section \<open>Properties\<close>

lemma listed_AllPayouts:
  assumes "listed es s" and "length es < 2 ^ 32" and "inj_on start_of (set es)"
  shows "AllPayouts s = returns (sort_key start_of es)"
proof -
  obtain ps where l: "linked (payoutLinkedList s) ps" "length ps = length es" using assms(1) by (auto simp: listed_def)
  have "sort_key start_of es = contents (payoutLinkedList s)"
    using assms(1,3) by (intro sort_key_inj_key_eq) (auto simp: listed_def)
  then show ?thesis
    using array_contents [of "payoutLinkedList s" zero_payout] l assms(2)
    by (auto simp: AllPayouts_def list_inv_def items_linked returns_def)
qed


definition demo_ring :: PeriodRing where
  "demo_ring = \<lparr>Ring = [\<lparr>pp_payout = ''p2'', pp_start = 20, pp_length = 5\<rparr>], Start = 0, Length = 1\<rparr>"

definition demo_payout :: "uint64 \<Rightarrow> cba_payout" where
  "demo_payout t = \<lparr>pd_pipeline = ''pipe'', pd_start = t, pd_length = 10\<rparr>"

definition demo_messages :: "pipeline_msg list" where
  "demo_messages = [LPayout ''p2'' (demo_payout 20), LPeriod demo_ring, LPayout ''p1'' (demo_payout 10),
     LPayout ''p3'' (demo_payout 30)]"


text \<open>
  A payout whose period comes before that of a listed payout takes over the node of that payout,
  whose entry in the table of nodes is left as it is. When the later payout is closed afterwards,
  the pipeline removes the earlier one and goes on listing the closed payout.
\<close>

theorem closing_removes_wrong_payout:
  assumes "list_inv (payoutLinkedList s)" and "items (payoutLinkedList s) = xs @ (n, q) # ys"
    and "length (items (payoutLinkedList s)) < 2 ^ 32"
    and "sorted (map start_of (contents (payoutLinkedList s)))"
    and "\<forall>x \<in> set xs. start_of (snd x) \<le> pd_start d" and "pd_start d < start_of q"
    and "p \<notin> pw_payout ` set (contents (payoutLinkedList s))"
    and "payoutById s (pw_payout q) = Some n" and "rings_ok s"
  shows "\<exists>s'. on_payout p d s = returns s'
    \<and> contents (payoutLinkedList s') = map snd xs @ entry p d # q # map snd ys
    \<and> contents (payoutLinkedList (finish_payout (pw_payout q) s')) = map snd xs @ q # map snd ys"
proof -
  let ?g = "payoutLinkedList s" and ?e = "entry p d"
  have l: "linked ?g (nodes ?g)" using assms(1) by (simp add: list_inv_linked)
  have nd: "nodes ?g = map fst xs @ n # map fst ys" using fst_items [OF assms(1)] assms(2) by simp
  note l = l [unfolded nd]
  have it: "item_at ?g (fst x) = x" if "x \<in> set (items ?g)" for x
    using that by (auto simp: items_linked [OF l] item_at_def)
  have ix: "map (item_at ?g) (map fst xs) = xs" "map (item_at ?g) (map fst ys) = ys" "val ?g n = q"
    using it assms(2) it [of "(n, q)"] by (auto simp: map_idI item_at_def)
  have "start_of (val ?g z) \<le> start_of ?e" if "z \<in> set (map fst xs)" for z
    using that assms(2,5) it by (force simp: entry_def item_at_def)
  moreover have "length (map fst xs @ n # map fst ys) < 2 ^ 32" using assms(2,3) by simp
  moreover have "pw_payout v \<noteq> pw_payout ?e" if "v \<in> set (contents ?g)" for v
    using that assms(7) by (auto simp: entry_def)
  moreover have "start_of ?e < start_of (val ?g n)" using assms(6) ix(3) by (simp add: entry_def)
  ultimately obtain g' where g': "on_payout_insert ?e ?g = returns (Some n, g')"
    "linked g' (map fst xs @ n # brk ?g # map fst ys)" "items g' = xs @ (n, ?e) # (brk ?g, q) # ys"
    using insert_before_later [OF l, of ?e] assms(4) unfolding ix by blast
  have vn: "Value n g' = Some ?e" using item_Value [OF g'(2), of n ?e] g'(3) by simp
  let ?s = "s\<lparr>payoutLinkedList := g', payoutById := (payoutById s)(p \<mapsto> n), sent_payouts := sent_payouts s @ [?e]\<rparr>"
  have "rings_ok ?s" using assms(9) by (simp add: rings_ok_def)
  from find_current_ok [OF this] obtain a where a: "on_payout_find_current ?s = returns (?s\<lparr>activePayout := a\<rparr>)" ..
  have run: "on_payout p d s = returns (?s\<lparr>activePayout := a\<rparr>)"
    using g'(1) vn a by (simp add: on_payout_def entry_def)
  have pq: "pw_payout q \<noteq> p" using assms(2,7) by (auto simp: contents_items)
  have "map snd (items (Remove (Some n) g')) = map snd xs @ q # map snd ys"
    using remove_item [OF g'(2,3)] by simp
  then show ?thesis
    using run g'(3) assms(8) pq by (auto simp: finish_payout_def contents_items)
qed

theorem closing_removes_wrong_payout_witness:
  "\<exists>s s'. on_payout ''p2'' (demo_payout 20) (new_pipeline ''d'') = returns s
    \<and> on_payout ''p1'' (demo_payout 10) s = returns s'
    \<and> contents (payoutLinkedList s') = [entry ''p1'' (demo_payout 10), entry ''p2'' (demo_payout 20)]
    \<and> contents (payoutLinkedList (finish_payout ''p2'' s')) = [entry ''p2'' (demo_payout 20)]"
proof -
  let ?e = "entry ''p2'' (demo_payout 20)"
  let ?s = "(new_pipeline ''d'')\<lparr>payoutLinkedList := snd (Append ?e CreateGeneric),
     payoutById := [''p2'' \<mapsto> 0], sent_payouts := [?e]\<rparr>"
  have v: "Append ?e CreateGeneric = (0, snd (Append ?e CreateGeneric))" "Value 0 (snd (Append ?e CreateGeneric)) = Some ?e"
    by (simp_all add: Append_def CreateGeneric_def alloc_def Value_def)
  have f0: "fst (Append ?e CreateGeneric) = 0" by (subst v(1)) simp
  have s: "on_payout ''p2'' (demo_payout 20) (new_pipeline ''d'') = returns ?s"
    using v by (cases "Append ?e CreateGeneric")
      (simp add: on_payout_def on_payout_insert_def new_pipeline_def entry_def CreateGeneric_def on_payout_find_current_def)
  have i: "list_inv (payoutLinkedList ?s)" "items (payoutLinkedList ?s) = [] @ (0, ?e) # []"
    using generic.append_inv [OF generic.create_inv, of ?e] inv_Append(2) [OF generic.create_inv, of ?e] f0
    by (simp_all add: generic.create_seq)
  show ?thesis
    using closing_removes_wrong_payout [OF i, of "demo_payout 10" "''p1''"] s i(2)
    by (simp add: contents_items rings_ok_def new_pipeline_def) (simp add: entry_def demo_payout_def)
qed

text \<open>
  The stake of the validators is never counted. After any messages that the loop survives, the
  activated stake is still 0, the total stake still 1, and nothing has been announced; and once a
  validator has been registered, any report of its stake, whatever it says, makes the loop panic:
  registration stores no status and the handler reads the old status first.
\<close>

theorem stake_never_counted:
  assumes "calls handle ms (new_pipeline d) = returns s"
  shows "activatedStake s = 0 \<and> totalStake s = 1 \<and> sent_stake s = []
    \<and> (LRegister (vu_vote u) \<in> set ms \<longrightarrow> calls handle (ms @ [LStake u]) (new_pipeline d) = Some Panic)"
proof -
  have "stakes_unknown (new_pipeline d)" by (simp add: stakes_unknown_def new_pipeline_def)
  from run_unknown [OF assms this] have u: "stakes_unknown s"
    and r: "LRegister (vu_vote u) \<in> set ms \<Longrightarrow> stakeSubs s (vu_vote u) \<noteq> None" by auto
  have "calls handle (ms @ [LStake u]) (new_pipeline d) = Some Panic" if "LRegister (vu_vote u) \<in> set ms"
    using assms r [OF that] update_stake_unknown [OF u, of u] by (auto simp: calls_append)
  then show ?thesis using u by (simp add: stakes_unknown_def)
qed

definition demo_stake :: validatorStakeUpdate where
  "demo_stake = \<lparr>vu_vote = ''vote'', vu_status = \<lparr>Activated = 5, Total = 9\<rparr>, vu_start = 1, vu_finish = 2\<rparr>"

theorem stake_never_counted_witness:
  "\<exists>s. calls handle [LRegister ''vote''] (new_pipeline ''d'') = returns s
    \<and> calls handle [LRegister ''vote'', LStake demo_stake] (new_pipeline ''d'') = Some Panic"
proof -
  obtain s where s: "calls handle [LRegister ''vote''] (new_pipeline ''d'') = returns s" by simp
  from stake_never_counted [OF s, of demo_stake] s show ?thesis by (auto simp: demo_stake_def)
qed

end
