(* ===== verification/Router.thy ===== *)
theory Router
  imports PayoutState PipelineState "HOL-Library.AList"
begin

text \<open>
  The router of state/router: it receives the accounts of the program in whatever order they come,
  keeps an object for each, and tells the objects about each other. An account that names another
  one which is not there yet waits in a map under the name of that other account. The objects are
  known by their account ids here; what the router calls on them is recorded in \<open>sent\<close>, in order.
  Where the source walks over a map of waiting accounts the record has them in the order in which
  they came; Go leaves that order open, and the theorems only say which calls were made. The
  broadcasts of new objects and the goroutines that wait for an account to be deleted are recorded
  with \<open>Announce\<close>. Creating a pipeline reads two accounts from the chain, which may fail; that is a
  parameter. Reading the data of an object that is not closed succeeds.
\<close>

section \<open>Accounts\<close>

record payout_data =
  pd_pipeline :: pubkey
  pd_start :: uint64
  pd_length :: uint64

record receipt_data =
  rd_payout :: pubkey
  rd_validator :: pubkey

record selected_period =
  HasValidatorWithdrawn :: bool
  sp_receipt :: pubkey

record validator_data =
  vd_vote :: pubkey
  vd_ring :: "selected_period list"

record stake_data =
  sd_stake :: pubkey

record staker_receipt =
  sr_manager :: pubkey
  sr_receipt :: pubkey
  sr_stake :: uint64

text \<open>A bid list or a period ring: the account it belongs to, a payout or a pipeline, and its content.\<close>

type_synonym bid_list = "pubkey \<times> BidList"
type_synonym period_ring = "pubkey \<times> PeriodRing"

text \<open>The payout's data when its object was created and the data it was last updated with.\<close>

record refPayout =
  rp_data :: payout_data
  rp_current :: payout_data

record refReceipt =
  rr_data :: receipt_data
  rr_current :: receipt_data

datatype sent_call =
    PayoutUpdate pubkey payout_data | PayoutBidList pubkey bid_list | PayoutReceipt pubkey pubkey | PayoutClose pubkey
  | PipelinePeriod pubkey period_ring | PipelinePayout pubkey pubkey
  | PipelineValidator pubkey pubkey uint64 uint64 | PipelineClose pubkey
  | ReceiptUpdate pubkey receipt_data | ReceiptStaker pubkey staker_receipt stake_data | ReceiptClose pubkey
  | StakerUpdate pubkey stake_data | StakerReceipt pubkey staker_receipt | StakerClose pubkey
  | ValidatorReceipt pubkey pubkey | ValidatorClose pubkey
  | Announce pubkey

section \<open>State\<close>

record router =
  stk_byId :: "pubkey \<rightharpoonup> stake_data"
  stk_byStake :: "pubkey \<rightharpoonup> pubkey"
  stakeReceiptWithNoStake :: "pubkey \<rightharpoonup> (pubkey \<times> staker_receipt) list"
  rct_byId :: "pubkey \<rightharpoonup> refReceipt"
  stakerWithNoReceipt :: "pubkey \<rightharpoonup> (pubkey \<times> staker_receipt \<times> stake_data) list"
  val_byId :: "pubkey \<rightharpoonup> validator_data"
  val_byVote :: "pubkey \<rightharpoonup> pubkey"
  receiptWithNoValidator :: "pubkey \<rightharpoonup> pubkey list"
  pay_byId :: "pubkey \<rightharpoonup> refPayout"
  pay_byPipeline :: "pubkey \<rightharpoonup> (uint64 \<rightharpoonup> pubkey)"
  bidListWithNoPayout :: "pubkey \<rightharpoonup> bid_list"
  receiptWithNoPayout :: "pubkey \<rightharpoonup> pubkey list"
  pip_byId :: "pubkey set"
  payoutWithNoPipeline :: "pubkey \<rightharpoonup> pubkey list"
  periodRingWithNoPipeline :: "pubkey \<rightharpoonup> period_ring"
  sent :: "sent_call list"

definition init_router :: router where
  "init_router =
     \<lparr>stk_byId = Map.empty, stk_byStake = Map.empty, stakeReceiptWithNoStake = Map.empty,
      rct_byId = Map.empty, stakerWithNoReceipt = Map.empty,
      val_byId = Map.empty, val_byVote = Map.empty, receiptWithNoValidator = Map.empty,
      pay_byId = Map.empty, pay_byPipeline = Map.empty, bidListWithNoPayout = Map.empty,
      receiptWithNoPayout = Map.empty, pip_byId = {}, payoutWithNoPipeline = Map.empty,
      periodRingWithNoPipeline = Map.empty, sent = []\<rparr>"

definition say :: "sent_call list \<Rightarrow> router \<Rightarrow> router" where
  "say cs s = s\<lparr>sent := sent s @ cs\<rparr>"

text \<open>What waits under a key, and a set of ids with one more.\<close>

definition waiting :: "(pubkey \<rightharpoonup> 'a list) \<Rightarrow> pubkey \<Rightarrow> 'a list" where
  "waiting m k = (case m k of None \<Rightarrow> [] | Some xs \<Rightarrow> xs)"

definition add_waiting :: "pubkey \<Rightarrow> 'a \<Rightarrow> (pubkey \<rightharpoonup> 'a list) \<Rightarrow> (pubkey \<rightharpoonup> 'a list)" where
  "add_waiting k x m = m(k \<mapsto> List.insert x (waiting m k))"

section \<open>Payouts\<close>

definition lookup_add_payout :: "pubkey \<Rightarrow> payout_data \<Rightarrow> router \<Rightarrow> router" where
  "lookup_add_payout p d s =
     (let x = (case pay_byPipeline s (pd_pipeline d) of None \<Rightarrow> Map.empty | Some x \<Rightarrow> x);
          x' = (if x (pd_start d) = None then x(pd_start d \<mapsto> p) else x)
      in s\<lparr>pay_byId := (pay_byId s)(p \<mapsto> \<lparr>rp_data = d, rp_current = d\<rparr>),
           pay_byPipeline := (pay_byPipeline s)(pd_pipeline d \<mapsto> x')\<rparr>)"

definition close_payout :: "pubkey \<Rightarrow> router \<Rightarrow> router" where
  "close_payout p s =
     (if pay_byId s p \<noteq> None then say [PayoutClose p] (s\<lparr>pay_byId := (pay_byId s)(p := None)\<rparr>) else s)"

text \<open>The object exists already and is updated, or it is created.\<close>

definition payout_object :: "pubkey \<Rightarrow> payout_data \<Rightarrow> router \<Rightarrow> bool \<times> router" where
  "payout_object p d s =
     (case pay_byId s p of
        None \<Rightarrow> (True, lookup_add_payout p d s)
      | Some ref \<Rightarrow>
          (False, say [PayoutUpdate p d] (s\<lparr>pay_byId := (pay_byId s)(p \<mapsto> ref\<lparr>rp_current := d\<rparr>)\<rparr>)))"

definition payout_bids :: "pubkey \<Rightarrow> router \<Rightarrow> router" where
  "payout_bids p s =
     (case bidListWithNoPayout s p of
        None \<Rightarrow> s
      | Some y \<Rightarrow> say [PayoutBidList p y] (s\<lparr>bidListWithNoPayout := (bidListWithNoPayout s)(p := None)\<rparr>))"

definition payout_receipts :: "pubkey \<Rightarrow> router \<Rightarrow> router" where
  "payout_receipts p s =
     (case receiptWithNoPayout s p of
        None \<Rightarrow> s
      | Some x \<Rightarrow>
          say (map (PayoutReceipt p) x) (s\<lparr>receiptWithNoValidator := (receiptWithNoValidator s)(p := None)\<rparr>))"

definition payout_pipeline :: "pubkey \<Rightarrow> payout_data \<Rightarrow> router \<Rightarrow> router" where
  "payout_pipeline p d s =
     (if pd_pipeline d \<in> pip_byId s then say [PipelinePayout (pd_pipeline d) p] s
      else s\<lparr>payoutWithNoPipeline := add_waiting (pd_pipeline d) p (payoutWithNoPipeline s)\<rparr>)"

definition on_payout :: "pubkey \<Rightarrow> bool \<Rightarrow> payout_data \<Rightarrow> router \<Rightarrow> router" where
  "on_payout p isOpen d s =
     (if \<not> isOpen then close_payout p s
      else case payout_object p d s of
             (newlyCreated, s1) \<Rightarrow>
               let s2 = payout_pipeline p d (payout_receipts p (payout_bids p s1))
               in if newlyCreated then say [Announce p] s2 else s2)"

definition on_bid :: "bid_list \<Rightarrow> router \<Rightarrow> router" where
  "on_bid b s =
     (if pay_byId s (fst b) = None
      then s\<lparr>bidListWithNoPayout := (bidListWithNoPayout s)(fst b \<mapsto> b)\<rparr>
      else say [PayoutBidList (fst b) b] s)"

definition add_bid :: "bid_list \<Rightarrow> router \<Rightarrow> err + router" where
  "add_bid b s =
     (if pay_byId s (fst b) = None then Inl ''no pipeline'' else Inr (say [PayoutBidList (fst b) b] s))"

section \<open>Pipelines\<close>

definition pipeline_period :: "pubkey \<Rightarrow> router \<Rightarrow> router" where
  "pipeline_period l s =
     (case periodRingWithNoPipeline s l of
        None \<Rightarrow> s
      | Some y \<Rightarrow> say [PipelinePeriod l y] (s\<lparr>periodRingWithNoPipeline := (periodRingWithNoPipeline s)(l := None)\<rparr>))"

text \<open>The waiting payouts are taken out one by one; the empty map stays.\<close>

definition pipeline_payouts :: "pubkey \<Rightarrow> router \<Rightarrow> router" where
  "pipeline_payouts l s =
     (case payoutWithNoPipeline s l of
        None \<Rightarrow> s
      | Some y \<Rightarrow> say (map (PipelinePayout l) y) (s\<lparr>payoutWithNoPipeline := (payoutWithNoPipeline s)(l \<mapsto> [])\<rparr>))"

definition on_pipeline :: "(pubkey \<Rightarrow> err option) \<Rightarrow> pubkey \<Rightarrow> bool \<Rightarrow> router \<Rightarrow> err option \<times> router" where
  "on_pipeline create l isOpen s =
     (if \<not> isOpen then
        (None, if l \<in> pip_byId s then say [PipelineClose l] (s\<lparr>pip_byId := pip_byId s - {l}\<rparr>) else s)
      else if l \<notin> pip_byId s then
        (case create l of
           Some e \<Rightarrow> (Some e, s)
         | None \<Rightarrow>
             (None, say [Announce l] (pipeline_payouts l (pipeline_period l (s\<lparr>pip_byId := insert l (pip_byId s)\<rparr>)))))
      else (None, pipeline_payouts l (pipeline_period l s)))"

definition on_period :: "period_ring \<Rightarrow> router \<Rightarrow> router" where
  "on_period ring s =
     (if fst ring \<notin> pip_byId s
      then s\<lparr>periodRingWithNoPipeline := (periodRingWithNoPipeline s)(fst ring \<mapsto> ring)\<rparr>
      else say [PipelinePeriod (fst ring) ring] s)"

definition add_period :: "period_ring \<Rightarrow> router \<Rightarrow> err + router" where
  "add_period ring s =
     (if fst ring \<notin> pip_byId s then Inl ''no pipeline'' else Inr (say [PipelinePeriod (fst ring) ring] s))"

definition on_refund :: "pubkey \<Rightarrow> router \<Rightarrow> err option \<times> router" where
  "on_refund r s = (None, s)"

section \<open>Receipts\<close>

definition receipt_stakers :: "pubkey \<Rightarrow> router \<Rightarrow> router" where
  "receipt_stakers r s =
     (case stakerWithNoReceipt s r of
        None \<Rightarrow> s
      | Some x \<Rightarrow>
          say (map (\<lambda>(_, obj, mgr). ReceiptStaker r obj mgr) x)
            (s\<lparr>stakerWithNoReceipt := (stakerWithNoReceipt s)(r := None)\<rparr>))"

definition receipt_payout :: "pubkey \<Rightarrow> receipt_data \<Rightarrow> router \<Rightarrow> router" where
  "receipt_payout r d s =
     (if pay_byId s (rd_payout d) \<noteq> None then say [PayoutReceipt (rd_payout d) r] s
      else s\<lparr>receiptWithNoPayout := add_waiting (rd_payout d) r (receiptWithNoPayout s)\<rparr>)"

definition receipt_validator :: "pubkey \<Rightarrow> receipt_data \<Rightarrow> router \<Rightarrow> router" where
  "receipt_validator r d s =
     (if val_byId s (rd_validator d) \<noteq> None then say [ValidatorReceipt (rd_validator d) r] s
      else s\<lparr>receiptWithNoValidator := add_waiting (rd_validator d) r (receiptWithNoValidator s)\<rparr>)"

definition on_receipt :: "pubkey \<Rightarrow> bool \<Rightarrow> receipt_data \<Rightarrow> router \<Rightarrow> router" where
  "on_receipt r isOpen d s =
     (if \<not> isOpen then
        (if rct_byId s r \<noteq> None then say [ReceiptClose r] (s\<lparr>rct_byId := (rct_byId s)(r := None)\<rparr>) else s)
      else case rct_byId s r of
             Some ref \<Rightarrow>
               receipt_stakers r
                 (say [ReceiptUpdate r d] (s\<lparr>rct_byId := (rct_byId s)(r \<mapsto> ref\<lparr>rr_current := d\<rparr>)\<rparr>))
           | None \<Rightarrow>
               receipt_validator r d (receipt_payout r d (say [Announce r]
                 (receipt_stakers r (s\<lparr>rct_byId := (rct_byId s)(r \<mapsto> \<lparr>rr_data = d, rr_current = d\<rparr>)\<rparr>)))))"

section \<open>Stakers\<close>

text \<open>
  The receipt of the staker. When the receipt account is not known the source uses the id of the
  variable r, which is then the zero value, as the key.
\<close>

definition on_stake_receipt_extra :: "staker_receipt \<Rightarrow> pubkey \<Rightarrow> router \<Rightarrow> router" where
  "on_stake_receipt_extra obj k s =
     (case stk_byId s k of
        None \<Rightarrow> s
      | Some d \<Rightarrow>
          (if rct_byId s (sr_receipt obj) \<noteq> None then say [ReceiptStaker (sr_receipt obj) obj d] s
           else s\<lparr>stakerWithNoReceipt := (stakerWithNoReceipt s)
                    (Zero \<mapsto> AList.update k (obj, d) (waiting (stakerWithNoReceipt s) Zero))\<rparr>))"

fun stake_receipts :: "pubkey \<Rightarrow> staker_receipt list \<Rightarrow> router \<Rightarrow> router" where
  "stake_receipts k [] s = s"
| "stake_receipts k (sr # srs) s = stake_receipts k srs (on_stake_receipt_extra sr k (say [StakerReceipt k sr] s))"

definition on_stake :: "pubkey \<Rightarrow> bool \<Rightarrow> stake_data \<Rightarrow> router \<Rightarrow> router" where
  "on_stake k isOpen d s =
     (if \<not> isOpen then
        (if stk_byId s k \<noteq> None
         then say [StakerClose k] (s\<lparr>stk_byId := (stk_byId s)(k := None),
                                    stakeReceiptWithNoStake := (stakeReceiptWithNoStake s)(k := None)\<rparr>)
         else s)
      else if stk_byId s k \<noteq> None then say [StakerUpdate k d] (s\<lparr>stk_byId := (stk_byId s)(k \<mapsto> d)\<rparr>)
      else
        let s1 = s\<lparr>stk_byId := (stk_byId s)(k \<mapsto> d), stk_byStake := (stk_byStake s)(sd_stake d \<mapsto> k)\<rparr>;
            s2 = (case stakeReceiptWithNoStake s1 k of
                    None \<Rightarrow> s1
                  | Some x \<Rightarrow> (stake_receipts k (map snd x) s1)
                                \<lparr>stakeReceiptWithNoStake := (stakeReceiptWithNoStake s1)(k := None)\<rparr>)
        in say [Announce k] s2)"

definition on_stake_receipt :: "staker_receipt \<Rightarrow> router \<Rightarrow> router" where
  "on_stake_receipt obj s =
     (if stk_byId s (sr_manager obj) \<noteq> None
      then on_stake_receipt_extra obj (sr_manager obj) (say [StakerReceipt (sr_manager obj) obj] s)
      else s\<lparr>stakeReceiptWithNoStake := (stakeReceiptWithNoStake s)
               (sr_manager obj \<mapsto> AList.update (sr_receipt obj) obj
                  (waiting (stakeReceiptWithNoStake s) (sr_manager obj)))\<rparr>)"

section \<open>Validators\<close>

definition validator_receipts :: "pubkey \<Rightarrow> router \<Rightarrow> router" where
  "validator_receipts v s =
     (case receiptWithNoValidator s v of
        None \<Rightarrow> s
      | Some x \<Rightarrow>
          say (map (ValidatorReceipt v) x) (s\<lparr>receiptWithNoValidator := (receiptWithNoValidator s)(v := None)\<rparr>))"

text \<open>From a period of the validator's ring over its receipt and payout to the pipeline.\<close>

definition validator_period :: "router \<Rightarrow> pubkey \<Rightarrow> selected_period \<Rightarrow> sent_call list" where
  "validator_period s v sp =
     (if HasValidatorWithdrawn sp then []
      else case rct_byId s (sp_receipt sp) of
             None \<Rightarrow> []
           | Some rr \<Rightarrow>
               (case pay_byId s (rd_payout (rr_current rr)) of
                  None \<Rightarrow> []
                | Some rp \<Rightarrow>
                    (let d = rp_current rp in
                     if pd_pipeline d \<in> pip_byId s
                     then [PipelineValidator (pd_pipeline d) v (pd_start d) (pd_start d + pd_length d)] else [])))"

definition lookup_add_validator :: "pubkey \<Rightarrow> validator_data \<Rightarrow> router \<Rightarrow> router" where
  "lookup_add_validator v d s =
     s\<lparr>val_byId := (val_byId s)(v \<mapsto> d), val_byVote := (val_byVote s)(vd_vote d \<mapsto> v)\<rparr>"

definition on_validator :: "pubkey \<Rightarrow> bool \<Rightarrow> validator_data \<Rightarrow> router \<Rightarrow> router" where
  "on_validator v isOpen d s =
     (if \<not> isOpen then
        (if val_byId s v \<noteq> None then say [ValidatorClose v] (s\<lparr>val_byId := (val_byId s)(v := None)\<rparr>) else s)
      else
        let s1 = (if val_byId s v = None then lookup_add_validator v d s else s);
            s2 = validator_receipts v s1;
            s3 = say (concat (map (validator_period s2 v) (vd_ring d))) s2
        in if val_byId s v = None then say [Announce v] s3 else s3)"

section \<open>Deleted accounts\<close>

definition pipelineClose :: "pubkey \<Rightarrow> router \<Rightarrow> router" where
  "pipelineClose l s =
     (if l \<in> pip_byId s then say [PipelineClose l] s else s)\<lparr>pip_byId := pip_byId s - {l}\<rparr>"

definition payoutClose :: "pubkey \<Rightarrow> router \<Rightarrow> router" where
  "payoutClose p s =
     (let s1 = (case pay_byId s p of
                  None \<Rightarrow> s
                | Some ref \<Rightarrow>
                    (let l = pd_pipeline (rp_data ref);
                         s0 = say [PayoutClose p] (s\<lparr>pay_byId := (pay_byId s)(p := None)\<rparr>)
                     in case pay_byPipeline s l of
                          None \<Rightarrow> s0
                        | Some x \<Rightarrow> s0\<lparr>pay_byPipeline := (pay_byPipeline s)(l \<mapsto> x(pd_start (rp_data ref) := None))\<rparr>))
      in s1\<lparr>receiptWithNoPayout := (receiptWithNoPayout s1)(p := None),
            payoutWithNoPipeline := (payoutWithNoPipeline s1)(p := None)\<rparr>)"

definition receiptClose :: "pubkey \<Rightarrow> router \<Rightarrow> router" where
  "receiptClose r s =
     (if rct_byId s r \<noteq> None then say [ReceiptClose r] s else s)
       \<lparr>rct_byId := (rct_byId s)(r := None), stakerWithNoReceipt := (stakerWithNoReceipt s)(r := None)\<rparr>"

definition stakerClose :: "pubkey \<Rightarrow> router \<Rightarrow> router" where
  "stakerClose k s = s\<lparr>stk_byId := (stk_byId s)(k := None)\<rparr>"

definition validatorClose :: "pubkey \<Rightarrow> router \<Rightarrow> router" where
  "validatorClose v s =
     (case val_byId s v of
        None \<Rightarrow> s
      | Some d \<Rightarrow>
          say [ValidatorClose v] (s\<lparr>val_byId := (val_byId s)(v := None), val_byVote := (val_byVote s)(vd_vote d := None)\<rparr>))"

section \<open>The main loop\<close>

datatype router_msg =
    MValidator pubkey bool validator_data | MPipeline pubkey bool | MRefund pubkey | MBid bid_list
  | MPeriod period_ring | MPayout pubkey bool payout_data | MReceipt pubkey bool receipt_data
  | MStake pubkey bool stake_data | MStakeReceipt staker_receipt
  | PipelineDeleted pubkey | PayoutDeleted pubkey | ReceiptDeleted pubkey | StakerDeleted pubkey
  | ValidatorDeleted pubkey

text \<open>The loop ignores the errors of the handlers.\<close>

fun handle :: "(pubkey \<Rightarrow> err option) \<Rightarrow> router_msg \<Rightarrow> router \<Rightarrow> router" where
  "handle create (MValidator v b d) s = on_validator v b d s"
| "handle create (MPipeline l b) s = snd (on_pipeline create l b s)"
| "handle create (MRefund r) s = snd (on_refund r s)"
| "handle create (MBid b) s = on_bid b s"
| "handle create (MPeriod r) s = on_period r s"
| "handle create (MPayout p b d) s = on_payout p b d s"
| "handle create (MReceipt r b d) s = on_receipt r b d s"
| "handle create (MStake k b d) s = on_stake k b d s"
| "handle create (MStakeReceipt obj) s = on_stake_receipt obj s"
| "handle create (PipelineDeleted l) s = pipelineClose l s"
| "handle create (PayoutDeleted p) s = payoutClose p s"
| "handle create (ReceiptDeleted r) s = receiptClose r s"
| "handle create (StakerDeleted k) s = stakerClose k s"
| "handle create (ValidatorDeleted v) s = validatorClose v s"

definition loopInternal :: "(pubkey \<Rightarrow> err option) \<Rightarrow> router_msg list \<Rightarrow> router \<Rightarrow> router" where
  "loopInternal create ms s = fold (handle create) ms s"

section \<open>Queries\<close>

definition PayoutByPipelineIdAndStart :: "pubkey \<Rightarrow> uint64 \<Rightarrow> router \<Rightarrow> err + pubkey" where
  "PayoutByPipelineIdAndStart l start s =
     (case pay_byPipeline s l of
        None \<Rightarrow> Inl ''no pipeline''
      | Some x \<Rightarrow> (case x start of None \<Rightarrow> Inl ''no corresponding period'' | Some p \<Rightarrow> Inr p))"

definition PayoutById :: "pubkey \<Rightarrow> router \<Rightarrow> err + (pubkey \<times> payout_data)" where
  "PayoutById p s = (case pay_byId s p of None \<Rightarrow> Inl ''no pipeline'' | Some ref \<Rightarrow> Inr (p, rp_data ref))"

definition PipelineById :: "pubkey \<Rightarrow> router \<Rightarrow> err + pubkey" where
  "PipelineById l s = (if l \<in> pip_byId s then Inr l else Inl ''no such pipeline'')"

definition ValidatorById :: "pubkey \<Rightarrow> router \<Rightarrow> err + pubkey" where
  "ValidatorById v s = (if val_byId s v \<noteq> None then Inr v else Inl ''no such pipeline'')"

definition ValidatorByVote :: "pubkey \<Rightarrow> router \<Rightarrow> err + pubkey" where
  "ValidatorByVote vote s = (case val_byVote s vote of Some v \<Rightarrow> Inr v | None \<Rightarrow> Inl ''no such pipeline'')"

definition StakerByStake :: "pubkey \<Rightarrow> router \<Rightarrow> err + pubkey" where
  "StakerByStake k s = (case stk_byStake s k of Some x \<Rightarrow> Inr x | None \<Rightarrow> Inl ''no staker'')"

definition ReceiptById :: "pubkey \<Rightarrow> router \<Rightarrow> err + pubkey" where
  "ReceiptById r s = (if rct_byId s r \<noteq> None then Inr r else Inl ''no receipt'')"

text \<open>
  AllPipeline and AllValidator: the request, run by the router, sends a count and then the objects on
  a channel with ten places; the caller reads the count and then that many objects. AllValidator sends
  the number of pipelines. A transition is a send of the router or a read of the caller.
\<close>

record collect =
  to_send :: "pubkey list"
  ansC :: "pubkey chan"
  to_read :: nat
  answer :: "pubkey list"

definition AllPipeline :: "pubkey list \<Rightarrow> collect" where
  "AllPipeline pipelines =
     \<lparr>to_send = pipelines, ansC = make_chan 10, to_read = length pipelines, answer = []\<rparr>"

definition AllValidator :: "pubkey list \<Rightarrow> pubkey list \<Rightarrow> collect" where
  "AllValidator pipelines validators =
     \<lparr>to_send = validators, ansC = make_chan 10, to_read = length pipelines, answer = []\<rparr>"

datatype collect_label = RouterSends | CallerReads

fun collect_step :: "collect_label \<Rightarrow> collect \<Rightarrow> collect option" where
  "collect_step RouterSends c =
     (case to_send c of
        [] \<Rightarrow> None
      | x # xs \<Rightarrow> map_option (\<lambda>ch. c\<lparr>to_send := xs, ansC := ch\<rparr>) (chan_send x (ansC c)))"
| "collect_step CallerReads c =
     (case to_read c of
        0 \<Rightarrow> None
      | Suc n \<Rightarrow> map_option (\<lambda>(x, ch). c\<lparr>to_read := n, ansC := ch, answer := answer c @ [x]\<rparr>) (chan_recv (ansC c)))"

section \<open>Matching\<close>

text \<open>
  Every thing that names a key is with the object of the key, if that is there, and waits for it
  otherwise.
\<close>

definition matched :: "('x \<rightharpoonup> pubkey) \<Rightarrow> (pubkey \<Rightarrow> bool) \<Rightarrow> (pubkey \<rightharpoonup> 'x list) \<Rightarrow> (pubkey \<Rightarrow> 'x \<Rightarrow> bool) \<Rightarrow> bool" where
  "matched names here wait told \<longleftrightarrow>
     (\<forall>x k. names x = Some k \<longrightarrow> (if here k then told k x else x \<in> set (waiting wait k)))"

text \<open>The three matchings of the router.\<close>

definition names_pipeline :: "router \<Rightarrow> pubkey \<rightharpoonup> pubkey" where
  "names_pipeline s p = map_option (\<lambda>ref. pd_pipeline (rp_current ref)) (pay_byId s p)"

definition names_payout :: "router \<Rightarrow> pubkey \<rightharpoonup> pubkey" where
  "names_payout s r = map_option (\<lambda>ref. rd_payout (rr_data ref)) (rct_byId s r)"

definition names_validator :: "router \<Rightarrow> pubkey \<rightharpoonup> pubkey" where
  "names_validator s r = map_option (\<lambda>ref. rd_validator (rr_data ref)) (rct_byId s r)"

definition payouts_matched :: "router \<Rightarrow> bool" where
  "payouts_matched s = matched (names_pipeline s) (\<lambda>l. l \<in> pip_byId s) (payoutWithNoPipeline s)
     (\<lambda>l p. PipelinePayout l p \<in> set (sent s))"

definition receipts_matched_payout :: "router \<Rightarrow> bool" where
  "receipts_matched_payout s = matched (names_payout s) (\<lambda>p. pay_byId s p \<noteq> None) (receiptWithNoPayout s)
     (\<lambda>p r. PayoutReceipt p r \<in> set (sent s))"

definition receipts_matched_validator :: "router \<Rightarrow> bool" where
  "receipts_matched_validator s = matched (names_validator s) (\<lambda>v. val_byId s v \<noteq> None) (receiptWithNoValidator s)
     (\<lambda>v r. ValidatorReceipt v r \<in> set (sent s))"

lemma waiting_simps [simp]:
  "waiting (m(k \<mapsto> xs)) j = (if j = k then xs else waiting m j)"
  "waiting (m(k := None)) j = (if j = k then [] else waiting m j)"
  by (simp_all add: waiting_def)

lemma set_add_waiting [simp]:
  "set (waiting (add_waiting k x m) j) = (if j = k then insert x (set (waiting m j)) else set (waiting m j))"
  by (simp add: add_waiting_def)

text \<open>The ways a matching changes: more is told or waits, a thing comes, an object comes.\<close>

lemma matched_mono:
  assumes "matched names here wait told" "names' = names" "here' = here"
    "\<And>k x. told k x \<Longrightarrow> told' k x" "\<And>k x. x \<in> set (waiting wait k) \<Longrightarrow> x \<in> set (waiting wait' k)"
  shows "matched names' here' wait' told'"
  using assms by (auto simp: matched_def)

lemma matched_thing:
  assumes "matched names here wait told" "names' = names(x \<mapsto> k)" "here' = here"
    "\<And>j y. told j y \<Longrightarrow> told' j y" "\<And>j y. y \<in> set (waiting wait j) \<Longrightarrow> y \<in> set (waiting wait' j)"
    "here k \<Longrightarrow> told' k x" "\<not> here k \<Longrightarrow> x \<in> set (waiting wait' k)"
  shows "matched names' here' wait' told'"
  using assms by (auto simp: matched_def)

lemma matched_object:
  assumes "matched names here wait told" "names' = names" "here' = here(k := True)"
    "\<And>j y. told j y \<Longrightarrow> told' j y" "\<And>y. \<not> here k \<Longrightarrow> y \<in> set (waiting wait k) \<Longrightarrow> told' k y"
    "\<And>j y. j \<noteq> k \<Longrightarrow> y \<in> set (waiting wait j) \<Longrightarrow> y \<in> set (waiting wait' j)"
  shows "matched names' here' wait' told'"
  unfolding matched_def
proof (intro allI impI)
  fix x j assume x: "names' x = Some j"
  then have m: "if here j then told j x else x \<in> set (waiting wait j)" using assms(1,2) by (simp add: matched_def)
  show "if here' j then told' j x else x \<in> set (waiting wait' j)"
  proof (cases "j = k")
    case True
    then show ?thesis using m assms(3-5) by (cases "here k") auto
  next
    case False
    then show ?thesis using m assms(3,4,6) by (cases "here j") auto
  qed
qed

lemmas matched_defs = payouts_matched_def receipts_matched_payout_def receipts_matched_validator_def

lemma say_fields [simp]:
  "sent (say cs s) = sent s @ cs" "pay_byId (say cs s) = pay_byId s" "rct_byId (say cs s) = rct_byId s"
  "val_byId (say cs s) = val_byId s" "pip_byId (say cs s) = pip_byId s"
  "payoutWithNoPipeline (say cs s) = payoutWithNoPipeline s" "receiptWithNoPayout (say cs s) = receiptWithNoPayout s"
  "receiptWithNoValidator (say cs s) = receiptWithNoValidator s" "stk_byId (say cs s) = stk_byId s"
  "stakerWithNoReceipt (say cs s) = stakerWithNoReceipt s" "bidListWithNoPayout (say cs s) = bidListWithNoPayout s"
  "stakeReceiptWithNoStake (say cs s) = stakeReceiptWithNoStake s"
  by (simp_all add: say_def)

subsection \<open>Payouts and their pipelines\<close>

text \<open>Steps that touch neither side of a matching and forget nothing.\<close>

definition same_side :: "router \<Rightarrow> router \<Rightarrow> bool" where
  "same_side s s' \<longleftrightarrow> pay_byId s' = pay_byId s \<and> pip_byId s' = pip_byId s \<and> rct_byId s' = rct_byId s
     \<and> val_byId s' = val_byId s \<and> payoutWithNoPipeline s' = payoutWithNoPipeline s
     \<and> receiptWithNoPayout s' = receiptWithNoPayout s \<and> receiptWithNoValidator s' = receiptWithNoValidator s
     \<and> set (sent s) \<subseteq> set (sent s')"

lemma same_side_trans: "same_side s s' \<Longrightarrow> same_side s' s'' \<Longrightarrow> same_side s s''"
  by (auto simp: same_side_def)

lemma same_side_matched:
  assumes "same_side s s'"
  shows "payouts_matched s \<Longrightarrow> payouts_matched s'" "receipts_matched_payout s \<Longrightarrow> receipts_matched_payout s'"
    "receipts_matched_validator s \<Longrightarrow> receipts_matched_validator s'"
  unfolding matched_defs using assms
  by (auto elim!: matched_mono simp: same_side_def names_pipeline_def [abs_def] names_payout_def [abs_def]
      names_validator_def [abs_def])

lemma same_side_simple:
  "same_side s (say cs s)" "same_side s (payout_bids p s)" "same_side s (on_bid b s)" "same_side s (on_period ring s)"
  "same_side s (pipeline_period l s)" "same_side s (receipt_stakers r s)" "same_side s (on_stake_receipt_extra obj k s)"
  by (auto simp: same_side_def payout_bids_def on_bid_def on_period_def pipeline_period_def receipt_stakers_def
      on_stake_receipt_extra_def split: option.split)

lemma same_side_stake_receipts: "same_side s (stake_receipts k srs s)"
proof (induction srs arbitrary: s)
  case (Cons sr srs)
  show ?case
    using same_side_trans [OF same_side_simple(1) same_side_trans [OF same_side_simple(7) Cons]] by simp
qed (simp add: same_side_def)

lemma same_side_stakes:
  "same_side s (on_stake k b d s)" "same_side s (on_stake_receipt obj s)"
proof -
  let ?s1 = "s\<lparr>stk_byId := (stk_byId s)(k \<mapsto> d), stk_byStake := (stk_byStake s)(sd_stake d \<mapsto> k)\<rparr>"
  have "same_side ?s1 (stake_receipts k (map snd x) ?s1)" for x by (rule same_side_stake_receipts)
  then show "same_side s (on_stake k b d s)"
    by (auto simp: on_stake_def Let_def same_side_def split: option.split)
  show "same_side s (on_stake_receipt obj s)"
    using same_side_trans [OF same_side_simple(1) same_side_simple(7)]
    by (auto simp: on_stake_receipt_def) (simp add: same_side_def)
qed

lemma names_simps:
  "names_pipeline (say cs s) = names_pipeline s" "names_payout (say cs s) = names_payout s"
  "names_validator (say cs s) = names_validator s"
  by (simp_all add: names_pipeline_def [abs_def] names_payout_def [abs_def] names_validator_def [abs_def])

lemma payout_object_fields:
  assumes "payout_object p d s = (b, s1)"
  shows "names_pipeline s1 = (names_pipeline s)(p \<mapsto> pd_pipeline d)" "pip_byId s1 = pip_byId s"
    "rct_byId s1 = rct_byId s" "val_byId s1 = val_byId s" "(\<lambda>k. pay_byId s1 k \<noteq> None) = (\<lambda>k. pay_byId s k \<noteq> None)(p := True)"
    "payoutWithNoPipeline s1 = payoutWithNoPipeline s" "receiptWithNoPayout s1 = receiptWithNoPayout s"
    "receiptWithNoValidator s1 = receiptWithNoValidator s" "set (sent s) \<subseteq> set (sent s1)"
  using assms
  by (auto simp: payout_object_def lookup_add_payout_def Let_def names_pipeline_def fun_eq_iff split: option.splits if_splits)

lemma payout_pipeline_fields:
  "names_payout (payout_pipeline p d s) = names_payout s" "names_validator (payout_pipeline p d s) = names_validator s"
  "names_pipeline (payout_pipeline p d s) = names_pipeline s"
  "pay_byId (payout_pipeline p d s) = pay_byId s" "val_byId (payout_pipeline p d s) = val_byId s"
  "pip_byId (payout_pipeline p d s) = pip_byId s" "receiptWithNoPayout (payout_pipeline p d s) = receiptWithNoPayout s"
  "receiptWithNoValidator (payout_pipeline p d s) = receiptWithNoValidator s"
  by (simp_all add: payout_pipeline_def names_payout_def [abs_def] names_validator_def [abs_def] names_pipeline_def [abs_def])

lemma payout_receipts_fields:
  "names_payout (payout_receipts p s) = names_payout s" "names_validator (payout_receipts p s) = names_validator s"
  "names_pipeline (payout_receipts p s) = names_pipeline s"
  "pay_byId (payout_receipts p s) = pay_byId s" "val_byId (payout_receipts p s) = val_byId s"
  "pip_byId (payout_receipts p s) = pip_byId s" "receiptWithNoPayout (payout_receipts p s) = receiptWithNoPayout s"
  "payoutWithNoPipeline (payout_receipts p s) = payoutWithNoPipeline s"
  by (simp_all add: payout_receipts_def names_payout_def [abs_def] names_validator_def [abs_def]
      names_pipeline_def [abs_def] split: option.split)

lemma payout_bids_fields:
  "names_payout (payout_bids p s) = names_payout s" "names_validator (payout_bids p s) = names_validator s"
  "names_pipeline (payout_bids p s) = names_pipeline s"
  "pay_byId (payout_bids p s) = pay_byId s" "val_byId (payout_bids p s) = val_byId s"
  "pip_byId (payout_bids p s) = pip_byId s" "receiptWithNoPayout (payout_bids p s) = receiptWithNoPayout s"
  "receiptWithNoValidator (payout_bids p s) = receiptWithNoValidator s"
  "payoutWithNoPipeline (payout_bids p s) = payoutWithNoPipeline s"
  by (simp_all add: payout_bids_def names_payout_def [abs_def] names_validator_def [abs_def]
      names_pipeline_def [abs_def] split: option.split)

lemma payout_sent:
  "set (sent (payout_bids p s)) \<supseteq> set (sent s)"
  "set (sent (payout_receipts p s)) = set (sent s) \<union> PayoutReceipt p ` set (waiting (receiptWithNoPayout s) p)"
  "set (sent (payout_pipeline p d s)) \<supseteq> set (sent s)"
  "pd_pipeline d \<in> pip_byId s \<Longrightarrow> PipelinePayout (pd_pipeline d) p \<in> set (sent (payout_pipeline p d s))"
  by (auto simp: payout_bids_def payout_receipts_def payout_pipeline_def waiting_def split: option.split)

lemma payout_wait:
  "set (waiting (payoutWithNoPipeline (payout_pipeline p d s)) k) \<supseteq> set (waiting (payoutWithNoPipeline s) k)"
  "pd_pipeline d \<notin> pip_byId s \<Longrightarrow> p \<in> set (waiting (payoutWithNoPipeline (payout_pipeline p d s)) (pd_pipeline d))"
  "k \<noteq> p \<Longrightarrow> waiting (receiptWithNoValidator (payout_receipts p s)) k = waiting (receiptWithNoValidator s) k"
  by (auto simp: payout_pipeline_def payout_receipts_def split: option.split)

lemmas payout_fields = payout_bids_fields payout_receipts_fields payout_pipeline_fields names_simps

text \<open>An open payout keeps all three matchings, if it does not share its id with a validator that is named.\<close>

lemma on_payout_matched:
  assumes "payouts_matched s" "receipts_matched_payout s" "receipts_matched_validator s"
    "\<And>r. names_validator s r \<noteq> Some p"
  shows "payouts_matched (on_payout p True d s)" "receipts_matched_payout (on_payout p True d s)"
    "receipts_matched_validator (on_payout p True d s)"
proof -
  obtain b s1 where o: "payout_object p d s = (b, s1)" by (cases "payout_object p d s")
  note f = payout_object_fields [OF o]
  let ?s2 = "payout_receipts p (payout_bids p s1)" and ?s3 = "payout_pipeline p d (payout_receipts p (payout_bids p s1))"
  have fin: "on_payout p True d s = (if b then say [Announce p] ?s3 else ?s3)"
    by (simp add: on_payout_def o Let_def)
  have same: "same_side ?s3 (on_payout p True d s)" unfolding fin by (auto simp: same_side_def)
  have sub: "set (sent s) \<subseteq> set (sent ?s3)"
    using f(9) payout_sent(1) [of s1 p] payout_sent(2) [of p "payout_bids p s1"] payout_sent(3) [of ?s2 p d] by blast
  have names: "names_payout s1 = names_payout s" "names_validator s1 = names_validator s"
    using f(3) by (auto simp: names_payout_def names_validator_def fun_eq_iff)
  have kept: "y \<in> set (waiting (payoutWithNoPipeline s) j) \<Longrightarrow> y \<in> set (waiting (payoutWithNoPipeline ?s3) j)" for j y
    using payout_wait(1) [of ?s2 j p d] f(6) by (auto simp: payout_fields)
  have new: "if pd_pipeline d \<in> pip_byId s then PipelinePayout (pd_pipeline d) p \<in> set (sent ?s3)
      else p \<in> set (waiting (payoutWithNoPipeline ?s3) (pd_pipeline d))"
    using payout_sent(4) [of d ?s2 p] payout_wait(2) [of d ?s2 p] f(2) by (simp add: payout_fields)
  have "payouts_matched ?s3"
    using assms(1) unfolding payouts_matched_def
    by (elim matched_thing [where x = p and k = "pd_pipeline d"])
      (use sub kept new f in \<open>auto simp: payout_fields split: if_splits\<close>)
  then show "payouts_matched (on_payout p True d s)" by (rule same_side_matched(1) [OF same])
  have told: "PayoutReceipt p r \<in> set (sent ?s3)" if "r \<in> set (waiting (receiptWithNoPayout s) p)" for r
    using that f(7) payout_sent(2) [of p "payout_bids p s1"] payout_sent(3) [of ?s2 p d]
    by (auto simp: payout_fields)
  have "receipts_matched_payout ?s3"
    using assms(2) unfolding receipts_matched_payout_def
    by (elim matched_object [where k = p]) (use sub told f names in \<open>auto simp: payout_fields\<close>)
  then show "receipts_matched_payout (on_payout p True d s)" by (rule same_side_matched(2) [OF same])
  have "receipts_matched_validator ?s3"
    unfolding receipts_matched_validator_def matched_def
  proof (intro allI impI)
    fix r v assume "names_validator ?s3 r = Some v"
    then have n: "names_validator s r = Some v" using names(2) by (simp add: payout_fields)
    then have "v \<noteq> p" using assms(4) by blast
    then have "waiting (receiptWithNoValidator ?s3) v = waiting (receiptWithNoValidator s) v"
      using f(8) payout_wait(3) [of v p "payout_bids p s1"] by (simp add: payout_fields)
    moreover have "if val_byId s v \<noteq> None then ValidatorReceipt v r \<in> set (sent s)
        else r \<in> set (waiting (receiptWithNoValidator s) v)"
      using n assms(3) unfolding receipts_matched_validator_def matched_def by blast
    moreover have "val_byId ?s3 v = val_byId s v" using f(4) by (simp add: payout_fields)
    ultimately show "if val_byId ?s3 v \<noteq> None then ValidatorReceipt v r \<in> set (sent ?s3)
        else r \<in> set (waiting (receiptWithNoValidator ?s3) v)"
      using sub by (auto split: if_splits)
  qed
  then show "receipts_matched_validator (on_payout p True d s)" by (rule same_side_matched(3) [OF same])
qed

lemma on_pipeline_matched:
  assumes "create l = None"
  shows "payouts_matched s \<Longrightarrow> payouts_matched (snd (on_pipeline create l True s))"
    "receipts_matched_payout s \<Longrightarrow> receipts_matched_payout (snd (on_pipeline create l True s))"
    "receipts_matched_validator s \<Longrightarrow> receipts_matched_validator (snd (on_pipeline create l True s))"
proof -
  let ?s' = "snd (on_pipeline create l True s)"
  have f: "pay_byId ?s' = pay_byId s" "rct_byId ?s' = rct_byId s" "val_byId ?s' = val_byId s"
    "receiptWithNoPayout ?s' = receiptWithNoPayout s" "receiptWithNoValidator ?s' = receiptWithNoValidator s"
    "pip_byId ?s' = insert l (pip_byId s)" "set (sent s) \<subseteq> set (sent ?s')"
    using assms
    by (auto simp: on_pipeline_def pipeline_payouts_def pipeline_period_def insert_absorb split: option.splits)
  have w: "k \<noteq> l \<Longrightarrow> waiting (payoutWithNoPipeline ?s') k = waiting (payoutWithNoPipeline s) k" for k
    using assms by (auto simp: on_pipeline_def pipeline_payouts_def pipeline_period_def split: option.splits)
  have told: "PipelinePayout l p \<in> set (sent ?s')" if "p \<in> set (waiting (payoutWithNoPipeline s) l)" for p
    using that assms
    by (auto simp: on_pipeline_def pipeline_payouts_def pipeline_period_def waiting_def split: option.splits)
  have names: "names_pipeline ?s' = names_pipeline s" "names_payout ?s' = names_payout s"
    "names_validator ?s' = names_validator s"
    using f(1,2) by (auto simp: names_pipeline_def names_payout_def names_validator_def fun_eq_iff)
  show "payouts_matched ?s'" if "payouts_matched s"
    using that unfolding payouts_matched_def
    by (elim matched_object [where k = l]) (use f w told names in \<open>auto simp: fun_eq_iff\<close>)
  show "receipts_matched_payout ?s'" if "receipts_matched_payout s"
    using that unfolding receipts_matched_payout_def by (elim matched_mono) (use f names in auto)
  show "receipts_matched_validator ?s'" if "receipts_matched_validator s"
    using that unfolding receipts_matched_validator_def by (elim matched_mono) (use f names in auto)
qed

lemma on_validator_matched:
  shows "payouts_matched s \<Longrightarrow> payouts_matched (on_validator v True d s)"
    "receipts_matched_payout s \<Longrightarrow> receipts_matched_payout (on_validator v True d s)"
    "receipts_matched_validator s \<Longrightarrow> receipts_matched_validator (on_validator v True d s)"
proof -
  let ?s' = "on_validator v True d s"
  have f: "pay_byId ?s' = pay_byId s" "rct_byId ?s' = rct_byId s" "pip_byId ?s' = pip_byId s"
    "(\<lambda>k. val_byId ?s' k \<noteq> None) = (\<lambda>k. val_byId s k \<noteq> None)(v := True)"
    "receiptWithNoPayout ?s' = receiptWithNoPayout s" "payoutWithNoPipeline ?s' = payoutWithNoPipeline s"
    "set (sent s) \<subseteq> set (sent ?s')"
    by (auto simp: on_validator_def lookup_add_validator_def validator_receipts_def Let_def fun_eq_iff
        split: option.splits if_splits)
  have w: "k \<noteq> v \<Longrightarrow> waiting (receiptWithNoValidator ?s') k = waiting (receiptWithNoValidator s) k" for k
    by (auto simp: on_validator_def lookup_add_validator_def validator_receipts_def Let_def split: option.splits)
  have told: "ValidatorReceipt v r \<in> set (sent ?s')" if "r \<in> set (waiting (receiptWithNoValidator s) v)" for r
    using that
    by (auto simp: on_validator_def lookup_add_validator_def validator_receipts_def Let_def waiting_def split: option.splits)
  have names: "names_pipeline ?s' = names_pipeline s" "names_payout ?s' = names_payout s"
    "names_validator ?s' = names_validator s"
    using f(1,2) by (auto simp: names_pipeline_def names_payout_def names_validator_def fun_eq_iff)
  show "payouts_matched ?s'" if "payouts_matched s"
    using that unfolding payouts_matched_def by (elim matched_mono) (use f names in auto)
  show "receipts_matched_payout ?s'" if "receipts_matched_payout s"
    using that unfolding receipts_matched_payout_def by (elim matched_mono) (use f names in auto)
  show "receipts_matched_validator ?s'" if "receipts_matched_validator s"
    using that unfolding receipts_matched_validator_def
    by (elim matched_object [where k = v]) (use f w told names in auto)
qed

lemma on_receipt_matched:
  shows "payouts_matched s \<Longrightarrow> payouts_matched (on_receipt r True d s)"
    "receipts_matched_payout s \<Longrightarrow> receipts_matched_payout (on_receipt r True d s)"
    "receipts_matched_validator s \<Longrightarrow> receipts_matched_validator (on_receipt r True d s)"
proof -
  let ?s' = "on_receipt r True d s"
  have f: "pay_byId ?s' = pay_byId s" "pip_byId ?s' = pip_byId s" "val_byId ?s' = val_byId s"
    "payoutWithNoPipeline ?s' = payoutWithNoPipeline s" "set (sent s) \<subseteq> set (sent ?s')"
    by (auto simp: on_receipt_def receipt_stakers_def receipt_payout_def receipt_validator_def split: option.splits)
  have w: "x \<in> set (waiting (receiptWithNoPayout s) k) \<Longrightarrow> x \<in> set (waiting (receiptWithNoPayout ?s') k)"
    "x \<in> set (waiting (receiptWithNoValidator s) k) \<Longrightarrow> x \<in> set (waiting (receiptWithNoValidator ?s') k)" for x k
    by (auto simp: on_receipt_def receipt_stakers_def receipt_payout_def receipt_validator_def split: option.splits)
  have pay: "names_pipeline ?s' = names_pipeline s" using f(1) by (simp add: names_pipeline_def [abs_def])
  show "payouts_matched ?s'" if "payouts_matched s"
    using that unfolding payouts_matched_def by (elim matched_mono) (use f pay in auto)
  show "receipts_matched_payout ?s'" if m: "receipts_matched_payout s"
  proof (cases "rct_byId s r")
    case None
    have n: "names_payout ?s' = (names_payout s)(r \<mapsto> rd_payout d)"
      using None by (auto simp: on_receipt_def receipt_stakers_def receipt_payout_def receipt_validator_def
          names_payout_def fun_eq_iff split: option.splits)
    have new: "if pay_byId s (rd_payout d) \<noteq> None then PayoutReceipt (rd_payout d) r \<in> set (sent ?s')
        else r \<in> set (waiting (receiptWithNoPayout ?s') (rd_payout d))"
      using None by (auto simp: on_receipt_def receipt_stakers_def receipt_payout_def receipt_validator_def split: option.splits)
    show ?thesis using m unfolding receipts_matched_payout_def
      by (elim matched_thing [where x = r and k = "rd_payout d"]) (use f w n new in \<open>auto split: if_splits\<close>)
  next
    case (Some ref)
    have n: "names_payout ?s' = names_payout s"
      using Some by (auto simp: on_receipt_def receipt_stakers_def names_payout_def fun_eq_iff split: option.splits)
    show ?thesis using m unfolding receipts_matched_payout_def by (elim matched_mono) (use f w n in auto)
  qed
  show "receipts_matched_validator ?s'" if m: "receipts_matched_validator s"
  proof (cases "rct_byId s r")
    case None
    have n: "names_validator ?s' = (names_validator s)(r \<mapsto> rd_validator d)"
      using None by (auto simp: on_receipt_def receipt_stakers_def receipt_payout_def receipt_validator_def
          names_validator_def fun_eq_iff split: option.splits)
    have new: "if val_byId s (rd_validator d) \<noteq> None then ValidatorReceipt (rd_validator d) r \<in> set (sent ?s')
        else r \<in> set (waiting (receiptWithNoValidator ?s') (rd_validator d))"
      using None by (auto simp: on_receipt_def receipt_stakers_def receipt_payout_def receipt_validator_def split: option.splits)
    show ?thesis using m unfolding receipts_matched_validator_def
      by (elim matched_thing [where x = r and k = "rd_validator d"]) (use f w n new in \<open>auto split: if_splits\<close>)
  next
    case (Some ref)
    have n: "names_validator ?s' = names_validator s"
      using Some by (auto simp: on_receipt_def receipt_stakers_def names_validator_def fun_eq_iff split: option.splits)
    show ?thesis using m unfolding receipts_matched_validator_def by (elim matched_mono) (use f w n in auto)
  qed
qed

text \<open>A receipt that closes names nothing any more.\<close>

lemma matched_less:
  assumes "matched names here wait told" "names' \<subseteq>\<^sub>m names" "\<And>k x. told k x \<Longrightarrow> told' k x"
  shows "matched names' here wait told'"
  using assms by (fastforce simp: matched_def map_le_def dom_def)

lemma receipt_closed_matched:
  fixes s s' :: router
  assumes "s' = on_receipt r False d s \<or> s' = receiptClose r s"
  shows "payouts_matched s \<Longrightarrow> payouts_matched s'" "receipts_matched_payout s \<Longrightarrow> receipts_matched_payout s'"
    "receipts_matched_validator s \<Longrightarrow> receipts_matched_validator s'"
proof -
  have f: "pay_byId s' = pay_byId s" "pip_byId s' = pip_byId s" "val_byId s' = val_byId s"
    "payoutWithNoPipeline s' = payoutWithNoPipeline s" "receiptWithNoPayout s' = receiptWithNoPayout s"
    "receiptWithNoValidator s' = receiptWithNoValidator s" "set (sent s) \<subseteq> set (sent s')"
    "rct_byId s' = (rct_byId s)(r := None)"
    using assms by (auto simp: on_receipt_def receiptClose_def split: if_splits)
  have n: "names_pipeline s' = names_pipeline s" "names_payout s' \<subseteq>\<^sub>m names_payout s"
    "names_validator s' \<subseteq>\<^sub>m names_validator s"
    using f(1,8) by (auto simp: names_pipeline_def names_payout_def names_validator_def map_le_def fun_eq_iff)
  show "payouts_matched s \<Longrightarrow> payouts_matched s'" "receipts_matched_payout s \<Longrightarrow> receipts_matched_payout s'"
    "receipts_matched_validator s \<Longrightarrow> receipts_matched_validator s'"
    unfolding matched_defs f using n f(7) by (auto elim!: matched_less)
qed

text \<open>Messages that do not close a payout, a pipeline or a validator.\<close>

fun keeps_objects :: "router_msg \<Rightarrow> bool" where
  "keeps_objects (MValidator v b d) = b"
| "keeps_objects (MPipeline l b) = b"
| "keeps_objects (MPayout p b d) = b"
| "keeps_objects (PipelineDeleted l) = False"
| "keeps_objects (PayoutDeleted p) = False"
| "keeps_objects (ValidatorDeleted v) = False"
| "keeps_objects _ = True"

definition all_matched :: "router \<Rightarrow> bool" where
  "all_matched s \<longleftrightarrow> payouts_matched s \<and> receipts_matched_payout s \<and> receipts_matched_validator s"

lemma handle_matched:
  assumes "all_matched s" "keeps_objects m" "\<And>p b d r. m = MPayout p b d \<Longrightarrow> names_validator s r \<noteq> Some p"
  shows "all_matched (handle create m s)"
proof (cases m)
  case (MPayout p b d)
  then show ?thesis using assms on_payout_matched [of s p d] by (simp add: all_matched_def)
next
  case (MPipeline l b)
  show ?thesis
  proof (cases "create l")
    case None
    then show ?thesis using assms MPipeline on_pipeline_matched [of create l s, OF None] by (simp add: all_matched_def)
  next
    case (Some e)
    show ?thesis using assms MPipeline Some
      by (cases "l \<in> pip_byId s") (use on_pipeline_matched [of "\<lambda>_. None" l s] in \<open>auto simp: all_matched_def on_pipeline_def\<close>)
  qed
next
  case (MValidator v b d)
  then show ?thesis using assms on_validator_matched [of s v d] by (simp add: all_matched_def)
next
  case (MReceipt r b d)
  then show ?thesis using assms on_receipt_matched [of s r d] receipt_closed_matched [of _ r d s]
    by (cases b) (auto simp: all_matched_def)
next
  case (ReceiptDeleted r)
  then show ?thesis using assms receipt_closed_matched [of _ r _ s] by (auto simp: all_matched_def)
next
  case (StakerDeleted k)
  then show ?thesis using assms same_side_matched [of s "stakerClose k s"]
    by (auto simp: all_matched_def same_side_def stakerClose_def)
qed (use assms same_side_matched [OF same_side_simple(3)] same_side_matched [OF same_side_simple(4)]
      same_side_matched [OF same_side_stakes(1)] same_side_matched [OF same_side_stakes(2)]
      in \<open>auto simp: all_matched_def on_refund_def\<close>)

subsection \<open>Receipts only come from receipt messages\<close>

lemma rct_same:
  "rct_byId (on_payout p b d s) = rct_byId s" "rct_byId (snd (on_pipeline create l b s)) = rct_byId s"
  "rct_byId (on_validator v b e s) = rct_byId s" "rct_byId (on_bid bl s) = rct_byId s"
  "rct_byId (on_period ring s) = rct_byId s" "rct_byId (payoutClose p s) = rct_byId s"
  "rct_byId (pipelineClose l s) = rct_byId s" "rct_byId (stakerClose k s) = rct_byId s"
  "rct_byId (validatorClose v s) = rct_byId s"
  by (auto simp: on_payout_def close_payout_def payout_object_def lookup_add_payout_def payout_bids_def
      payout_receipts_def payout_pipeline_def on_pipeline_def pipeline_payouts_def pipeline_period_def
      on_validator_def lookup_add_validator_def validator_receipts_def on_bid_def on_period_def payoutClose_def
      pipelineClose_def stakerClose_def validatorClose_def Let_def split: option.split)

lemma rct_stakes: "rct_byId (on_stake k b d s) = rct_byId s" "rct_byId (on_stake_receipt obj s) = rct_byId s"
  using same_side_stakes by (auto simp: same_side_def)

lemma rct_receipt:
  assumes "rct_byId (on_receipt r b d s) x = Some ref"
  shows "\<exists>ref'. rct_byId s x = Some ref' \<and> rr_data ref' = rr_data ref \<or> x = r \<and> rr_data ref = d"
  using assms
  by (auto simp: on_receipt_def receipt_stakers_def receipt_payout_def receipt_validator_def
      split: if_splits option.splits)

fun about_receipt :: "router_msg \<Rightarrow> bool" where
  "about_receipt (MReceipt r b d) = True"
| "about_receipt (ReceiptDeleted r) = True"
| "about_receipt _ = False"

lemma rct_handle: "\<not> about_receipt m \<Longrightarrow> rct_byId (handle create m s) = rct_byId s"
  by (cases m) (simp_all add: rct_same rct_stakes on_refund_def)

lemma handle_names:
  assumes "names_validator (handle create m s) r = Some v"
  shows "names_validator s r = Some v \<or> (\<exists>b d. m = MReceipt r b d \<and> rd_validator d = v)"
proof (cases "about_receipt m")
  case False
  then show ?thesis using assms by (simp add: names_validator_def rct_handle)
next
  case True
  then consider x b d where "m = MReceipt x b d" | x where "m = ReceiptDeleted x" by (cases m) auto
  then show ?thesis
  proof cases
    case 1
    then obtain ref where "rct_byId (on_receipt x b d s) r = Some ref" "rd_validator (rr_data ref) = v"
      using assms by (auto simp: names_validator_def)
    then show ?thesis using rct_receipt [of x b d s r ref] 1 by (auto simp: names_validator_def)
  next
    case 2
    then show ?thesis using assms by (auto simp: names_validator_def receiptClose_def split: if_splits)
  qed
qed

lemma loop_matched:
  assumes "all_matched s" "\<And>r v. names_validator s r = Some v \<Longrightarrow> v \<in> V"
    "\<forall>m\<in>set ms. keeps_objects m" "\<forall>r b d. MReceipt r b d \<in> set ms \<longrightarrow> rd_validator d \<in> V"
    "\<forall>p b d. MPayout p b d \<in> set ms \<longrightarrow> p \<notin> V"
  shows "all_matched (fold (handle create) ms s)"
  using assms
proof (induction ms arbitrary: s)
  case (Cons m ms)
  have "names_validator s r \<noteq> Some p" if "m = MPayout p b d" for p b d r
    using that Cons.prems(2) [of r p] Cons.prems(5) by auto
  then have 1: "all_matched (handle create m s)"
    using handle_matched [of s m create] Cons.prems(1,3) by simp
  have 2: "v \<in> V" if "names_validator (handle create m s) r = Some v" for r v
    using handle_names [OF that] Cons.prems(2) [of r v] Cons.prems(4) by auto
  have "all_matched (fold (handle create) ms (handle create m s))"
    by (rule Cons.IH [OF 1]) (use 2 Cons.prems(3-5) in auto)
  then show ?case by simp
qed simp

lemma init_matched: "all_matched init_router" "names_validator init_router r = None"
  by (simp_all add: all_matched_def matched_defs matched_def names_pipeline_def names_payout_def names_validator_def
      init_router_def)

lemma all_matchedD:
  assumes "all_matched s"
  shows "pay_byId s p = Some ref \<Longrightarrow> pd_pipeline (rp_current ref) \<in> pip_byId s
      \<Longrightarrow> PipelinePayout (pd_pipeline (rp_current ref)) p \<in> set (sent s)"
    "rct_byId s r = Some rr \<Longrightarrow> pay_byId s (rd_payout (rr_data rr)) \<noteq> None
      \<Longrightarrow> PayoutReceipt (rd_payout (rr_data rr)) r \<in> set (sent s)"
    "rct_byId s r = Some rr \<Longrightarrow> val_byId s (rd_validator (rr_data rr)) \<noteq> None
      \<Longrightarrow> ValidatorReceipt (rd_validator (rr_data rr)) r \<in> set (sent s)"
  using assms
  by (auto simp: all_matched_def matched_defs matched_def names_pipeline_def names_payout_def names_validator_def
      split: if_splits)

subsection \<open>Stakers that come before their receipt\<close>

definition no_staker :: "pubkey \<Rightarrow> router \<Rightarrow> bool" where
  "no_staker r s \<longleftrightarrow> stakerWithNoReceipt s r = None \<and> (\<forall>obj d. ReceiptStaker r obj d \<notin> set (sent s))"

definition unknown :: "pubkey \<Rightarrow> router \<Rightarrow> bool" where
  "unknown r s \<longleftrightarrow> no_staker r s \<and> rct_byId s r = None"

lemma no_staker_say: "no_staker r s \<Longrightarrow> (\<And>obj d. ReceiptStaker r obj d \<notin> set cs) \<Longrightarrow> no_staker r (say cs s)"
  by (auto simp: no_staker_def)

lemma no_staker_extra:
  assumes "r \<noteq> Zero" "no_staker r s" "rct_byId s r = None \<or> sr_receipt obj \<noteq> r"
  shows "no_staker r (on_stake_receipt_extra obj k s)" "rct_byId (on_stake_receipt_extra obj k s) = rct_byId s"
  using assms by (auto simp: on_stake_receipt_extra_def no_staker_def split: option.split)

lemma unknown_stake_receipts: "r \<noteq> Zero \<Longrightarrow> unknown r s \<Longrightarrow> unknown r (stake_receipts k srs s)"
proof (induction srs arbitrary: s)
  case (Cons sr srs)
  have "unknown r (on_stake_receipt_extra sr k (say [StakerReceipt k sr] s))"
    using Cons.prems no_staker_say [of r s "[StakerReceipt k sr]"] no_staker_extra [of r "say [StakerReceipt k sr] s" sr k]
    by (simp add: unknown_def)
  then show ?case using Cons by simp
qed simp

lemma no_staker_frame:
  assumes "no_staker r s" "stakerWithNoReceipt s' r = None"
    "\<And>obj d. ReceiptStaker r obj d \<in> set (sent s') \<Longrightarrow> ReceiptStaker r obj d \<in> set (sent s)"
  shows "no_staker r s'"
  using assms by (auto simp: no_staker_def)

lemma no_staker_receipt:
  assumes "no_staker r s"
  shows "no_staker r (on_receipt x b d s)" "no_staker r (receiptClose x s)"
  by (rule no_staker_frame [OF assms], insert assms,
      auto simp: on_receipt_def receiptClose_def receipt_stakers_def receipt_payout_def receipt_validator_def
        no_staker_def split: option.splits if_splits)+

lemma no_staker_payout:
  assumes "no_staker r s"
  shows "no_staker r (on_payout p b d s)" "no_staker r (payoutClose p s)" "no_staker r (on_bid bl s)"
  by (rule no_staker_frame [OF assms], insert assms,
      auto simp: on_payout_def close_payout_def payout_object_def lookup_add_payout_def payout_bids_def
        payout_receipts_def payout_pipeline_def payoutClose_def on_bid_def no_staker_def Let_def
        split: option.splits if_splits)+

lemma no_staker_pipeline:
  assumes "no_staker r s"
  shows "no_staker r (snd (on_pipeline create l b s))" "no_staker r (pipelineClose l s)" "no_staker r (on_period ring s)"
  by (rule no_staker_frame [OF assms], insert assms,
      auto simp: on_pipeline_def pipeline_payouts_def pipeline_period_def pipelineClose_def on_period_def no_staker_def
        split: option.splits if_splits)+

lemma validator_period_no_staker: "ReceiptStaker r obj d \<notin> set (validator_period s v sp)"
  by (auto simp: validator_period_def Let_def split: option.splits if_splits)

lemma no_staker_validator:
  assumes "no_staker r s"
  shows "no_staker r (on_validator v b d s)" "no_staker r (validatorClose v s)" "no_staker r (stakerClose k s)"
  by (rule no_staker_frame [OF assms], insert assms validator_period_no_staker,
      auto simp: on_validator_def lookup_add_validator_def validator_receipts_def validatorClose_def stakerClose_def
        no_staker_def Let_def split: option.splits if_splits)+

lemma unknown_on_stake:
  assumes "r \<noteq> Zero" "unknown r s"
  shows "unknown r (on_stake k b d s)"
proof -
  let ?s1 = "s\<lparr>stk_byId := (stk_byId s)(k \<mapsto> d), stk_byStake := (stk_byStake s)(sd_stake d \<mapsto> k)\<rparr>"
  have "unknown r ?s1" using assms(2) by (simp add: unknown_def no_staker_def)
  then have "unknown r (stake_receipts k (map snd x) ?s1)" for x
    using assms(1) by (simp add: unknown_stake_receipts)
  then show ?thesis using assms(2)
    by (auto simp: on_stake_def Let_def unknown_def no_staker_def split: option.split)
qed

lemma no_staker_on_stake_receipt:
  assumes "r \<noteq> Zero" "no_staker r s" "rct_byId s r = None \<or> sr_receipt obj \<noteq> r"
  shows "no_staker r (on_stake_receipt obj s)"
  using no_staker_extra(1) [OF assms(1) no_staker_say [OF assms(2)]] assms
  by (auto simp: on_stake_receipt_def) (auto simp: no_staker_def)

lemma unknown_handle:
  assumes "r \<noteq> Zero" "unknown r s" "\<And>b d. m \<noteq> MReceipt r b d"
  shows "unknown r (handle create m s)"
proof (cases m)
  case (MReceipt x b d)
  then have "x \<noteq> r" using assms(3) by auto
  then have "rct_byId (on_receipt x b d s) r = rct_byId s r"
    by (auto simp: on_receipt_def receipt_stakers_def receipt_payout_def receipt_validator_def
        split: if_splits option.splits)
  then show ?thesis using MReceipt assms(2) no_staker_receipt by (simp add: unknown_def)
next
  case (ReceiptDeleted x)
  then show ?thesis using assms(2) no_staker_receipt by (auto simp: unknown_def receiptClose_def)
next
  case (MStakeReceipt obj)
  then show ?thesis using assms no_staker_on_stake_receipt by (simp add: unknown_def rct_stakes)
qed (use assms(1,2) unknown_on_stake no_staker_payout no_staker_pipeline no_staker_validator
      in \<open>auto simp: unknown_def rct_same rct_stakes on_refund_def\<close>)

lemma no_staker_handle:
  assumes "r \<noteq> Zero" "no_staker r s" "\<And>k b d. m \<noteq> MStake k b d" "\<And>obj. m = MStakeReceipt obj \<Longrightarrow> sr_receipt obj \<noteq> r"
  shows "no_staker r (handle create m s)"
  using assms no_staker_on_stake_receipt no_staker_receipt no_staker_payout no_staker_pipeline no_staker_validator
  by (cases m) (auto simp: on_refund_def)

subsection \<open>Objects stay until they are closed\<close>

lemma stakes_keep:
  "pay_byId (on_stake k b d s) = pay_byId s" "pay_byId (on_stake_receipt obj s) = pay_byId s"
  "pip_byId (on_stake k b d s) = pip_byId s" "pip_byId (on_stake_receipt obj s) = pip_byId s"
  "val_byId (on_stake k b d s) = val_byId s" "val_byId (on_stake_receipt obj s) = val_byId s"
  using same_side_stakes by (auto simp: same_side_def)

lemma payout_stays:
  assumes "keeps_objects m" "pay_byId s p \<noteq> None"
  shows "pay_byId (handle create m s) p \<noteq> None"
  using assms
  by (cases m) (auto simp: stakes_keep on_payout_def payout_object_def lookup_add_payout_def payout_bids_def
      payout_receipts_def payout_pipeline_def on_pipeline_def pipeline_payouts_def pipeline_period_def
      on_validator_def lookup_add_validator_def validator_receipts_def on_bid_def on_period_def on_refund_def
      on_receipt_def receipt_stakers_def receipt_payout_def receipt_validator_def receiptClose_def stakerClose_def
      Let_def split: option.splits if_splits)

lemma payout_comes: "pay_byId (handle create (MPayout p True d) s) p \<noteq> None"
  by (auto simp: on_payout_def payout_object_def lookup_add_payout_def payout_bids_def
      payout_receipts_def payout_pipeline_def Let_def split: option.splits if_splits)

lemma payout_present:
  assumes "\<forall>m\<in>set ms. keeps_objects m" "pay_byId s p \<noteq> None \<or> MPayout p True d \<in> set ms"
  shows "pay_byId (fold (handle create) ms s) p \<noteq> None"
  using assms
proof (induction ms arbitrary: s)
  case (Cons m ms)
  have "pay_byId (handle create m s) p \<noteq> None \<or> MPayout p True d \<in> set ms"
    using Cons.prems payout_stays [of m s p create] payout_comes [of create p d s] by auto
  then show ?case using Cons by simp
qed auto

subsection \<open>Bid lists only come from bid messages\<close>

definition no_bids :: "pubkey \<Rightarrow> router \<Rightarrow> bool" where
  "no_bids p s \<longleftrightarrow> bidListWithNoPayout s p = None \<and> (\<forall>b. PayoutBidList p b \<notin> set (sent s))"

lemma no_bids_extra: "no_bids p s \<Longrightarrow> no_bids p (on_stake_receipt_extra obj k s)"
  by (auto simp: on_stake_receipt_extra_def no_bids_def split: option.split)

lemma no_bids_say: "no_bids p s \<Longrightarrow> (\<And>b. PayoutBidList p b \<notin> set cs) \<Longrightarrow> no_bids p (say cs s)"
  by (auto simp: no_bids_def)

lemma no_bids_stake_receipts: "no_bids p s \<Longrightarrow> no_bids p (stake_receipts k srs s)"
proof (induction srs arbitrary: s)
  case (Cons sr srs)
  have "no_bids p (say [StakerReceipt k sr] s)" by (rule no_bids_say [OF Cons.prems]) simp
  then show ?case using Cons.IH [OF no_bids_extra] by simp
qed simp

lemma no_bids_stakes:
  assumes "no_bids p s"
  shows "no_bids p (on_stake k b d s)" "no_bids p (on_stake_receipt obj s)"
proof -
  let ?s1 = "s\<lparr>stk_byId := (stk_byId s)(k \<mapsto> d), stk_byStake := (stk_byStake s)(sd_stake d \<mapsto> k)\<rparr>"
  have "no_bids p ?s1" using assms by (simp add: no_bids_def)
  then have "no_bids p (stake_receipts k srs ?s1)" for srs by (rule no_bids_stake_receipts)
  then show "no_bids p (on_stake k b d s)" using assms
    by (auto simp: on_stake_def Let_def no_bids_def split: option.split)
  show "no_bids p (on_stake_receipt obj s)" using assms no_bids_extra [OF no_bids_say [OF assms]]
    by (auto simp: on_stake_receipt_def) (simp add: no_bids_def)
qed

lemma validator_period_no_bids: "PayoutBidList p b \<notin> set (validator_period s v sp)"
  by (auto simp: validator_period_def Let_def split: option.splits if_splits)

lemma no_bids_handle:
  assumes "no_bids p s" "\<And>b. m = MBid b \<Longrightarrow> fst b \<noteq> p"
  shows "no_bids p (handle create m s)"
proof (cases m)
  case (MPayout q b d)
  then show ?thesis using assms(1)
    by (auto simp: no_bids_def on_payout_def close_payout_def payout_object_def lookup_add_payout_def payout_bids_def
        payout_receipts_def payout_pipeline_def Let_def split: option.splits if_splits)
next
  case (MValidator v b d)
  then show ?thesis using assms(1) validator_period_no_bids
    by (auto simp: no_bids_def on_validator_def lookup_add_validator_def validator_receipts_def Let_def
        split: option.splits if_splits)
next
  case (PayoutDeleted q)
  then show ?thesis using assms(1) by (auto simp: no_bids_def payoutClose_def Let_def split: option.splits)
next
  case (MStake k b d)
  then show ?thesis using no_bids_stakes(1) [OF assms(1)] by simp
next
  case (MStakeReceipt obj)
  then show ?thesis using no_bids_stakes(2) [OF assms(1)] by simp
qed (use assms in \<open>auto simp: no_bids_def on_pipeline_def pipeline_payouts_def pipeline_period_def
      on_bid_def on_period_def on_refund_def on_receipt_def receipt_stakers_def receipt_payout_def receipt_validator_def
      receiptClose_def stakerClose_def pipelineClose_def validatorClose_def split: option.splits if_splits\<close>)

lemma no_bids_loop:
  assumes "no_bids p s" "\<forall>m\<in>set ms. \<forall>b. m = MBid b \<longrightarrow> fst b \<noteq> p"
  shows "no_bids p (fold (handle create) ms s)"
  using assms
proof (induction ms arbitrary: s)
  case (Cons m ms)
  have "no_bids p (handle create m s)" by (rule no_bids_handle) (use Cons.prems in auto)
  then show ?case using Cons by simp
qed simp

subsection \<open>Collecting all objects\<close>

definition collect_inv :: "nat \<Rightarrow> pubkey list \<Rightarrow> collect \<Rightarrow> bool" where
  "collect_inv n xs c \<longleftrightarrow> answer c @ cbuf (ansC c) @ to_send c = xs \<and> length (answer c) + to_read c = n
     \<and> ccap (ansC c) = 10 \<and> length (cbuf (ansC c)) \<le> 10"

lemma collect_step_inv: "collect_inv n xs c \<Longrightarrow> collect_step l c = Some c' \<Longrightarrow> collect_inv n xs c'"
  by (cases l) (auto simp: collect_inv_def chan_send_def chan_recv_def split: list.splits if_splits nat.splits)

definition collect_stuck :: "collect \<Rightarrow> bool" where
  "collect_stuck c \<longleftrightarrow> collect_step RouterSends c = None \<and> collect_step CallerReads c = None"

lemma collect_stuck_iff:
  "collect_stuck c \<longleftrightarrow> (to_send c = [] \<or> ccap (ansC c) \<le> length (cbuf (ansC c))) \<and> (to_read c = 0 \<or> cbuf (ansC c) = [])"
  by (auto simp: collect_stuck_def chan_send_def chan_recv_def not_less split: list.split nat.split if_splits)

lemma collect_end:
  assumes "collect_inv n xs c" "collect_stuck c"
  shows "answer c = take n xs \<and> to_send c = drop (n + 10) xs \<and> to_read c = n - length xs"
proof (cases "to_read c = 0")
  case True
  then have l: "length (answer c) = n" and x: "xs = answer c @ cbuf (ansC c) @ to_send c"
    using assms(1) by (auto simp: collect_inv_def)
  have "to_send c = drop 10 (cbuf (ansC c) @ to_send c)"
    using assms by (auto simp: collect_inv_def collect_stuck_iff)
  then have "to_send c = drop (n + 10) xs" using l unfolding x by (simp add: add.commute)
  moreover have "answer c = take n xs" "n - length xs = 0" using l unfolding x by simp_all
  ultimately show ?thesis using True by simp
next
  case False
  then have b: "cbuf (ansC c) = []" using assms(2) by (simp add: collect_stuck_iff)
  then have t: "to_send c = []" using assms by (auto simp: collect_inv_def collect_stuck_iff)
  then have "xs = answer c" using assms(1) b by (simp add: collect_inv_def)
  then show ?thesis using assms(1) False t by (auto simp: collect_inv_def)
qed

section \<open>Properties\<close>

text \<open>
  Whatever the order in which accounts arrive, everything finds its counterpart: at the end of
  any sequence of messages that closes no payout, pipeline or validator, every payout whose
  pipeline is known has been handed to it, and every open receipt has been handed to its payout
  and to its validator as soon as those are known. The ids of payouts have to be different from
  those of the validators that receipts name, as accounts of different kinds are.
\<close>

theorem everything_finds_its_counterpart:
  assumes "\<forall>m\<in>set ms. keeps_objects m"
    and "\<forall>p b d r b' d'. MPayout p b d \<in> set ms \<longrightarrow> MReceipt r b' d' \<in> set ms \<longrightarrow> p \<noteq> rd_validator d'"
    and "s = loopInternal create ms init_router"
  shows "(\<forall>p ref. pay_byId s p = Some ref \<longrightarrow> pd_pipeline (rp_current ref) \<in> pip_byId s
            \<longrightarrow> PipelinePayout (pd_pipeline (rp_current ref)) p \<in> set (sent s))
    \<and> (\<forall>r ref. rct_byId s r = Some ref \<longrightarrow>
          (pay_byId s (rd_payout (rr_data ref)) \<noteq> None \<longrightarrow> PayoutReceipt (rd_payout (rr_data ref)) r \<in> set (sent s))
        \<and> (val_byId s (rd_validator (rr_data ref)) \<noteq> None
             \<longrightarrow> ValidatorReceipt (rd_validator (rr_data ref)) r \<in> set (sent s)))"
proof -
  let ?V = "{rd_validator d | r b d. MReceipt r b d \<in> set ms}"
  have "all_matched s" unfolding assms(3) loopInternal_def
  proof (rule loop_matched [where V = ?V])
    show "\<forall>p b d. MPayout p b d \<in> set ms \<longrightarrow> p \<notin> ?V" using assms(2) by blast
  qed (use assms(1) init_matched in auto)
  then show ?thesis using all_matchedD [of s] by blast
qed

definition demo_messages :: "router_msg list" where
  "demo_messages =
     [MReceipt ''R'' True \<lparr>rd_payout = ''P'', rd_validator = ''V''\<rparr>,
      MPayout ''P'' True \<lparr>pd_pipeline = ''L'', pd_start = 5, pd_length = 10\<rparr>,
      MValidator ''V'' True \<lparr>vd_vote = ''W'', vd_ring = []\<rparr>, MPipeline ''L'' True]"

lemma demo_router:
  "let s = loopInternal (\<lambda>_. None) demo_messages init_router in
     pay_byId s ''P'' = Some \<lparr>rp_data = \<lparr>pd_pipeline = ''L'', pd_start = 5, pd_length = 10\<rparr>,
                             rp_current = \<lparr>pd_pipeline = ''L'', pd_start = 5, pd_length = 10\<rparr>\<rparr>
   \<and> ''L'' \<in> pip_byId s"
  by code_simp

theorem everything_finds_its_counterpart_witness:
  "PipelinePayout ''L'' ''P'' \<in> set (sent (loopInternal (\<lambda>_. None) demo_messages init_router))"
proof -
  have k: "\<forall>m\<in>set demo_messages. keeps_objects m" by (simp add: demo_messages_def)
  have d: "\<forall>p b d r b' d'. MPayout p b d \<in> set demo_messages \<longrightarrow> MReceipt r b' d' \<in> set demo_messages
      \<longrightarrow> p \<noteq> rd_validator d'" by (simp add: demo_messages_def)
  note c = conjunct1 [OF everything_finds_its_counterpart [OF k d refl, of "\<lambda>_. None"], rule_format, of "''P''"]
  show ?thesis using c [OF conjunct1 [OF demo_router [unfolded Let_def]]] demo_router by (simp add: Let_def)
qed

text \<open>
  A staker whose receipt account is not known yet is filed under the zero key instead of under
  its receipt, so it is lost: when all news about stakers comes before the receipt's account does,
  the receipt is never told about any of them, whatever else happens before and after.
\<close>

theorem staker_before_receipt_is_lost:
  assumes "r \<noteq> Zero" and "\<forall>m\<in>set ms1. \<forall>b d. m \<noteq> MReceipt r b d"
    and "\<forall>m\<in>set ms2. (\<forall>k b d. m \<noteq> MStake k b d) \<and> (\<forall>obj. m = MStakeReceipt obj \<longrightarrow> sr_receipt obj \<noteq> r)"
  shows "ReceiptStaker r obj d \<notin> set (sent (loopInternal create (ms1 @ ms2) init_router))"
proof -
  have "unknown r init_router" by (simp add: unknown_def no_staker_def init_router_def)
  then have "unknown r (fold (handle create) ms1 init_router)"
    using assms(2)
  proof (induction ms1 arbitrary: rule: rev_induct)
    case (snoc m ms1)
    then show ?case using unknown_handle [OF assms(1), of "fold (handle create) ms1 init_router" m create] by simp
  qed simp
  then have "no_staker r (fold (handle create) ms1 init_router)" by (simp add: unknown_def)
  then have "no_staker r (fold (handle create) ms2 (fold (handle create) ms1 init_router))"
    using assms(3)
  proof (induction ms2 rule: rev_induct)
    case (snoc m ms2)
    then show ?case
      using no_staker_handle [OF assms(1), of "fold (handle create) ms2 (fold (handle create) ms1 init_router)" m create]
      by simp
  qed simp
  then show ?thesis by (simp add: loopInternal_def no_staker_def)
qed

theorem staker_before_receipt_is_lost_witness:
  "ReceiptStaker ''R'' \<lparr>sr_manager = ''K'', sr_receipt = ''R'', sr_stake = 9\<rparr> \<lparr>sd_stake = ''T''\<rparr>
     \<notin> set (sent (loopInternal (\<lambda>_. None)
         ([MStake ''K'' True \<lparr>sd_stake = ''T''\<rparr>, MStakeReceipt \<lparr>sr_manager = ''K'', sr_receipt = ''R'', sr_stake = 9\<rparr>]
          @ [MReceipt ''R'' True \<lparr>rd_payout = ''P'', rd_validator = ''V''\<rparr>]) init_router))"
  by (rule staker_before_receipt_is_lost) (auto simp: Zero_def numeral_eq_Suc)

text \<open>
  A payout that is closed while it waits for its pipeline stays among the waiting ones, since
  the router removes the entry under the id of the payout instead of that of the pipeline: when the
  pipeline appears it is handed the closed payout, which the router itself no longer knows.
\<close>

theorem closed_payout_still_delivered:
  assumes "pd_pipeline d \<notin> pip_byId s" and "pd_pipeline d \<noteq> p" and "create (pd_pipeline d) = None"
    and "s' = loopInternal create [MPayout p True d, PayoutDeleted p, MPipeline (pd_pipeline d) True] s"
  shows "pay_byId s' p = None
    \<and> (\<exists>xs ys. sent s' = xs @ PayoutClose p # ys \<and> PipelinePayout (pd_pipeline d) p \<in> set ys)"
proof -
  let ?l = "pd_pipeline d"
  define s1 where "s1 = on_payout p True d s"
  define s2 where "s2 = payoutClose p s1"
  have s1: "pip_byId s1 = pip_byId s" "pay_byId s1 p \<noteq> None" "p \<in> set (waiting (payoutWithNoPipeline s1) ?l)"
    using assms(1)
    by (auto simp: s1_def on_payout_def payout_object_def lookup_add_payout_def payout_bids_def payout_receipts_def
        payout_pipeline_def Let_def split: option.splits)
  then have s2: "pip_byId s2 = pip_byId s" "pay_byId s2 p = None" "sent s2 = sent s1 @ [PayoutClose p]"
    "p \<in> set (waiting (payoutWithNoPipeline s2) ?l)"
    using assms(2) by (auto simp: s2_def payoutClose_def Let_def split: option.splits)
  have s': "s' = snd (on_pipeline create ?l True s2)" using assms(4) by (simp add: loopInternal_def s1_def s2_def)
  have "pay_byId s' p = None"
    using s2(2) assms(3) unfolding s'
    by (auto simp: on_pipeline_def pipeline_payouts_def pipeline_period_def split: option.splits)
  moreover obtain y where "payoutWithNoPipeline s2 ?l = Some y" "p \<in> set y"
    using s2(4) by (cases "payoutWithNoPipeline s2 ?l") (simp_all add: waiting_def)
  then have "\<exists>ys. sent s' = sent s2 @ ys \<and> PipelinePayout ?l p \<in> set ys"
    using s2(1) assms(1,3) unfolding s'
    by (auto simp: on_pipeline_def pipeline_payouts_def pipeline_period_def split: option.splits)
  ultimately show ?thesis using s2(3) by (metis append.assoc append_Cons append_Nil)
qed

theorem closed_payout_still_delivered_witness:
  "\<exists>xs ys. sent (loopInternal (\<lambda>_. None)
      [MPayout ''P'' True \<lparr>pd_pipeline = ''L'', pd_start = 5, pd_length = 10\<rparr>, PayoutDeleted ''P'', MPipeline ''L'' True]
      init_router) = xs @ PayoutClose ''P'' # ys \<and> PipelinePayout ''L'' ''P'' \<in> set ys"
  using closed_payout_still_delivered [of "\<lparr>pd_pipeline = ''L'', pd_start = 5, pd_length = 10\<rparr>" init_router "''P''" "\<lambda>_. None"]
  by (simp add: init_router_def)

text \<open>
  AllValidator announces the number of pipelines but sends the validators. In whatever way the
  router and the caller move, when neither can go on the caller has the first validators, as many as
  there are pipelines, and still waits if there are fewer validators than pipelines; and the router
  itself is stuck at a send if there are more than ten validators beyond the number of pipelines.
  AllPipeline always ends with all pipelines.
\<close>

theorem AllValidator_counts_pipelines:
  assumes "run_steps collect_step ls (AllValidator pipelines validators) = Some c" and "collect_stuck c"
    and "run_steps collect_step ks (AllPipeline pipelines) = Some k" and "collect_stuck k"
  shows "answer c = take (length pipelines) validators
    \<and> (0 < to_read c \<longleftrightarrow> length validators < length pipelines)
    \<and> (to_send c \<noteq> [] \<longleftrightarrow> length pipelines + 10 < length validators)
    \<and> answer k = pipelines \<and> to_read k = 0 \<and> to_send k = []"
proof -
  have "collect_inv (length pipelines) validators c"
    by (rule run_steps_invariant [where I = "collect_inv (length pipelines) validators", OF assms(1)])
      (simp add: collect_inv_def AllValidator_def make_chan_def, rule collect_step_inv)
  moreover have "collect_inv (length pipelines) pipelines k"
    by (rule run_steps_invariant [where I = "collect_inv (length pipelines) pipelines", OF assms(3)])
      (simp add: collect_inv_def AllPipeline_def make_chan_def, rule collect_step_inv)
  ultimately show ?thesis using collect_end [OF _ assms(2)] collect_end [OF _ assms(4)] by auto
qed

theorem AllValidator_counts_pipelines_witness:
  "answer \<lparr>to_send = [], ansC = \<lparr>cbuf = [''W''], ccap = 10\<rparr>, to_read = 0, answer = [''V'']\<rparr> = take 1 [''V'', ''W'']"
proof -
  let ?c = "\<lparr>to_send = [], ansC = \<lparr>cbuf = [''W''], ccap = 10\<rparr>, to_read = 0, answer = [''V'']\<rparr>"
  have r: "run_steps collect_step [RouterSends, RouterSends, CallerReads] (AllValidator [''L''] [''V'', ''W'']) = Some ?c"
    by (simp add: AllValidator_def make_chan_def chan_send_def chan_recv_def)
  have p: "run_steps collect_step [RouterSends, CallerReads] (AllPipeline [''L''])
      = Some \<lparr>to_send = [], ansC = \<lparr>cbuf = [], ccap = 10\<rparr>, to_read = 0, answer = [''L'']\<rparr>"
    by (simp add: AllPipeline_def make_chan_def chan_send_def chan_recv_def)
  show ?thesis using AllValidator_counts_pipelines [OF r _ p] by (simp add: collect_stuck_iff)
qed

end
