(* ===== verification/SlotClock.thy ===== *)
theory SlotClock
  imports Prelude
begin

text \<open>
  The slot clock, state/slot/slot.go: one goroutine takes slots from a websocket stream, asks an RPC
  node for the slot after three seconds of silence, answers queries for the current slot, and
  broadcasts new slots to every subscriber of the program. The stream and the node are outside; the
  messages of the loop are what they deliver. The subscription home is represented by the slots
  broadcast so far, its requests and deletions being those of the broadcaster.
\<close>

record slot_clock =
  slot :: uint64
  lastSlot :: uint64
  broadcasts :: "uint64 list"
  answers :: "uint64 list"

text \<open>A message: the answer of the node, a query, an item of the stream (or something else), an error.\<close>

datatype slot_msg =
  Polled "err + uint64" | SingleReq | Streamed "uint64 option" | StreamError "err option" | Cancelled

definition init_clock :: slot_clock where
  "init_clock = \<lparr>slot = 0, lastSlot = 0, broadcasts = [], answers = []\<rparr>"

definition sendBroadcat :: "slot_clock \<Rightarrow> slot_clock" where
  "sendBroadcat s =
     (if slot s \<le> lastSlot s then s
      else s\<lparr>lastSlot := slot s, broadcasts := broadcasts s @ [slot s]\<rparr>)"

definition new_slot :: "uint64 \<Rightarrow> slot_clock \<Rightarrow> slot_clock" where
  "new_slot x s =
     (let s1 = sendBroadcat (s\<lparr>slot := x\<rparr>)
      in s1\<lparr>lastSlot := slot s1\<rparr>)"

text \<open>One round of the loop; the result \<^term>\<open>None\<close> is the break out of it.\<close>

fun slot_step :: "slot_msg \<Rightarrow> slot_clock \<Rightarrow> slot_clock option" where
  "slot_step (Polled (Inl e)) s = None"
| "slot_step (Polled (Inr x)) s = Some (new_slot x s)"
| "slot_step SingleReq s = Some (s\<lparr>answers := answers s @ [slot s]\<rparr>)"
| "slot_step (Streamed None) s = None"
| "slot_step (Streamed (Some x)) s = Some (new_slot x s)"
| "slot_step (StreamError (Some e)) s = None"
| "slot_step (StreamError None) s = Some s"
| "slot_step Cancelled s = None"

definition loopInternal :: "slot_msg list \<Rightarrow> slot_clock \<Rightarrow> slot_clock option" where
  "loopInternal = run_steps slot_step"

text \<open>A query returns the slot of the loop or, after the end of the context, an error.\<close>

definition Time :: "bool \<Rightarrow> slot_clock \<Rightarrow> err + uint64" where
  "Time ended s = (if ended then Inl ''canceled'' else Inr (slot s))"

section \<open>What is broadcast\<close>

fun delivered :: "slot_msg \<Rightarrow> uint64 option" where
  "delivered (Polled (Inr x)) = Some x"
| "delivered (Streamed x) = x"
| "delivered _ = None"

definition slots_of :: "slot_msg list \<Rightarrow> uint64 list" where
  "slots_of = List.map_filter delivered"

fun rises :: "'a::linorder \<Rightarrow> 'a list \<Rightarrow> 'a list" where
  "rises l [] = []"
| "rises l (x # xs) = (if l < x then x # rises x xs else rises x xs)"

lemma new_slot_eq: "new_slot x s = s\<lparr>slot := x, lastSlot := x, broadcasts := broadcasts s @ rises (lastSlot s) [x]\<rparr>"
  by (simp add: new_slot_def sendBroadcat_def Let_def)

lemma run_broadcasts:
  assumes "run_steps slot_step ms s = Some s'"
  shows "broadcasts s' = broadcasts s @ rises (lastSlot s) (slots_of ms)
    \<and> lastSlot s' = last (lastSlot s # slots_of ms)"
  using assms
proof (induction ms arbitrary: s)
  case Nil
  then show ?case by (simp add: slots_of_def List.map_filter_simps)
next
  case (Cons m ms)
  from Cons.prems obtain s1 where s1: "slot_step m s = Some s1" "run_steps slot_step ms s1 = Some s'"
    by (auto split: option.splits)
  show ?case
  proof (cases "delivered m")
    case None
    then have "broadcasts s1 = broadcasts s" "lastSlot s1 = lastSlot s"
      using s1(1) by (cases "(m, s)" rule: slot_step.cases; auto)+
    then show ?thesis using Cons.IH [OF s1(2)] None by (simp add: slots_of_def List.map_filter_simps)
  next
    case (Some x)
    then have "s1 = new_slot x s" using s1(1) by (cases "(m, s)" rule: slot_step.cases) auto
    then show ?thesis using Cons.IH [OF s1(2)] Some
      by (auto simp: slots_of_def List.map_filter_simps new_slot_eq)
  qed
qed

lemma rises_sorted:
  assumes "sorted (l # xs)"
  shows "sorted_wrt (<) (rises l xs) \<and> (\<forall>x \<in> set (rises l xs). l < x) \<and> set (rises l xs) = {x \<in> set xs. l < x}"
  using assms
proof (induction xs arbitrary: l)
  case (Cons x xs)
  have le: "l \<le> x" and srt: "sorted (x # xs)" and xs: "\<And>y. y \<in> set xs \<Longrightarrow> x \<le> y" using Cons.prems by simp_all
  from Cons.IH [OF srt] have IH: "sorted_wrt (<) (rises x xs)" "\<And>y. y \<in> set (rises x xs) \<Longrightarrow> x < y"
    "set (rises x xs) = {y \<in> set xs. x < y}" by blast+
  show ?case
  proof (cases "l < x")
    case True
    have "y \<in> set xs \<Longrightarrow> y = x \<or> x < y" "x < y \<Longrightarrow> l < y" for y using xs [of y] True by auto
    then have "set (rises l (x # xs)) = {y \<in> set (x # xs). l < y}" using IH(3) True by auto
    moreover have "sorted_wrt (<) (rises l (x # xs))" using IH(1,2) True by simp
    ultimately show ?thesis by simp
  next
    case False
    then have "l = x" using le by simp
    then show ?thesis using IH by auto
  qed
qed simp

text \<open>
  C17. The clock broadcasts a slot exactly when it is greater than the slot received right before it.
  When the slots received never step back, the broadcasts are therefore strictly increasing and no
  slot is left out. A step back is not remembered: for every slot x > y, receiving x, then y, then
  x again (a node that lags behind the stream) broadcasts x twice.
\<close>

theorem slots_broadcast_when_rising:
  assumes "loopInternal ms init_clock = Some s"
  shows "broadcasts s = rises 0 (slots_of ms)
    \<and> (sorted (slots_of ms) \<longrightarrow> sorted_wrt (<) (broadcasts s) \<and> set (broadcasts s) = set (slots_of ms) - {0})
    \<and> (y < x \<longrightarrow> (\<exists>s'. loopInternal (ms @ [Streamed (Some x), Polled (Inr y), Streamed (Some x)]) init_clock = Some s'
          \<and> last (broadcasts s') = x
          \<and> (lastSlot s < x \<longrightarrow> broadcasts s' = broadcasts s @ [x, x])))"
proof -
  have r: "broadcasts s = rises 0 (slots_of ms)"
    using run_broadcasts assms by (simp add: loopInternal_def init_clock_def)
  have "sorted_wrt (<) (broadcasts s) \<and> set (broadcasts s) = set (slots_of ms) - {0}" if "sorted (slots_of ms)"
  proof -
    have "sorted (0 # slots_of ms)" using that by simp
    from rises_sorted [OF this] have "sorted_wrt (<) (broadcasts s)" "set (broadcasts s) = {x \<in> set (slots_of ms). 0 < x}"
      unfolding r by blast+
    then show ?thesis unfolding word_gt_0 by blast
  qed
  moreover have "\<exists>s'. loopInternal (ms @ [Streamed (Some x), Polled (Inr y), Streamed (Some x)]) init_clock = Some s'
      \<and> last (broadcasts s') = x \<and> (lastSlot s < x \<longrightarrow> broadcasts s' = broadcasts s @ [x, x])" if "y < x"
  proof -
    let ?s' = "new_slot x (new_slot y (new_slot x s))"
    have "loopInternal (ms @ [Streamed (Some x), Polled (Inr y), Streamed (Some x)]) init_clock = Some ?s'"
      using assms by (simp add: loopInternal_def run_steps_append)
    moreover have "broadcasts ?s' = broadcasts s @ rises (lastSlot s) [x] @ [x]"
      using that by (simp add: new_slot_eq)
    ultimately show ?thesis by simp
  qed
  ultimately show ?thesis using r by blast
qed

theorem slots_broadcast_when_rising_witness:
  "\<exists>s s'. loopInternal [Streamed (Some 7), SingleReq, Streamed (Some 9)] init_clock = Some s
     \<and> broadcasts s = [7, 9] \<and> sorted_wrt (<) (broadcasts s)
     \<and> loopInternal [Streamed (Some 7), SingleReq, Streamed (Some 9), Streamed (Some 10), Polled (Inr 8),
          Streamed (Some 10)] init_clock = Some s'
     \<and> broadcasts s' = [7, 9, 10, 10]"
proof -
  let ?ms = "[Streamed (Some 7), SingleReq, Streamed (Some 9)]"
  obtain s where s: "loopInternal ?ms init_clock = Some s" "lastSlot s = 9"
    by (simp add: loopInternal_def init_clock_def new_slot_eq)
  have sl: "slots_of ?ms = [7, 9]" by (simp add: slots_of_def List.map_filter_simps)
  show ?thesis
    using slots_broadcast_when_rising [OF s(1), of 8 10] s unfolding sl by auto
qed

end
