(* ===== verification/AccountState.thy ===== *)
theory AccountState
  imports SharedLists
begin

text \<open>
  The objects behind the other accounts: a validator (state/validator), a staker (state/staker) and a
  receipt (state/receipt). Validator and staker each keep the same entries in two tables, one by the
  address of the account and one by the account it refers to. The interface locale states what the
  rest of the program relies on when it looks something up in either table; it is interpreted for
  both. A subscription home is represented by the list of the values broadcast so far.
\<close>

section \<open>Entries kept in two tables\<close>

locale paired_tables =
  fixes inv :: "'s \<Rightarrow> bool"
    and live :: "'s \<Rightarrow> 'x set"
    and ident :: "'s \<Rightarrow> 'x \<Rightarrow> 'a"
    and target :: "'s \<Rightarrow> 'x \<Rightarrow> 'b"
    and by_id :: "'s \<Rightarrow> 'a \<rightharpoonup> 'x"
    and by_target :: "'s \<Rightarrow> 'b \<rightharpoonup> 'x"
  assumes id_table: "inv s \<Longrightarrow> by_id s i = Some x \<longleftrightarrow> x \<in> live s \<and> ident s x = i"
    and target_table: "inv s \<Longrightarrow> by_target s t = Some x \<longleftrightarrow> x \<in> live s \<and> target s x = t"
begin

lemma lookups_agree: "inv s \<Longrightarrow> by_id s i = Some x \<longleftrightarrow> ident s x = i \<and> by_target s (target s x) = Some x"
  by (auto simp: id_table target_table)

lemma one_entry: "inv s \<Longrightarrow> x \<in> live s \<Longrightarrow> y \<in> live s \<Longrightarrow> ident s x = ident s y \<or> target s x = target s y \<Longrightarrow> x = y"
  by (metis id_table option.inject target_table)

lemma ranges: "inv s \<Longrightarrow> ran (by_id s) = live s \<and> ran (by_target s) = live s"
  by (auto simp: ran_def id_table target_table)

end

section \<open>Validator\<close>

text \<open>
  A holder is allocated for every receipt taken in, and both tables point to it. \<open>h_live\<close> says that
  the goroutine that follows the receipt has not asked for its removal yet.
\<close>

record receiptHolder =
  h_receipt :: pubkey
  h_payout :: pubkey
  h_data :: string
  h_live :: bool

record validator =
  v_data :: string
  v_totalStake :: uint64
  v_activatedStake :: uint64
  holders :: "receiptHolder list"
  receiptsByPayoutId :: "pubkey \<rightharpoonup> ptr"
  receiptsById :: "pubkey \<rightharpoonup> ptr"
  v_sent_data :: "string list"
  v_sent_stake :: "(uint64 \<times> uint64) list"
  v_sent_receipts :: "(pubkey \<times> pubkey \<times> string) list"

definition CreateValidator :: "string \<Rightarrow> validator" where
  "CreateValidator d = \<lparr>v_data = d, v_totalStake = 0, v_activatedStake = 0, holders = [],
     receiptsByPayoutId = Map.empty, receiptsById = Map.empty, v_sent_data = [], v_sent_stake = [],
     v_sent_receipts = []\<rparr>"

definition on_data :: "string \<Rightarrow> validator \<Rightarrow> validator" where
  "on_data d s = s\<lparr>v_data := d, v_sent_data := v_sent_data s @ [d]\<rparr>"

definition on_receipt :: "pubkey \<Rightarrow> pubkey \<Rightarrow> string \<Rightarrow> validator \<Rightarrow> validator" where
  "on_receipt r p d s =
     (if receiptsByPayoutId s p \<noteq> None then s
      else let h = length (holders s)
           in s\<lparr>holders := holders s @ [\<lparr>h_receipt = r, h_payout = p, h_data = d, h_live = True\<rparr>],
                receiptsByPayoutId := (receiptsByPayoutId s)(p \<mapsto> h),
                receiptsById := (receiptsById s)(r \<mapsto> h),
                v_sent_receipts := v_sent_receipts s @ [(r, p, d)]\<rparr>)"

text \<open>A receipt whose payout is the zero key makes the caller panic.\<close>

definition UpdateReceipt :: "pubkey \<Rightarrow> pubkey \<Rightarrow> string \<Rightarrow> validator \<Rightarrow> validator call" where
  "UpdateReceipt r p d s = (if p = Zero then Some Panic else returns (on_receipt r p d s))"

definition on_receipt_update :: "pubkey \<Rightarrow> string \<Rightarrow> validator \<Rightarrow> validator" where
  "on_receipt_update p d s =
     (case receiptsByPayoutId s p of
        None \<Rightarrow> s
      | Some h \<Rightarrow> s\<lparr>holders := (holders s)[h := (holders s ! h)\<lparr>h_payout := p, h_data := d\<rparr>]\<rparr>)"

text \<open>The goroutine of holder \<open>h\<close> asks for its removal, and the loop takes it out of both tables.\<close>

definition delete_receipt :: "ptr \<Rightarrow> validator \<Rightarrow> validator option" where
  "delete_receipt h s =
     (if h < length (holders s) \<and> h_live (holders s ! h)
      then (let p = h_payout (holders s ! h); r = h_receipt (holders s ! h)
            in Some (s\<lparr>holders := (holders s)[h := (holders s ! h)\<lparr>h_live := False\<rparr>],
                 receiptsByPayoutId := (receiptsByPayoutId s)(p := None),
                 receiptsById := (receiptsById s)(r := None)\<rparr>))
      else None)"

definition on_activated :: "uint64 \<Rightarrow> validator \<Rightarrow> validator" where
  "on_activated a s = s\<lparr>v_activatedStake := a, v_sent_stake := v_sent_stake s @ [(a, v_totalStake s)]\<rparr>"

definition on_total :: "uint64 \<Rightarrow> validator \<Rightarrow> validator" where
  "on_total t s = s\<lparr>v_totalStake := t, v_sent_stake := v_sent_stake s @ [(v_activatedStake s, t)]\<rparr>"

datatype validator_msg =
  VData string | VReceipt pubkey pubkey string | VReceiptUpdate pubkey string | VDelete ptr
| VActivated uint64 | VTotal uint64

fun validator_step :: "validator_msg \<Rightarrow> validator \<Rightarrow> validator option" where
  "validator_step (VData d) s = Some (on_data d s)"
| "validator_step (VReceipt r p d) s = Some (on_receipt r p d s)"
| "validator_step (VReceiptUpdate p d) s = Some (on_receipt_update p d s)"
| "validator_step (VDelete h) s = delete_receipt h s"
| "validator_step (VActivated a) s = Some (on_activated a s)"
| "validator_step (VTotal t) s = Some (on_total t s)"

definition ReceiptByPayoutId :: "pubkey \<Rightarrow> validator \<Rightarrow> receiptHolder option" where
  "ReceiptByPayoutId p s = map_option (\<lambda>h. holders s ! h) (receiptsByPayoutId s p)"

definition ReceiptById :: "pubkey \<Rightarrow> validator \<Rightarrow> receiptHolder option" where
  "ReceiptById r s = map_option (\<lambda>h. holders s ! h) (receiptsById s r)"

definition v_live :: "validator \<Rightarrow> ptr set" where
  "v_live s = {h. h < length (holders s) \<and> h_live (holders s ! h)}"

text \<open>Every receipt account names one payout, and every payout one receipt of this validator.\<close>

fun names :: "(pubkey \<Rightarrow> pubkey) \<Rightarrow> validator_msg \<Rightarrow> bool" where
  "names payout_of (VReceipt r p d) = (p = payout_of r)"
| "names payout_of _ = True"

definition validator_inv :: "(pubkey \<Rightarrow> pubkey) \<Rightarrow> validator \<Rightarrow> bool" where
  "validator_inv payout_of s \<longleftrightarrow>
     (\<forall>r h. receiptsById s r = Some h \<longleftrightarrow> h \<in> v_live s \<and> h_receipt (holders s ! h) = r)
     \<and> (\<forall>p h. receiptsByPayoutId s p = Some h \<longleftrightarrow> h \<in> v_live s \<and> h_payout (holders s ! h) = p)
     \<and> (\<forall>h \<in> v_live s. h_payout (holders s ! h) = payout_of (h_receipt (holders s ! h)))"

interpretation val: paired_tables "validator_inv payout_of" v_live "\<lambda>s h. h_receipt (holders s ! h)"
    "\<lambda>s h. h_payout (holders s ! h)" receiptsById receiptsByPayoutId for payout_of
  by unfold_locales (simp_all add: validator_inv_def)

lemma on_receipt_inv:
  assumes inv: "validator_inv payout_of s" and p: "p = payout_of r"
  shows "validator_inv payout_of (on_receipt r p d s)"
proof (cases "receiptsByPayoutId s p")
  case None
  let ?s = "on_receipt r p d s" and ?n = "length (holders s)"
  have s: "holders ?s = holders s @ [\<lparr>h_receipt = r, h_payout = p, h_data = d, h_live = True\<rparr>]"
    "receiptsByPayoutId ?s = (receiptsByPayoutId s)(p \<mapsto> ?n)" "receiptsById ?s = (receiptsById s)(r \<mapsto> ?n)"
    using None by (simp_all add: on_receipt_def Let_def)
  have lv: "h \<in> v_live ?s \<longleftrightarrow> h \<in> v_live s \<or> h = ?n" for h
    by (auto simp: v_live_def s nth_append)
  have old: "h \<noteq> ?n" "holders ?s ! h = holders s ! h" if "h \<in> v_live s" for h
    using that by (auto simp: v_live_def s nth_append)
  have np: "h_payout (holders s ! h) \<noteq> p" "h_receipt (holders s ! h) \<noteq> r" if "h \<in> v_live s" for h
    using inv None that p unfolding validator_inv_def by (metis option.distinct(1))+
  have new: "holders ?s ! ?n = \<lparr>h_receipt = r, h_payout = p, h_data = d, h_live = True\<rparr>" by (simp add: s)
  have "receiptsById ?s q = Some h \<longleftrightarrow> h \<in> v_live ?s \<and> h_receipt (holders ?s ! h) = q" for q h
  proof -
    have "receiptsById s q = Some h \<longleftrightarrow> h \<in> v_live s \<and> h_receipt (holders s ! h) = q" for q h
      using inv by (simp add: validator_inv_def)
    then show ?thesis unfolding lv s(3) using old np new by (auto simp del: s)
  qed
  moreover have "receiptsByPayoutId ?s q = Some h \<longleftrightarrow> h \<in> v_live ?s \<and> h_payout (holders ?s ! h) = q" for q h
  proof -
    have "receiptsByPayoutId s q = Some h \<longleftrightarrow> h \<in> v_live s \<and> h_payout (holders s ! h) = q" for q h
      using inv by (simp add: validator_inv_def)
    then show ?thesis unfolding lv s(2) using old np new by (auto simp del: s)
  qed
  moreover have "h_payout (holders ?s ! h) = payout_of (h_receipt (holders ?s ! h))" if "h \<in> v_live ?s" for h
  proof (cases "h = ?n")
    case False
    then have "h \<in> v_live s" using that lv by blast
    then show ?thesis using inv old(2) by (simp add: validator_inv_def)
  next
    case True
    then show ?thesis using p unfolding True new by simp
  qed
  ultimately show ?thesis unfolding validator_inv_def by blast
qed (use assms in \<open>simp add: on_receipt_def\<close>)

lemma validator_inv_frame:
  assumes "validator_inv payout_of s" and "receiptsById s' = receiptsById s"
    and "receiptsByPayoutId s' = receiptsByPayoutId s" and "length (holders s') = length (holders s)"
    and "\<And>h. h < length (holders s) \<Longrightarrow> h_receipt (holders s' ! h) = h_receipt (holders s ! h)
           \<and> h_payout (holders s' ! h) = h_payout (holders s ! h) \<and> h_live (holders s' ! h) = h_live (holders s ! h)"
  shows "validator_inv payout_of s'"
proof -
  have "v_live s' = v_live s" using assms(4,5) by (auto simp: v_live_def)
  moreover have "h_receipt (holders s' ! h) = h_receipt (holders s ! h)"
    "h_payout (holders s' ! h) = h_payout (holders s ! h)" if "h \<in> v_live s" for h
    using that assms(5) by (auto simp: v_live_def)
  ultimately show ?thesis
    using assms(1) unfolding validator_inv_def assms(2,3) by simp metis
qed

lemma on_receipt_update_inv:
  assumes "validator_inv payout_of s"
  shows "validator_inv payout_of (on_receipt_update p d s)"
proof (cases "receiptsByPayoutId s p")
  case (Some h)
  then have "h < length (holders s)" "h_payout (holders s ! h) = p"
    using val.target_table [OF assms, of p h] by (auto simp: v_live_def)
  then show ?thesis
    using Some by (intro validator_inv_frame [OF assms]) (auto simp: on_receipt_update_def nth_list_update)
qed (use assms in \<open>simp add: on_receipt_update_def\<close>)

lemma delete_receipt_inv:
  assumes inv: "validator_inv payout_of s" and d: "delete_receipt h s = Some s'"
  shows "validator_inv payout_of s'"
proof -
  have h: "h \<in> v_live s" using d by (auto simp: delete_receipt_def v_live_def split: if_splits)
  have s': "holders s' = (holders s)[h := (holders s ! h)\<lparr>h_live := False\<rparr>]"
    "receiptsByPayoutId s' = (receiptsByPayoutId s)(h_payout (holders s ! h) := None)"
    "receiptsById s' = (receiptsById s)(h_receipt (holders s ! h) := None)"
    using d by (auto simp: delete_receipt_def Let_def split: if_splits)
  have lv: "k \<in> v_live s' \<longleftrightarrow> k \<in> v_live s \<and> k \<noteq> h" for k
    using h by (cases "k = h") (auto simp: v_live_def s'(1))
  have same: "holders s' ! k = holders s ! k" if "k \<noteq> h" for k
    using that by (simp add: s'(1))
  have one: "h_receipt (holders s ! k) \<noteq> h_receipt (holders s ! h)" "h_payout (holders s ! k) \<noteq> h_payout (holders s ! h)"
    if "k \<in> v_live s" "k \<noteq> h" for k
    using val.one_entry [OF inv that(1) h] that(2) by auto
  have "receiptsById s' r = Some k \<longleftrightarrow> k \<in> v_live s' \<and> h_receipt (holders s' ! k) = r" for r k
  proof (cases "k = h")
    case False
    then show ?thesis using one(1) [of k] val.id_table [OF inv, of r k] same [OF False] lv [of k] by (auto simp: s'(3))
  qed (use val.id_table [OF inv, of r h] lv in \<open>auto simp: s'(3)\<close>)
  moreover have "receiptsByPayoutId s' p = Some k \<longleftrightarrow> k \<in> v_live s' \<and> h_payout (holders s' ! k) = p" for p k
  proof (cases "k = h")
    case False
    then show ?thesis using one(2) [of k] val.target_table [OF inv, of p k] same [OF False] lv [of k] by (auto simp: s'(2))
  qed (use val.target_table [OF inv, of p h] lv in \<open>auto simp: s'(2)\<close>)
  moreover have "h_payout (holders s' ! k) = payout_of (h_receipt (holders s' ! k))" if "k \<in> v_live s'" for k
    using that inv lv [of k] same [of k] by (simp add: validator_inv_def)
  ultimately show ?thesis unfolding validator_inv_def by blast
qed

lemma validator_step_inv:
  assumes "validator_inv payout_of s" and "names payout_of m" and "validator_step m s = Some s'"
  shows "validator_inv payout_of s'"
proof (cases m)
  case (VReceipt r p d)
  then show ?thesis using assms on_receipt_inv by auto
next
  case (VReceiptUpdate p d)
  then show ?thesis using assms on_receipt_update_inv by auto
next
  case (VDelete h)
  then show ?thesis using assms delete_receipt_inv by auto
next
  case (VData d)
  then show ?thesis using assms by (auto simp: on_data_def intro!: validator_inv_frame [OF assms(1)])
next
  case (VActivated a)
  then show ?thesis using assms by (auto simp: on_activated_def intro!: validator_inv_frame [OF assms(1)])
next
  case (VTotal t)
  then show ?thesis using assms by (auto simp: on_total_def intro!: validator_inv_frame [OF assms(1)])
qed

section \<open>Staker\<close>

record StakerReceiptGroup =
  sr_id :: pubkey
  sr_receipt :: pubkey
  sr_stake :: uint64

record staker =
  dataManager :: string
  dataReceiptByReceipt :: "pubkey \<rightharpoonup> StakerReceiptGroup"
  dataReceiptById :: "pubkey \<rightharpoonup> StakerReceiptGroup"
  k_sent_data :: "string list"
  k_sent_receipts :: "StakerReceiptGroup list"

definition CreateStake :: "string \<Rightarrow> staker" where
  "CreateStake d = \<lparr>dataManager = d, dataReceiptByReceipt = Map.empty, dataReceiptById = Map.empty,
     k_sent_data = [], k_sent_receipts = []\<rparr>"

text \<open>The two cases of the loop; a manager account that is closed ends it.\<close>

definition on_manager :: "bool \<Rightarrow> string \<Rightarrow> staker \<Rightarrow> staker option" where
  "on_manager is_open d s =
     (if is_open then Some (s\<lparr>k_sent_data := k_sent_data s @ [d], dataManager := d\<rparr>) else None)"

definition on_staker_receipt :: "bool \<Rightarrow> StakerReceiptGroup \<Rightarrow> staker \<Rightarrow> staker" where
  "on_staker_receipt is_open d s =
     (let s1 = s\<lparr>k_sent_receipts := k_sent_receipts s @ [d]\<rparr>
      in if is_open
         then s1\<lparr>dataReceiptByReceipt := (dataReceiptByReceipt s1)(sr_receipt d \<mapsto> d),
                 dataReceiptById := (dataReceiptById s1)(sr_id d \<mapsto> d)\<rparr>
         else case dataReceiptById s1 (sr_id d) of
                None \<Rightarrow> s1
              | Some y \<Rightarrow> s1\<lparr>dataReceiptById := (dataReceiptById s1)(sr_id d := None),
                              dataReceiptByReceipt := (dataReceiptByReceipt s1)(sr_receipt y := None)\<rparr>)"

datatype staker_msg = KManager bool string | KReceipt bool StakerReceiptGroup

fun staker_step :: "staker_msg \<Rightarrow> staker \<Rightarrow> staker option" where
  "staker_step (KManager b d) s = on_manager b d s"
| "staker_step (KReceipt b d) s = Some (on_staker_receipt b d s)"

definition AllReceipts :: "staker \<Rightarrow> StakerReceiptGroup set" where
  "AllReceipts s = ran (dataReceiptByReceipt s)"

text \<open>The address of a staker receipt and the receipt it is for determine each other.\<close>

definition staker_inv :: "(pubkey \<Rightarrow> pubkey) \<Rightarrow> staker \<Rightarrow> bool" where
  "staker_inv rc s \<longleftrightarrow>
     (\<forall>i x. dataReceiptById s i = Some x \<longleftrightarrow> x \<in> AllReceipts s \<and> sr_id x = i)
     \<and> (\<forall>r x. dataReceiptByReceipt s r = Some x \<longleftrightarrow> x \<in> AllReceipts s \<and> sr_receipt x = r)
     \<and> (\<forall>x \<in> AllReceipts s. sr_receipt x = rc (sr_id x))"

interpretation stk: paired_tables "staker_inv rc" AllReceipts "\<lambda>s. sr_id" "\<lambda>s. sr_receipt"
    dataReceiptById dataReceiptByReceipt for rc
  by unfold_locales (simp_all add: staker_inv_def)

fun belongs :: "(pubkey \<Rightarrow> pubkey) \<Rightarrow> staker_msg \<Rightarrow> bool" where
  "belongs rc (KReceipt b d) = (sr_receipt d = rc (sr_id d))"
| "belongs rc _ = True"

lemma staker_open_inv:
  assumes inv: "staker_inv rc s" and d: "sr_receipt d = rc (sr_id d)" and inj: "inj rc"
  shows "staker_inv rc (on_staker_receipt True d s)"
proof -
  let ?s = "on_staker_receipt True d s"
  have s: "dataReceiptByReceipt ?s = (dataReceiptByReceipt s)(sr_receipt d \<mapsto> d)"
    "dataReceiptById ?s = (dataReceiptById s)(sr_id d \<mapsto> d)" by (simp_all add: on_staker_receipt_def Let_def)
  have key: "sr_receipt x = sr_receipt d \<longleftrightarrow> sr_id x = sr_id d" if "x \<in> AllReceipts s" for x
    using that inv d inj by (auto simp: staker_inv_def inj_eq)
  have all: "x \<in> AllReceipts ?s \<longleftrightarrow> x = d \<or> x \<in> AllReceipts s \<and> sr_receipt x \<noteq> sr_receipt d" for x
  proof -
    have "x \<in> AllReceipts ?s \<longleftrightarrow> x = d \<or> (\<exists>r. r \<noteq> sr_receipt d \<and> dataReceiptByReceipt s r = Some x)"
      unfolding AllReceipts_def s(1) by (auto simp: ran_def)
    then show ?thesis using stk.target_table [OF inv] by auto
  qed
  have "dataReceiptById ?s i = Some x \<longleftrightarrow> x \<in> AllReceipts ?s \<and> sr_id x = i" for i x
    using key [of x] stk.id_table [OF inv, of i x] unfolding all s(2) by (cases "i = sr_id d") auto
  moreover have "dataReceiptByReceipt ?s r = Some x \<longleftrightarrow> x \<in> AllReceipts ?s \<and> sr_receipt x = r" for r x
    using stk.target_table [OF inv, of r x] unfolding all s(1) by (cases "r = sr_receipt d") auto
  moreover have "sr_receipt x = rc (sr_id x)" if "x \<in> AllReceipts ?s" for x
    using that inv d unfolding all by (auto simp: staker_inv_def)
  ultimately show ?thesis unfolding staker_inv_def by blast
qed

lemma staker_close_inv:
  assumes inv: "staker_inv rc s"
  shows "staker_inv rc (on_staker_receipt False d s)"
proof (cases "dataReceiptById s (sr_id d)")
  case None
  then show ?thesis using inv by (simp add: on_staker_receipt_def Let_def staker_inv_def AllReceipts_def)
next
  case (Some y)
  let ?s = "on_staker_receipt False d s"
  have y: "y \<in> AllReceipts s" "sr_id y = sr_id d" using stk.id_table [OF inv] Some by auto
  have s: "dataReceiptByReceipt ?s = (dataReceiptByReceipt s)(sr_receipt y := None)"
    "dataReceiptById ?s = (dataReceiptById s)(sr_id y := None)"
    using Some y(2) by (simp_all add: on_staker_receipt_def Let_def)
  have all: "x \<in> AllReceipts ?s \<longleftrightarrow> x \<in> AllReceipts s \<and> x \<noteq> y" for x
  proof -
    have "x \<in> AllReceipts ?s \<longleftrightarrow> (\<exists>r. r \<noteq> sr_receipt y \<and> dataReceiptByReceipt s r = Some x)"
      unfolding AllReceipts_def s(1) by (auto simp: ran_def)
    then show ?thesis using stk.target_table [OF inv] stk.one_entry [OF inv _ y(1)] by auto
  qed
  have one: "sr_id x \<noteq> sr_id y" "sr_receipt x \<noteq> sr_receipt y" if "x \<in> AllReceipts s" "x \<noteq> y" for x
    using stk.one_entry [OF inv that(1) y(1)] that(2) by auto
  have "dataReceiptById ?s i = Some x \<longleftrightarrow> x \<in> AllReceipts ?s \<and> sr_id x = i" for i x
    using one(1) [of x] stk.id_table [OF inv, of i x] unfolding all s(2) by (cases "i = sr_id y") auto
  moreover have "dataReceiptByReceipt ?s r = Some x \<longleftrightarrow> x \<in> AllReceipts ?s \<and> sr_receipt x = r" for r x
    using one(2) [of x] stk.target_table [OF inv, of r x] unfolding all s(1) by (cases "r = sr_receipt y") auto
  moreover have "sr_receipt x = rc (sr_id x)" if "x \<in> AllReceipts ?s" for x
    using that inv unfolding all by (auto simp: staker_inv_def)
  ultimately show ?thesis unfolding staker_inv_def by blast
qed

lemma staker_step_inv:
  assumes "staker_inv rc s" and "inj rc" and "belongs rc m" and "staker_step m s = Some s'"
  shows "staker_inv rc s'"
proof (cases m)
  case (KManager b d)
  then show ?thesis using assms(1,4)
    by (auto simp: on_manager_def staker_inv_def AllReceipts_def split: if_splits)
next
  case (KReceipt b d)
  then show ?thesis
    using assms staker_open_inv [OF assms(1) _ assms(2)] staker_close_inv [OF assms(1)] by (cases b) auto
qed

section \<open>Receipt\<close>

record stakerInfo =
  si_id :: pubkey
  si_stake :: uint64

record receipt =
  rdata :: string
  stakers :: "pubkey \<rightharpoonup> stakerInfo"
  registeredStake :: uint64
  r_sent :: "string list"

definition CreateReceipt :: "string \<Rightarrow> receipt" where
  "CreateReceipt d = \<lparr>rdata = d, stakers = Map.empty, registeredStake = 0, r_sent = []\<rparr>"

definition on_receipt_data :: "string \<Rightarrow> receipt \<Rightarrow> receipt" where
  "on_receipt_data d s = s\<lparr>r_sent := r_sent s @ [d], rdata := d\<rparr>"

text \<open>A staker manager counts once; the sum is a 64-bit number.\<close>

definition on_staker :: "pubkey \<Rightarrow> pubkey \<Rightarrow> uint64 \<Rightarrow> receipt \<Rightarrow> receipt" where
  "on_staker manager i stake s =
     (if stakers s manager \<noteq> None then s
      else s\<lparr>stakers := (stakers s)(manager \<mapsto> \<lparr>si_id = i, si_stake = stake\<rparr>),
             registeredStake := registeredStake s + stake\<rparr>)"

lemma on_staker_finite: "finite (dom (stakers s)) \<Longrightarrow> finite (dom (stakers (on_staker m i k s)))"
  by (simp add: on_staker_def)

lemma registered_sum:
  assumes "finite (dom (stakers s))"
    and "registeredStake s = (\<Sum>m \<in> dom (stakers s). si_stake (the (stakers s m)))"
  shows "registeredStake (on_staker m i k s) =
    (\<Sum>n \<in> dom (stakers (on_staker m i k s)). si_stake (the (stakers (on_staker m i k s) n)))"
proof (cases "stakers s m")
  case None
  then have "m \<notin> dom (stakers s)" by auto
  moreover have "(\<Sum>n \<in> dom (stakers s). si_stake (the (((stakers s)(m \<mapsto> \<lparr>si_id = i, si_stake = k\<rparr>)) n)))
      = (\<Sum>n \<in> dom (stakers s). si_stake (the (stakers s n)))"
    using None by (intro sum.cong) auto
  ultimately show ?thesis using assms None by (simp add: on_staker_def add.commute)
qed (use assms in \<open>simp add: on_staker_def\<close>)

section \<open>Property\<close>

text \<open>
  C18. Validators and stakers keep their two tables in step. For a validator whose receipt accounts
  always name the same payout, and for a staker whose staker receipts are in one to one
  correspondence with receipts, after any sequence of messages an entry is found under the address of
  its account exactly when it is found under the account it refers to, and the two lookups return the
  same entry with its latest data.
\<close>

theorem tables_in_step:
  assumes "run_steps validator_step ms (CreateValidator d) = Some s" and "\<forall>m \<in> set ms. names payout_of m"
    and "run_steps staker_step ks (CreateStake e) = Some t" and "\<forall>k \<in> set ks. belongs rc k" and "inj rc"
  shows "(ReceiptById r s = Some h \<longleftrightarrow> h_receipt h = r \<and> ReceiptByPayoutId (payout_of r) s = Some h \<and> h_live h)
    \<and> (dataReceiptById t i = Some x \<longleftrightarrow> sr_id x = i \<and> dataReceiptByReceipt t (rc i) = Some x)"
proof
  have "validator_inv payout_of (CreateValidator d)"
    by (simp add: validator_inv_def CreateValidator_def v_live_def)
  then have inv: "validator_inv payout_of s"
    using run_steps_invariant [OF assms(1), where I = "validator_inv payout_of"] validator_step_inv assms(2) by blast
  have lv: "k \<in> v_live s \<Longrightarrow> h_live (holders s ! k)" for k by (simp add: v_live_def)
  have pay: "h_payout (holders s ! k) = payout_of (h_receipt (holders s ! k))" if "k \<in> v_live s" for k
    using inv that by (simp add: validator_inv_def)
  show "ReceiptById r s = Some h \<longleftrightarrow> h_receipt h = r \<and> ReceiptByPayoutId (payout_of r) s = Some h \<and> h_live h"
    using val.id_table [OF inv, of r] val.target_table [OF inv, of "payout_of r"] pay lv
    unfolding ReceiptById_def ReceiptByPayoutId_def map_option_eq_Some by metis
  have "staker_inv rc (CreateStake e)" by (simp add: staker_inv_def CreateStake_def AllReceipts_def)
  then have tinv: "staker_inv rc t"
    using run_steps_invariant [OF assms(3), where I = "staker_inv rc"] staker_step_inv assms(4,5) by blast
  then have "sr_receipt x = rc (sr_id x)" if "x \<in> AllReceipts t" using that by (simp add: staker_inv_def)
  then show "dataReceiptById t i = Some x \<longleftrightarrow> sr_id x = i \<and> dataReceiptByReceipt t (rc i) = Some x"
    using stk.id_table [OF tinv, of i x] stk.target_table [OF tinv, of "rc i" x] by auto
qed

definition demo_sr :: StakerReceiptGroup where
  "demo_sr = \<lparr>sr_id = ''k'', sr_receipt = ''k'', sr_stake = 5\<rparr>"

definition demo_holder :: receiptHolder where
  "demo_holder = \<lparr>h_receipt = ''r'', h_payout = ''p'', h_data = ''new'', h_live = True\<rparr>"

theorem tables_in_step_witness:
  "\<exists>s t. run_steps validator_step [VReceipt ''r'' ''p'' ''old'', VReceiptUpdate ''p'' ''new''] (CreateValidator ''d'') = Some s
    \<and> run_steps staker_step [KReceipt True demo_sr] (CreateStake ''e'') = Some t
    \<and> ReceiptById ''r'' s = Some demo_holder \<and> ReceiptByPayoutId ''p'' s = Some demo_holder
    \<and> dataReceiptById t ''k'' = Some demo_sr \<and> dataReceiptByReceipt t ''k'' = Some demo_sr"
proof -
  let ?ms = "[VReceipt ''r'' ''p'' ''old'', VReceiptUpdate ''p'' ''new'']" and ?ks = "[KReceipt True demo_sr]"
  obtain s where s: "run_steps validator_step ?ms (CreateValidator ''d'') = Some s"
    "ReceiptById ''r'' s = Some demo_holder"
    by (simp add: on_receipt_def on_receipt_update_def CreateValidator_def ReceiptById_def Let_def demo_holder_def)
  obtain t where t: "run_steps staker_step ?ks (CreateStake ''e'') = Some t" "dataReceiptById t ''k'' = Some demo_sr"
    by (simp add: on_staker_receipt_def CreateStake_def Let_def demo_sr_def)
  show ?thesis
    using tables_in_step [OF s(1) _ t(1), of "\<lambda>_. ''p''" "\<lambda>x. x" "''r''" demo_holder "''k''" demo_sr] s t
    by (simp add: demo_sr_def)
qed

end
