(* ===== verification/AccountFeed.thy ===== *)
theory AccountFeed
  imports Router
begin

text \<open>
  The accounts of the program, state/sub: the first download of all of them (FetchProgramAll), the
  subscription that turns every later change into an announcement (loopSubscribePipeline), and the
  start of the router on what was downloaded (init of state/router).

  The layout of an account belongs to the package cba, which is not part of the repository: its
  discriminators and its Borsh decoders are the fields of the record \<open>cba\<close>, an argument of the
  definitions. A subscription home is represented by the list of the values broadcast so far; its
  subscribers are the subject of the theory Subscription.
\<close>

section \<open>Accounts\<close>

type_synonym bytes = "8 word list"

record account =
  acc_Pubkey :: pubkey
  acc_Data :: bytes
  acc_Lamports :: uint64

record Controller =
  ControllerBump :: "8 word"

record ValidatorManager =
  vm_Controller :: pubkey
  vm_data :: validator_data

record cbaPipeline =
  cp_Controller :: pubkey
  cp_data :: string

record Refunds =
  rf_Pipeline :: pubkey
  rf_Refunds :: "Claim list"

record cba =
  ControllerDiscriminator :: bytes
  ValidatorManagerDiscriminator :: bytes
  PipelineDiscriminator :: bytes
  PeriodRingDiscriminator :: bytes
  RefundsDiscriminator :: bytes
  BidListDiscriminator :: bytes
  StakerManagerDiscriminator :: bytes
  StakerReceiptDiscriminator :: bytes
  ReceiptDiscriminator :: bytes
  PayoutDiscriminator :: bytes
  decController :: "bytes \<Rightarrow> err + Controller"
  decValidator :: "bytes \<Rightarrow> err + ValidatorManager"
  decPipeline :: "bytes \<Rightarrow> err + cbaPipeline"
  decPeriodRing :: "bytes \<Rightarrow> err + period_ring"
  decRefunds :: "bytes \<Rightarrow> err + Refunds"
  decBidList :: "bytes \<Rightarrow> err + bid_list"
  decStake :: "bytes \<Rightarrow> err + stake_data"
  decStakerReceipt :: "bytes \<Rightarrow> err + staker_receipt"
  decReceipt :: "bytes \<Rightarrow> err + receipt_data"
  decPayout :: "bytes \<Rightarrow> err + payout_data"

text \<open>The groups of data.go: an account with its id and whether it is open.\<close>

record 'd group =
  g_Id :: pubkey
  g_Data :: 'd
  g_IsOpen :: bool

type_synonym ValidatorGroup = "ValidatorManager group"
type_synonym PipelineGroup = "cbaPipeline group"
type_synonym BidGroup = "bid_list group"
type_synonym PeriodGroup = "period_ring group"
type_synonym StakeGroup = "stake_data group"
type_synonym StakerReceiptGroup = "staker_receipt group"
type_synonym ReceiptGroup = "receipt_data group"
type_synonym PayoutGroup = "payout_data group"

record BidSummary =
  bs_Payout :: pubkey
  bs_TotalDeposits :: uint64

definition opened :: "pubkey \<Rightarrow> 'd \<Rightarrow> 'd group" where
  "opened k d = \<lparr>g_Id = k, g_Data = d, g_IsOpen = True\<rparr>"

text \<open>A closed account is announced with the zero value of its data.\<close>

definition closed :: "pubkey \<Rightarrow> 'd \<Rightarrow> 'd group" where
  "closed k zero = \<lparr>g_Id = k, g_Data = zero, g_IsOpen = False\<rparr>"

definition zero_ValidatorManager :: ValidatorManager where
  "zero_ValidatorManager = \<lparr>vm_Controller = Zero, vm_data = \<lparr>vd_vote = Zero, vd_ring = []\<rparr>\<rparr>"

definition zero_Pipeline :: cbaPipeline where
  "zero_Pipeline = \<lparr>cp_Controller = Zero, cp_data = []\<rparr>"

definition zero_StakerManager :: stake_data where
  "zero_StakerManager = \<lparr>sd_stake = Zero\<rparr>"

definition zero_Receipt :: receipt_data where
  "zero_Receipt = \<lparr>rd_payout = Zero, rd_validator = Zero\<rparr>"

definition zero_Payout :: payout_data where
  "zero_Payout = \<lparr>pd_pipeline = Zero, pd_start = 0, pd_length = 0\<rparr>"

definition GetBidSummary :: "bid_list \<Rightarrow> BidSummary" where
  "GetBidSummary l =
     \<lparr>bs_Payout = fst l, bs_TotalDeposits = foldl (\<lambda>acc b. acc + Deposit b) 0 (Book (snd l))\<rparr>"

section \<open>Kinds of accounts\<close>

datatype DATA_TYPE =
    TYPE_CONTROLLER | TYPE_VALIDATOR | TYPE_PIPELINE | TYPE_BIDS | TYPE_PERIODS | TYPE_STAKER
  | TYPE_PAYOUT | TYPE_RECEIPT | TYPE_STAKER_RECEIPT | TYPE_REFUND

text \<open>The first case of a switch whose label is the given value.\<close>

definition switch_on :: "('k \<times> 'v) list \<Rightarrow> 'k \<Rightarrow> 'v option" where
  "switch_on cases k = map_of cases k"

text \<open>The cases of FetchProgramAll, which compares the first eight bytes.\<close>

definition fetch_cases :: "cba \<Rightarrow> (bytes \<times> DATA_TYPE) list" where
  "fetch_cases c =
     [(ControllerDiscriminator c, TYPE_CONTROLLER), (ValidatorManagerDiscriminator c, TYPE_VALIDATOR),
      (PipelineDiscriminator c, TYPE_PIPELINE), (PeriodRingDiscriminator c, TYPE_PERIODS),
      (RefundsDiscriminator c, TYPE_REFUND), (BidListDiscriminator c, TYPE_BIDS),
      (StakerManagerDiscriminator c, TYPE_STAKER), (StakerReceiptDiscriminator c, TYPE_STAKER_RECEIPT),
      (ReceiptDiscriminator c, TYPE_RECEIPT), (PayoutDiscriminator c, TYPE_PAYOUT)]"

text \<open>binary.BigEndian.Uint64 on a slice of eight bytes.\<close>

definition BigEndian_Uint64 :: "bytes \<Rightarrow> uint64" where
  "BigEndian_Uint64 bs = of_nat (foldl (\<lambda>a b. 256 * a + unat b) 0 bs)"

text \<open>The cases of loopSubscribePipeline, which compares numbers, in its own order.\<close>

definition feed_cases :: "cba \<Rightarrow> (uint64 \<times> DATA_TYPE) list" where
  "feed_cases c =
     [(BigEndian_Uint64 (ControllerDiscriminator c), TYPE_CONTROLLER),
      (BigEndian_Uint64 (ValidatorManagerDiscriminator c), TYPE_VALIDATOR),
      (BigEndian_Uint64 (PipelineDiscriminator c), TYPE_PIPELINE),
      (BigEndian_Uint64 (BidListDiscriminator c), TYPE_BIDS),
      (BigEndian_Uint64 (PeriodRingDiscriminator c), TYPE_PERIODS),
      (BigEndian_Uint64 (StakerManagerDiscriminator c), TYPE_STAKER),
      (BigEndian_Uint64 (StakerReceiptDiscriminator c), TYPE_STAKER_RECEIPT),
      (BigEndian_Uint64 (ReceiptDiscriminator c), TYPE_RECEIPT),
      (BigEndian_Uint64 (PayoutDiscriminator c), TYPE_PAYOUT),
      (BigEndian_Uint64 (RefundsDiscriminator c), TYPE_REFUND)]"

definition on_decoded :: "err + 'a \<Rightarrow> ('a \<Rightarrow> 'b) \<Rightarrow> err + 'b" where
  "on_decoded d f = (case d of Inl e \<Rightarrow> Inl e | Inr x \<Rightarrow> Inr (f x))"

section \<open>The download\<close>

record ProgramAllResult =
  par_Controller :: "Controller option"
  par_Validator :: "ValidatorGroup Generic"
  par_Pipeline :: "PipelineGroup Generic"
  par_Refund :: "pubkey \<rightharpoonup> Refunds"
  par_PeriodRing :: "pubkey \<rightharpoonup> PeriodGroup"
  par_BidList :: "pubkey \<rightharpoonup> BidGroup"
  par_Stake :: "StakeGroup Generic"
  par_StakeReceipt :: "StakerReceiptGroup Generic"
  par_Receipt :: "ReceiptGroup Generic"
  par_Payout :: "PayoutGroup Generic"

definition createProgramAllResult :: ProgramAllResult where
  "createProgramAllResult =
     \<lparr>par_Controller = None, par_Validator = CreateGeneric, par_Pipeline = CreateGeneric,
      par_Refund = Map.empty, par_PeriodRing = Map.empty, par_BidList = Map.empty,
      par_Stake = CreateGeneric, par_StakeReceipt = CreateGeneric, par_Receipt = CreateGeneric,
      par_Payout = CreateGeneric\<rparr>"

fun fetch_decode :: "cba \<Rightarrow> pubkey \<Rightarrow> 8 word \<Rightarrow> account \<Rightarrow> DATA_TYPE \<Rightarrow> ProgramAllResult \<Rightarrow> err + ProgramAllResult" where
  "fetch_decode c controllerId controllerBump a TYPE_CONTROLLER ans =
     on_decoded (decController c (acc_Data a)) (\<lambda>x.
       if ControllerBump x = controllerBump \<and> controllerId = acc_Pubkey a then ans\<lparr>par_Controller := Some x\<rparr> else ans)"
| "fetch_decode c controllerId controllerBump a TYPE_VALIDATOR ans =
     on_decoded (decValidator c (acc_Data a)) (\<lambda>x.
       if vm_Controller x = controllerId
       then ans\<lparr>par_Validator := snd (Append (opened (acc_Pubkey a) x) (par_Validator ans))\<rparr> else ans)"
| "fetch_decode c controllerId controllerBump a TYPE_PIPELINE ans =
     on_decoded (decPipeline c (acc_Data a)) (\<lambda>x.
       if cp_Controller x = controllerId
       then ans\<lparr>par_Pipeline := snd (Append (opened (acc_Pubkey a) x) (par_Pipeline ans))\<rparr> else ans)"
| "fetch_decode c controllerId controllerBump a TYPE_PERIODS ans =
     on_decoded (decPeriodRing c (acc_Data a)) (\<lambda>x.
       ans\<lparr>par_PeriodRing := (par_PeriodRing ans)(fst x \<mapsto> opened (acc_Pubkey a) x)\<rparr>)"
| "fetch_decode c controllerId controllerBump a TYPE_REFUND ans =
     on_decoded (decRefunds c (acc_Data a)) (\<lambda>x. ans\<lparr>par_Refund := (par_Refund ans)(rf_Pipeline x \<mapsto> x)\<rparr>)"
| "fetch_decode c controllerId controllerBump a TYPE_BIDS ans =
     on_decoded (decBidList c (acc_Data a)) (\<lambda>x.
       ans\<lparr>par_BidList := (par_BidList ans)(fst x \<mapsto> opened (acc_Pubkey a) x)\<rparr>)"
| "fetch_decode c controllerId controllerBump a TYPE_STAKER ans =
     on_decoded (decStake c (acc_Data a)) (\<lambda>x.
       ans\<lparr>par_Stake := snd (Append (opened (acc_Pubkey a) x) (par_Stake ans))\<rparr>)"
| "fetch_decode c controllerId controllerBump a TYPE_STAKER_RECEIPT ans =
     on_decoded (decStakerReceipt c (acc_Data a)) (\<lambda>x.
       ans\<lparr>par_StakeReceipt := snd (Append (opened (acc_Pubkey a) x) (par_StakeReceipt ans))\<rparr>)"
| "fetch_decode c controllerId controllerBump a TYPE_RECEIPT ans =
     on_decoded (decReceipt c (acc_Data a)) (\<lambda>x.
       ans\<lparr>par_Receipt := snd (Append (opened (acc_Pubkey a) x) (par_Receipt ans))\<rparr>)"
| "fetch_decode c controllerId controllerBump a TYPE_PAYOUT ans =
     on_decoded (decPayout c (acc_Data a)) (\<lambda>x.
       ans\<lparr>par_Payout := snd (Append (opened (acc_Pubkey a) x) (par_Payout ans))\<rparr>)"

definition fetch_account :: "cba \<Rightarrow> pubkey \<Rightarrow> 8 word \<Rightarrow> account \<Rightarrow> ProgramAllResult \<Rightarrow> err + ProgramAllResult" where
  "fetch_account c controllerId controllerBump a ans =
     (if 0 < acc_Lamports a then
        if length (acc_Data a) < 8 then Inl ''account is the wrong size''
        else if 8 < length (acc_Data a) then
          (case switch_on (fetch_cases c) (take 8 (acc_Data a)) of
             None \<Rightarrow> Inr ans
           | Some k \<Rightarrow> fetch_decode c controllerId controllerBump a k ans)
        else Inr ans
      else Inr ans)"

fun fetch_loop :: "cba \<Rightarrow> pubkey \<Rightarrow> 8 word \<Rightarrow> account list \<Rightarrow> ProgramAllResult \<Rightarrow> err + ProgramAllResult" where
  "fetch_loop c controllerId controllerBump [] ans = Inr ans"
| "fetch_loop c controllerId controllerBump (a # r) ans =
     (case fetch_account c controllerId controllerBump a ans of
        Inl e \<Rightarrow> Inl e
      | Inr ans' \<Rightarrow> fetch_loop c controllerId controllerBump r ans')"

text \<open>The id of the controller and the list of accounts come from outside and may be errors.\<close>

definition FetchProgramAll ::
  "cba \<Rightarrow> err + (pubkey \<times> 8 word) \<Rightarrow> err + account list \<Rightarrow> err + ProgramAllResult" where
  "FetchProgramAll c controller accounts =
     (case controller of
        Inl e \<Rightarrow> Inl e
      | Inr (controllerId, controllerBump) \<Rightarrow>
          (case accounts of
             Inl e \<Rightarrow> Inl e
           | Inr r \<Rightarrow>
               (case fetch_loop c controllerId controllerBump r createProgramAllResult of
                  Inl e \<Rightarrow> Inl e
                | Inr ans \<Rightarrow> if par_Controller ans = None then Inl ''no controller'' else Inr ans)))"

section \<open>The subscription\<close>

record internalSubscriptionProgramGroup =
  trackingAccounts :: "pubkey \<rightharpoonup> DATA_TYPE"
  in_controller :: "Controller list"
  in_validator :: "ValidatorGroup list"
  in_pipeline :: "PipelineGroup list"
  in_bidList :: "bid_list list"
  in_refund :: "Refunds list"
  in_bidSummary :: "BidSummary list"
  in_periodRing :: "period_ring list"
  in_stakeManager :: "StakeGroup list"
  in_stakeReceipt :: "StakerReceiptGroup list"
  in_receipt :: "ReceiptGroup list"
  in_payout :: "PayoutGroup list"

definition SubscribeProgramAll :: internalSubscriptionProgramGroup where
  "SubscribeProgramAll =
     \<lparr>trackingAccounts = Map.empty, in_controller = [], in_validator = [], in_pipeline = [], in_bidList = [],
      in_refund = [], in_bidSummary = [], in_periodRing = [], in_stakeManager = [], in_stakeReceipt = [],
      in_receipt = [], in_payout = []\<rparr>"

definition track :: "pubkey \<Rightarrow> DATA_TYPE \<Rightarrow> internalSubscriptionProgramGroup \<Rightarrow> internalSubscriptionProgramGroup" where
  "track k t s = s\<lparr>trackingAccounts := (trackingAccounts s)(k \<mapsto> t)\<rparr>"

fun on_live :: "cba \<Rightarrow> account \<Rightarrow> DATA_TYPE \<Rightarrow> internalSubscriptionProgramGroup \<Rightarrow> err + internalSubscriptionProgramGroup" where
  "on_live c a TYPE_CONTROLLER s = on_decoded (decController c (acc_Data a)) (\<lambda>y.
     track (acc_Pubkey a) TYPE_CONTROLLER (s\<lparr>in_controller := in_controller s @ [y]\<rparr>))"
| "on_live c a TYPE_VALIDATOR s = on_decoded (decValidator c (acc_Data a)) (\<lambda>y.
     track (acc_Pubkey a) TYPE_VALIDATOR (s\<lparr>in_validator := in_validator s @ [opened (acc_Pubkey a) y]\<rparr>))"
| "on_live c a TYPE_PIPELINE s = on_decoded (decPipeline c (acc_Data a)) (\<lambda>y.
     track (acc_Pubkey a) TYPE_PIPELINE (s\<lparr>in_pipeline := in_pipeline s @ [opened (acc_Pubkey a) y]\<rparr>))"
| "on_live c a TYPE_BIDS s = on_decoded (decBidList c (acc_Data a)) (\<lambda>y.
     s\<lparr>in_bidSummary := in_bidSummary s @ [\<lparr>bs_Payout = fst y, bs_TotalDeposits = TotalDeposits (snd y)\<rparr>],
       in_bidList := in_bidList s @ [y]\<rparr>)"
| "on_live c a TYPE_PERIODS s = on_decoded (decPeriodRing c (acc_Data a)) (\<lambda>y.
     s\<lparr>in_periodRing := in_periodRing s @ [y]\<rparr>)"
| "on_live c a TYPE_STAKER s = on_decoded (decStake c (acc_Data a)) (\<lambda>y.
     track (acc_Pubkey a) TYPE_STAKER (s\<lparr>in_stakeManager := in_stakeManager s @ [opened (acc_Pubkey a) y]\<rparr>))"
| "on_live c a TYPE_STAKER_RECEIPT s = on_decoded (decStakerReceipt c (acc_Data a)) (\<lambda>y.
     track (acc_Pubkey a) TYPE_STAKER_RECEIPT (s\<lparr>in_stakeReceipt := in_stakeReceipt s @ [opened (acc_Pubkey a) y]\<rparr>))"
| "on_live c a TYPE_RECEIPT s = on_decoded (decReceipt c (acc_Data a)) (\<lambda>y.
     track (acc_Pubkey a) TYPE_RECEIPT (s\<lparr>in_receipt := in_receipt s @ [opened (acc_Pubkey a) y]\<rparr>))"
| "on_live c a TYPE_PAYOUT s = on_decoded (decPayout c (acc_Data a)) (\<lambda>y.
     track (acc_Pubkey a) TYPE_PAYOUT (s\<lparr>in_payout := in_payout s @ [opened (acc_Pubkey a) y]\<rparr>))"
| "on_live c a TYPE_REFUND s = on_decoded (decRefunds c (acc_Data a)) (\<lambda>y.
     track (acc_Pubkey a) TYPE_REFUND (s\<lparr>in_refund := in_refund s @ [y]\<rparr>))"

definition on_deleted :: "pubkey \<Rightarrow> internalSubscriptionProgramGroup \<Rightarrow> internalSubscriptionProgramGroup" where
  "on_deleted k s =
     (case trackingAccounts s k of
        Some TYPE_VALIDATOR \<Rightarrow> s\<lparr>in_validator := in_validator s @ [closed k zero_ValidatorManager]\<rparr>
      | Some TYPE_PIPELINE \<Rightarrow> s\<lparr>in_pipeline := in_pipeline s @ [closed k zero_Pipeline]\<rparr>
      | Some TYPE_STAKER \<Rightarrow> s\<lparr>in_stakeManager := in_stakeManager s @ [closed k zero_StakerManager]\<rparr>
      | Some TYPE_PAYOUT \<Rightarrow> s\<lparr>in_payout := in_payout s @ [closed k zero_Payout]\<rparr>
      | Some TYPE_RECEIPT \<Rightarrow> s\<lparr>in_receipt := in_receipt s @ [closed k zero_Receipt]\<rparr>
      | _ \<Rightarrow> s)"

definition on_result :: "cba \<Rightarrow> account \<Rightarrow> internalSubscriptionProgramGroup \<Rightarrow> err + internalSubscriptionProgramGroup" where
  "on_result c a s =
     (if 8 \<le> length (acc_Data a) \<and> 0 < acc_Lamports a then
        (case switch_on (feed_cases c) (BigEndian_Uint64 (take 8 (acc_Data a))) of
           None \<Rightarrow> Inr s
         | Some k \<Rightarrow> on_live c a k s)
      else if 8 \<le> length (acc_Data a) then Inr s
      else Inr (on_deleted (acc_Pubkey a) s))"

text \<open>
  What the loop receives: the end of its context, an error of the stream, a value of an unexpected
  type, or an account. The result is what the loop sends on errorC when it has ended, None while it
  runs, and the state of the homes.
\<close>

datatype stream_msg = StreamDone | StreamError err | StreamBad | StreamResult account

fun loopSubscribePipeline :: "cba \<Rightarrow> stream_msg list \<Rightarrow> internalSubscriptionProgramGroup
    \<Rightarrow> err option option \<times> internalSubscriptionProgramGroup" where
  "loopSubscribePipeline c [] s = (None, s)"
| "loopSubscribePipeline c (StreamDone # ms) s = (Some None, s)"
| "loopSubscribePipeline c (StreamError e # ms) s = (Some (Some e), s)"
| "loopSubscribePipeline c (StreamBad # ms) s = (Some (Some ''bad program result''), s)"
| "loopSubscribePipeline c (StreamResult a # ms) s =
     (case on_result c a s of
        Inl e \<Rightarrow> (Some (Some e), s)
      | Inr s' \<Rightarrow> loopSubscribePipeline c ms s')"

section \<open>The start of the router\<close>

text \<open>
  The unmatched maps that init fills. No other function of the repository reads them.
\<close>

record unmatched =
  unmatchedRefunds :: "pubkey \<rightharpoonup> Refunds"
  unmatchedPeriodRings :: "pubkey \<rightharpoonup> period_ring"
  unmatchedBidLists :: "pubkey \<rightharpoonup> bid_list"

definition init_unmatched :: "ProgramAllResult \<Rightarrow> unmatched" where
  "init_unmatched all =
     \<lparr>unmatchedRefunds = par_Refund all,
      unmatchedPeriodRings = map_option g_Data \<circ> par_PeriodRing all,
      unmatchedBidLists = map_option g_Data \<circ> par_BidList all\<rparr>"

text \<open>Iterate with a callback that deletes nothing and ignores the index.\<close>

definition each :: "('a \<Rightarrow> 's \<Rightarrow> err option \<times> 's) \<Rightarrow> 'a Generic \<Rightarrow> 's \<Rightarrow> (err option \<times> 's) option" where
  "each f g s = map_option (\<lambda>(_, s', e). (e, s')) (Iterate (\<lambda>v i s. (snd (f v s), 0, fst (f v s))) g s)"

definition if_ok :: "(err option \<times> 's) option \<Rightarrow> ('s \<Rightarrow> (err option \<times> 's) option) \<Rightarrow> (err option \<times> 's) option" where
  "if_ok c f = (case c of None \<Rightarrow> None | Some (Some e, s) \<Rightarrow> Some (Some e, s) | Some (None, s) \<Rightarrow> f s)"

definition init :: "(pubkey \<Rightarrow> err option) \<Rightarrow> ProgramAllResult \<Rightarrow> (err option \<times> router) option" where
  "init create all =
     if_ok (each (\<lambda>obj s. (None, on_stake (g_Id obj) (g_IsOpen obj) (g_Data obj) s)) (par_Stake all) init_router) (\<lambda>s.
     if_ok (each (\<lambda>obj s. (None, Router.on_receipt (g_Id obj) (g_IsOpen obj) (g_Data obj) s)) (par_Receipt all) s) (\<lambda>s.
     if_ok (each (\<lambda>obj s. (None, Router.on_payout (g_Id obj) (g_IsOpen obj) (g_Data obj) s)) (par_Payout all) s) (\<lambda>s.
     if_ok (each (\<lambda>obj s. on_pipeline create (g_Id obj) (g_IsOpen obj) s) (par_Pipeline all) s) (\<lambda>s.
     each (\<lambda>obj s. (None, Router.on_validator (g_Id obj) (g_IsOpen obj) (vm_data (g_Data obj)) s)) (par_Validator all) s))))"

section \<open>The two switches agree\<close>

definition discriminators_ok :: "cba \<Rightarrow> bool" where
  "discriminators_ok c \<longleftrightarrow> (\<forall>b\<in>set (map fst (fetch_cases c)). length b = 8) \<and> distinct (map fst (fetch_cases c))"

definition be_nat :: "bytes \<Rightarrow> nat" where
  "be_nat bs = foldl (\<lambda>a b. 256 * a + unat b) 0 bs"

lemma be_nat_snoc [simp]: "be_nat (bs @ [b]) = 256 * be_nat bs + unat b" "be_nat [] = 0"
  by (simp_all add: be_nat_def)

lemma unat8_less: "unat (b :: 8 word) < 256"
  using unsigned_less [of b] by simp

lemma be_nat_less: "be_nat bs < 256 ^ length bs"
proof (induction bs rule: rev_induct)
  case (snoc b bs)
  have "256 * be_nat bs + unat b < 256 * be_nat bs + 256" using unat8_less [of b] by simp
  also have "\<dots> \<le> 256 * 256 ^ length bs" using snoc by simp
  finally show ?case by simp
qed simp

lemma be_nat_inject: "length xs = length ys \<Longrightarrow> be_nat xs = be_nat ys \<longleftrightarrow> xs = ys"
proof (induction xs arbitrary: ys rule: rev_induct)
  case (snoc x xs)
  then obtain y zs where ys: "ys = zs @ [y]" "length zs = length xs"
    by (cases ys rule: rev_cases) auto
  have "x = y \<and> be_nat xs = be_nat zs" if "256 * be_nat xs + unat x = 256 * be_nat zs + unat y"
  proof -
    have "(256 * be_nat xs + unat x) mod 256 = (256 * be_nat zs + unat y) mod 256" using that by simp
    then have "unat x = unat y" using unat8_less [of x] unat8_less [of y] by simp
    then show ?thesis using that by (simp add: word_unat_eq_iff)
  qed
  then show ?case using snoc.IH [of zs] ys by auto
qed simp

lemma BigEndian_inject:
  assumes "length xs = 8" "length ys = 8"
  shows "BigEndian_Uint64 xs = BigEndian_Uint64 ys \<longleftrightarrow> xs = ys"
proof -
  have u: "unat (BigEndian_Uint64 bs) = be_nat bs" if "length bs = 8" for bs
    using be_nat_less [of bs] that
    by (simp add: BigEndian_Uint64_def be_nat_def [symmetric] unat_of_nat take_bit_nat_eq_self)
  show ?thesis using u [OF assms(1)] u [OF assms(2)] be_nat_inject [of xs ys] assms
    by (auto simp: word_unat_eq_iff)
qed

lemma map_of_map_key:
  assumes "\<And>x. x \<in> set (map fst cs) \<Longrightarrow> f x = f k \<longleftrightarrow> x = k"
  shows "map_of (map (\<lambda>(x, y). (f x, y)) cs) (f k) = map_of cs k"
  using assms
proof (induction cs)
  case (Cons c cs)
  have "f (fst c) = f k \<longleftrightarrow> fst c = k" by (rule Cons.prems) simp
  moreover have "map_of (map (\<lambda>(x, y). (f x, y)) cs) (f k) = map_of cs k"
    by (rule Cons.IH) (use Cons.prems in simp)
  ultimately show ?case by (cases c) auto
qed simp

lemma map_of_distinct_perm:
  assumes "mset cs = mset ds" "distinct (map fst cs)"
  shows "map_of cs k = map_of ds k"
  using assms map_of_inject_set [of cs ds] mset_eq_setD [OF assms(1)]
  by (metis mset_eq_imp_distinct_iff mset_map)

lemma switches_agree:
  assumes "discriminators_ok c" "length b = 8"
  shows "switch_on (feed_cases c) (BigEndian_Uint64 b) = switch_on (fetch_cases c) b"
proof -
  let ?f = "\<lambda>(x, y :: DATA_TYPE). (BigEndian_Uint64 x, y)"
  let ?ds = "[(ControllerDiscriminator c, TYPE_CONTROLLER), (ValidatorManagerDiscriminator c, TYPE_VALIDATOR),
      (PipelineDiscriminator c, TYPE_PIPELINE), (BidListDiscriminator c, TYPE_BIDS),
      (PeriodRingDiscriminator c, TYPE_PERIODS), (StakerManagerDiscriminator c, TYPE_STAKER),
      (StakerReceiptDiscriminator c, TYPE_STAKER_RECEIPT), (ReceiptDiscriminator c, TYPE_RECEIPT),
      (PayoutDiscriminator c, TYPE_PAYOUT), (RefundsDiscriminator c, TYPE_REFUND)]"
  have m: "mset (fetch_cases c) = mset ?ds" by (simp add: fetch_cases_def)
  have l: "length x = 8" if "x \<in> set (map fst ?ds)" for x
    using that assms(1) by (auto simp: discriminators_ok_def fetch_cases_def)
  have "feed_cases c = map ?f ?ds" by (simp add: feed_cases_def)
  then have "map_of (feed_cases c) (BigEndian_Uint64 b) = map_of ?ds b"
    using map_of_map_key [of ?ds BigEndian_Uint64 b] BigEndian_inject [OF l assms(2)] by simp
  also have "\<dots> = map_of (fetch_cases c) b"
    using map_of_distinct_perm [OF m] assms(1) by (simp add: discriminators_ok_def)
  finally show ?thesis by (simp add: switch_on_def)
qed

section \<open>What the download returns\<close>

definition kind :: "cba \<Rightarrow> account \<Rightarrow> DATA_TYPE option" where
  "kind c a = (if 0 < acc_Lamports a \<and> 8 < length (acc_Data a)
     then switch_on (fetch_cases c) (take 8 (acc_Data a)) else None)"

definition entry_of :: "cba \<Rightarrow> DATA_TYPE \<Rightarrow> (bytes \<Rightarrow> err + 'd) \<Rightarrow> ('d \<Rightarrow> bool) \<Rightarrow> account \<Rightarrow> 'd group option" where
  "entry_of c t dec ok a =
     (if kind c a = Some t
      then (case dec (acc_Data a) of Inl e \<Rightarrow> None | Inr x \<Rightarrow> if ok x then Some (opened (acc_Pubkey a) x) else None)
      else None)"

definition entries :: "cba \<Rightarrow> DATA_TYPE \<Rightarrow> (bytes \<Rightarrow> err + 'd) \<Rightarrow> ('d \<Rightarrow> bool) \<Rightarrow> account list \<Rightarrow> 'd group list" where
  "entries c t dec ok r = List.map_filter (entry_of c t dec ok) r"

lemma entries_simps [simp]: "entries c t dec ok [] = []"
  "entries c t dec ok (a # r) =
     (case entry_of c t dec ok a of None \<Rightarrow> entries c t dec ok r | Some g \<Rightarrow> g # entries c t dec ok r)"
  by (simp_all add: entries_def List.map_filter_simps split: option.split)

fun decodes :: "cba \<Rightarrow> account \<Rightarrow> DATA_TYPE \<Rightarrow> bool" where
  "decodes c a TYPE_CONTROLLER = (\<not> isl (decController c (acc_Data a)))"
| "decodes c a TYPE_VALIDATOR = (\<not> isl (decValidator c (acc_Data a)))"
| "decodes c a TYPE_PIPELINE = (\<not> isl (decPipeline c (acc_Data a)))"
| "decodes c a TYPE_PERIODS = (\<not> isl (decPeriodRing c (acc_Data a)))"
| "decodes c a TYPE_REFUND = (\<not> isl (decRefunds c (acc_Data a)))"
| "decodes c a TYPE_BIDS = (\<not> isl (decBidList c (acc_Data a)))"
| "decodes c a TYPE_STAKER = (\<not> isl (decStake c (acc_Data a)))"
| "decodes c a TYPE_STAKER_RECEIPT = (\<not> isl (decStakerReceipt c (acc_Data a)))"
| "decodes c a TYPE_RECEIPT = (\<not> isl (decReceipt c (acc_Data a)))"
| "decodes c a TYPE_PAYOUT = (\<not> isl (decPayout c (acc_Data a)))"

text \<open>A live account has at least eight bytes and decodes as what its discriminator says.\<close>

definition readable :: "cba \<Rightarrow> account \<Rightarrow> bool" where
  "readable c a \<longleftrightarrow> (0 < acc_Lamports a \<longrightarrow> 8 \<le> length (acc_Data a))
     \<and> (\<forall>t. kind c a = Some t \<longrightarrow> decodes c a t)"

definition is_controller :: "cba \<Rightarrow> pubkey \<Rightarrow> 8 word \<Rightarrow> account \<Rightarrow> bool" where
  "is_controller c cid bump a \<longleftrightarrow> acc_Pubkey a = cid
     \<and> entry_of c TYPE_CONTROLLER (decController c) (\<lambda>x. ControllerBump x = bump) a \<noteq> None"

definition lists_ok :: "ProgramAllResult \<Rightarrow> bool" where
  "lists_ok ans \<longleftrightarrow> list_inv (par_Validator ans) \<and> list_inv (par_Pipeline ans) \<and> list_inv (par_Stake ans)
     \<and> list_inv (par_StakeReceipt ans) \<and> list_inv (par_Receipt ans) \<and> list_inv (par_Payout ans)"

lemma contents_Append [simp]:
  "list_inv g \<Longrightarrow> list_inv (snd (Append v g))" "list_inv g \<Longrightarrow> contents (snd (Append v g)) = contents g @ [v]"
  using inv_Append [of g v] by (simp_all add: contents_def)

lemma on_decoded_Inr [simp]: "on_decoded d f = Inr y \<longleftrightarrow> (\<exists>x. d = Inr x \<and> y = f x)"
  by (auto simp: on_decoded_def split: sum.splits)

lemma isl_on_decoded [simp]: "isl (on_decoded d f) = isl d"
  by (auto simp: on_decoded_def split: sum.splits)

lemma fetch_account_kind:
  "fetch_account c cid bump a ans =
     (if 0 < acc_Lamports a \<and> length (acc_Data a) < 8 then Inl ''account is the wrong size''
      else case kind c a of None \<Rightarrow> Inr ans | Some t \<Rightarrow> fetch_decode c cid bump a t ans)"
  by (auto simp: fetch_account_def kind_def)

lemma isl_fetch_decode: "isl (fetch_decode c cid bump a t ans) = (\<not> decodes c a t)"
  by (cases t) simp_all

lemma isl_fetch_account: "isl (fetch_account c cid bump a ans) = (\<not> readable c a)"
  by (auto simp: fetch_account_kind readable_def isl_fetch_decode split: option.splits)

text \<open>The tables after the accounts \<open>r\<close>: every account has added itself to the table of its kind.\<close>

definition table :: "('d \<Rightarrow> pubkey \<times> 'v) \<Rightarrow> 'd list \<Rightarrow> (pubkey \<rightharpoonup> 'v)" where
  "table key gs = map_of (rev (map key gs))"

definition gathers :: "cba \<Rightarrow> pubkey \<Rightarrow> 8 word \<Rightarrow> account list \<Rightarrow> ProgramAllResult \<Rightarrow> ProgramAllResult \<Rightarrow> bool" where
  "gathers c cid bump r ans ans' \<longleftrightarrow> lists_ok ans'
     \<and> contents (par_Validator ans') = contents (par_Validator ans) @ entries c TYPE_VALIDATOR (decValidator c) (\<lambda>x. vm_Controller x = cid) r
     \<and> contents (par_Pipeline ans') = contents (par_Pipeline ans) @ entries c TYPE_PIPELINE (decPipeline c) (\<lambda>x. cp_Controller x = cid) r
     \<and> contents (par_Stake ans') = contents (par_Stake ans) @ entries c TYPE_STAKER (decStake c) (\<lambda>_. True) r
     \<and> contents (par_StakeReceipt ans') = contents (par_StakeReceipt ans) @ entries c TYPE_STAKER_RECEIPT (decStakerReceipt c) (\<lambda>_. True) r
     \<and> contents (par_Receipt ans') = contents (par_Receipt ans) @ entries c TYPE_RECEIPT (decReceipt c) (\<lambda>_. True) r
     \<and> contents (par_Payout ans') = contents (par_Payout ans) @ entries c TYPE_PAYOUT (decPayout c) (\<lambda>_. True) r
     \<and> par_BidList ans' = par_BidList ans ++ table (\<lambda>g. (fst (g_Data g), g)) (entries c TYPE_BIDS (decBidList c) (\<lambda>_. True) r)
     \<and> par_PeriodRing ans' = par_PeriodRing ans ++ table (\<lambda>g. (fst (g_Data g), g)) (entries c TYPE_PERIODS (decPeriodRing c) (\<lambda>_. True) r)
     \<and> par_Refund ans' = par_Refund ans ++ table (\<lambda>g. (rf_Pipeline (g_Data g), g_Data g)) (entries c TYPE_REFUND (decRefunds c) (\<lambda>_. True) r)
     \<and> (par_Controller ans' = None \<longleftrightarrow> par_Controller ans = None \<and> (\<forall>a\<in>set r. \<not> is_controller c cid bump a))"

lemma if_Some_None [simp]: "(if b then Some x else y) = None \<longleftrightarrow> \<not> b \<and> y = None"
  by simp

lemma gathers_account:
  assumes "fetch_account c cid bump a ans = Inr ans'" "lists_ok ans"
  shows "gathers c cid bump [a] ans ans'"
proof (cases "kind c a")
  case None
  then have "ans' = ans" using assms(1) by (auto simp: fetch_account_kind split: if_splits)
  then show ?thesis using None assms(2) by (simp add: gathers_def entry_of_def table_def is_controller_def)
next
  case (Some t)
  then have "fetch_decode c cid bump a t ans = Inr ans'"
    using assms(1) by (auto simp: fetch_account_kind split: if_splits)
  then show ?thesis using Some assms(2)
    by (cases t) (auto simp: gathers_def entry_of_def table_def is_controller_def lists_ok_def opened_def
        if_distrib [of par_Controller] cong: if_cong)
qed

lemma entries_append [simp]: "entries c t dec ok (r @ r') = entries c t dec ok r @ entries c t dec ok r'"
  by (simp add: entries_def map_filter_append)

lemma table_append: "table key (xs @ ys) = table key xs ++ table key ys"
  by (simp add: table_def)

lemma gathers_append:
  assumes "gathers c cid bump r a1 a2" "gathers c cid bump r' a2 a3"
  shows "gathers c cid bump (r @ r') a1 a3"
  using assms unfolding gathers_def table_append entries_append
  by (intro conjI) (simp_all, blast)

lemma fetch_loop_gathers:
  "fetch_loop c cid bump r ans = Inr ans' \<Longrightarrow> lists_ok ans \<Longrightarrow> gathers c cid bump r ans ans'"
proof (induction r arbitrary: ans)
  case Nil
  then show ?case by (simp add: gathers_def table_def)
next
  case (Cons a r)
  then obtain a1 where a: "fetch_account c cid bump a ans = Inr a1" "fetch_loop c cid bump r a1 = Inr ans'"
    by (auto split: sum.splits)
  have g: "gathers c cid bump [a] ans a1" by (rule gathers_account [OF a(1) Cons.prems(2)])
  then show ?case using gathers_append [OF g Cons.IH [OF a(2)]] by (simp add: gathers_def)
qed

lemma isl_fetch_loop: "isl (fetch_loop c cid bump r ans) \<longleftrightarrow> (\<exists>a\<in>set r. \<not> readable c a)"
proof (induction r arbitrary: ans)
  case (Cons a r)
  then show ?case using isl_fetch_account [of c cid bump a ans]
    by (cases "fetch_account c cid bump a ans") auto
qed simp

lemma lists_ok_create: "lists_ok createProgramAllResult" "gathers c cid bump [] x x \<longleftrightarrow> lists_ok x"
  by (auto simp: lists_ok_def createProgramAllResult_def list_inv_def gathers_def table_def intro: linked_Create)

lemma fetched_gathers:
  "FetchProgramAll c (Inr (cid, bump)) (Inr r) = Inr all \<Longrightarrow> gathers c cid bump r createProgramAllResult all"
  using fetch_loop_gathers [OF _ lists_ok_create(1)] by (auto simp: FetchProgramAll_def split: sum.splits if_splits)

lemma fetched_lists_ok: "FetchProgramAll c (Inr (cid, bump)) (Inr r) = Inr all \<Longrightarrow> lists_ok all"
  using fetched_gathers [of c cid bump r all] by (simp add: gathers_def)

lemma fetch_succeeds:
  "(\<exists>all. FetchProgramAll c (Inr (cid, bump)) (Inr r) = Inr all)
      \<longleftrightarrow> (\<forall>a\<in>set r. readable c a) \<and> (\<exists>a\<in>set r. is_controller c cid bump a)"
proof -
  let ?l = "fetch_loop c cid bump r createProgramAllResult"
  have n: "par_Controller createProgramAllResult = None" by (simp add: createProgramAllResult_def)
  have k: "par_Controller ans = None \<longleftrightarrow> (\<forall>a\<in>set r. \<not> is_controller c cid bump a)" if "?l = Inr ans" for ans
    using fetch_loop_gathers [OF that lists_ok_create(1)] n by (simp add: gathers_def)
  show ?thesis using isl_fetch_loop [of c cid bump r createProgramAllResult] k
    by (cases ?l) (auto simp: FetchProgramAll_def)
qed

text \<open>
  C22. The download succeeds exactly when every live account has at least eight bytes and decodes as
  its discriminator says and one of them is the controller; then each table holds the decoded
  accounts of its kind in the order of the download, validators and pipelines only those of this
  controller, and a bid list, period ring or refund account is found under the payout or pipeline
  it belongs to, the last one if there are several.
\<close>

theorem download_gathers_every_account:
  "((\<exists>all. FetchProgramAll c (Inr (cid, bump)) (Inr r) = Inr all)
      \<longleftrightarrow> (\<forall>a\<in>set r. readable c a) \<and> (\<exists>a\<in>set r. is_controller c cid bump a))
   \<and> (\<forall>all. FetchProgramAll c (Inr (cid, bump)) (Inr r) = Inr all
        \<longrightarrow> gathers c cid bump r createProgramAllResult all)"
  using fetch_succeeds fetched_gathers by blast

section \<open>What the subscription announces\<close>

text \<open>
  The kind under which an account is announced, and the kind under which it is remembered: bid lists
  and period rings are announced but not remembered.
\<close>

definition seen :: "cba \<Rightarrow> account \<Rightarrow> DATA_TYPE option" where
  "seen c a = (if 8 \<le> length (acc_Data a) \<and> 0 < acc_Lamports a
     then switch_on (feed_cases c) (BigEndian_Uint64 (take 8 (acc_Data a))) else None)"

definition remembered :: "DATA_TYPE option \<Rightarrow> bool" where
  "remembered t \<longleftrightarrow> t \<noteq> None \<and> t \<noteq> Some TYPE_BIDS \<and> t \<noteq> Some TYPE_PERIODS"

definition last_seen :: "cba \<Rightarrow> account list \<Rightarrow> pubkey \<Rightarrow> DATA_TYPE option" where
  "last_seen c as k = foldl (\<lambda>t a. if acc_Pubkey a = k \<and> remembered (seen c a) then seen c a else t) None as"

text \<open>What one account adds to a stream after the accounts \<open>as\<close>, and a stream as a whole.\<close>

definition news_of :: "DATA_TYPE \<Rightarrow> (bytes \<Rightarrow> err + 'd) \<Rightarrow> 'd \<Rightarrow> cba \<Rightarrow> account list \<Rightarrow> account \<Rightarrow> 'd group list" where
  "news_of t dec zero c as a =
     (if seen c a = Some t then (case dec (acc_Data a) of Inl e \<Rightarrow> [] | Inr d \<Rightarrow> [opened (acc_Pubkey a) d])
      else if length (acc_Data a) < 8 \<and> last_seen c as (acc_Pubkey a) = Some t then [closed (acc_Pubkey a) zero]
      else [])"

definition news :: "DATA_TYPE \<Rightarrow> (bytes \<Rightarrow> err + 'd) \<Rightarrow> 'd \<Rightarrow> cba \<Rightarrow> account list \<Rightarrow> 'd group list" where
  "news t dec zero c as = concat (map (\<lambda>i. news_of t dec zero c (take i as) (as ! i)) [0..<length as])"

definition values_of :: "DATA_TYPE \<Rightarrow> (bytes \<Rightarrow> err + 'd) \<Rightarrow> cba \<Rightarrow> account list \<Rightarrow> 'd list" where
  "values_of t dec c as = concat (map (\<lambda>a. if seen c a = Some t
     then (case dec (acc_Data a) of Inl e \<Rightarrow> [] | Inr d \<Rightarrow> [d]) else []) as)"

lemma news_snoc [simp]: "news t dec zero c (as @ [a]) = news t dec zero c as @ news_of t dec zero c as a"
  "news t dec zero c [] = []"
  by (auto simp: news_def nth_append intro!: arg_cong [where f = concat] map_cong)

lemma values_snoc [simp]: "values_of t dec c (as @ [a]) = values_of t dec c as
    @ (if seen c a = Some t then (case dec (acc_Data a) of Inl e \<Rightarrow> [] | Inr d \<Rightarrow> [d]) else [])"
  "values_of t dec c [] = []"
  by (simp_all add: values_of_def)

lemma last_seen_snoc [simp]: "last_seen c (as @ [a]) k =
    (if acc_Pubkey a = k \<and> remembered (seen c a) then seen c a else last_seen c as k)" "last_seen c [] k = None"
  by (simp_all add: last_seen_def)

text \<open>The homes as functions of the history.\<close>

definition tells :: "cba \<Rightarrow> account list \<Rightarrow> internalSubscriptionProgramGroup \<Rightarrow> bool" where
  "tells c as s \<longleftrightarrow>
     trackingAccounts s = last_seen c as
   \<and> in_validator s = news TYPE_VALIDATOR (decValidator c) zero_ValidatorManager c as
   \<and> in_pipeline s = news TYPE_PIPELINE (decPipeline c) zero_Pipeline c as
   \<and> in_stakeManager s = news TYPE_STAKER (decStake c) zero_StakerManager c as
   \<and> in_receipt s = news TYPE_RECEIPT (decReceipt c) zero_Receipt c as
   \<and> in_payout s = news TYPE_PAYOUT (decPayout c) zero_Payout c as
   \<and> map g_Data (in_stakeReceipt s) = values_of TYPE_STAKER_RECEIPT (decStakerReceipt c) c as
   \<and> in_controller s = values_of TYPE_CONTROLLER (decController c) c as
   \<and> in_bidList s = values_of TYPE_BIDS (decBidList c) c as
   \<and> in_periodRing s = values_of TYPE_PERIODS (decPeriodRing c) c as
   \<and> in_refund s = values_of TYPE_REFUND (decRefunds c) c as"

lemma on_result_seen:
  "on_result c a s =
     (case seen c a of Some t \<Rightarrow> on_live c a t s
      | None \<Rightarrow> Inr (if length (acc_Data a) < 8 then on_deleted (acc_Pubkey a) s else s))"
  by (auto simp: on_result_def seen_def split: option.split)

lemma seen_short: "seen c a = Some t \<Longrightarrow> \<not> length (acc_Data a) < 8"
  by (auto simp: seen_def split: if_splits)

lemma tells_result:
  assumes "tells c as s" "on_result c a s = Inr s'"
  shows "tells c (as @ [a]) s'"
proof (cases "seen c a")
  case None
  then have "s' = (if length (acc_Data a) < 8 then on_deleted (acc_Pubkey a) s else s)"
    using assms(2) by (simp add: on_result_seen)
  then show ?thesis using None assms(1)
    by (cases "last_seen c as (acc_Pubkey a)") (auto simp: tells_def fun_eq_iff news_of_def remembered_def on_deleted_def split: DATA_TYPE.split)
next
  case (Some t)
  then show ?thesis using assms seen_short [OF Some]
    by (cases t) (auto simp: tells_def fun_eq_iff news_of_def remembered_def on_result_seen track_def opened_def)
qed

lemma loop_tells:
  assumes "loopSubscribePipeline c (map StreamResult bs) s = (e, s')" "tells c as s" "e = None"
  shows "tells c (as @ bs) s'"
  using assms
proof (induction bs arbitrary: s as)
  case (Cons a bs)
  then obtain s1 where s1: "on_result c a s = Inr s1" "loopSubscribePipeline c (map StreamResult bs) s1 = (e, s')"
    by (auto split: sum.splits)
  show ?case using Cons.IH [OF s1(2) tells_result [OF Cons.prems(2) s1(1)] Cons.prems(3)] by simp
qed simp

lemma tells_start: "tells c [] SubscribeProgramAll"
  by (auto simp: tells_def SubscribeProgramAll_def)

text \<open>
  C20. As long as the loop runs, what it has announced is a function of the accounts it received:
  every live account is announced open on the stream of its kind with its decoded data, an account
  that lost its data is announced closed on the stream of the kind it was last seen with, and
  nothing else is announced. In particular the closing of an account that was never seen alive by
  this subscription, because it was only downloaded, is not announced, and neither are closings of
  staker receipts, bid lists, period rings and refunds.
\<close>

theorem announcements_follow_history:
  assumes "loopSubscribePipeline c (map StreamResult as) SubscribeProgramAll = (None, f)"
  shows "tells c as f"
  using loop_tells [OF assms tells_start] by simp

text \<open>A stream in which an account is closed only after it was opened.\<close>

definition opened_in :: "'d group list \<Rightarrow> pubkey \<Rightarrow> bool" where
  "opened_in xs k \<longleftrightarrow> (\<exists>g\<in>set xs. g_IsOpen g \<and> g_Id g = k)"

definition orderly :: "'d group list \<Rightarrow> bool" where
  "orderly xs \<longleftrightarrow> (\<forall>i<length xs. g_IsOpen (xs ! i) \<or> opened_in (take i xs) (g_Id (xs ! i)))"

lemma orderly_simps [simp]: "orderly []"
  "orderly (xs @ [g]) \<longleftrightarrow> orderly xs \<and> (g_IsOpen g \<or> opened_in xs (g_Id g))"
  by (auto simp: orderly_def nth_append less_Suc_eq)

lemma opened_in_simps [simp]: "opened_in (xs @ [g]) k \<longleftrightarrow> opened_in xs k \<or> g_IsOpen g \<and> g_Id g = k"
  "g_IsOpen (opened k d)" "\<not> g_IsOpen (closed k d)" "g_Id (opened k d) = k" "g_Id (closed k d) = k"
  by (auto simp: opened_in_def opened_def closed_def)

definition stream_ok :: "DATA_TYPE \<Rightarrow> (pubkey \<rightharpoonup> DATA_TYPE) \<Rightarrow> 'd group list \<Rightarrow> bool" where
  "stream_ok t m xs \<longleftrightarrow> orderly xs \<and> (\<forall>k. m k = Some t \<longrightarrow> opened_in xs k)"

lemma stream_ok_simps [simp]:
  "stream_ok t m xs \<Longrightarrow> stream_ok t (m(k \<mapsto> t)) (xs @ [opened k d])"
  "stream_ok t m xs \<Longrightarrow> t' \<noteq> t \<Longrightarrow> stream_ok t (m(k \<mapsto> t')) xs"
  "stream_ok t m xs \<Longrightarrow> m k = Some t \<Longrightarrow> stream_ok t m (xs @ [closed k z])"
  by (auto simp: stream_ok_def)

definition feed_inv :: "internalSubscriptionProgramGroup \<Rightarrow> bool" where
  "feed_inv s \<longleftrightarrow>
     stream_ok TYPE_VALIDATOR (trackingAccounts s) (in_validator s)
   \<and> stream_ok TYPE_PIPELINE (trackingAccounts s) (in_pipeline s)
   \<and> stream_ok TYPE_STAKER (trackingAccounts s) (in_stakeManager s)
   \<and> stream_ok TYPE_RECEIPT (trackingAccounts s) (in_receipt s)
   \<and> stream_ok TYPE_PAYOUT (trackingAccounts s) (in_payout s)
   \<and> (\<forall>g\<in>set (in_stakeReceipt s). g_IsOpen g)
   \<and> Some TYPE_BIDS \<notin> range (trackingAccounts s) \<and> Some TYPE_PERIODS \<notin> range (trackingAccounts s)"

lemma range_track: "Some t \<notin> range m \<Longrightarrow> t' \<noteq> t \<Longrightarrow> Some t \<notin> range (m(k \<mapsto> t'))"
  by (auto split: if_splits)

lemma feed_inv_live:
  assumes "feed_inv s" "on_live c a t s = Inr s'"
  shows "feed_inv s'"
  using assms unfolding feed_inv_def track_def
  by (cases t) (clarsimp simp: track_def range_track simp del: image_iff fun_upd_apply)+

lemma feed_inv_deleted: "feed_inv s \<Longrightarrow> feed_inv (on_deleted k s)"
  by (cases "trackingAccounts s k"; simp add: on_deleted_def feed_inv_def split: DATA_TYPE.split)

lemma feed_inv_loop: "feed_inv s \<Longrightarrow> loopSubscribePipeline c ms s = (e, s') \<Longrightarrow> feed_inv s'"
proof (induction c ms s arbitrary: e rule: loopSubscribePipeline.induct)
  case (5 c a ms s)
  have "feed_inv t" if "on_result c a s = Inr t" for t
    using that 5 feed_inv_live feed_inv_deleted by (fastforce simp: on_result_seen split: option.splits if_splits)
  then show ?case using 5 by (auto split: sum.splits)
qed auto

lemma feed_inv_start: "feed_inv SubscribeProgramAll"
  by (simp add: feed_inv_def stream_ok_def SubscribeProgramAll_def)

text \<open>
  C21. Whatever the stream delivers and however the loop ends, on the streams of validators,
  pipelines, stakers, receipts and payouts an account is announced closed only after it was
  announced open, every account that is remembered was announced open on the stream of the kind
  under which it is remembered, and staker receipts are never announced closed.
\<close>

theorem closing_follows_opening:
  "loopSubscribePipeline c ms SubscribeProgramAll = (e, f) \<Longrightarrow> feed_inv f"
  by (rule feed_inv_loop [OF feed_inv_start])

section \<open>The router on the announced accounts\<close>

fun until :: "('a \<Rightarrow> 's \<Rightarrow> err option \<times> 's) \<Rightarrow> 'a list \<Rightarrow> 's \<Rightarrow> err option \<times> 's" where
  "until f [] s = (None, s)"
| "until f (x # xs) s = (case f x s of (Some e, s') \<Rightarrow> (Some e, s') | (None, s') \<Rightarrow> until f xs s')"

lemma visit_each:
  "\<exists>r. visit (\<lambda>v i s. (snd (f v s), 0, fst (f v s))) step i xs s
     = (r, snd (until f (map snd xs) s), fst (until f (map snd xs) s))"
proof (induction xs arbitrary: i s)
  case (Cons x xs)
  obtain e s' where f: "f (snd x) s = (e, s')" by force
  from Cons.IH [of "step i" s'] obtain r where
    "visit (\<lambda>v i s. (snd (f v s), 0, fst (f v s))) step (step i) xs s'
       = (r, snd (until f (map snd xs) s'), fst (until f (map snd xs) s'))" ..
  then show ?case using f by (cases e) auto
qed simp

lemma each_until: "list_inv g \<Longrightarrow> each f g s = Some (until f (contents g) s)"
proof -
  assume g: "list_inv g"
  have once: "deletes_once (\<lambda>v i s. (snd (f v s), 0 :: nat, fst (f v s)))" by (simp add: deletes_once_def)
  obtain r where "visit (\<lambda>v i s. (snd (f v s), 0, fst (f v s))) (\<lambda>j. j + 1) 0 (items g) s
      = (r, snd (until f (contents g) s), fst (until f (contents g) s))"
    using visit_each [of f "\<lambda>j. j + 1" 0 "items g" s] by (auto simp: contents_def)
  from Iterate_visits [OF g once this] show ?thesis by (auto simp: each_def)
qed

lemma until_never: "until (\<lambda>x s. (None, g x s)) xs s = (None, fold g xs s)"
  by (induction xs arbitrary: s) auto

lemma until_fold: "fst (until f xs s) = None \<Longrightarrow> snd (until f xs s) = fold (\<lambda>x s. snd (f x s)) xs s"
  by (induction xs arbitrary: s) (auto split: prod.splits option.splits)

definition payout_msg :: "PayoutGroup \<Rightarrow> router_msg" where
  "payout_msg g = MPayout (g_Id g) (g_IsOpen g) (g_Data g)"

definition receipt_msg :: "ReceiptGroup \<Rightarrow> router_msg" where
  "receipt_msg g = MReceipt (g_Id g) (g_IsOpen g) (g_Data g)"

definition stake_msg :: "StakeGroup \<Rightarrow> router_msg" where
  "stake_msg g = MStake (g_Id g) (g_IsOpen g) (g_Data g)"

definition pipeline_msg :: "PipelineGroup \<Rightarrow> router_msg" where
  "pipeline_msg g = MPipeline (g_Id g) (g_IsOpen g)"

definition validator_msg :: "ValidatorGroup \<Rightarrow> router_msg" where
  "validator_msg g = MValidator (g_Id g) (g_IsOpen g) (vm_data (g_Data g))"

lemmas group_msgs = payout_msg_def receipt_msg_def stake_msg_def pipeline_msg_def validator_msg_def

definition init_msgs :: "ProgramAllResult \<Rightarrow> router_msg list" where
  "init_msgs all = map stake_msg (contents (par_Stake all)) @ map receipt_msg (contents (par_Receipt all))
     @ map payout_msg (contents (par_Payout all)) @ map pipeline_msg (contents (par_Pipeline all))
     @ map validator_msg (contents (par_Validator all))"

lemma fold_map_msg: "(\<And>x s. h (f x) s = g x s) \<Longrightarrow> fold g xs s = fold h (map f xs) s"
  by (induction xs arbitrary: s) auto

lemma if_ok_Some [simp]: "if_ok (Some (None, s)) f = f s" "if_ok (Some (Some e, s)) f = Some (Some e, s)"
  by (simp_all add: if_ok_def)

lemma init_eq:
  assumes "lists_ok all"
  shows "init create all =
     if_ok (Some (until (\<lambda>obj s. on_pipeline create (g_Id obj) (g_IsOpen obj) s) (contents (par_Pipeline all))
        (fold (handle create) (map stake_msg (contents (par_Stake all)) @ map receipt_msg (contents (par_Receipt all))
           @ map payout_msg (contents (par_Payout all))) init_router)))
      (\<lambda>s. Some (None, fold (handle create) (map validator_msg (contents (par_Validator all))) s))"
proof -
  have m: "fold (\<lambda>obj s. on_stake (g_Id obj) (g_IsOpen obj) (g_Data obj) s) xs t = fold (handle create) (map stake_msg xs) t"
    "fold (\<lambda>obj s. Router.on_receipt (g_Id obj) (g_IsOpen obj) (g_Data obj) s) rs t = fold (handle create) (map receipt_msg rs) t"
    "fold (\<lambda>obj s. Router.on_payout (g_Id obj) (g_IsOpen obj) (g_Data obj) s) ps t = fold (handle create) (map payout_msg ps) t"
    "fold (\<lambda>obj s. Router.on_validator (g_Id obj) (g_IsOpen obj) (vm_data (g_Data obj)) s) vs t
       = fold (handle create) (map validator_msg vs) t" for xs rs ps vs t
    by (rule fold_map_msg, simp add: group_msgs)+
  have l: "list_inv (par_Stake all)" "list_inv (par_Receipt all)" "list_inv (par_Payout all)"
    "list_inv (par_Pipeline all)" "list_inv (par_Validator all)" using assms(1) by (simp_all add: lists_ok_def)
  show ?thesis
    unfolding init_def each_until [OF l(1)] each_until [OF l(2)] each_until [OF l(3)] each_until [OF l(4)]
      each_until [OF l(5)] until_never m if_ok_Some by simp
qed

lemma init_messages:
  assumes "lists_ok all" "init create all = Some (None, s)"
  shows "s = fold (handle create) (init_msgs all) init_router"
proof -
  let ?p = "\<lambda>obj s. on_pipeline create (g_Id obj) (g_IsOpen obj) s"
  let ?s3 = "fold (handle create) (map stake_msg (contents (par_Stake all)) @ map receipt_msg (contents (par_Receipt all))
     @ map payout_msg (contents (par_Payout all))) init_router"
  have m: "fold (\<lambda>obj s. snd (?p obj s)) ls t = fold (handle create) (map pipeline_msg ls) t" for ls t
    by (rule fold_map_msg) (simp add: group_msgs)
  obtain e t where u: "until ?p (contents (par_Pipeline all)) ?s3 = (e, t)" by force
  show ?thesis
  proof (cases e)
    case None
    then have "t = fold (handle create) (map pipeline_msg (contents (par_Pipeline all))) ?s3"
      using until_fold [of ?p "contents (par_Pipeline all)" ?s3] u by (simp add: m)
    then show ?thesis using assms(2) init_eq [OF assms(1)] u None by (simp add: init_msgs_def)
  qed (use assms(2) init_eq [OF assms(1), of create] u in simp)
qed

definition feed_msgs :: "internalSubscriptionProgramGroup \<Rightarrow> router_msg list" where
  "feed_msgs f = map validator_msg (in_validator f) @ map pipeline_msg (in_pipeline f)
     @ map (\<lambda>x. MRefund (rf_Pipeline x)) (in_refund f) @ map MBid (in_bidList f) @ map MPeriod (in_periodRing f)
     @ map stake_msg (in_stakeManager f) @ map (\<lambda>g. MStakeReceipt (g_Data g)) (in_stakeReceipt f)
     @ map receipt_msg (in_receipt f) @ map payout_msg (in_payout f)"

text \<open>A group that is the open form of one of the accounts.\<close>

definition stems_from :: "cba \<Rightarrow> DATA_TYPE \<Rightarrow> (bytes \<Rightarrow> err + 'd) \<Rightarrow> account list \<Rightarrow> 'd group \<Rightarrow> bool" where
  "stems_from c t dec as g \<longleftrightarrow>
     g_IsOpen g \<and> (\<exists>a\<in>set as. seen c a = Some t \<and> acc_Pubkey a = g_Id g \<and> dec (acc_Data a) = Inr (g_Data g))"

lemma kind_seen:
  assumes "discriminators_ok c" "kind c a = Some t"
  shows "seen c a = Some t"
  using assms switches_agree [OF assms(1), of "take 8 (acc_Data a)"]
  by (auto simp: kind_def seen_def split: if_splits)

lemma stems_mono: "stems_from c t dec as g \<Longrightarrow> set as \<subseteq> set bs \<Longrightarrow> stems_from c t dec bs g"
  by (auto simp: stems_from_def)

lemma entries_stem:
  assumes "discriminators_ok c" "g \<in> set (entries c t dec ok r)"
  shows "stems_from c t dec r g"
  using assms(2)
proof (induction r)
  case (Cons a r)
  then consider "entry_of c t dec ok a = Some g" | "g \<in> set (entries c t dec ok r)"
    by (auto split: option.splits)
  then show ?case
  proof cases
    case 1
    then show ?thesis using kind_seen [OF assms(1), of a t]
      by (auto simp: stems_from_def entry_of_def opened_def split: if_splits sum.splits)
  next
    case 2
    then show ?thesis using stems_mono [OF Cons.IH, of "a # r"] by auto
  qed
qed simp

lemma news_stem:
  assumes "\<forall>a\<in>set as. 8 \<le> length (acc_Data a)" "g \<in> set (news t dec zero c as)"
  shows "stems_from c t dec as g"
  using assms
proof (induction as rule: rev_induct)
  case (snoc a as)
  then consider "g \<in> set (news_of t dec zero c as a)" | "g \<in> set (news t dec zero c as)" by auto
  then show ?case
  proof cases
    case 1
    then show ?thesis using snoc.prems(1)
      by (auto simp: stems_from_def news_of_def opened_def split: if_splits sum.splits)
  next
    case 2
    then show ?thesis using stems_mono [OF snoc.IH, of "as @ [a]"] snoc.prems(1) by auto
  qed
qed simp

text \<open>Open accounts make messages that close nothing, and name payouts and validators as they do.\<close>

definition apart_accounts :: "cba \<Rightarrow> account list \<Rightarrow> bool" where
  "apart_accounts c as \<longleftrightarrow> (\<forall>a\<in>set as. \<forall>b\<in>set as. seen c a = Some TYPE_PAYOUT \<longrightarrow> seen c b = Some TYPE_RECEIPT
     \<longrightarrow> (\<forall>d. decReceipt c (acc_Data b) = Inr d \<longrightarrow> acc_Pubkey a \<noteq> rd_validator d))"

fun stems_msg :: "cba \<Rightarrow> account list \<Rightarrow> router_msg \<Rightarrow> bool" where
  "stems_msg c as (MValidator v b d) = b"
| "stems_msg c as (MPipeline l b) = b"
| "stems_msg c as (MPayout p b d) = stems_from c TYPE_PAYOUT (decPayout c) as \<lparr>g_Id = p, g_Data = d, g_IsOpen = b\<rparr>"
| "stems_msg c as (MReceipt r b d) = stems_from c TYPE_RECEIPT (decReceipt c) as \<lparr>g_Id = r, g_Data = d, g_IsOpen = b\<rparr>"
| "stems_msg c as m = keeps_objects m"

lemma stems_keeps: "stems_msg c as m \<Longrightarrow> keeps_objects m"
  by (cases m) (auto simp: stems_from_def)

lemma stems_group_msgs:
  "stems_from c TYPE_VALIDATOR (decValidator c) as v \<Longrightarrow> stems_msg c as (validator_msg v)"
  "stems_from c TYPE_PIPELINE (decPipeline c) as l \<Longrightarrow> stems_msg c as (pipeline_msg l)"
  "stems_from c TYPE_PAYOUT (decPayout c) as p \<Longrightarrow> stems_msg c as (payout_msg p)"
  "stems_from c TYPE_RECEIPT (decReceipt c) as r \<Longrightarrow> stems_msg c as (receipt_msg r)"
  "stems_msg c as (stake_msg k)"
  by (simp_all add: group_msgs stems_from_def)

lemma init_msgs_stem:
  assumes "discriminators_ok c" "gathers c cid bump r createProgramAllResult all" "m \<in> set (init_msgs all)"
  shows "stems_msg c (r @ as) m"
proof -
  have z: "contents (CreateGeneric :: 'x Generic) = []"
    using items_linked [OF linked_Create] by (simp add: contents_def)
  have st: "stems_from c t dec (r @ as) g" if "g \<in> set (entries c t dec ok r)" for t ok g
    and dec :: "bytes \<Rightarrow> err + 'y"
    using stems_mono [OF entries_stem [OF assms(1) that], of "r @ as"] by simp
  from assms(2,3) show ?thesis
    unfolding init_msgs_def gathers_def createProgramAllResult_def
    by (auto simp: z intro!: stems_group_msgs st)
qed

lemma feed_msgs_stem:
  assumes "tells c as f" "\<forall>a\<in>set as. 8 \<le> length (acc_Data a)" "m \<in> set (feed_msgs f)"
  shows "stems_msg c (r @ as) m"
proof -
  have st: "stems_from c t dec (r @ as) g" if "g \<in> set (news t dec zero c as)" for t g zero
    and dec :: "bytes \<Rightarrow> err + 'y"
    using stems_mono [OF news_stem [OF assms(2) that], of "r @ as"] by simp
  from assms(1,3) show ?thesis unfolding feed_msgs_def tells_def
    by (auto intro!: stems_group_msgs st)
qed


text \<open>
  A downloaded bid list reaches nobody: init stores it in a map that nothing reads, so as long
  as the subscription announces no new bid list of a payout, the payout is never given one,
  whatever the download contained and whatever else is announced.
\<close>

theorem downloaded_bids_not_delivered:
  assumes "FetchProgramAll c (Inr (cid, bump)) (Inr r) = Inr all" and "init create all = Some (None, s0)"
    and "\<forall>m\<in>set ms. \<forall>b. m = MBid b \<longrightarrow> fst b \<noteq> p"
  shows "PayoutBidList p b \<notin> set (sent (Router.loopInternal create ms s0))"
proof -
  from init_messages [OF fetched_lists_ok [OF assms(1)] assms(2)]
  have l: "Router.loopInternal create ms s0 = fold (handle create) (init_msgs all @ ms) init_router"
    by (simp add: Router.loopInternal_def)
  have "no_bids p (fold (handle create) (init_msgs all @ ms) init_router)"
    by (rule no_bids_loop) (use assms(3) in \<open>auto simp: no_bids_def init_router_def init_msgs_def group_msgs\<close>)
  then show ?thesis unfolding l no_bids_def by blast
qed

section \<open>A small chain\<close>

definition disc :: "8 word \<Rightarrow> bytes" where
  "disc i = [0, 0, 0, 0, 0, 0, 0, i]"

definition demo_cba :: cba where
  "demo_cba =
     \<lparr>ControllerDiscriminator = disc 0, ValidatorManagerDiscriminator = disc 1, PipelineDiscriminator = disc 2,
      PeriodRingDiscriminator = disc 3, RefundsDiscriminator = disc 4, BidListDiscriminator = disc 5,
      StakerManagerDiscriminator = disc 6, StakerReceiptDiscriminator = disc 7, ReceiptDiscriminator = disc 8,
      PayoutDiscriminator = disc 9,
      decController = (\<lambda>b. Inr \<lparr>ControllerBump = 1\<rparr>),
      decValidator = (\<lambda>b. Inr \<lparr>vm_Controller = ''C'', vm_data = \<lparr>vd_vote = ''W'', vd_ring = []\<rparr>\<rparr>),
      decPipeline = (\<lambda>b. Inr \<lparr>cp_Controller = ''C'', cp_data = []\<rparr>),
      decPeriodRing = (\<lambda>b. Inr (''L'', \<lparr>Ring = [], Start = 0, Length = 0\<rparr>)),
      decRefunds = (\<lambda>b. Inr \<lparr>rf_Pipeline = ''L'', rf_Refunds = []\<rparr>),
      decBidList = (\<lambda>b. Inr (''P'', \<lparr>Book = [], TotalDeposits = 5, BiddingFinished = False\<rparr>)),
      decStake = (\<lambda>b. Inr \<lparr>sd_stake = ''S''\<rparr>),
      decStakerReceipt = (\<lambda>b. Inr \<lparr>sr_manager = ''K'', sr_receipt = ''R'', sr_stake = 3\<rparr>),
      decReceipt = (\<lambda>b. Inr \<lparr>rd_payout = ''P'', rd_validator = ''V''\<rparr>),
      decPayout = (\<lambda>b. Inr \<lparr>pd_pipeline = ''L'', pd_start = 5, pd_length = 10\<rparr>)\<rparr>"

definition acct :: "pubkey \<Rightarrow> 8 word \<Rightarrow> account" where
  "acct k i = \<lparr>acc_Pubkey = k, acc_Data = disc i @ [1], acc_Lamports = 7\<rparr>"

definition gone :: "pubkey \<Rightarrow> account" where
  "gone k = \<lparr>acc_Pubkey = k, acc_Data = [], acc_Lamports = 0\<rparr>"

definition demo_download :: "account list" where
  "demo_download = [acct ''P'' 9, acct ''C'' 0, acct ''B'' 5]"

definition demo_stream :: "account list" where
  "demo_stream = [acct ''R'' 8, acct ''V'' 1, acct ''L'' 2]"

lemmas demo_defs = demo_cba_def disc_def acct_def gone_def demo_download_def demo_stream_def

lemma demo_kind: "kind demo_cba (acct k i) = switch_on (fetch_cases demo_cba) (disc i)"
  by (simp add: kind_def acct_def disc_def)

lemma demo_decodes: "decodes demo_cba a t"
  by (cases t) (simp_all add: demo_cba_def)

lemma demo_readable: "readable demo_cba (acct k i)"
  by (simp add: readable_def demo_decodes) (simp add: acct_def disc_def)

lemma demo_discriminators: "discriminators_ok demo_cba"
  by (simp add: discriminators_ok_def fetch_cases_def demo_cba_def disc_def)

lemma demo_seen: "seen demo_cba (acct k i) = switch_on (fetch_cases demo_cba) (disc i)"
  using switches_agree [OF demo_discriminators, of "disc i"] by (simp add: seen_def acct_def disc_def)

lemma demo_cases: "switch_on (fetch_cases demo_cba) (disc 0) = Some TYPE_CONTROLLER"
  "switch_on (fetch_cases demo_cba) (disc 1) = Some TYPE_VALIDATOR"
  "switch_on (fetch_cases demo_cba) (disc 2) = Some TYPE_PIPELINE"
  "switch_on (fetch_cases demo_cba) (disc 5) = Some TYPE_BIDS"
  "switch_on (fetch_cases demo_cba) (disc 8) = Some TYPE_RECEIPT"
  "switch_on (fetch_cases demo_cba) (disc 9) = Some TYPE_PAYOUT"
  by (simp_all add: switch_on_def fetch_cases_def demo_cba_def disc_def)

lemma demo_download_ok: "(\<forall>a\<in>set demo_download. readable demo_cba a) \<and> (\<exists>a\<in>set demo_download. is_controller demo_cba ''C'' 1 a)"
proof -
  have "is_controller demo_cba ''C'' 1 (acct ''C'' 0)"
    by (simp add: is_controller_def entry_of_def demo_kind demo_cases) (simp add: demo_cba_def acct_def)
  then show ?thesis by (simp add: demo_download_def demo_readable)
qed

lemma demo_payout: "decPayout demo_cba b = Inr \<lparr>pd_pipeline = ''L'', pd_start = 5, pd_length = 10\<rparr>"
  "acc_Pubkey (acct k i) = k"
  by (simp_all add: demo_cba_def acct_def)

theorem download_gathers_every_account_witness:
  "\<exists>all. FetchProgramAll demo_cba (Inr (''C'', 1)) (Inr demo_download) = Inr all
     \<and> contents (par_Payout all) = [opened ''P'' \<lparr>pd_pipeline = ''L'', pd_start = 5, pd_length = 10\<rparr>]"
proof -
  note d = download_gathers_every_account [of demo_cba "''C''" 1 demo_download]
  from conjunct1 [OF d] demo_download_ok obtain all where
    a: "FetchProgramAll demo_cba (Inr (''C'', 1)) (Inr demo_download) = Inr all" by blast
  have "gathers demo_cba ''C'' 1 demo_download createProgramAllResult all"
    using conjunct2 [OF d] a by blast
  then have "contents (par_Payout all) = contents (par_Payout createProgramAllResult)
      @ entries demo_cba TYPE_PAYOUT (decPayout demo_cba) (\<lambda>_. True) demo_download" by (simp add: gathers_def)
  also have "\<dots> = [opened ''P'' \<lparr>pd_pipeline = ''L'', pd_start = 5, pd_length = 10\<rparr>]"
    using items_linked [OF linked_Create, where 'a = PayoutGroup]
    by (simp add: demo_download_def entry_of_def demo_kind demo_cases demo_payout contents_def createProgramAllResult_def)
  finally show ?thesis using a by blast
qed

lemma until_total: "(\<And>x s. fst (f x s) = None) \<Longrightarrow> fst (until f xs s) = None"
proof (induction xs arbitrary: s)
  case (Cons x xs)
  obtain e t where "f x s = (e, t)" by force
  then show ?case using Cons.IH [OF Cons.prems, of t] Cons.prems [of x s] by simp
qed simp

lemma init_succeeds:
  assumes "lists_ok all"
  shows "\<exists>s0. init (\<lambda>_. None) all = Some (None, s0)"
proof -
  have "fst (until (\<lambda>obj s. on_pipeline (\<lambda>_. None) (g_Id obj) (g_IsOpen obj) s) xs s) = None"
    for xs :: "PipelineGroup list" and s
    by (rule until_total) (simp add: on_pipeline_def)
  then have "\<exists>s0. if_ok (Some (until (\<lambda>obj s. on_pipeline (\<lambda>_. None) (g_Id obj) (g_IsOpen obj) s) xs s))
      (\<lambda>s. Some (None, g s)) = Some (None, s0)" for xs :: "PipelineGroup list" and s g
    by (metis (no_types, lifting) if_ok_Some(1) prod.collapse)
  then show ?thesis unfolding init_eq [OF assms] by blast
qed

lemma demo_started:
  obtains all s0 where "FetchProgramAll demo_cba (Inr (''C'', 1)) (Inr demo_download) = Inr all"
    "init (\<lambda>_. None) all = Some (None, s0)"
  using fetch_succeeds [of demo_cba "''C''" 1 demo_download] demo_download_ok init_succeeds fetched_lists_ok by meson

lemma demo_result: "\<exists>s'. on_result demo_cba (acct k i) s = Inr s'"
proof (cases "seen demo_cba (acct k i)")
  case (Some t)
  then show ?thesis by (cases t) (simp_all add: on_result_seen demo_cba_def)
qed (simp add: on_result_seen)

lemma demo_stream_runs:
  "\<exists>f. loopSubscribePipeline demo_cba (map StreamResult demo_stream) SubscribeProgramAll = (None, f)"
  unfolding demo_stream_def using demo_result by (auto split: sum.split) (metis Inl_Inr_False)+

theorem announcements_follow_history_witness:
  "\<exists>f. loopSubscribePipeline demo_cba (map StreamResult demo_stream) SubscribeProgramAll = (None, f)
     \<and> tells demo_cba demo_stream f"
  using demo_stream_runs announcements_follow_history [of demo_cba demo_stream] by blast

theorem closing_follows_opening_witness:
  "\<exists>e f. loopSubscribePipeline demo_cba [StreamResult (acct ''P'' 9), StreamResult (gone ''P''), StreamBad] SubscribeProgramAll = (e, f)
     \<and> feed_inv f \<and> in_payout f \<noteq> []"
proof -
  obtain e f where r: "loopSubscribePipeline demo_cba [StreamResult (acct ''P'' 9), StreamResult (gone ''P''), StreamBad]
      SubscribeProgramAll = (e, f)" by force
  have "on_result demo_cba (acct ''P'' 9) SubscribeProgramAll = on_live demo_cba (acct ''P'' 9) TYPE_PAYOUT SubscribeProgramAll"
    by (simp add: on_result_seen demo_seen demo_cases)
  moreover have "on_result demo_cba (gone ''P'') s = Inr (on_deleted ''P'' s)" for s
    by (simp add: on_result_seen seen_def gone_def)
  ultimately have "in_payout f \<noteq> []" using r
    by (auto simp: on_decoded_def demo_payout on_deleted_def track_def)
  then show ?thesis using r closing_follows_opening [OF r] by blast
qed


theorem downloaded_bids_not_delivered_witness:
  "\<exists>all s0. FetchProgramAll demo_cba (Inr (''C'', 1)) (Inr demo_download) = Inr all
     \<and> init (\<lambda>_. None) all = Some (None, s0)
     \<and> par_BidList all ''P'' \<noteq> None
     \<and> (\<forall>b. PayoutBidList ''P'' b \<notin> set (sent (Router.loopInternal (\<lambda>_. None) [] s0)))"
proof -
  obtain all s0 where a: "FetchProgramAll demo_cba (Inr (''C'', 1)) (Inr demo_download) = Inr all"
    "init (\<lambda>_. None) all = Some (None, s0)" by (rule demo_started)
  have "entry_of demo_cba TYPE_BIDS (decBidList demo_cba) (\<lambda>_. True) (acct ''B'' 5)
      = Some (opened ''B'' (''P'', \<lparr>Book = [], TotalDeposits = 5, BiddingFinished = False\<rparr>))"
    by (simp add: entry_of_def demo_kind demo_cases demo_payout) (simp add: demo_cba_def acct_def)
  then have "par_BidList all ''P'' \<noteq> None" using fetched_gathers [OF a(1)]
    by (simp add: gathers_def table_def demo_download_def entry_of_def demo_kind demo_cases opened_def map_add_def
        split: option.split)
  moreover have "\<forall>b. PayoutBidList ''P'' b \<notin> set (sent (Router.loopInternal (\<lambda>_. None) [] s0))"
    using downloaded_bids_not_delivered [OF a, of "[]" "''P''"] by auto
  ultimately show ?thesis using a by blast
qed

end
