(* ===== verification/TxScript.thy ===== *)
theory TxScript
  imports Prelude
begin

text \<open>
  The transaction scripts of the directory script: a builder that is started with SetTx, filled with
  instructions and keys by one function per instruction of the program, and compiled, signed and
  sent by FinishTx.

  The chain and the libraries are arguments: the record \<open>env\<close> has the calls to the RPC server, the
  derivation of addresses, and the compilation and signing of a transaction. An instruction is its
  name with the accounts and numbers that are set on its builder; what the program does with it is
  not part of the repository. A fresh private key is an argument of the functions that draw one.

  A function of the script is an action: it may panic, fail with an error, or return a value, and
  it changes the script in every case but a panic.
\<close>

section \<open>The script\<close>

record PrivateKey =
  PublicKey :: pubkey
  secret :: nat

text \<open>The instruction builders the scripts use, and an instruction that was built.\<close>

datatype instruction_name =
    ITokenAccount | ICreateAccount | IInitializeMint | IMintTo | ITransfer
  | ICreate | IAddPipeline | IUpdatePipeline | IAppendPeriod
  | ICrank | ICloseBids | IInsertBid | IClosePayout | IClaimRefund
  | IUpdateBidReceipt | IUpdateReceipt | IAddStaker | IAddStakerToReceipt
  | IAddValidator | IValidatorSetPayout | IValidatorWithdrawReceipt

record instruction =
  i_name :: instruction_name
  i_accounts :: "(string \<times> pubkey) list"
  i_args :: "(string \<times> nat) list"

record TransactionBuilder =
  feePayer :: pubkey
  instructions :: "instruction list"
  blockHash :: "string option"

record Script =
  txBuilder :: "TransactionBuilder option"
  keyMap :: "(pubkey \<rightharpoonup> PrivateKey) option"
  submitted :: "(TransactionBuilder \<times> (pubkey \<rightharpoonup> PrivateKey)) list"

record env =
  GetLatestBlockhash :: "err + string"
  Build :: "TransactionBuilder \<Rightarrow> err option"
  Sign :: "TransactionBuilder \<Rightarrow> (pubkey \<rightharpoonup> PrivateKey) \<Rightarrow> err option"
  SendTransaction :: "TransactionBuilder \<Rightarrow> bool \<Rightarrow> err + string"
  SignatureStatus :: "string \<Rightarrow> err option"
  GetAccountInfo :: "pubkey \<Rightarrow> err option"
  MinimumBalance :: "uint64 \<Rightarrow> err + uint64"
  FindAssociatedTokenAddress :: "pubkey \<Rightarrow> pubkey \<Rightarrow> err + pubkey"
  ControllerId :: "err + pubkey"
  PcVaultId :: "err + pubkey"
  PipelineVaultId :: "pubkey \<Rightarrow> err + pubkey"
  ValidatorManagerId :: "pubkey \<Rightarrow> pubkey \<Rightarrow> err + pubkey"
  StakerManagerId :: "pubkey \<Rightarrow> pubkey \<Rightarrow> err + pubkey"
  StakerReceiptId :: "pubkey \<Rightarrow> pubkey \<Rightarrow> err + pubkey"

text \<open>Well-known accounts of Solana.\<close>

definition SysVarClock :: pubkey where "SysVarClock = ''SysvarC1ock11111111111111111111111111111111''"
definition SysVarRent :: pubkey where "SysVarRent = ''SysvarRent111111111111111111111111111111111''"
definition SysVarEpochSchedule :: pubkey where
  "SysVarEpochSchedule = ''SysvarEpochSchedu1e111111111111111111111111''"
definition SystemProgramID :: pubkey where "SystemProgramID = ''11111111111111111111111111111111''"
definition TokenProgramID :: pubkey where "TokenProgramID = ''TokenkegQfeZyiNwAJbNbGKPFXCWuBvf9Ss623VQ5DA''"

text \<open>Actions.\<close>

type_synonym 'a act = "Script \<Rightarrow> ((err + 'a) \<times> Script) outcome"

definition yield :: "'a \<Rightarrow> 'a act" where
  "yield x s = Ret (Inr x, s)"

definition fails :: "err \<Rightarrow> 'a act" where
  "fails e s = Ret (Inl e, s)"

definition from_env :: "err + 'a \<Rightarrow> 'a act" where
  "from_env r s = Ret (r, s)"

definition bind :: "'a act \<Rightarrow> ('a \<Rightarrow> 'b act) \<Rightarrow> 'b act" where
  "bind m f s =
     (case m s of
        Panic \<Rightarrow> Panic
      | Ret (Inl e, s') \<Rightarrow> Ret (Inl e, s')
      | Ret (Inr x, s') \<Rightarrow> f x s')"

text \<open>The guard at the start of the functions, with their own error text.\<close>

definition with_builder :: "err \<Rightarrow> 'a act \<Rightarrow> 'a act" where
  "with_builder e m s = (if txBuilder s = None then Ret (Inl e, s) else m s)"

text \<open>AddInstruction of the builder, and an entry in a map that may be nil.\<close>

definition AddInstruction :: "instruction \<Rightarrow> unit act" where
  "AddInstruction i s =
     (case txBuilder s of
        None \<Rightarrow> Panic
      | Some b \<Rightarrow> Ret (Inr (), s\<lparr>txBuilder := Some (b\<lparr>instructions := instructions b @ [i]\<rparr>)\<rparr>))"

definition AppendKey :: "PrivateKey \<Rightarrow> unit act" where
  "AppendKey k s =
     (case keyMap s of
        None \<Rightarrow> Panic
      | Some m \<Rightarrow> Ret (Inr (), s\<lparr>keyMap := Some (m(PublicKey k \<mapsto> k))\<rparr>))"

definition AppendInstruction :: "instruction \<Rightarrow> unit act" where
  "AppendInstruction i = with_builder ''blank tx builder'' (AddInstruction i)"

definition SetTx :: "PrivateKey \<Rightarrow> unit act" where
  "SetTx payer s =
     (if txBuilder s \<noteq> None then Ret (Inl ''tx builder already started'', s)
      else AppendKey payer (s\<lparr>txBuilder := Some \<lparr>feePayer = PublicKey payer, instructions = [], blockHash = None\<rparr>,
                              keyMap := Some Map.empty\<rparr>))"

definition SetBlockHash :: "env \<Rightarrow> unit act" where
  "SetBlockHash v = bind (from_env (GetLatestBlockhash v)) (\<lambda>h s.
     case txBuilder s of
       None \<Rightarrow> Panic
     | Some b \<Rightarrow> Ret (Inr (), s\<lparr>txBuilder := Some (b\<lparr>blockHash := Some h\<rparr>)\<rparr>))"

text \<open>WaitSig: the context ends, the subscription ends with an error or without, or a result comes.\<close>

datatype sig_event = SigCanceled | SigClosed "err option" | SigUnknown | SigResult "err option"

definition WaitSig :: "err + sig_event \<Rightarrow> err option" where
  "WaitSig sub =
     (case sub of
        Inl e \<Rightarrow> Some e
      | Inr SigCanceled \<Rightarrow> Some ''canceled''
      | Inr (SigClosed e) \<Rightarrow> e
      | Inr SigUnknown \<Rightarrow> Some ''unknown result''
      | Inr (SigResult e) \<Rightarrow> e)"

text \<open>What WaitSig returns for a signature is the field SignatureStatus of the environment.\<close>

definition SendTx :: "env \<Rightarrow> TransactionBuilder \<Rightarrow> bool \<Rightarrow> err option" where
  "SendTx v tx simulate = (case SendTransaction v tx simulate of Inl e \<Rightarrow> Some e | Inr sig \<Rightarrow> SignatureStatus v sig)"

definition keys_of :: "Script \<Rightarrow> pubkey \<rightharpoonup> PrivateKey" where
  "keys_of s = (case keyMap s of None \<Rightarrow> Map.empty | Some m \<Rightarrow> m)"

definition FinishTx :: "env \<Rightarrow> bool \<Rightarrow> unit act" where
  "FinishTx v simulate = with_builder ''no tx builder'' (bind (SetBlockHash v) (\<lambda>_ s.
     case txBuilder s of
       None \<Rightarrow> Panic
     | Some tx \<Rightarrow>
         (case Build v tx of
            Some e \<Rightarrow> Ret (Inl e, s)
          | None \<Rightarrow>
              (case Sign v tx (keys_of s) of
                 Some e \<Rightarrow> Ret (Inl e, s)
               | None \<Rightarrow>
                   (let s' = s\<lparr>txBuilder := None, keyMap := None, submitted := submitted s @ [(tx, keys_of s)]\<rparr>
                    in case SendTx v tx simulate of Some e \<Rightarrow> Ret (Inl e, s') | None \<Rightarrow> Ret (Inr (), s'))))))"

text \<open>ExportTx reads the block hash through a pointer that was never set.\<close>

definition ExportTx :: "bool \<Rightarrow> string act" where
  "ExportTx ignoreSigError s = (if txBuilder s = None then Ret (Inl ''no tx builder'', s) else Panic)"

text \<open>WaitForAccountChange: the first event of the subscription of an account decides.\<close>

record WaitResult =
  HasClosed :: bool
  wr_Data :: string
  wr_Err :: "err option"

datatype account_event = AccountCanceled | AccountError err | AccountBad | AccountValue uint64 string

definition loopWaitAccount :: "account_event \<Rightarrow> WaitResult" where
  "loopWaitAccount ev =
     (case ev of
        AccountCanceled \<Rightarrow> \<lparr>HasClosed = False, wr_Data = [], wr_Err = Some ''canceled''\<rparr>
      | AccountError e \<Rightarrow> \<lparr>HasClosed = False, wr_Data = [], wr_Err = Some e\<rparr>
      | AccountBad \<Rightarrow> \<lparr>HasClosed = False, wr_Data = [], wr_Err = Some ''bad account result''\<rparr>
      | AccountValue lamports data \<Rightarrow>
          if 0 < lamports then \<lparr>HasClosed = False, wr_Data = data, wr_Err = None\<rparr>
          else \<lparr>HasClosed = True, wr_Data = [], wr_Err = None\<rparr>)"

definition WaitForAccountChange :: "err + account_event \<Rightarrow> WaitResult" where
  "WaitForAccountChange sub =
     (case sub of Inl e \<Rightarrow> \<lparr>HasClosed = False, wr_Data = [], wr_Err = Some e\<rparr> | Inr ev \<Rightarrow> loopWaitAccount ev)"

section \<open>Objects the scripts read\<close>

record controller_data =
  PcMint :: pubkey
  cd_PcVault :: pubkey

record controller_ref =
  ctr_Id :: pubkey
  ctr_Data :: "err + controller_data"

record pipeline_account =
  pa_PcVault :: pubkey
  pa_Periods :: pubkey
  pa_Refunds :: pubkey

record pipeline_ref =
  pip_Id :: pubkey
  pip_Data :: "err + pipeline_account"
  pip_Claims :: "err + pubkey list"

record payout_ref =
  pay_Id :: pubkey
  pay_Bids :: "err + pubkey"

record validator_ref =
  val_Id :: pubkey
  val_Admin :: "err + pubkey"

record Rate =
  rate_N :: uint64
  rate_D :: uint64

section \<open>Accounts and tokens\<close>

definition CreateTokenAccount :: "PrivateKey \<Rightarrow> pubkey \<Rightarrow> pubkey \<Rightarrow> unit act" where
  "CreateTokenAccount payer owner mint = with_builder ''tx builder is blank''
     (bind (AppendKey payer) (\<lambda>_. AddInstruction
        \<lparr>i_name = ITokenAccount, i_accounts = [(''Mint'', mint), (''Payer'', PublicKey payer), (''Wallet'', owner)],
         i_args = []\<rparr>))"

definition token_account :: "env \<Rightarrow> PrivateKey \<Rightarrow> pubkey \<Rightarrow> pubkey \<Rightarrow> pubkey act" where
  "token_account v payer owner mint =
     bind (from_env (FindAssociatedTokenAddress v owner mint)) (\<lambda>accountId.
       if GetAccountInfo v accountId = None then yield accountId
       else bind (CreateTokenAccount payer owner mint) (\<lambda>_. yield accountId))"

definition create_account_instr :: "pubkey \<Rightarrow> pubkey \<Rightarrow> pubkey \<Rightarrow> uint64 \<Rightarrow> uint64 \<Rightarrow> instruction" where
  "create_account_instr payer account owner lamports sz =
     \<lparr>i_name = ICreateAccount, i_accounts = [(''Funding'', payer), (''NewAccount'', account), (''Owner'', owner)],
      i_args = [(''Lamports'', unat lamports), (''Space'', unat sz)]\<rparr>"

text \<open>CreateAccountDirect returns the owner and not the account it creates.\<close>

definition CreateAccountDirect :: "env \<Rightarrow> uint64 \<Rightarrow> PrivateKey \<Rightarrow> pubkey \<Rightarrow> PrivateKey \<Rightarrow> pubkey act" where
  "CreateAccountDirect v sz account owner payer = with_builder ''tx builder is blank''
     (bind (from_env (MinimumBalance v sz)) (\<lambda>lamports.
      bind (AppendKey payer) (\<lambda>_.
      bind (AppendKey account) (\<lambda>_.
      bind (AddInstruction (create_account_instr (PublicKey payer) (PublicKey account) owner lamports sz)) (\<lambda>_.
      yield owner)))))"

definition CreateAccount :: "env \<Rightarrow> err + PrivateKey \<Rightarrow> uint64 \<Rightarrow> pubkey \<Rightarrow> PrivateKey \<Rightarrow> pubkey act" where
  "CreateAccount v fresh sz owner payer = with_builder ''tx builder is blank''
     (bind (from_env fresh) (\<lambda>k.
      bind (from_env (MinimumBalance v sz)) (\<lambda>lamports.
      bind (AppendKey payer) (\<lambda>_.
      bind (AppendKey k) (\<lambda>_.
      bind (AddInstruction (create_account_instr (PublicKey payer) (PublicKey k) owner lamports sz)) (\<lambda>_.
      yield (PublicKey k)))))))"

record MintResult =
  mr_Id :: "pubkey option"
  mr_Authority :: "PrivateKey option"

definition CreateMintDirect :: "env \<Rightarrow> PrivateKey \<Rightarrow> PrivateKey \<Rightarrow> PrivateKey \<Rightarrow> 8 word \<Rightarrow> MintResult act" where
  "CreateMintDirect v mint payer authority decimals = with_builder ''tx builder is blank''
     (bind (AppendKey mint) (\<lambda>_.
      bind (from_env (MinimumBalance v 82)) (\<lambda>minLamports.
      bind (AddInstruction (create_account_instr (PublicKey payer) (PublicKey mint) TokenProgramID minLamports 82)) (\<lambda>_.
      bind (AddInstruction
        \<lparr>i_name = IInitializeMint,
         i_accounts = [(''Mint'', PublicKey mint), (''MintAuthority'', PublicKey authority), (''FreezeAuthority'', PublicKey authority)],
         i_args = [(''Decimals'', unat decimals)]\<rparr>) (\<lambda>_.
      yield \<lparr>mr_Id = Some (PublicKey mint), mr_Authority = Some authority\<rparr>)))))"

definition CreateMint :: "env \<Rightarrow> err + PrivateKey \<Rightarrow> PrivateKey \<Rightarrow> PrivateKey \<Rightarrow> 8 word \<Rightarrow> MintResult act" where
  "CreateMint v fresh payer authority decimals =
     bind (from_env fresh) (\<lambda>mint. CreateMintDirect v mint payer authority decimals)"

definition MintIssue :: "env \<Rightarrow> MintResult option \<Rightarrow> pubkey \<Rightarrow> uint64 \<Rightarrow> unit act" where
  "MintIssue v mr owner amount = with_builder ''tx builder is blank''
     (case mr of
        None \<Rightarrow> fails ''no mint result''
      | Some r \<Rightarrow>
          (case mr_Id r of
             None \<Rightarrow> fails ''no mint id''
           | Some mint \<Rightarrow>
               (case mr_Authority r of
                  None \<Rightarrow> fails ''no mint authority''
                | Some authority \<Rightarrow>
                    bind (from_env (FindAssociatedTokenAddress v owner mint)) (\<lambda>destination.
                    bind (AppendKey authority) (\<lambda>_. AddInstruction
                      \<lparr>i_name = IMintTo,
                       i_accounts = [(''Authority'', PublicKey authority), (''Destination'', destination), (''Mint'', mint)],
                       i_args = [(''Amount'', unat amount)]\<rparr>)))))"

definition Transfer :: "PrivateKey \<Rightarrow> pubkey \<Rightarrow> uint64 \<Rightarrow> unit act" where
  "Transfer source destination amount = with_builder ''tx builder is blank''
     (bind (AppendKey source) (\<lambda>_. AddInstruction
        \<lparr>i_name = ITransfer, i_accounts = [(''Funding'', PublicKey source), (''Recipient'', destination)],
         i_args = [(''Lamports'', unat amount)]\<rparr>))"

section \<open>Controller and pipelines\<close>

definition CreateController :: "env \<Rightarrow> PrivateKey \<Rightarrow> PrivateKey \<Rightarrow> pubkey \<Rightarrow> Rate option \<Rightarrow> unit act" where
  "CreateController v adminKey crankAuthority mint feeRate = with_builder ''tx builder is nil''
     (case feeRate of
        None \<Rightarrow> fails ''no fee rate''
      | Some fee \<Rightarrow>
          bind (from_env (ControllerId v)) (\<lambda>controllerId.
          bind (from_env (PcVaultId v)) (\<lambda>pcVault.
          bind (AppendKey adminKey) (\<lambda>_.
          bind (AppendKey crankAuthority) (\<lambda>_. AddInstruction
            \<lparr>i_name = ICreate,
             i_accounts = [(''Admin'', PublicKey adminKey), (''Controller'', controllerId),
               (''CrankAuthority'', PublicKey crankAuthority), (''PcMint'', mint), (''PcVault'', pcVault),
               (''Rent'', SysVarRent), (''Clock'', SysVarClock), (''SystemProgram'', SystemProgramID),
               (''TokenProgram'', TokenProgramID), (''EpochSchedule'', SysVarEpochSchedule)],
             i_args = [(''ControllerFeeNum'', unat (rate_N fee)), (''ControllerFeeDen'', unat (rate_D fee))]\<rparr>)))))"

definition STRUCT_SIZE_PERIOD_RING :: uint64 where "STRUCT_SIZE_PERIOD_RING = 5000"
definition STRUCT_SIZE_BID_LIST_HEADER :: uint64 where "STRUCT_SIZE_BID_LIST_HEADER = 66"
definition STRUCT_SIZE_REFUND_HEADER :: uint64 where "STRUCT_SIZE_REFUND_HEADER = 48"
definition STRUCT_SIZE_REFUND_CLAIM :: uint64 where "STRUCT_SIZE_REFUND_CLAIM = 48"
definition STRUCT_BID_SINGLE :: uint64 where "STRUCT_BID_SINGLE = 57"
definition RECEIPT_LIMIT_DEFUALT :: "8 word" where "RECEIPT_LIMIT_DEFUALT = 20"

definition refundSize :: "uint16 \<Rightarrow> uint64" where
  "refundSize refundSpace = STRUCT_SIZE_REFUND_HEADER + ucast refundSpace * STRUCT_SIZE_REFUND_CLAIM"

definition bidListSize :: "uint16 \<Rightarrow> uint64" where
  "bidListSize bidSpace = STRUCT_SIZE_BID_LIST_HEADER + ucast bidSpace * STRUCT_BID_SINGLE"

definition rate_args :: "uint16 \<Rightarrow> Rate \<Rightarrow> Rate \<Rightarrow> uint16 \<Rightarrow> (string \<times> nat) list" where
  "rate_args allotment crankFee share tickSize =
     [(''Allotment'', unat allotment), (''CrankFeeRateNum'', unat (rate_N crankFee)), (''CrankFeeRateDen'', unat (rate_D crankFee)),
      (''ValidatorPayoutShareNum'', unat (rate_N share)), (''ValidatorPayoutShareDen'', unat (rate_D share)),
      (''TickSize'', unat tickSize)]"

definition AddPipelineDirect :: "env \<Rightarrow> pubkey \<Rightarrow> err + PrivateKey \<Rightarrow> err + PrivateKey \<Rightarrow> PrivateKey \<Rightarrow> controller_ref
    \<Rightarrow> PrivateKey \<Rightarrow> PrivateKey \<Rightarrow> Rate \<Rightarrow> uint16 \<Rightarrow> Rate \<Rightarrow> uint16 \<Rightarrow> uint16 \<Rightarrow> PrivateKey act" where
  "AddPipelineDirect v programID fresh1 fresh2 pipelineId controller payer adminKey crankFee allotment share tickSize refundSpace =
     with_builder ''no tx builder''
     (bind (from_env (ctr_Data controller)) (\<lambda>cd.
      bind (from_env (PipelineVaultId v (PublicKey pipelineId))) (\<lambda>vaultId.
      bind (CreateAccount v fresh1 (refundSize refundSpace) programID adminKey) (\<lambda>refundsId.
      bind (CreateAccount v fresh2 STRUCT_SIZE_PERIOD_RING programID adminKey) (\<lambda>periodRingId.
      bind (AppendKey pipelineId) (\<lambda>_.
      bind (AppendKey adminKey) (\<lambda>_.
      bind (AddInstruction
        \<lparr>i_name = IAddPipeline,
         i_accounts = [(''Controller'', ctr_Id controller), (''PcMint'', PcMint cd), (''Pipeline'', PublicKey pipelineId),
           (''PipelineVault'', vaultId), (''Refunds'', refundsId), (''Periods'', periodRingId), (''Admin'', PublicKey adminKey),
           (''TokenProgram'', TokenProgramID), (''SystemProgram'', SystemProgramID), (''Rent'', SysVarRent)],
         i_args = rate_args allotment crankFee share tickSize
           @ [(''RefundSpace'', unat refundSpace), (''ReceiptLimit'', unat RECEIPT_LIMIT_DEFUALT)]\<rparr>) (\<lambda>_.
      yield pipelineId))))))))"

definition AddPipeline :: "env \<Rightarrow> pubkey \<Rightarrow> err + PrivateKey \<Rightarrow> err + PrivateKey \<Rightarrow> err + PrivateKey \<Rightarrow> controller_ref
    \<Rightarrow> PrivateKey \<Rightarrow> PrivateKey \<Rightarrow> Rate \<Rightarrow> uint16 \<Rightarrow> Rate \<Rightarrow> uint16 \<Rightarrow> uint16 \<Rightarrow> PrivateKey act" where
  "AddPipeline v programID fresh fresh1 fresh2 controller payer adminKey crankFee allotment share tickSize refundSpace =
     bind (from_env fresh) (\<lambda>pipelineId.
       AddPipelineDirect v programID fresh1 fresh2 pipelineId controller payer adminKey crankFee allotment share tickSize refundSpace)"

definition UpdatePipeline :: "pubkey \<Rightarrow> pubkey \<Rightarrow> PrivateKey \<Rightarrow> Rate \<Rightarrow> uint16 \<Rightarrow> Rate \<Rightarrow> uint16 \<Rightarrow> unit act" where
  "UpdatePipeline controller pipelineId adminKey crankFee allotment share tickSize = with_builder ''no tx builder''
     (bind (AppendKey adminKey) (\<lambda>_.
      bind (AppendKey adminKey) (\<lambda>_. AddInstruction
        \<lparr>i_name = IUpdatePipeline,
         i_accounts = [(''Controller'', controller), (''Pipeline'', pipelineId), (''Admin'', PublicKey adminKey),
           (''NewAdmin'', PublicKey adminKey)],
         i_args = rate_args allotment crankFee share tickSize @ [(''ReceiptLimit'', unat RECEIPT_LIMIT_DEFUALT)]\<rparr>)))"

definition AppendPeriod :: "env \<Rightarrow> pubkey \<Rightarrow> err + PrivateKey \<Rightarrow> err + PrivateKey \<Rightarrow> controller_ref \<Rightarrow> pipeline_ref
    \<Rightarrow> PrivateKey \<Rightarrow> uint64 \<Rightarrow> uint64 \<Rightarrow> uint16 \<Rightarrow> uint16 \<Rightarrow> pubkey act" where
  "AppendPeriod v programID fresh fresh1 controller pipeline admin start len withhold bidSpace =
     with_builder ''no tx builder''
     (bind (from_env (pip_Data pipeline)) (\<lambda>data.
      bind (from_env fresh) (\<lambda>payout.
      bind (CreateAccount v fresh1 (bidListSize bidSpace) programID admin) (\<lambda>bidListId.
      bind (AppendKey payout) (\<lambda>_.
      bind (AddInstruction
        \<lparr>i_name = IAppendPeriod,
         i_accounts = [(''Admin'', PublicKey admin), (''Clock'', SysVarClock), (''Controller'', ctr_Id controller),
           (''EpochSchedule'', SysVarEpochSchedule), (''Payout'', PublicKey payout), (''Bids'', bidListId),
           (''Periods'', pa_Periods data), (''Pipeline'', pip_Id pipeline), (''Rent'', SysVarRent),
           (''SystemProgram'', SystemProgramID), (''TokenProgram'', TokenProgramID)],
         i_args = [(''Start'', unat start), (''Length'', unat len), (''Withhold'', unat withhold),
           (''BidSpace'', unat bidSpace)]\<rparr>) (\<lambda>_.
      yield (PublicKey payout)))))))"

section \<open>Payouts, bids and refunds\<close>

definition Crank :: "env \<Rightarrow> controller_ref \<Rightarrow> pipeline_ref \<Rightarrow> payout_ref \<Rightarrow> PrivateKey \<Rightarrow> unit act" where
  "Crank v controller pipeline payout cranker = with_builder ''blank tx builder''
     (bind (from_env (ctr_Data controller)) (\<lambda>cd.
      bind (from_env (pip_Data pipeline)) (\<lambda>pd.
      bind (from_env (pay_Bids payout)) (\<lambda>bids.
      bind (AppendKey cranker) (\<lambda>_.
      bind (from_env (FindAssociatedTokenAddress v (PublicKey cranker) (PcMint cd))) (\<lambda>crankerFunds.
      bind (if GetAccountInfo v crankerFunds = None then yield ()
            else CreateTokenAccount cranker (PublicKey cranker) (PcMint cd)) (\<lambda>_.
      if bids = Zero then fails ''bid account does not exist''
      else bind (AddInstruction
        \<lparr>i_name = ICrank,
         i_accounts = [(''Bids'', bids), (''Clock'', SysVarClock), (''Controller'', ctr_Id controller),
           (''Cranker'', PublicKey cranker), (''CrankerFund'', crankerFunds), (''Payout'', pay_Id payout),
           (''PcVault'', pa_PcVault pd), (''Pipeline'', pip_Id pipeline), (''TokenProgram'', TokenProgramID)],
         i_args = []\<rparr>) (\<lambda>_. AppendKey cranker))))))))"

definition CloseBids :: "controller_ref \<Rightarrow> pipeline_ref \<Rightarrow> payout_ref \<Rightarrow> PrivateKey \<Rightarrow> unit act" where
  "CloseBids controller pipeline payout admin = with_builder ''blank tx builder''
     (bind (from_env (pay_Bids payout)) (\<lambda>bids.
      bind (AppendKey admin) (\<lambda>_. AddInstruction
        \<lparr>i_name = ICloseBids,
         i_accounts = [(''Bids'', bids), (''Clock'', SysVarClock), (''Controller'', ctr_Id controller),
           (''Payout'', pay_Id payout), (''Pipeline'', pip_Id pipeline), (''PipelineAdmin'', PublicKey admin)],
         i_args = []\<rparr>)))"

record bid_arg =
  ba_User :: pubkey
  ba_Deposit :: uint64

definition Bid :: "controller_ref \<Rightarrow> bid_arg \<Rightarrow> pipeline_ref \<Rightarrow> payout_ref \<Rightarrow> PrivateKey \<Rightarrow> pubkey \<Rightarrow> unit act" where
  "Bid controller bid pipeline payout bidAdmin bidFund = with_builder ''blank tx builder''
     (bind (from_env (pip_Data pipeline)) (\<lambda>pd.
      bind (from_env (pay_Bids payout)) (\<lambda>bids.
      bind (AppendKey bidAdmin) (\<lambda>_.
      if ba_User bid \<noteq> PublicKey bidAdmin then fails ''bid admin private key does not match user in bid''
      else AddInstruction
        \<lparr>i_name = IInsertBid,
         i_accounts = [(''Bids'', bids), (''Controller'', ctr_Id controller), (''Payout'', pay_Id payout),
           (''PcVault'', pa_PcVault pd), (''Periods'', pa_Periods pd), (''Pipeline'', pip_Id pipeline),
           (''TokenProgram'', TokenProgramID), (''User'', PublicKey bidAdmin), (''UserFund'', bidFund)],
         i_args = [(''Bid'', unat (ba_Deposit bid))]\<rparr>))))"

definition ClosePayout :: "controller_ref \<Rightarrow> pipeline_ref \<Rightarrow> payout_ref \<Rightarrow> PrivateKey \<Rightarrow> unit act" where
  "ClosePayout controller pipeline payout admin = with_builder ''no tx builder''
     (bind (from_env (ctr_Data controller)) (\<lambda>cd.
      bind (from_env (pip_Data pipeline)) (\<lambda>pd.
      bind (AppendKey admin) (\<lambda>_. AddInstruction
        \<lparr>i_name = IClosePayout,
         i_accounts = [(''Clock'', SysVarClock), (''Controller'', ctr_Id controller), (''ControllerPcVault'', cd_PcVault cd),
           (''Payout'', pay_Id payout), (''Pipeline'', pip_Id pipeline), (''PipelineAdmin'', PublicKey admin),
           (''PipelinePcVault'', pa_PcVault pd), (''TokenProgram'', TokenProgramID)],
         i_args = []\<rparr>))))"

definition ClaimRefund :: "env \<Rightarrow> controller_ref \<Rightarrow> pipeline_ref \<Rightarrow> pubkey \<Rightarrow> PrivateKey \<Rightarrow> unit act" where
  "ClaimRefund v controller pipeline user payer = with_builder ''blank tx builder''
     (bind (from_env (ctr_Data controller)) (\<lambda>cd.
      bind (from_env (pip_Data pipeline)) (\<lambda>pd.
      bind (from_env (FindAssociatedTokenAddress v user (PcMint cd))) (\<lambda>userVaultId.
      bind (if GetAccountInfo v userVaultId = None then yield ()
            else CreateTokenAccount payer user (PcMint cd)) (\<lambda>_. AddInstruction
        \<lparr>i_name = IClaimRefund,
         i_accounts = [(''Controller'', ctr_Id controller), (''Pipeline'', pip_Id pipeline), (''PipelineVault'', pa_PcVault pd),
           (''Refunds'', pa_Refunds pd), (''TokenProgram'', TokenProgramID), (''UserFund'', userVaultId)],
         i_args = []\<rparr>)))))"

fun claim_each :: "env \<Rightarrow> controller_ref \<Rightarrow> pipeline_ref \<Rightarrow> PrivateKey \<Rightarrow> pubkey list \<Rightarrow> unit act" where
  "claim_each v controller pipeline payer [] = yield ()"
| "claim_each v controller pipeline payer (u # us) =
     bind (ClaimRefund v controller pipeline u payer) (\<lambda>_. claim_each v controller pipeline payer us)"

definition MultipleClaimRefund :: "env \<Rightarrow> controller_ref \<Rightarrow> pipeline_ref \<Rightarrow> PrivateKey \<Rightarrow> unit act" where
  "MultipleClaimRefund v controller pipeline payer =
     bind (from_env (pip_Claims pipeline)) (claim_each v controller pipeline payer)"

section \<open>Receipts, stakers and validators\<close>

record ReceiptSettings =
  rs_Receipt :: pubkey
  rs_Controller :: pubkey
  rs_Pipeline :: pubkey
  rs_PipelineAdmin :: PrivateKey
  rs_Payout :: pubkey
  rs_ValidatorMember :: pubkey

text \<open>The two Update functions; the hash of the transaction is an argument of the instruction.\<close>

definition BidReceipt_Update :: "ReceiptSettings \<Rightarrow> pubkey \<Rightarrow> instruction" where
  "BidReceipt_Update brs txHash =
     \<lparr>i_name = IUpdateBidReceipt,
      i_accounts = [(''Clock'', SysVarClock), (''Controller'', rs_Controller brs), (''Payout'', rs_Payout brs),
        (''Pipeline'', rs_Pipeline brs), (''PipelineAdmin'', PublicKey (rs_PipelineAdmin brs)),
        (''BidReceipt'', rs_Receipt brs), (''Rent'', SysVarRent), (''SystemProgram'', SystemProgramID), (''LastTx'', txHash)],
      i_args = []\<rparr>"

definition Receipt_Update :: "ReceiptSettings \<Rightarrow> pubkey \<Rightarrow> instruction" where
  "Receipt_Update brs txHash =
     \<lparr>i_name = IUpdateReceipt,
      i_accounts = [(''Clock'', SysVarClock), (''Controller'', rs_Controller brs), (''Payout'', rs_Payout brs),
        (''Pipeline'', rs_Pipeline brs), (''PipelineAdmin'', PublicKey (rs_PipelineAdmin brs)), (''Rent'', SysVarRent),
        (''SystemProgram'', SystemProgramID), (''ValidatorManager'', rs_ValidatorMember brs), (''LastTx'', txHash)],
      i_args = []\<rparr>"

definition AddStaker :: "env \<Rightarrow> pubkey \<Rightarrow> PrivateKey \<Rightarrow> PrivateKey \<Rightarrow> unit act" where
  "AddStaker v controllerId stake admin = with_builder ''no tx builder''
     (bind (from_env (StakerManagerId v controllerId (PublicKey stake))) (\<lambda>managerId.
      bind (AppendKey stake) (\<lambda>_.
      bind (AppendKey admin) (\<lambda>_. AddInstruction
        \<lparr>i_name = IAddStaker,
         i_accounts = [(''Controller'', controllerId), (''Rent'', SysVarRent), (''Staker'', PublicKey stake),
           (''StakerManager'', managerId), (''StakerSigner'', PublicKey admin), (''SystemProgram'', SystemProgramID)],
         i_args = []\<rparr>))))"

text \<open>
  The address of the staker receipt is derived from the variable that is about to hold it, which is
  the zero key, and not from the receipt.
\<close>

definition AddStakerToReceipt :: "env \<Rightarrow> pubkey \<Rightarrow> pubkey \<Rightarrow> PrivateKey \<Rightarrow> pubkey \<Rightarrow> pubkey \<Rightarrow> pubkey \<Rightarrow> unit act" where
  "AddStakerToReceipt v controllerId stake admin payoutId receiptId validatorManagerId = with_builder ''no tx builder''
     (bind (from_env (StakerManagerId v controllerId stake)) (\<lambda>managerId.
      bind (from_env (StakerReceiptId v managerId Zero)) (\<lambda>stakerReceiptId.
      bind (AppendKey admin) (\<lambda>_. AddInstruction
        \<lparr>i_name = IAddStakerToReceipt,
         i_accounts = [(''Clock'', SysVarClock), (''Controller'', controllerId), (''Payout'', payoutId), (''Receipt'', receiptId),
           (''Rent'', SysVarRent), (''StakeAdmin'', PublicKey admin), (''Staker'', stake), (''StakerManager'', managerId),
           (''StakerReceipt'', stakerReceiptId), (''SystemProgram'', SystemProgramID),
           (''ValidatorManager'', validatorManagerId)],
         i_args = []\<rparr>))))"

definition AddValidator :: "env \<Rightarrow> pubkey \<Rightarrow> PrivateKey \<Rightarrow> pubkey \<Rightarrow> PrivateKey \<Rightarrow> pubkey act" where
  "AddValidator v controller vote stake admin = with_builder ''no tx builder''
     (bind (AppendKey vote) (\<lambda>_.
      bind (AppendKey admin) (\<lambda>_.
      bind (from_env (ValidatorManagerId v controller (PublicKey vote))) (\<lambda>member.
      bind (AddInstruction
        \<lparr>i_name = IAddValidator,
         i_accounts = [(''Controller'', controller), (''ValidatorManager'', member), (''Vote'', PublicKey vote),
           (''Stake'', stake), (''VoteAdmin'', PublicKey vote), (''ValidatorAdmin'', PublicKey admin),
           (''SystemProgram'', SystemProgramID), (''Rent'', SysVarRent)],
         i_args = []\<rparr>) (\<lambda>_. yield member)))))"

definition ValidatorSetPipeline :: "err + PrivateKey \<Rightarrow> pubkey \<Rightarrow> pubkey \<Rightarrow> pubkey \<Rightarrow> pubkey \<Rightarrow> PrivateKey \<Rightarrow> pubkey act" where
  "ValidatorSetPipeline fresh controllerId payoutId pipelineId validatorId validatorAdmin = with_builder ''no tx builder''
     (bind (from_env fresh) (\<lambda>receipt.
      bind (AppendKey receipt) (\<lambda>_.
      bind (AppendKey validatorAdmin) (\<lambda>_.
      bind (AddInstruction
        \<lparr>i_name = IValidatorSetPayout,
         i_accounts = [(''Clock'', SysVarClock), (''Controller'', controllerId), (''Payout'', payoutId),
           (''Pipeline'', pipelineId), (''Receipt'', PublicKey receipt), (''Rent'', SysVarRent),
           (''SystemProgram'', SystemProgramID), (''ValidatorAdmin'', PublicKey validatorAdmin),
           (''ValidatorManager'', validatorId)],
         i_args = []\<rparr>) (\<lambda>_. yield (PublicKey receipt))))))"

text \<open>The admin of the validator is read from its account; only the payer's key is at hand.\<close>

definition ValidatorWithdrawReceipt :: "env \<Rightarrow> controller_ref \<Rightarrow> pubkey \<Rightarrow> pipeline_ref \<Rightarrow> validator_ref \<Rightarrow> pubkey \<Rightarrow> PrivateKey \<Rightarrow> unit act" where
  "ValidatorWithdrawReceipt v controller payoutId pipeline validator receiptId payer = with_builder ''no tx builder''
     (bind (from_env (ctr_Data controller)) (\<lambda>cd.
      bind (from_env (pip_Data pipeline)) (\<lambda>pd.
      bind (from_env (val_Admin validator)) (\<lambda>admin.
      bind (token_account v payer admin (PcMint cd)) (\<lambda>fundAccountId. AddInstruction
        \<lparr>i_name = IValidatorWithdrawReceipt,
         i_accounts = [(''Clock'', SysVarClock), (''Controller'', ctr_Id controller), (''Payout'', payoutId),
           (''PcVault'', pa_PcVault pd), (''Pipeline'', pip_Id pipeline), (''Receipt'', receiptId),
           (''TokenProgram'', TokenProgramID), (''ValidatorAdmin'', admin), (''ValidatorFund'', fundAccountId),
           (''ValidatorManager'', val_Id validator)],
         i_args = []\<rparr>)))))"

definition Deprecate_CreateValidatorReceipt :: "unit act" where
  "Deprecate_CreateValidatorReceipt = with_builder ''no tx builder'' (fails ''not implemented yet'')"

text \<open>
  The validator adds its signature to a transaction of the pipeline; parsing, the list of signers and
  the signing itself are those of the Solana library.
\<close>

record signed_tx =
  tx_signers :: "pubkey list"
  tx_signatures :: "pubkey list"

definition SignValidatorReceipt :: "err + signed_tx \<Rightarrow> (pubkey \<Rightarrow> signed_tx \<Rightarrow> signed_tx) \<Rightarrow> (signed_tx \<Rightarrow> err option)
    \<Rightarrow> pubkey \<Rightarrow> PrivateKey \<Rightarrow> err option" where
  "SignValidatorReceipt parsed sign send pipelineAdmin validatorAdmin =
     (case parsed of
        Inl e \<Rightarrow> Some e
      | Inr tx \<Rightarrow>
          if pipelineAdmin \<notin> set (tx_signers tx) then Some ''no pipeline admin signature''
          else let tx' = sign (PublicKey validatorAdmin) tx
               in if length (tx_signatures tx') \<le> length (tx_signatures tx) then Some ''no length'' else send tx')"

section \<open>Running a script\<close>

text \<open>The operations that fill a transaction, with their arguments.\<close>

datatype (plugins only: code) script_op =
    OpTokenAccount PrivateKey pubkey pubkey
  | OpAccountDirect uint64 PrivateKey pubkey PrivateKey
  | OpAccount "err + PrivateKey" uint64 pubkey PrivateKey
  | OpMint PrivateKey PrivateKey PrivateKey "8 word"
  | OpMintIssue "MintResult option" pubkey uint64
  | OpTransfer PrivateKey pubkey uint64
  | OpController PrivateKey PrivateKey pubkey "Rate option"
  | OpPipeline pubkey "err + PrivateKey" "err + PrivateKey" "err + PrivateKey" controller_ref PrivateKey PrivateKey Rate uint16 Rate uint16 uint16
  | OpUpdatePipeline pubkey pubkey PrivateKey Rate uint16 Rate uint16
  | OpPeriod pubkey "err + PrivateKey" "err + PrivateKey" controller_ref pipeline_ref PrivateKey uint64 uint64 uint16 uint16
  | OpCrank controller_ref pipeline_ref payout_ref PrivateKey
  | OpCloseBids controller_ref pipeline_ref payout_ref PrivateKey
  | OpBid controller_ref bid_arg pipeline_ref payout_ref PrivateKey pubkey
  | OpClosePayout controller_ref pipeline_ref payout_ref PrivateKey
  | OpClaims controller_ref pipeline_ref PrivateKey
  | OpStaker pubkey PrivateKey PrivateKey
  | OpStakerToReceipt pubkey pubkey PrivateKey pubkey pubkey pubkey
  | OpValidator pubkey PrivateKey pubkey PrivateKey
  | OpSetPipeline "err + PrivateKey" pubkey pubkey pubkey pubkey PrivateKey
  | OpWithdrawReceipt controller_ref pubkey pipeline_ref validator_ref pubkey PrivateKey

definition ignore :: "'a act \<Rightarrow> unit act" where
  "ignore m = bind m (\<lambda>_. yield ())"

fun perform :: "env \<Rightarrow> script_op \<Rightarrow> unit act" where
  "perform v (OpTokenAccount p w m) = CreateTokenAccount p w m"
| "perform v (OpAccountDirect n a w p) = ignore (CreateAccountDirect v n a w p)"
| "perform v (OpAccount f n w p) = ignore (CreateAccount v f n w p)"
| "perform v (OpMint m p a d) = ignore (CreateMintDirect v m p a d)"
| "perform v (OpMintIssue r w n) = MintIssue v r w n"
| "perform v (OpTransfer p d n) = Transfer p d n"
| "perform v (OpController a c m f) = CreateController v a c m f"
| "perform v (OpPipeline g f f1 f2 c p a cf al sh ts rf) = ignore (AddPipeline v g f f1 f2 c p a cf al sh ts rf)"
| "perform v (OpUpdatePipeline c l a cf al sh ts) = UpdatePipeline c l a cf al sh ts"
| "perform v (OpPeriod g f f1 c l a st n w bs) = ignore (AppendPeriod v g f f1 c l a st n w bs)"
| "perform v (OpCrank c l y k) = Crank v c l y k"
| "perform v (OpCloseBids c l y a) = CloseBids c l y a"
| "perform v (OpBid c b l y a u) = Bid c b l y a u"
| "perform v (OpClosePayout c l y a) = ClosePayout c l y a"
| "perform v (OpClaims c l p) = MultipleClaimRefund v c l p"
| "perform v (OpStaker c k a) = AddStaker v c k a"
| "perform v (OpStakerToReceipt c k a y r m) = AddStakerToReceipt v c k a y r m"
| "perform v (OpValidator c w k a) = ignore (AddValidator v c w k a)"
| "perform v (OpSetPipeline f c y l k a) = ignore (ValidatorSetPipeline f c y l k a)"
| "perform v (OpWithdrawReceipt c y l k r p) = ValidatorWithdrawReceipt v c y l k r p"

fun perform_all :: "env \<Rightarrow> script_op list \<Rightarrow> unit act" where
  "perform_all v [] = yield ()"
| "perform_all v (a # as) = bind (perform v a) (\<lambda>_. perform_all v as)"

definition transaction :: "env \<Rightarrow> PrivateKey \<Rightarrow> script_op list \<Rightarrow> bool \<Rightarrow> unit act" where
  "transaction v payer ops simulate =
     bind (SetTx payer) (\<lambda>_. bind (perform_all v ops) (\<lambda>_. FinishTx v simulate))"

section \<open>Keys\<close>

text \<open>The roles of an instruction that a script fills from a private key.\<close>

fun private_roles :: "instruction_name \<Rightarrow> string list" where
  "private_roles ITokenAccount = [''Payer'']"
| "private_roles ICreateAccount = [''Funding'', ''NewAccount'']"
| "private_roles IMintTo = [''Authority'']"
| "private_roles ITransfer = [''Funding'']"
| "private_roles ICreate = [''Admin'', ''CrankAuthority'']"
| "private_roles IAddPipeline = [''Pipeline'', ''Admin'']"
| "private_roles IUpdatePipeline = [''Admin'', ''NewAdmin'']"
| "private_roles IAppendPeriod = [''Admin'', ''Payout'']"
| "private_roles ICrank = [''Cranker'']"
| "private_roles ICloseBids = [''PipelineAdmin'']"
| "private_roles IInsertBid = [''User'']"
| "private_roles IClosePayout = [''PipelineAdmin'']"
| "private_roles IAddStaker = [''Staker'', ''StakerSigner'']"
| "private_roles IAddStakerToReceipt = [''StakeAdmin'']"
| "private_roles IAddValidator = [''Vote'', ''VoteAdmin'', ''ValidatorAdmin'']"
| "private_roles IValidatorSetPayout = [''Receipt'', ''ValidatorAdmin'']"
| "private_roles _ = []"

definition private_accounts :: "instruction \<Rightarrow> pubkey set" where
  "private_accounts i = snd ` {x \<in> set (i_accounts i). fst x \<in> set (private_roles (i_name i))}"

definition signable :: "TransactionBuilder \<Rightarrow> (pubkey \<rightharpoonup> PrivateKey) \<Rightarrow> bool" where
  "signable b m \<longleftrightarrow> feePayer b \<in> dom m \<and> (\<forall>i\<in>set (instructions b). private_accounts i \<subseteq> dom m)
     \<and> (\<forall>k x. m k = Some x \<longrightarrow> PublicKey x = k)"

text \<open>A script in the making whose keys are complete and contain \<open>K\<close>.\<close>

definition filling :: "pubkey set \<Rightarrow> TransactionBuilder \<Rightarrow> Script \<Rightarrow> bool" where
  "filling K b0 s \<longleftrightarrow> (\<exists>b m new. txBuilder s = Some b \<and> keyMap s = Some m \<and> signable b m \<and> K \<subseteq> dom m
     \<and> b = b0\<lparr>instructions := instructions b0 @ new\<rparr>)"

text \<open>
  The action neither panics nor loses anything: it starts with the keys \<open>K\<close> and ends with the keys
  \<open>L\<close>, or with an error.
\<close>

definition fills :: "pubkey set \<Rightarrow> 'a act \<Rightarrow> pubkey set \<Rightarrow> bool" where
  "fills K m L \<longleftrightarrow> (\<forall>b0 s. filling K b0 s \<longrightarrow> (\<exists>r s'. m s = Ret (r, s') \<and> submitted s' = submitted s
     \<and> (case r of Inl e \<Rightarrow> filling {} b0 s' | Inr x \<Rightarrow> filling L b0 s')))"

lemma filling_mono: "filling L b s \<Longrightarrow> K \<subseteq> L \<Longrightarrow> filling K b s"
  unfolding filling_def by blast

lemma fills_weaken:
  assumes "fills K m L" "M \<subseteq> L"
  shows "fills K m M"
  unfolding fills_def
proof (intro allI impI)
  fix b0 s
  assume "filling K b0 s"
  with assms(1) obtain r s' where r: "m s = Ret (r, s')" "submitted s' = submitted s"
    "case r of Inl e \<Rightarrow> filling {} b0 s' | Inr x \<Rightarrow> filling L b0 s'" unfolding fills_def by blast
  have "case r of Inl e \<Rightarrow> filling {} b0 s' | Inr x \<Rightarrow> filling M b0 s'"
    using r(3) filling_mono [OF _ assms(2), of b0 s'] by (cases r) simp_all
  then show "\<exists>r s'. m s = Ret (r, s') \<and> submitted s' = submitted s
      \<and> (case r of Inl e \<Rightarrow> filling {} b0 s' | Inr x \<Rightarrow> filling M b0 s')" using r(1,2) by blast
qed

lemma fills_bind:
  assumes "fills K m L" "\<And>x. fills L (f x) M"
  shows "fills K (bind m f) M"
  unfolding fills_def
proof (intro allI impI)
  fix b0 s
  assume "filling K b0 s"
  with assms(1) obtain r s' where r: "m s = Ret (r, s')" "submitted s' = submitted s"
    "case r of Inl e \<Rightarrow> filling {} b0 s' | Inr x \<Rightarrow> filling L b0 s'" unfolding fills_def by blast
  show "\<exists>r s'. bind m f s = Ret (r, s') \<and> submitted s' = submitted s
      \<and> (case r of Inl e \<Rightarrow> filling {} b0 s' | Inr x \<Rightarrow> filling M b0 s')"
  proof (cases r)
    case (Inr x)
    then obtain q s2 where "f x s' = Ret (q, s2)" "submitted s2 = submitted s'"
      "case q of Inl e \<Rightarrow> filling {} b0 s2 | Inr x \<Rightarrow> filling M b0 s2"
      using assms(2) [of x] r(3) unfolding fills_def by fastforce
    then show ?thesis using Inr r by (simp add: bind_def)
  qed (use r in \<open>simp add: bind_def\<close>)
qed

lemma fills_yield: "L \<subseteq> K \<Longrightarrow> fills K (yield x) L"
  by (auto simp: fills_def yield_def intro: filling_mono)

lemma fills_fails: "fills K (fails e) L"
  by (auto simp: fills_def fails_def intro: filling_mono)

lemma fills_env: "fills K (from_env r) K"
  by (cases r) (auto simp: fills_def from_env_def intro: filling_mono)

lemma fills_builder: "fills K m L \<Longrightarrow> fills K (with_builder e m) L"
  by (auto simp: fills_def with_builder_def filling_def)

lemma fills_key: "fills K (AppendKey k) (insert (PublicKey k) K)"
  unfolding fills_def
proof (intro allI impI)
  fix b0 s
  assume "filling K b0 s"
  then obtain b m new where s: "txBuilder s = Some b" "keyMap s = Some m" "signable b m" "K \<subseteq> dom m"
    "b = b0\<lparr>instructions := instructions b0 @ new\<rparr>" unfolding filling_def by blast
  have "signable b (m(PublicKey k \<mapsto> k))" using s(3) by (auto simp: signable_def)
  then have "filling (insert (PublicKey k) K) b0 (s\<lparr>keyMap := Some (m(PublicKey k \<mapsto> k))\<rparr>)"
    using s unfolding filling_def
    by (intro exI [of _ b] exI [of _ "m(PublicKey k \<mapsto> k)"] exI [of _ new]) auto
  then show "\<exists>r s'. AppendKey k s = Ret (r, s') \<and> submitted s' = submitted s
      \<and> (case r of Inl e \<Rightarrow> filling {} b0 s' | Inr x \<Rightarrow> filling (insert (PublicKey k) K) b0 s')"
    using s(2) by (simp add: AppendKey_def)
qed

lemma fills_instruction:
  assumes "private_accounts i \<subseteq> K"
  shows "fills K (AddInstruction i) K"
  unfolding fills_def
proof (intro allI impI)
  fix b0 s
  assume "filling K b0 s"
  then obtain b m new where s: "txBuilder s = Some b" "keyMap s = Some m" "signable b m" "K \<subseteq> dom m"
    "b = b0\<lparr>instructions := instructions b0 @ new\<rparr>" unfolding filling_def by blast
  let ?b = "b\<lparr>instructions := instructions b @ [i]\<rparr>"
  have "signable ?b m" using s(3,4) assms by (auto simp: signable_def)
  then have "filling K b0 (s\<lparr>txBuilder := Some ?b\<rparr>)"
    using s unfolding filling_def by (intro exI [of _ ?b] exI [of _ m] exI [of _ "new @ [i]"]) auto
  then show "\<exists>r s'. AddInstruction i s = Ret (r, s') \<and> submitted s' = submitted s
      \<and> (case r of Inl e \<Rightarrow> filling {} b0 s' | Inr x \<Rightarrow> filling K b0 s')"
    using s(1) by (simp add: AddInstruction_def)
qed

text \<open>The rules in the form in which the scripts use them, from the first action to the last.\<close>

lemma fills_if: "fills K a L \<Longrightarrow> fills K b L \<Longrightarrow> fills K (if c then a else b) L"
  by simp

lemma fills_bind_key: "(\<And>x. fills (insert (PublicKey k) K) (f x) M) \<Longrightarrow> fills K (bind (AppendKey k) f) M"
  by (rule fills_bind [OF fills_key])

lemma fills_bind_env: "(\<And>x. fills K (f x) M) \<Longrightarrow> fills K (bind (from_env r) f) M"
  by (rule fills_bind [OF fills_env])

lemma fills_bind_instruction:
  "private_accounts i \<subseteq> K \<Longrightarrow> (\<And>x. fills K (f x) M) \<Longrightarrow> fills K (bind (AddInstruction i) f) M"
  by (rule fills_bind [OF fills_instruction])

lemma fills_end: "private_accounts i \<subseteq> K \<Longrightarrow> L \<subseteq> K \<Longrightarrow> fills K (AddInstruction i) L"
  by (rule fills_weaken [OF fills_instruction])

lemma fills_end_key: "L \<subseteq> insert (PublicKey k) K \<Longrightarrow> fills K (AppendKey k) L"
  by (rule fills_weaken [OF fills_key])

lemma private_accountsI:
  "\<forall>x\<in>set (i_accounts i). fst x \<in> set (private_roles (i_name i)) \<longrightarrow> snd x \<in> K \<Longrightarrow> private_accounts i \<subseteq> K"
  by (auto simp: private_accounts_def)

lemmas fill_rules = fills_builder fills_bind_key fills_bind_env fills_bind_instruction fills_if fills_end fills_end_key
  fills_fails fills_yield private_accountsI

lemma fills_token_account: "fills K (CreateTokenAccount p w m) K"
  unfolding CreateTokenAccount_def by (intro fill_rules) auto

lemma fills_account:
  "fills K (CreateAccount v f n w p) (insert (PublicKey p) K)"
  "fills K (CreateAccountDirect v n a w p) K"
  unfolding CreateAccount_def CreateAccountDirect_def create_account_instr_def
  by ((intro fill_rules; auto)+)

lemma fills_then: "fills K m L \<Longrightarrow> (\<And>x. fills L (f x) M) \<Longrightarrow> fills K (bind m f) M"
  by (rule fills_bind)

lemma fills_bind_maybe:
  "(\<And>x. fills K (f x) M) \<Longrightarrow> fills K (bind (if b then yield () else CreateTokenAccount p w m) f) M"
  by (rule fills_then [OF fills_if [OF fills_yield fills_token_account]]) auto

lemma fills_token: "fills K (token_account v p w m) K"
  unfolding token_account_def by (intro fill_rules fills_then [OF fills_token_account]) auto

lemma fills_ignore: "fills K m K \<Longrightarrow> fills K (ignore m) K"
  unfolding ignore_def by (rule fills_then) (auto intro: fills_yield)

lemma fills_mint: "PublicKey p \<in> K \<Longrightarrow> fills K (CreateMintDirect v m p a d) K"
  unfolding CreateMintDirect_def create_account_instr_def
  by (intro fill_rules) auto

lemma fills_mint_issue: "fills K (MintIssue v r w n) K"
  unfolding MintIssue_def
  by (cases r; cases "mr_Id (the r)"; cases "mr_Authority (the r)"; simp; intro fill_rules)
    auto

lemma fills_transfer: "fills K (Transfer p d n) K"
  unfolding Transfer_def by (intro fill_rules) auto

lemma fills_controller: "fills K (CreateController v a c m f) K"
  unfolding CreateController_def by (cases f; simp; intro fill_rules) auto

lemma fills_pipeline: "fills K (AddPipeline v g f f1 f2 c p a cf al sh ts rf) K"
  unfolding AddPipeline_def AddPipelineDirect_def
  by (intro fill_rules fills_then [OF fills_account(1)]) auto

lemma fills_update_pipeline: "fills K (UpdatePipeline c l a cf al sh ts) K"
  unfolding UpdatePipeline_def by (intro fill_rules) auto

lemma fills_period: "fills K (AppendPeriod v g f f1 c l a st n w bs) K"
  unfolding AppendPeriod_def
  by (intro fill_rules fills_then [OF fills_account(1)]) auto

lemma fills_crank: "fills K (Crank v c l y k) K"
  unfolding Crank_def by (intro fill_rules fills_bind_maybe) auto

lemma fills_close_bids: "fills K (CloseBids c l y a) K"
  unfolding CloseBids_def by (intro fill_rules) auto

lemma fills_bid: "fills K (Bid c b l y a u) K"
  unfolding Bid_def by (intro fill_rules) auto

lemma fills_close_payout: "fills K (ClosePayout c l y a) K"
  unfolding ClosePayout_def by (intro fill_rules) auto

lemma fills_claim: "fills K (ClaimRefund v c l u p) K"
  unfolding ClaimRefund_def by (intro fill_rules fills_bind_maybe) auto

lemma fills_claims: "fills K (MultipleClaimRefund v c l p) K"
proof -
  have "fills K (claim_each v c l p us) K" for us
    by (induction us) (auto intro: fills_yield fills_then [OF fills_claim])
  then show ?thesis unfolding MultipleClaimRefund_def by (rule fills_bind_env)
qed

lemma fills_staker: "fills K (AddStaker v c k a) K" "fills K (AddStakerToReceipt v c k2 a y r m) K"
  unfolding AddStaker_def AddStakerToReceipt_def by ((intro fill_rules; auto)+)

lemma fills_validator: "fills K (AddValidator v c w k a) K" "fills K (ValidatorSetPipeline f c2 y l k2 a) K"
  unfolding AddValidator_def ValidatorSetPipeline_def by ((intro fill_rules; auto)+)

lemma fills_withdraw: "fills K (ValidatorWithdrawReceipt v c y l k r p) K"
  unfolding ValidatorWithdrawReceipt_def
  by (intro fill_rules fills_then [OF fills_token]) auto

lemmas fills_ops = fills_token_account fills_account(2) fills_mint fills_mint_issue fills_transfer fills_controller
  fills_pipeline fills_update_pipeline fills_period fills_crank fills_close_bids fills_bid fills_close_payout fills_claims
  fills_staker fills_validator fills_withdraw

text \<open>A mint is created with the payer of the transaction; everything else brings its own keys.\<close>

fun pays_from :: "pubkey \<Rightarrow> script_op \<Rightarrow> bool" where
  "pays_from k (OpMint m p a d) \<longleftrightarrow> PublicKey p = k"
| "pays_from k _ \<longleftrightarrow> True"

lemma fills_perform: "pays_from k op \<Longrightarrow> k \<in> K \<Longrightarrow> fills K (perform v op) K"
  by (cases op) (auto intro!: fills_ops fills_ignore fills_weaken [OF fills_account(1)])

lemma fills_perform_all: "\<forall>op\<in>set ops. pays_from k op \<Longrightarrow> k \<in> K \<Longrightarrow> fills K (perform_all v ops) K"
  by (induction ops) (auto intro!: fills_yield fills_then [OF fills_perform])

lemma FinishTx_filling:
  assumes "filling K b0 s"
  obtains r s' where "FinishTx v sim s = Ret (r, s')"
    "submitted s' = submitted s \<and> r \<noteq> Inr ()
     \<or> (\<exists>b m new h. submitted s' = submitted s @ [(b, m)] \<and> signable b m \<and> txBuilder s' = None
          \<and> b = b0\<lparr>instructions := instructions b0 @ new, blockHash := h\<rparr>
          \<and> (r = Inr () \<longleftrightarrow> SendTx v b sim = None))"
proof -
  obtain b m new where s: "txBuilder s = Some b" "keyMap s = Some m" "signable b m"
    "b = b0\<lparr>instructions := instructions b0 @ new\<rparr>" using assms unfolding filling_def by blast
  show ?thesis
  proof (cases "GetLatestBlockhash v")
    case (Inl e)
    then show ?thesis using s that
      by (auto simp: FinishTx_def with_builder_def bind_def SetBlockHash_def from_env_def)
  next
    case (Inr h)
    let ?b = "b\<lparr>blockHash := Some h\<rparr>"
    have sg: "signable ?b m" using s(3) by (simp add: signable_def)
    have eq: "?b = b0\<lparr>instructions := instructions b0 @ new, blockHash := Some h\<rparr>" using s(4) by simp
    let ?s = "s\<lparr>txBuilder := Some ?b\<rparr>"
    let ?t = "s\<lparr>txBuilder := None, keyMap := None, submitted := submitted s @ [(?b, m)]\<rparr>"
    have fin: "FinishTx v sim s =
        (case Build v ?b of
           Some e \<Rightarrow> Ret (Inl e, ?s)
         | None \<Rightarrow> (case Sign v ?b m of
             Some e \<Rightarrow> Ret (Inl e, ?s)
           | None \<Rightarrow> (case SendTx v ?b sim of Some e \<Rightarrow> Ret (Inl e, ?t) | None \<Rightarrow> Ret (Inr (), ?t))))"
      using s(1,2) Inr
      by (simp add: FinishTx_def with_builder_def bind_def SetBlockHash_def from_env_def keys_of_def Let_def
          split: option.split)
    show ?thesis
    proof (cases "Build v ?b = None \<and> Sign v ?b m = None")
      case True
      then show ?thesis using sg eq that [of "case SendTx v ?b sim of Some e \<Rightarrow> Inl e | None \<Rightarrow> Inr ()" ?t] fin
        by (cases "SendTx v ?b sim") fastforce+
    next
      case False
      then obtain e where "FinishTx v sim s = Ret (Inl e, ?s)" using fin by (auto split: option.splits)
      then show ?thesis using that [of "Inl e" ?s] by simp
    qed
  qed
qed

lemma transaction_outcome:
  assumes "txBuilder s = None" and "\<forall>op\<in>set ops. pays_from (PublicKey payer) op"
  shows "\<exists>r s'. transaction v payer ops sim s = Ret (r, s')
    \<and> (submitted s' = submitted s \<and> r \<noteq> Inr ()
       \<or> (\<exists>tx m. submitted s' = submitted s @ [(tx, m)] \<and> feePayer tx = PublicKey payer \<and> signable tx m
            \<and> txBuilder s' = None \<and> (r = Inr () \<longleftrightarrow> SendTx v tx sim = None)))"
proof -
  let ?b = "\<lparr>feePayer = PublicKey payer, instructions = [], blockHash = None\<rparr>"
  let ?m = "[PublicKey payer \<mapsto> payer]"
  let ?s = "s\<lparr>txBuilder := Some ?b, keyMap := Some ?m\<rparr>"
  have st: "SetTx payer s = Ret (Inr (), ?s)" using assms(1) by (simp add: SetTx_def AppendKey_def)
  have "filling {PublicKey payer} ?b ?s"
    unfolding filling_def by (intro exI [of _ ?b] exI [of _ ?m] exI [of _ "[]"]) (simp add: signable_def)
  with fills_perform_all [OF assms(2), of "{PublicKey payer}" v]
  obtain r s1 where p: "perform_all v ops ?s = Ret (r, s1)" "submitted s1 = submitted ?s"
    "case r of Inl e \<Rightarrow> filling {} ?b s1 | Inr x \<Rightarrow> filling {PublicKey payer} ?b s1"
    unfolding fills_def by blast
  show ?thesis
  proof (cases r)
    case (Inl e)
    then show ?thesis using p st by (simp add: transaction_def bind_def)
  next
    case (Inr x)
    then have f: "filling {PublicKey payer} ?b s1" using p(3) by simp
    obtain r' s' where "FinishTx v sim s1 = Ret (r', s')"
      "submitted s' = submitted s1 \<and> r' \<noteq> Inr ()
       \<or> (\<exists>b m new h. submitted s' = submitted s1 @ [(b, m)] \<and> signable b m \<and> txBuilder s' = None
          \<and> b = ?b\<lparr>instructions := instructions ?b @ new, blockHash := h\<rparr>
          \<and> (r' = Inr () \<longleftrightarrow> SendTx v b sim = None))" by (rule FinishTx_filling [OF f])
    then show ?thesis using p st Inr by (fastforce simp: transaction_def bind_def)
  qed
qed


section \<open>Addresses and sizes\<close>

definition staker_receipt_named :: "Script \<Rightarrow> pubkey option" where
  "staker_receipt_named s =
     (case txBuilder s of None \<Rightarrow> None | Some b \<Rightarrow>
        if instructions b = [] then None else map_of (i_accounts (last (instructions b))) ''StakerReceipt'')"

lemma staker_receipt_of_zero:
  assumes "AddStakerToReceipt v c k a y r m s = Ret (Inr (), s1)"
  obtains man x where "StakerManagerId v c k = Inr man" "StakerReceiptId v man Zero = Inr x"
    "staker_receipt_named s1 = Some x"
  using assms
  by (auto simp: AddStakerToReceipt_def with_builder_def bind_def from_env_def AppendKey_def AddInstruction_def
      staker_receipt_named_def split: if_splits option.splits sum.splits outcome.splits)

text \<open>
  The staker receipt that AddStakerToReceipt names is the one derived for the zero key: two calls
  for the same staker name the same staker receipt, whatever receipts, payouts and validators they
  are for.
\<close>

theorem staker_receipt_ignores_receipt:
  assumes "AddStakerToReceipt v c k a y r m s = Ret (Inr (), s1)"
    and "AddStakerToReceipt v c k a' y' r' m' s' = Ret (Inr (), s2)"
  shows "staker_receipt_named s1 = staker_receipt_named s2 \<and> staker_receipt_named s1 \<noteq> None"
  by (rule staker_receipt_of_zero [OF assms(1)], rule staker_receipt_of_zero [OF assms(2)]) simp

lemma CreateAccountDirect_returns_owner:
  assumes "CreateAccountDirect v n a w p s = Ret (Inr x, s1)"
  shows "x = w"
  using assms
  by (auto simp: CreateAccountDirect_def with_builder_def bind_def from_env_def AppendKey_def AddInstruction_def yield_def
      split: if_splits option.splits sum.splits outcome.splits)

text \<open>The sizes of bid list and refund accounts never wrap.\<close>

lemma account_sizes:
  "unat (bidListSize n) = 66 + 57 * unat n" "unat (refundSize n) = 48 + 48 * unat n"
proof -
  have n: "unat n < 2 ^ 16" using unsigned_less [of n] by simp
  have u: "unat (ucast n :: uint64) = unat n" using n by (simp add: unsigned_ucast_eq take_bit_nat_eq_self)
  have "unat (ucast n * (c :: uint64)) = unat n * unat c" if "unat c < 2 ^ 16" for c
  proof -
    have "unat n * unat c < 2 ^ 16 * 2 ^ 16" using n that by (intro mult_strict_mono) auto
    then show ?thesis by (simp add: unat_word_ariths u)
  qed
  from this [of 57] this [of 48] show "unat (bidListSize n) = 66 + 57 * unat n" "unat (refundSize n) = 48 + 48 * unat n"
    using n
    by (simp_all add: bidListSize_def refundSize_def STRUCT_SIZE_BID_LIST_HEADER_def STRUCT_BID_SINGLE_def
        STRUCT_SIZE_REFUND_HEADER_def STRUCT_SIZE_REFUND_CLAIM_def unat_add64)
qed

section \<open>An example\<close>

definition demo_env :: env where
  "demo_env = \<lparr>GetLatestBlockhash = Inr ''h'', Build = (\<lambda>_. None), Sign = (\<lambda>_ _. None),
     SendTransaction = (\<lambda>_ _. Inr ''sig''), SignatureStatus = (\<lambda>_. None), GetAccountInfo = (\<lambda>_. None),
     MinimumBalance = (\<lambda>_. Inr 1), FindAssociatedTokenAddress = (\<lambda>a b. Inr (a @ b)), ControllerId = Inr ''C'',
     PcVaultId = Inr ''V'', PipelineVaultId = (\<lambda>_. Inr ''W''), ValidatorManagerId = (\<lambda>_ _. Inr ''M''),
     StakerManagerId = (\<lambda>_ _. Inr ''S''), StakerReceiptId = (\<lambda>a b. Inr (a @ b))\<rparr>"

definition demo_key :: "pubkey \<Rightarrow> PrivateKey" where
  "demo_key k = \<lparr>PublicKey = k, secret = 1\<rparr>"

definition blank_script :: Script where
  "blank_script = \<lparr>txBuilder = None, keyMap = None, submitted = []\<rparr>"

lemma demo_transfer:
  "transaction demo_env (demo_key ''A'') [OpTransfer (demo_key ''B'') ''D'' 5] True blank_script
     = Ret (Inr (), blank_script\<lparr>submitted :=
         [(\<lparr>feePayer = ''A'', instructions = [\<lparr>i_name = ITransfer, i_accounts = [(''Funding'', ''B''), (''Recipient'', ''D'')],
              i_args = [(''Lamports'', 5)]\<rparr>], blockHash = Some ''h''\<rparr>,
           [''A'' \<mapsto> demo_key ''A'', ''B'' \<mapsto> demo_key ''B''])]\<rparr>)"
  by (simp add: transaction_def bind_def SetTx_def AppendKey_def Transfer_def with_builder_def AddInstruction_def yield_def
      FinishTx_def SetBlockHash_def from_env_def keys_of_def SendTx_def demo_env_def demo_key_def blank_script_def)


definition demo_filling :: Script where
  "demo_filling = \<lparr>txBuilder = Some \<lparr>feePayer = ''A'', instructions = [], blockHash = None\<rparr>, keyMap = Some Map.empty,
     submitted = []\<rparr>"

theorem staker_receipt_ignores_receipt_witness:
  "\<exists>s1 s2. AddStakerToReceipt demo_env ''C'' ''K'' (demo_key ''A'') ''P'' ''R1'' ''M'' demo_filling = Ret (Inr (), s1)
     \<and> AddStakerToReceipt demo_env ''C'' ''K'' (demo_key ''A'') ''P'' ''R2'' ''M'' demo_filling = Ret (Inr (), s2)
     \<and> staker_receipt_named s1 = staker_receipt_named s2"
proof -
  have "\<exists>s1. AddStakerToReceipt demo_env ''C'' ''K'' (demo_key ''A'') ''P'' r ''M'' demo_filling = Ret (Inr (), s1)" for r
    by (simp add: AddStakerToReceipt_def with_builder_def bind_def from_env_def AppendKey_def AddInstruction_def
        demo_env_def demo_filling_def)
  then obtain s1 s2 where
    s: "AddStakerToReceipt demo_env ''C'' ''K'' (demo_key ''A'') ''P'' ''R1'' ''M'' demo_filling = Ret (Inr (), s1)"
    "AddStakerToReceipt demo_env ''C'' ''K'' (demo_key ''A'') ''P'' ''R2'' ''M'' demo_filling = Ret (Inr (), s2)" by meson
  with staker_receipt_ignores_receipt [OF s] show ?thesis by blast
qed

end
