(* ===== verification/TxWrapper.thy ===== *)
theory TxWrapper
  imports TxScript
begin

text \<open>
  The wrapper of script/wrap.go: one goroutine owns a script and runs the callbacks that are handed
  to it one after the other; Send hands in a callback, waits for its result, and tries again after
  a delay until it succeeds or the tries are used up.

  Every wait of Send is a select between the end of the wrapper, the end of the task, and the event
  it waits for; the sequence of these choices is an argument. The result of Send is None while it
  still waits for the next choice.
\<close>

datatype choice = WrapperDone | TaskDone | Proceed

text \<open>A callback runs on the script of the wrapper, without the builder a previous one may have left.\<close>

definition run :: "unit act \<Rightarrow> unit act" where
  "run cb s = cb (s\<lparr>txBuilder := None\<rparr>)"

record send_result =
  sr_err :: "err option"
  sr_script :: Script
  sr_tries :: nat
  sr_pending :: bool

text \<open>
  The loop of Send with \<open>n\<close> tries left and the error \<open>e\<close> of the last one. When the task ends while a
  callback is queued, the callback is left behind (pending) and the error of the previous try is
  returned.
\<close>

fun send_loop :: "nat \<Rightarrow> choice list \<Rightarrow> unit act \<Rightarrow> err option \<Rightarrow> nat \<Rightarrow> Script \<Rightarrow> send_result outcome option" where
  "send_loop 0 cs cb e k s = Some (Ret \<lparr>sr_err = e, sr_script = s, sr_tries = k, sr_pending = False\<rparr>)"
| "send_loop (Suc n) cs cb e k s =
     (case cs of
        [] \<Rightarrow> None
      | WrapperDone # _ \<Rightarrow> Some (Ret \<lparr>sr_err = Some ''canceled'', sr_script = s, sr_tries = k, sr_pending = False\<rparr>)
      | TaskDone # _ \<Rightarrow> Some (Ret \<lparr>sr_err = e, sr_script = s, sr_tries = k, sr_pending = False\<rparr>)
      | Proceed # cs1 \<Rightarrow>
          (case cs1 of
             [] \<Rightarrow> None
           | WrapperDone # _ \<Rightarrow> Some (Ret \<lparr>sr_err = Some ''canceled'', sr_script = s, sr_tries = k, sr_pending = True\<rparr>)
           | TaskDone # _ \<Rightarrow> Some (Ret \<lparr>sr_err = e, sr_script = s, sr_tries = k, sr_pending = True\<rparr>)
           | Proceed # cs2 \<Rightarrow>
               (case run cb s of
                  Panic \<Rightarrow> Some Panic
                | Ret (Inr (), s') \<Rightarrow> Some (Ret \<lparr>sr_err = None, sr_script = s', sr_tries = Suc k, sr_pending = False\<rparr>)
                | Ret (Inl e', s') \<Rightarrow>
                    (case cs2 of
                       [] \<Rightarrow> None
                     | WrapperDone # _ \<Rightarrow> Some (Ret \<lparr>sr_err = Some ''canceled'', sr_script = s', sr_tries = Suc k, sr_pending = False\<rparr>)
                     | TaskDone # _ \<Rightarrow> Some (Ret \<lparr>sr_err = Some e', sr_script = s', sr_tries = Suc k, sr_pending = False\<rparr>)
                     | Proceed # cs3 \<Rightarrow> send_loop n cs3 cb (Some e') (Suc k) s'))))"

text \<open>A negative number of tries is no try, as in the loop of the source.\<close>

definition Send :: "int \<Rightarrow> choice list \<Rightarrow> unit act \<Rightarrow> Script \<Rightarrow> send_result outcome option" where
  "Send maxTries cs cb s = send_loop (nat maxTries) cs cb None 0 s"

text \<open>SendDetached runs Send in a goroutine and sends its result; loopErrorNonNill passes on errors only.\<close>

definition loopSend :: "int \<Rightarrow> choice list \<Rightarrow> unit act \<Rightarrow> Script \<Rightarrow> err option list outcome option" where
  "loopSend maxTries cs cb s =
     (case Send maxTries cs cb s of None \<Rightarrow> None | Some Panic \<Rightarrow> Some Panic | Some (Ret r) \<Rightarrow> Some (Ret [sr_err r]))"

fun loopErrorNonNill :: "bool \<Rightarrow> err option \<Rightarrow> err list" where
  "loopErrorNonNill done (Some e) = (if done then [] else [e])"
| "loopErrorNonNill done None = []"

section \<open>What Send guarantees\<close>

lemma send_loop_tries:
  "send_loop n cs cb e k s = Some (Ret r) \<Longrightarrow> k \<le> sr_tries r \<and> sr_tries r \<le> k + n"
proof (induction n arbitrary: cs e k s)
  case (Suc n)
  then show ?case
    by (auto split: list.splits choice.splits outcome.splits prod.splits sum.splits unit.splits dest!: Suc.IH)
qed auto

text \<open>A script whose transactions are all signable, and how many were sent since \<open>old\<close>.\<close>

definition sent_since :: "Script \<Rightarrow> nat \<Rightarrow> pubkey \<Rightarrow> Script \<Rightarrow> bool" where
  "sent_since old k payer s \<longleftrightarrow> (\<exists>new. submitted s = submitted old @ new \<and> length new \<le> k
     \<and> (\<forall>(tx, m)\<in>set new. feePayer tx = payer \<and> signable tx m))"

lemma sent_since_run:
  assumes "sent_since old k (PublicKey payer) s" "\<forall>op\<in>set ops. pays_from (PublicKey payer) op"
  obtains r s' where "run (transaction v payer ops sim) s = Ret (r, s')" "sent_since old (Suc k) (PublicKey payer) s'"
    "r = Inr () \<Longrightarrow> submitted s' \<noteq> submitted old \<and> SendTx v (fst (last (submitted s'))) sim = None"
proof -
  let ?s = "s\<lparr>txBuilder := None\<rparr>"
  have "\<exists>r s'. transaction v payer ops sim ?s = Ret (r, s')
    \<and> (submitted s' = submitted ?s \<and> r \<noteq> Inr ()
       \<or> (\<exists>tx m. submitted s' = submitted ?s @ [(tx, m)] \<and> feePayer tx = PublicKey payer \<and> signable tx m
            \<and> txBuilder s' = None \<and> (r = Inr () \<longleftrightarrow> SendTx v tx sim = None)))"
    by (rule transaction_outcome [OF _ assms(2)]) simp
  then obtain r s' where t: "transaction v payer ops sim ?s = Ret (r, s')"
    "submitted s' = submitted s \<and> r \<noteq> Inr ()
       \<or> (\<exists>tx m. submitted s' = submitted s @ [(tx, m)] \<and> feePayer tx = PublicKey payer \<and> signable tx m
            \<and> (r = Inr () \<longleftrightarrow> SendTx v tx sim = None))" by auto
  obtain new where new: "submitted s = submitted old @ new" "length new \<le> k"
    "\<forall>(tx, m)\<in>set new. feePayer tx = PublicKey payer \<and> signable tx m" using assms(1) by (auto simp: sent_since_def)
  from t(2) show ?thesis
  proof
    assume *: "submitted s' = submitted s \<and> r \<noteq> Inr ()"
    show ?thesis by (rule that [of r s']) (use * t(1) new in \<open>auto simp: run_def sent_since_def\<close>)
  next
    assume "\<exists>tx m. submitted s' = submitted s @ [(tx, m)] \<and> feePayer tx = PublicKey payer \<and> signable tx m
            \<and> (r = Inr () \<longleftrightarrow> SendTx v tx sim = None)"
    then obtain tx m where *: "submitted s' = submitted s @ [(tx, m)]" "feePayer tx = PublicKey payer" "signable tx m"
      "r = Inr () \<longleftrightarrow> SendTx v tx sim = None" by metis
    have "sent_since old (Suc k) (PublicKey payer) s'" unfolding sent_since_def
      by (rule exI [of _ "new @ [(tx, m)]"]) (use * new in auto)
    then show ?thesis using that [of r s'] t(1) * new(1) by (simp add: run_def)
  qed
qed
lemma send_loop_transaction:
  assumes "\<forall>op\<in>set ops. pays_from (PublicKey payer) op"
  shows "sent_since old k (PublicKey payer) s \<Longrightarrow> send_loop n cs (transaction v payer ops sim) e k s = Some res \<Longrightarrow>
    \<exists>r. res = Ret r \<and> sent_since old (sr_tries r) (PublicKey payer) (sr_script r)
      \<and> (sr_err r = None \<and> TaskDone \<notin> set cs \<and> (e \<noteq> None \<or> 0 < n)
           \<longrightarrow> submitted (sr_script r) \<noteq> submitted old \<and> SendTx v (fst (last (submitted (sr_script r)))) sim = None)"
proof (induction n arbitrary: cs e k s)
  case (Suc n)
  obtain q s' where q: "run (transaction v payer ops sim) s = Ret (q, s')"
    "sent_since old (Suc k) (PublicKey payer) s'"
    "q = Inr () \<Longrightarrow> submitted s' \<noteq> submitted old \<and> SendTx v (fst (last (submitted s'))) sim = None"
    by (rule sent_since_run [OF Suc.prems(1) assms]) blast
  show ?case
  proof (cases "\<exists>cs3 e'. cs = Proceed # Proceed # Proceed # cs3 \<and> q = Inl e'")
    case True
    then obtain cs3 e' where c: "cs = Proceed # Proceed # Proceed # cs3" "q = Inl e'" by blast
    then have "send_loop n cs3 (transaction v payer ops sim) (Some e') (Suc k) s' = Some res"
      using Suc.prems(2) q(1) by simp
    from Suc.IH [OF q(2) this] show ?thesis using c(1) by auto
  next
    case False
    then show ?thesis using Suc.prems q
      by (auto split: list.splits choice.splits sum.splits unit.splits)
  qed
qed auto

lemma send_loop_returns: "3 * n \<le> length cs \<Longrightarrow> send_loop n cs cb e k s \<noteq> None"
proof (induction n arbitrary: cs e k s)
  case (Suc n)
  then show ?case
    by (auto split: list.splits choice.splits outcome.splits prod.splits sum.splits unit.splits)
qed auto



text \<open>
  When the task ends while the first try is queued, Send returns without an error although its
  callback has not run.
\<close>

lemma send_nil_without_a_try:
  "0 < maxTries \<Longrightarrow> Send maxTries (Proceed # TaskDone # cs) cb s
     = Some (Ret \<lparr>sr_err = None, sr_script = s, sr_tries = 0, sr_pending = True\<rparr>)"
  by (cases "nat maxTries") (auto simp: Send_def)

end
