(* ===== verification/Cranker.thy ===== *)
theory Cranker
  imports PipelineState TxWrapper
begin

text \<open>
  The cranker, agent/cranker: the loop of internal.go keeps for every pipeline its period ring and
  the slot at which it wants to crank, and asks a second goroutine (loopCrank of single.go) for a
  crank when a slot comes; plain.go cranks one payout when its period is over.

  The map of pipelines is walked in an order that Go leaves open; it is an argument of on_slot. The
  requests are recorded in the order in which they are sent; that the channel they are sent on may
  block is the subject of the section on the two goroutines. The context is alive.
\<close>

section \<open>State\<close>

record crankRequest =
  cr_pipeline :: pubkey
  cr_pipelineData :: string
  cr_period :: PeriodWithPayout
  attemptedSlot :: uint64

record pipelineStatus =
  parentData :: string
  lastPeriodStart :: uint64
  lastAttempedCrank :: uint64
  ring :: "PeriodRing option"
  nextCrank :: uint64

record cranker =
  balance :: uint64
  balanceThreshold :: uint64
  slot :: uint64
  status :: "pubkey \<rightharpoonup> pipelineStatus"
  requests :: "crankRequest list"

definition new_cranker :: "uint64 \<Rightarrow> uint64 \<Rightarrow> uint64 \<Rightarrow> cranker" where
  "new_cranker bal threshold sl =
     \<lparr>balance = bal, balanceThreshold = threshold, slot = sl, status = Map.empty, requests = []\<rparr>"

text \<open>The status of a pipeline; the router looks up a pipeline that is not known yet.\<close>

definition get_status :: "(pubkey \<Rightarrow> err + string) \<Rightarrow> pubkey \<Rightarrow> cranker \<Rightarrow> err + (pipelineStatus \<times> cranker)" where
  "get_status router k s =
     (case status s k of
        Some st \<Rightarrow> Inr (st, s)
      | None \<Rightarrow>
          (case router k of
             Inl e \<Rightarrow> Inl e
           | Inr d \<Rightarrow>
               (let st = \<lparr>parentData = d, lastPeriodStart = 0, lastAttempedCrank = 0, ring = None, nextCrank = 0\<rparr>
                in Inr (st, s\<lparr>status := (status s)(k \<mapsto> st)\<rparr>))))"

text \<open>The first period that is over; the result also has the last period that was looked at.\<close>

fun next_period_loop :: "uint64 \<Rightarrow> PeriodRing \<Rightarrow> nat \<Rightarrow> uint16 \<Rightarrow> PeriodWithPayout option
    \<Rightarrow> (PeriodWithPayout option \<times> bool) outcome" where
  "next_period_loop sl pr 0 i p = Ret (p, False)"
| "next_period_loop sl pr (Suc n) i p =
     (case ring_at pr i of
        Panic \<Rightarrow> Panic
      | Ret x \<Rightarrow> if pp_start x + pp_length x \<le> sl then Ret (Some x, True) else next_period_loop sl pr n (i + 1) (Some x))"

definition getNextPeriod :: "uint64 \<Rightarrow> PeriodRing \<Rightarrow> (PeriodWithPayout option \<times> bool) outcome" where
  "getNextPeriod sl pr = next_period_loop sl pr (unat (Length pr)) 0 None"

definition on_period :: "(pubkey \<Rightarrow> err + string) \<Rightarrow> pubkey \<Rightarrow> PeriodRing \<Rightarrow> cranker \<Rightarrow> cranker call" where
  "on_period router k pr s =
     (case get_status router k s of
        Inl e \<Rightarrow> returns s
      | Inr (st, s1) \<Rightarrow>
          (let st1 = st\<lparr>ring := Some pr\<rparr>
           in case getNextPeriod (slot s1) pr of
                Panic \<Rightarrow> Some Panic
              | Ret (Some p, True) \<Rightarrow> returns (s1\<lparr>status := (status s1)(k \<mapsto> st1\<lparr>nextCrank := pp_start p\<rparr>)\<rparr>)
              | Ret _ \<Rightarrow> returns (s1\<lparr>status := (status s1)(k \<mapsto> st1)\<rparr>)))"

definition RETRY_SLOT :: uint64 where "RETRY_SLOT = 100"

definition zero_period :: PeriodWithPayout where
  "zero_period = \<lparr>pp_payout = Zero, pp_start = 0, pp_length = 0\<rparr>"

definition ring_list :: "PeriodRing \<Rightarrow> PeriodWithPayout list call" where
  "ring_list pr = (case ConvertPeriodRingToLinkedList pr of Panic \<Rightarrow> Some Panic | Ret g \<Rightarrow> Array zero_period g)"

definition crank :: "pubkey \<Rightarrow> cranker \<Rightarrow> (err option \<times> cranker) call" where
  "crank k s =
     (case status s k of
        None \<Rightarrow> returns (None, s)
      | Some st \<Rightarrow>
          if \<not> (nextCrank st \<noteq> 0 \<and> nextCrank st \<le> slot s \<and> lastAttempedCrank st + RETRY_SLOT < slot s) then returns (None, s)
          else case ring st of
                 None \<Rightarrow> Some Panic
               | Some pr \<Rightarrow> and_then (ring_list pr) (\<lambda>l.
                   let s1 = s\<lparr>status := (status s)(k \<mapsto> st\<lparr>lastAttempedCrank := slot s\<rparr>)\<rparr>
                   in if balance s \<le> balanceThreshold s
                      then returns (Some (''Funds have been depleted.  Current balance: '' @ dec_nat (unat (balance s))), s1)
                      else case List.find (\<lambda>x. lastPeriodStart st < pp_start x) l of
                             None \<Rightarrow> returns (None, s1)
                           | Some x \<Rightarrow> returns (None, s1\<lparr>requests := requests s @
                               [\<lparr>cr_pipeline = k, cr_pipelineData = parentData st, cr_period = x, attemptedSlot = slot s\<rparr>]\<rparr>)))"

text \<open>The errors of crank are dropped by its callers.\<close>

definition crank_one :: "pubkey \<Rightarrow> cranker \<Rightarrow> cranker call" where
  "crank_one k s = and_then (crank k s) (\<lambda>(e, s'). returns s')"

definition on_slot :: "uint64 \<Rightarrow> pubkey list \<Rightarrow> cranker \<Rightarrow> cranker call" where
  "on_slot sl order s = calls crank_one order (s\<lparr>slot := sl\<rparr>)"

definition on_balance :: "uint64 \<Rightarrow> cranker \<Rightarrow> cranker" where
  "on_balance b s = s\<lparr>balance := b\<rparr>"

datatype crank_msg =
    TryAgain pubkey | CrankResponse pubkey "err option" | BidSummaryMsg
  | PeriodMsg pubkey PeriodRing | SlotMsg uint64 "pubkey list" | BalanceMsg uint64

fun on_msg :: "(pubkey \<Rightarrow> err + string) \<Rightarrow> crank_msg \<Rightarrow> cranker \<Rightarrow> cranker call" where
  "on_msg router (TryAgain k) s = crank_one k s"
| "on_msg router (CrankResponse k e) s = returns s"
| "on_msg router BidSummaryMsg s = returns s"
| "on_msg router (PeriodMsg k pr) s = on_period router k pr s"
| "on_msg router (SlotMsg sl order) s = on_slot sl order s"
| "on_msg router (BalanceMsg b) s = returns (on_balance b s)"

text \<open>init reads the rings of all pipelines; then the loop handles its messages.\<close>

definition crank_init :: "(pubkey \<Rightarrow> err + string) \<Rightarrow> (pubkey \<times> PeriodRing) list \<Rightarrow> cranker \<Rightarrow> cranker call" where
  "crank_init router rings s = calls (\<lambda>(k, pr). on_period router k pr) rings s"

definition crank_loop :: "(pubkey \<Rightarrow> err + string) \<Rightarrow> (pubkey \<times> PeriodRing) list \<Rightarrow> crank_msg list \<Rightarrow> cranker \<Rightarrow> cranker call" where
  "crank_loop router rings ms s = and_then (crank_init router rings s) (calls (on_msg router) ms)"

section \<open>The two goroutines\<close>

text \<open>
  on_slot sends the requests of all pipelines that are due on a channel with one place; loopCrank
  takes a request, does nothing, and answers on a channel with one place, which the main loop reads
  only when it is back in its select.
\<close>

record crank_pair =
  unsent :: "crankRequest list"
  crankRequestC :: "crankRequest chan"
  worker :: "crankRequest option"
  crankResponseC :: "(crankRequest \<times> err option) chan"

definition crank_start :: "crankRequest list \<Rightarrow> crank_pair" where
  "crank_start rs = \<lparr>unsent = rs, crankRequestC = make_chan 1, worker = None, crankResponseC = make_chan 1\<rparr>"

text \<open>run of single.go.\<close>

definition crank_run :: "crankRequest \<Rightarrow> err option" where
  "crank_run req = None"

datatype crank_label = MainSend | MainRead | WorkerTake | WorkerReply

fun crank_step :: "crank_label \<Rightarrow> crank_pair \<Rightarrow> crank_pair option" where
  "crank_step MainSend s =
     (case unsent s of
        [] \<Rightarrow> None
      | r # rs \<Rightarrow> map_option (\<lambda>c. s\<lparr>unsent := rs, crankRequestC := c\<rparr>) (chan_send r (crankRequestC s)))"
| "crank_step MainRead s =
     (if unsent s = [] then map_option (\<lambda>(_, c). s\<lparr>crankResponseC := c\<rparr>) (chan_recv (crankResponseC s)) else None)"
| "crank_step WorkerTake s =
     (if worker s = None then map_option (\<lambda>(r, c). s\<lparr>worker := Some r, crankRequestC := c\<rparr>) (chan_recv (crankRequestC s))
      else None)"
| "crank_step WorkerReply s =
     (case worker s of
        None \<Rightarrow> None
      | Some r \<Rightarrow> map_option (\<lambda>c. s\<lparr>worker := None, crankResponseC := c\<rparr>) (chan_send (r, crank_run r) (crankResponseC s)))"

section \<open>One payout\<close>

datatype payout_event = CtxDone | SubError err | DataBids pubkey | NewSlot uint64 | NewBidStatus bool

text \<open>What CrankPayout waits for: the bids are final, the last slot of the period is over, or the bids are gone.\<close>

fun crank_wait :: "uint64 \<Rightarrow> payout_event list \<Rightarrow> bool \<Rightarrow> uint64 \<Rightarrow> pubkey \<Rightarrow> (err option \<times> bool \<times> uint64 \<times> pubkey) option" where
  "crank_wait finish evs isFinal sl bids =
     (if \<not> (\<not> isFinal \<and> sl \<le> finish \<and> bids \<noteq> Zero) then Some (None, isFinal, sl, bids)
      else case evs of
             [] \<Rightarrow> None
           | CtxDone # _ \<Rightarrow> Some (None, isFinal, sl, bids)
           | SubError e # _ \<Rightarrow> Some (Some e, isFinal, sl, bids)
           | DataBids b # r \<Rightarrow> crank_wait finish r isFinal sl b
           | NewSlot n # r \<Rightarrow> crank_wait finish r isFinal n bids
           | NewBidStatus f # r \<Rightarrow> crank_wait finish r f sl bids)"

datatype crank_decision = ReportError err | AlreadyCranked | Attempt

definition CrankPayout :: "err + (uint64 \<times> uint64 \<times> pubkey) \<Rightarrow> err + bool \<Rightarrow> payout_event list \<Rightarrow> (crank_decision \<times> uint64) option" where
  "CrankPayout data bidStatus evs =
     (case data of
        Inl e \<Rightarrow> Some (ReportError e, 0)
      | Inr (start, len, bids) \<Rightarrow>
          (case bidStatus of
             Inl e \<Rightarrow> Some (ReportError e, 0)
           | Inr isFinal \<Rightarrow>
               (case crank_wait (start + len - 1) evs isFinal 0 bids of
                  None \<Rightarrow> None
                | Some (Some e, _, sl, _) \<Rightarrow> Some (ReportError e, sl)
                | Some (None, fin, sl, b) \<Rightarrow> Some (if fin \<or> b = Zero then AlreadyCranked else Attempt, sl))))"

text \<open>The crank of an attempt: ten tries of a transaction with one instruction.\<close>

definition runCrank :: "env \<Rightarrow> PrivateKey \<Rightarrow> controller_ref \<Rightarrow> pipeline_ref \<Rightarrow> payout_ref \<Rightarrow> unit act" where
  "runCrank v admin controller pipeline payout =
     bind (SetTx admin) (\<lambda>_. bind (Crank v controller pipeline payout admin) (\<lambda>_. FinishTx v True))"

definition crank_attempt :: "env \<Rightarrow> PrivateKey \<Rightarrow> controller_ref \<Rightarrow> pipeline_ref \<Rightarrow> payout_ref \<Rightarrow> choice list \<Rightarrow> Script \<Rightarrow> send_result outcome option" where
  "crank_attempt v admin controller pipeline payout cs s = Send 10 cs (runCrank v admin controller pipeline payout) s"

text \<open>loopStopCrankOnBidChange cancels the attempt when it returns; None while it waits.\<close>

fun loopStopCrankOnBidChange :: "bool \<Rightarrow> payout_event list \<Rightarrow> unit option" where
  "loopStopCrankOnBidChange isFinal evs =
     (if isFinal then Some ()
      else case evs of
             [] \<Rightarrow> None
           | CtxDone # _ \<Rightarrow> Some ()
           | SubError e # _ \<Rightarrow> Some ()
           | NewBidStatus f # r \<Rightarrow> loopStopCrankOnBidChange f r
           | _ # r \<Rightarrow> loopStopCrankOnBidChange isFinal r)"

text \<open>loopDelaySend waits for a slot after the given one and sends the request.\<close>

datatype slot_event = SlotDone | SlotError err | SlotTick uint64

fun delay_wait :: "uint64 \<Rightarrow> slot_event list \<Rightarrow> uint64 \<Rightarrow> (err option \<times> bool) option" where
  "delay_wait next evs sl =
     (if \<not> sl \<le> next then Some (None, True)
      else case evs of
             [] \<Rightarrow> None
           | SlotDone # _ \<Rightarrow> Some (None, False)
           | SlotError e # _ \<Rightarrow> Some (Some e, False)
           | SlotTick n # r \<Rightarrow> delay_wait next r n)"

text \<open>When the context has ended, the last select may still take the send; \<open>picks\<close> is that choice.\<close>

definition loopDelaySend :: "uint64 \<Rightarrow> slot_event list \<Rightarrow> bool \<Rightarrow> crankRequest \<Rightarrow> (err option \<times> crankRequest list) option" where
  "loopDelaySend next evs picks req =
     (case delay_wait next evs 0 of
        None \<Rightarrow> None
      | Some (Some e, _) \<Rightarrow> Some (Some e, [])
      | Some (None, reached) \<Rightarrow> Some (None, if reached \<or> picks then [req] else []))"

section \<open>Requests are spaced\<close>

lemma crank_cases:
  assumes "crank k s = returns (e, s')"
  obtains "s' = s"
  | st where "status s k = Some st" "nextCrank st \<noteq> 0" "nextCrank st \<le> slot s" "lastAttempedCrank st + RETRY_SLOT < slot s"
      "s' = s\<lparr>status := (status s)(k \<mapsto> st\<lparr>lastAttempedCrank := slot s\<rparr>)\<rparr>"
  | st pr l x where "status s k = Some st" "nextCrank st \<noteq> 0" "nextCrank st \<le> slot s"
      "lastAttempedCrank st + RETRY_SLOT < slot s" "balanceThreshold s < balance s"
      "ring st = Some pr" "ring_list pr = returns l" "List.find (\<lambda>x. lastPeriodStart st < pp_start x) l = Some x"
      "s' = s\<lparr>status := (status s)(k \<mapsto> st\<lparr>lastAttempedCrank := slot s\<rparr>),
              requests := requests s @ [\<lparr>cr_pipeline = k, cr_pipelineData = parentData st, cr_period = x, attemptedSlot = slot s\<rparr>]\<rparr>"
proof (cases "status s k")
  case None
  then show ?thesis using assms that(1) by (simp add: crank_def)
next
  case (Some st)
  show ?thesis
  proof (cases "nextCrank st \<noteq> 0 \<and> nextCrank st \<le> slot s \<and> lastAttempedCrank st + RETRY_SLOT < slot s")
    case False
    then show ?thesis using assms Some that(1) by (simp add: crank_def)
  next
    case True
    then obtain pr where pr: "ring st = Some pr" using assms Some by (auto simp: crank_def returns_def split: option.splits)
    with assms Some True obtain l where l: "ring_list pr = returns l" by (auto simp: crank_def)
    show ?thesis
    proof (cases "balance s \<le> balanceThreshold s")
      case True
      then show ?thesis using assms Some \<open>nextCrank st \<noteq> 0 \<and> nextCrank st \<le> slot s \<and> lastAttempedCrank st + RETRY_SLOT < slot s\<close>
          pr l that(2) [OF Some] by (simp add: crank_def)
    next
      case False
      then show ?thesis
        using assms Some \<open>nextCrank st \<noteq> 0 \<and> nextCrank st \<le> slot s \<and> lastAttempedCrank st + RETRY_SLOT < slot s\<close>
          pr l that(2) [OF Some] that(3) [OF Some _ _ _ _ pr l]
        by (cases "List.find (\<lambda>x. lastPeriodStart st < pp_start x) l") (simp_all add: crank_def)
    qed
  qed
qed

definition of_pipeline :: "pubkey \<Rightarrow> crankRequest list \<Rightarrow> crankRequest list" where
  "of_pipeline k rs = filter (\<lambda>r. cr_pipeline r = k) rs"

definition spaced :: "crankRequest list \<Rightarrow> bool" where
  "spaced rs \<longleftrightarrow> sorted_wrt (\<lambda>a b. unat (attemptedSlot a) + 100 < unat (attemptedSlot b)) rs"

text \<open>
  What is true of every pipeline between two messages: the requests are spaced and not later than
  the last attempt, the period that was cranked last is never recorded, and a slot leaves room for
  the retry distance.
\<close>

definition cranker_inv :: "cranker \<Rightarrow> bool" where
  "cranker_inv s \<longleftrightarrow> unat (slot s) + 100 < 2 ^ 64
     \<and> (\<forall>k. spaced (of_pipeline k (requests s)))
     \<and> (\<forall>r\<in>set (requests s). 0 < pp_start (cr_period r)
          \<and> (\<exists>st. status s (cr_pipeline r) = Some st \<and> attemptedSlot r \<le> lastAttempedCrank st))
     \<and> (\<forall>k st. status s k = Some st \<longrightarrow> lastPeriodStart st = 0 \<and> unat (lastAttempedCrank st) + 100 < 2 ^ 64
          \<and> (nextCrank st \<noteq> 0 \<longrightarrow> ring st \<noteq> None))"

lemma retry_distance:
  assumes "unat (a :: uint64) + 100 < 2 ^ 64" "a + RETRY_SLOT < b"
  shows "unat a + 100 < unat b"
proof -
  have "unat (a + RETRY_SLOT) = unat a + 100" using assms(1) by (simp add: RETRY_SLOT_def unat_add64)
  then show ?thesis using assms(2) by (simp add: word_less_nat_alt)
qed

lemma inv_attempt:
  assumes "cranker_inv s" "status s k = Some st" "lastAttempedCrank st + RETRY_SLOT < slot s"
  shows "cranker_inv (s\<lparr>status := (status s)(k \<mapsto> st\<lparr>lastAttempedCrank := slot s\<rparr>)\<rparr>)"
proof -
  have "unat (lastAttempedCrank st) + 100 < unat (slot s)"
    using assms by (intro retry_distance) (auto simp: cranker_inv_def)
  then have "lastAttempedCrank st \<le> slot s" by (simp add: word_le_nat_alt)
  then show ?thesis using assms(1,2) unfolding cranker_inv_def by (auto intro: order_trans)
qed

lemma inv_request:
  assumes "cranker_inv s" "status s k = Some st" "lastAttempedCrank st + RETRY_SLOT < slot s" "lastPeriodStart st < pp_start x"
  shows "cranker_inv (s\<lparr>status := (status s)(k \<mapsto> st\<lparr>lastAttempedCrank := slot s\<rparr>),
    requests := requests s @ [\<lparr>cr_pipeline = k, cr_pipelineData = d, cr_period = x, attemptedSlot = slot s\<rparr>]\<rparr>)"
proof -
  let ?r = "\<lparr>cr_pipeline = k, cr_pipelineData = d, cr_period = x, attemptedSlot = slot s\<rparr>"
  have far: "unat (lastAttempedCrank st) + 100 < unat (slot s)"
    using assms(1-3) by (intro retry_distance) (auto simp: cranker_inv_def)
  have "unat (attemptedSlot r) + 100 < unat (slot s)" if "r \<in> set (of_pipeline k (requests s))" for r
  proof -
    have "attemptedSlot r \<le> lastAttempedCrank st" using that assms(1,2) by (auto simp: of_pipeline_def cranker_inv_def)
    then show ?thesis using far by (simp add: word_le_nat_alt)
  qed
  then have sp: "spaced (of_pipeline j (requests s @ [?r]))" for j
    using assms(1) by (auto simp: cranker_inv_def spaced_def of_pipeline_def sorted_wrt_append)
  have "0 < pp_start x" using assms(1,2,4) by (auto simp: cranker_inv_def)
  then show ?thesis using inv_attempt [OF assms(1-3)] sp unfolding cranker_inv_def by (auto split: if_splits)
qed

lemma inv_crank: "cranker_inv s \<Longrightarrow> crank k s = returns (e, s') \<Longrightarrow> cranker_inv s'"
  by (erule crank_cases) (auto intro!: inv_attempt inv_request simp: find_Some_iff)

lemma inv_crank_one: "cranker_inv s \<Longrightarrow> crank_one k s = returns s' \<Longrightarrow> cranker_inv s'"
  by (auto simp: crank_one_def intro: inv_crank)

lemma calls_invariant:
  assumes "calls f ms s = returns s'" "I s" "\<And>m s s'. m \<in> set ms \<Longrightarrow> I s \<Longrightarrow> f m s = returns s' \<Longrightarrow> I s'"
  shows "I s'"
  using assms
proof (induction ms arbitrary: s)
  case (Cons m ms)
  then obtain s1 where s1: "f m s = returns s1" "calls f ms s1 = returns s'" by auto
  have "I s1" by (rule Cons.prems(3) [OF _ Cons.prems(2) s1(1)]) simp
  then show ?case using Cons.IH [OF s1(2)] Cons.prems(3) by (meson list.set_intros(2))
qed simp

lemma inv_new:
  assumes "cranker_inv s" "status s k = None" "lastPeriodStart st = 0" "lastAttempedCrank st = 0" "nextCrank st = 0"
  shows "cranker_inv (s\<lparr>status := (status s)(k \<mapsto> st)\<rparr>)"
proof -
  have "cr_pipeline r \<noteq> k" if "r \<in> set (requests s)" for r using assms(1,2) that by (auto simp: cranker_inv_def)
  then show ?thesis using assms unfolding cranker_inv_def by (auto split: if_splits)
qed

lemma get_status_inv:
  assumes "cranker_inv s" "get_status router k s = Inr (st, s1)"
  shows "cranker_inv s1 \<and> status s1 k = Some st \<and> slot s1 = slot s"
  using assms inv_new [OF assms(1)] by (auto simp: get_status_def Let_def split: option.splits sum.splits)

lemma inv_on_period:
  assumes "cranker_inv s" "on_period router k pr s = returns s'"
  shows "cranker_inv s'"
proof (cases "get_status router k s")
  case (Inr x)
  obtain st s1 where x: "x = (st, s1)" by force
  from get_status_inv [OF assms(1)] Inr x have i: "cranker_inv s1" "status s1 k = Some st" by auto
  have "cranker_inv (s1\<lparr>status := (status s1)(k \<mapsto> st\<lparr>ring := Some pr, nextCrank := n\<rparr>)\<rparr>)" for n
    using i unfolding cranker_inv_def by auto
  moreover from this [of "nextCrank st"] have "cranker_inv (s1\<lparr>status := (status s1)(k \<mapsto> st\<lparr>ring := Some pr\<rparr>)\<rparr>)" by simp
  ultimately show ?thesis using assms(2) Inr x
    by (auto simp: on_period_def Let_def returns_def split: outcome.splits option.splits bool.splits prod.splits)
qed (use assms in \<open>simp add: on_period_def\<close>)

text \<open>A slot that leaves room for the retry distance.\<close>

fun slots_fit :: "crank_msg \<Rightarrow> bool" where
  "slots_fit (SlotMsg sl order) \<longleftrightarrow> unat sl + 100 < 2 ^ 64"
| "slots_fit _ \<longleftrightarrow> True"

lemma inv_on_msg:
  assumes "cranker_inv s" "on_msg router m s = returns s'" "slots_fit m"
  shows "cranker_inv s'"
proof (cases m)
  case (SlotMsg sl order)
  have "cranker_inv (s\<lparr>slot := sl\<rparr>)" using assms(1,3) SlotMsg by (auto simp: cranker_inv_def)
  with assms(2) SlotMsg show ?thesis
    by (auto simp: on_slot_def intro: calls_invariant [where I = cranker_inv, OF _ _ inv_crank_one])
next
  case (TryAgain k)
  then show ?thesis using assms(1,2) by (auto intro: inv_crank_one)
next
  case (PeriodMsg k pr)
  then show ?thesis using assms(1,2) by (auto intro: inv_on_period)
next
  case (BalanceMsg b)
  then show ?thesis using assms(1,2) by (auto simp: on_balance_def cranker_inv_def)
qed (use assms(1,2) in simp_all)

lemma inv_crank_loop:
  assumes "crank_loop router rings ms (new_cranker bal threshold sl) = returns s" "unat sl + 100 < 2 ^ 64" "\<forall>m\<in>set ms. slots_fit m"
  shows "cranker_inv s"
proof -
  have "cranker_inv (new_cranker bal threshold sl)" using assms(2)
    by (simp add: cranker_inv_def new_cranker_def spaced_def of_pipeline_def)
  moreover from assms(1) obtain s1 where
    "calls (\<lambda>(k, pr). on_period router k pr) rings (new_cranker bal threshold sl) = returns s1"
    "calls (on_msg router) ms s1 = returns s" by (auto simp: crank_loop_def crank_init_def)
  ultimately show ?thesis using assms(3)
    by (intro calls_invariant [where I = cranker_inv and f = "on_msg router" and ms = ms and s = s1 and s' = s]
        calls_invariant [where I = cranker_inv and f = "\<lambda>(k, pr). on_period router k pr" and ms = rings and s' = s1
          and s = "new_cranker bal threshold sl"])
      (auto intro: inv_on_period inv_on_msg)
qed

text \<open>
  C25. Whatever messages the cranker receives and in whatever order it walks over its pipelines, two
  requests for the same pipeline are more than 100 slots apart, every request is for a period with
  a start after 0, and a pipeline that is due has a period ring, so that the guard of the crank
  never lets a nil ring through. The slots have to stay 100 below the end of their range.
\<close>

theorem crank_requests_are_spaced:
  assumes "crank_loop router rings ms (new_cranker bal threshold sl) = returns s"
    and "unat sl + 100 < 2 ^ 64" and "\<forall>m\<in>set ms. slots_fit m"
  shows "sorted_wrt (\<lambda>a b. unat (attemptedSlot a) + 100 < unat (attemptedSlot b)) (filter (\<lambda>r. cr_pipeline r = k) (requests s))
    \<and> (\<forall>r\<in>set (requests s). 0 < pp_start (cr_period r))
    \<and> (\<forall>st. status s k = Some st \<longrightarrow> nextCrank st \<noteq> 0 \<longrightarrow> ring st \<noteq> None)"
  using inv_crank_loop [OF assms] by (auto simp: cranker_inv_def spaced_def of_pipeline_def)

text \<open>
  The period that was cranked is never recorded, so every request of a pipeline is for the first
  period of its ring whose start is not 0, again and again, however often it was requested before.
\<close>

theorem crank_repeats_the_first_period:
  assumes "crank_loop router rings ms (new_cranker bal threshold sl) = returns s"
    and "unat sl + 100 < 2 ^ 64" and "\<forall>m\<in>set ms. slots_fit m"
    and "crank k s = returns (e, s')" and "requests s' = requests s @ [r]"
  shows "\<exists>st pr l. status s k = Some st \<and> ring st = Some pr \<and> ring_list pr = returns l
    \<and> List.find (\<lambda>x. 0 < pp_start x) l = Some (cr_period r)"
  using assms(4)
proof (cases rule: crank_cases)
  case (3 st pr l x)
  have "lastPeriodStart st = 0" using inv_crank_loop [OF assms(1-3)] 3(1) by (simp add: cranker_inv_def)
  then show ?thesis using 3 assms(5) by auto
qed (use assms(5) in auto)

section \<open>More than three requests at once\<close>

definition pair_inv :: "nat \<Rightarrow> nat \<Rightarrow> crank_pair \<Rightarrow> bool" where
  "pair_inv n steps s \<longleftrightarrow>
     (let q = length (cbuf (crankRequestC s)); w = (if worker s = None then 0 else 1); a = length (cbuf (crankResponseC s))
      in ccap (crankRequestC s) = 1 \<and> ccap (crankResponseC s) = 1 \<and> q \<le> 1 \<and> a \<le> 1
         \<and> length (unsent s) + q + w + a = n \<and> steps = q + 2 * w + 3 * a)"

lemma pair_inv_step:
  assumes "pair_inv n m s" "4 \<le> n" "crank_step l s = Some s'"
  shows "pair_inv n (Suc m) s'"
proof -
  have u: "unsent s \<noteq> []" using assms(1,2) by (auto simp: pair_inv_def Let_def split: if_splits)
  show ?thesis using assms u
    by (cases l) (auto simp: pair_inv_def Let_def chan_send_def chan_recv_def split: list.splits option.splits if_splits)
qed

lemma pair_inv_run:
  "pair_inv n m s \<Longrightarrow> 4 \<le> n \<Longrightarrow> run_steps crank_step ls s = Some s' \<Longrightarrow> pair_inv n (m + length ls) s'"
proof (induction ls arbitrary: s m)
  case (Cons l ls)
  then obtain s1 where s1: "crank_step l s = Some s1" "run_steps crank_step ls s1 = Some s'"
    by (auto split: option.splits)
  from Cons.IH [OF pair_inv_step [OF Cons.prems(1,2) s1(1)] Cons.prems(2) s1(2)] show ?case by simp
qed simp

lemma pair_progress:
  assumes "ccap (crankRequestC s) = 1" "ccap (crankResponseC s) = 1" "unsent s \<noteq> []"
    "length (unsent s) + length (cbuf (crankRequestC s)) + (if worker s = None then 0 else 1)
       + length (cbuf (crankResponseC s)) \<le> 3"
  shows "\<exists>l. crank_step l s \<noteq> None"
proof (rule ccontr)
  assume *: "\<not> ?thesis"
  then have n: "crank_step l s = None" for l by blast
  from n [of MainSend] assms(1,3) have q: "length (cbuf (crankRequestC s)) \<noteq> 0"
    by (auto simp: chan_send_def split: list.splits if_splits)
  with n [of WorkerTake] have w: "worker s \<noteq> None" by (auto simp: chan_recv_def split: if_splits list.splits)
  with n [of WorkerReply] assms(2) have "length (cbuf (crankResponseC s)) \<noteq> 0"
    by (auto simp: chan_send_def split: if_splits)
  moreover have "length (unsent s) \<noteq> 0" using assms(3) by simp
  moreover have "(if worker s = None then 0 else 1) = (1 :: nat)" using w by simp
  ultimately show False using q assms(4) by linarith
qed

text \<open>
  C26. When four or more pipelines are due in the same slot, the cranker stops for good: however the
  two goroutines are scheduled, after at most six steps neither can move, and on_slot has not sent
  all its requests, so the main loop never gets back to its select.
\<close>

theorem four_cranks_block:
  assumes "4 \<le> length rs" and "run_steps crank_step ls (crank_start rs) = Some s"
  shows "unsent s \<noteq> [] \<and> length ls \<le> 6"
proof -
  have "pair_inv (length rs) 0 (crank_start rs)" by (simp add: pair_inv_def crank_start_def make_chan_def)
  from pair_inv_run [OF this assms] assms(1) show ?thesis
    by (auto simp: pair_inv_def Let_def split: if_splits)
qed

section \<open>Cranking one payout\<close>

declare crank_wait.simps [simp del] loopStopCrankOnBidChange.simps [simp del] delay_wait.simps [simp del]

lemma crank_wait_eqs:
  "f \<or> finish < sl \<or> b = Zero \<Longrightarrow> crank_wait finish evs f sl b = Some (None, f, sl, b)"
  "\<not> f \<Longrightarrow> sl \<le> finish \<Longrightarrow> b \<noteq> Zero \<Longrightarrow> crank_wait finish [] f sl b = None"
  "\<not> f \<Longrightarrow> sl \<le> finish \<Longrightarrow> b \<noteq> Zero \<Longrightarrow> crank_wait finish (ev # r) f sl b =
     (case ev of CtxDone \<Rightarrow> Some (None, f, sl, b) | SubError e \<Rightarrow> Some (Some e, f, sl, b) | DataBids b' \<Rightarrow> crank_wait finish r f sl b'
      | NewSlot n \<Rightarrow> crank_wait finish r f n b | NewBidStatus f' \<Rightarrow> crank_wait finish r f' sl b)"
  by (subst crank_wait.simps, auto split: payout_event.split)+

lemma crank_wait_result:
  assumes "crank_wait finish evs f sl b = Some (e, f', sl', b')"
  shows "(e = None \<longrightarrow> CtxDone \<notin> set evs \<longrightarrow> f' \<or> b' = Zero \<or> finish < sl') \<and> (sl' = sl \<or> NewSlot sl' \<in> set evs)"
  using assms
proof (induction evs arbitrary: f sl b)
  case Nil
  then show ?case using crank_wait_eqs(1) [of f finish sl b "[]"] crank_wait_eqs(2) [of f sl finish b] by fastforce
next
  case (Cons ev r)
  show ?case
  proof (cases "f \<or> finish < sl \<or> b = Zero")
    case True
    then show ?thesis using Cons.prems crank_wait_eqs(1) [OF True] by auto
  next
    case False
    then have "crank_wait finish (ev # r) f sl b =
     (case ev of CtxDone \<Rightarrow> Some (None, f, sl, b) | SubError e \<Rightarrow> Some (Some e, f, sl, b) | DataBids b' \<Rightarrow> crank_wait finish r f sl b'
      | NewSlot n \<Rightarrow> crank_wait finish r f n b | NewBidStatus f' \<Rightarrow> crank_wait finish r f' sl b)"
      by (intro crank_wait_eqs(3)) auto
    with Cons.prems Cons.IH [of f sl] Cons.IH [of f _ b] Cons.IH [of _ sl b] show ?thesis by (cases ev) fastforce+
  qed
qed


text \<open>An attempt is ten tries of a transaction with the single operation Crank.\<close>

lemma bind_unit: "bind m yield = m"
  by (auto simp: bind_def yield_def fun_eq_iff split: outcome.split prod.split sum.split)

lemma runCrank_transaction:
  "runCrank v admin controller pipeline payout = transaction v admin [OpCrank controller pipeline payout admin] True"
  by (simp add: runCrank_def transaction_def bind_unit)

lemma crank_attempt_bounded:
  assumes "crank_attempt v admin controller pipeline payout cs s = Some res"
  obtains r where "res = Ret r" "sr_tries r \<le> 10" "sent_since s (sr_tries r) (PublicKey admin) (sr_script r)"
proof -
  have p: "\<forall>op\<in>set [OpCrank controller pipeline payout admin]. pays_from (PublicKey admin) op" by simp
  have st: "sent_since s 0 (PublicKey admin) s" by (simp add: sent_since_def)
  from send_loop_transaction [OF p st, of 10 cs v True None res] assms
  obtain r where r: "res = Ret r" "sent_since s (sr_tries r) (PublicKey admin) (sr_script r)"
    by (auto simp: crank_attempt_def runCrank_transaction Send_def)
  moreover from r(1) assms send_loop_tries [of 10 cs _ None 0 s r] have "sr_tries r \<le> 10"
    by (auto simp: crank_attempt_def Send_def)
  ultimately show ?thesis using that by blast
qed

section \<open>The late period\<close>

text \<open>getNextPeriod finds the first entry of the ring, from its start, whose end is not after the slot.\<close>

lemma next_period_loop_find:
  assumes "0 < length (Ring pr)" and "length (Ring pr) < 2 ^ 16"
  shows "next_period_loop sl pr n i p = Ret r \<Longrightarrow>
    (if snd r then fst r else None)
      = List.find (\<lambda>x. pp_start x + pp_length x \<le> sl)
          (map (\<lambda>k. Ring pr ! (unat (i + of_nat k + Start pr) mod length (Ring pr))) [0..<n])"
proof (induction n arbitrary: i p)
  case (Suc n)
  have "i + 1 + of_nat k + Start pr = i + of_nat (Suc k) + Start pr" for k by simp
  with Suc.IH [of "i + 1"] Suc.prems show ?case
    using ring_at_ok [OF assms, of i] by (auto simp: map_upt_Suc split: if_splits simp del: upt_Suc of_nat_Suc)
qed auto

lemma next_period_loop_total:
  assumes "0 < length (Ring pr)" and "length (Ring pr) < 2 ^ 16"
  shows "\<exists>r. next_period_loop sl pr n i p = Ret r"
  by (induction n arbitrary: i p) (auto simp: ring_at_ok [OF assms])

lemma getNextPeriod_first_late:
  assumes "0 < length (Ring pr)" and "length (Ring pr) < 2 ^ 16" and "unat (Start pr) + unat (Length pr) < 2 ^ 16"
  obtains p present where "getNextPeriod sl pr = Ret (p, present)"
    "(if present then p else None) = List.find (\<lambda>x. pp_start x + pp_length x \<le> sl)
       (map (\<lambda>k. Ring pr ! ((unat (Start pr) + k) mod length (Ring pr))) [0..<unat (Length pr)])"
proof -
  have u: "unat (of_nat k + Start pr) = unat (Start pr) + k" if "k < unat (Length pr)" for k
    using that assms(3) by (simp add: unat_word_ariths unat_of_nat take_bit_nat_eq_self)
  obtain p b where g: "getNextPeriod sl pr = Ret (p, b)"
    using next_period_loop_total [OF assms(1,2)] unfolding getNextPeriod_def by force
  have "map (\<lambda>k. Ring pr ! (unat (0 + of_nat k + Start pr) mod length (Ring pr))) [0..<unat (Length pr)]
      = map (\<lambda>k. Ring pr ! ((unat (Start pr) + k) mod length (Ring pr))) [0..<unat (Length pr)]"
    by (rule map_cong) (auto simp: u)
  with next_period_loop_find [OF assms(1,2), of sl "unat (Length pr)" 0 None "(p, b)"] g
  have "(if b then p else None) = List.find (\<lambda>x. pp_start x + pp_length x \<le> sl)
       (map (\<lambda>k. Ring pr ! ((unat (Start pr) + k) mod length (Ring pr))) [0..<unat (Length pr)])"
    unfolding getNextPeriod_def by (simp only: fst_conv snd_conv)
  then show ?thesis using that [OF g] by blast
qed

section \<open>An example\<close>

definition demo_crank_ring :: PeriodRing where
  "demo_crank_ring = \<lparr>Ring = [\<lparr>pp_payout = ''p'', pp_start = 20, pp_length = 5\<rparr>], Start = 0, Length = 1\<rparr>"

definition demo_crank_msgs :: "crank_msg list" where
  "demo_crank_msgs = [PeriodMsg ''L'' demo_crank_ring, SlotMsg 200 [''L''], SlotMsg 250 [''L'']]"

definition demo_crank_status :: pipelineStatus where
  "demo_crank_status = \<lparr>parentData = [], lastPeriodStart = 0, lastAttempedCrank = 200, ring = Some demo_crank_ring, nextCrank = 20\<rparr>"

definition demo_crank_request :: "uint64 \<Rightarrow> crankRequest" where
  "demo_crank_request sl = \<lparr>cr_pipeline = ''L'', cr_pipelineData = [],
     cr_period = \<lparr>pp_payout = ''p'', pp_start = 20, pp_length = 5\<rparr>, attemptedSlot = sl\<rparr>"

definition demo_crank_state :: cranker where
  "demo_crank_state = \<lparr>balance = 9, balanceThreshold = 2, slot = 250, status = [''L'' \<mapsto> demo_crank_status],
     requests = [demo_crank_request 200]\<rparr>"

lemma demo_ring_list: "ring_list demo_crank_ring = returns [\<lparr>pp_payout = ''p'', pp_start = 20, pp_length = 5\<rparr>]"
proof -
  have "0 < length (Ring demo_crank_ring)" "unat (Start demo_crank_ring) + unat (Length demo_crank_ring) < 2 ^ 16"
    "length (Ring demo_crank_ring) < 2 ^ 16" by (simp_all add: demo_crank_ring_def)
  from ConvertPeriodRing_entries [OF this] obtain g where
    g: "ConvertPeriodRingToLinkedList demo_crank_ring = Ret g" "list_inv g"
      "contents g = [\<lparr>pp_payout = ''p'', pp_start = 20, pp_length = 5\<rparr>]"
    by (auto simp: demo_crank_ring_def)
  have "length (items g) = 1" using arg_cong [OF g(3), of length] by (simp add: contents_def)
  then have "length (items g) < 2 ^ 32" by simp
  from array_contents [OF g(2) this] g(1,3) show ?thesis by (simp add: ring_list_def returns_def)
qed

lemma demo_next: "getNextPeriod 100 demo_crank_ring = Ret (Some \<lparr>pp_payout = ''p'', pp_start = 20, pp_length = 5\<rparr>, True)"
  by (simp add: getNextPeriod_def demo_crank_ring_def ring_at_def)

lemma demo_crank_run:
  "crank_loop (\<lambda>_. Inr []) [] demo_crank_msgs (new_cranker 9 2 100) = returns demo_crank_state"
  by (simp add: crank_loop_def crank_init_def demo_crank_msgs_def new_cranker_def on_period_def get_status_def demo_next
      on_slot_def crank_one_def crank_def demo_ring_list RETRY_SLOT_def demo_crank_state_def demo_crank_status_def
      demo_crank_request_def Let_def del: and_then_eq_returns)

lemma demo_crank_fits: "\<forall>m\<in>set demo_crank_msgs. slots_fit m" "unat (100 :: uint64) + 100 < 2 ^ 64"
  by (simp_all add: demo_crank_msgs_def)

theorem crank_requests_are_spaced_witness:
  "\<exists>s. crank_loop (\<lambda>_. Inr []) [] (demo_crank_msgs @ [SlotMsg 301 [''L'']]) (new_cranker 9 2 100) = returns s
     \<and> requests s = [demo_crank_request 200, demo_crank_request 301]
     \<and> sorted_wrt (\<lambda>a b. unat (attemptedSlot a) + 100 < unat (attemptedSlot b)) (filter (\<lambda>r. cr_pipeline r = ''L'') (requests s))"
proof -
  have a: "crank_loop (\<lambda>_. Inr []) [] (demo_crank_msgs @ [SlotMsg 301 [''L'']]) (new_cranker 9 2 100)
      = and_then (returns demo_crank_state) (calls (on_msg (\<lambda>_. Inr [])) [SlotMsg 301 [''L'']])"
    using demo_crank_run by (simp add: crank_loop_def crank_init_def calls_append del: and_then_eq_returns)
  then obtain s where s: "crank_loop (\<lambda>_. Inr []) [] (demo_crank_msgs @ [SlotMsg 301 [''L'']]) (new_cranker 9 2 100) = returns s"
    "requests s = [demo_crank_request 200, demo_crank_request 301]"
    by (simp add: on_slot_def crank_one_def crank_def demo_ring_list RETRY_SLOT_def demo_crank_state_def demo_crank_status_def
        demo_crank_request_def Let_def del: and_then_eq_returns)
  have "\<forall>m\<in>set (demo_crank_msgs @ [SlotMsg 301 [''L'']]). slots_fit m" using demo_crank_fits(1) by simp
  from crank_requests_are_spaced [OF s(1) demo_crank_fits(2) this, of "''L''"] s show ?thesis by blast
qed

theorem crank_repeats_the_first_period_witness:
  "\<exists>e s'. crank ''L'' (demo_crank_state\<lparr>slot := 301\<rparr>) = returns (e, s')
     \<and> (\<exists>st pr l. status (demo_crank_state\<lparr>slot := 301\<rparr>) ''L'' = Some st \<and> ring st = Some pr \<and> ring_list pr = returns l
          \<and> List.find (\<lambda>x. 0 < pp_start x) l = Some (cr_period (demo_crank_request 301)))"
proof -
  let ?s = "demo_crank_state\<lparr>slot := 301\<rparr>"
  have l: "crank_loop (\<lambda>_. Inr []) [] (demo_crank_msgs @ [SlotMsg 301 []]) (new_cranker 9 2 100) = returns ?s"
    using demo_crank_run by (simp add: crank_loop_def crank_init_def calls_append on_slot_def del: and_then_eq_returns)
  have f: "\<forall>m\<in>set (demo_crank_msgs @ [SlotMsg 301 []]). slots_fit m" using demo_crank_fits(1) by simp
  obtain e s' where c: "crank ''L'' ?s = returns (e, s')" "requests s' = requests ?s @ [demo_crank_request 301]"
    by (simp add: crank_def demo_ring_list RETRY_SLOT_def demo_crank_state_def demo_crank_status_def demo_crank_request_def
        Let_def del: and_then_eq_returns)
  from crank_repeats_the_first_period [OF l demo_crank_fits(2) f c] c(1) show ?thesis by blast
qed

theorem four_cranks_block_witness:
  "\<exists>s. run_steps crank_step [MainSend, WorkerTake, WorkerReply, MainSend, WorkerTake, MainSend]
      (crank_start (replicate 4 (demo_crank_request 5))) = Some s \<and> unsent s \<noteq> []"
proof -
  obtain s where s: "run_steps crank_step [MainSend, WorkerTake, WorkerReply, MainSend, WorkerTake, MainSend]
      (crank_start (replicate 4 (demo_crank_request 5))) = Some s"
    by (simp add: crank_start_def make_chan_def chan_send_def chan_recv_def eval_nat_numeral)
  have n: "4 \<le> length (replicate 4 (demo_crank_request 5))" by simp
  from four_cranks_block [OF n s] s show ?thesis by blast
qed


end
