(* ===== verification/PipelineAgent.thy ===== *)
theory PipelineAgent
  imports PayoutSchedule PipelineSchedule Cranker "HOL-Library.Sublist"
begin

text \<open>
  The agent of a pipeline, agent/pipeline (internal.go, event.go, payout.go, period.go): it starts a
  schedule for every payout and sends the instruction that a trigger of a schedule asks for.

  A callback that the agent hands to the wrapper is the value of type job that holds the variables
  the closure captures, and job_run is its body. Tasks are collected in the order in which they are
  started. The select of the loop is one function, and its value None means that the case cannot
  proceed. The second half of the theory runs the agent together with the payout schedules it starts
  and the goroutines between them.
\<close>

section \<open>Settings\<close>

record PeriodSettings =
  Withhold :: uint64
  Lookahead :: uint64
  ps_Length :: uint64
  TickSize :: uint32
  BidSpace :: uint32

record RateSettings =
  CrankFee :: "Rate option"
  PayoutShare :: "Rate option"

text \<open>RateFromProto reads through its pointer.\<close>

definition RateFromProto :: "Rate option \<Rightarrow> Rate outcome" where
  "RateFromProto r = (case r of None \<Rightarrow> Panic | Some x \<Rightarrow> Ret \<lparr>rate_N = rate_N x, rate_D = rate_D x\<rparr>)"

section \<open>What is sent\<close>

definition MAX_TRIES_PERIOD_APPEND :: int where "MAX_TRIES_PERIOD_APPEND = 5"
definition DELAY_PERIOD_APPEND :: int where "DELAY_PERIOD_APPEND = 10"
definition PERIOD_START_TOO_CLOSE :: uint64 where "PERIOD_START_TOO_CLOSE = 50"
definition MAX_TRIES_PAYOUT_CLOSE_BIDS :: int where "MAX_TRIES_PAYOUT_CLOSE_BIDS = 5"
definition DELAY_PAYOUT_CLOSE_BIDS :: int where "DELAY_PAYOUT_CLOSE_BIDS = 30"
definition MAX_TRIES_PAYOUT_CLOSE_PAYOUT :: int where "MAX_TRIES_PAYOUT_CLOSE_PAYOUT = 5"
definition DELAY_PAYOUT_CLOSE_PAYOUT :: int where "DELAY_PAYOUT_CLOSE_PAYOUT = 30"
definition ALLOTMENT_DEFAULT :: uint16 where "ALLOTMENT_DEFAULT = 100"

lemmas agent_limits = MAX_TRIES_PERIOD_APPEND_def DELAY_PERIOD_APPEND_def PERIOD_START_TOO_CLOSE_def
  MAX_TRIES_PAYOUT_CLOSE_BIDS_def DELAY_PAYOUT_CLOSE_BIDS_def MAX_TRIES_PAYOUT_CLOSE_PAYOUT_def
  DELAY_PAYOUT_CLOSE_PAYOUT_def ALLOTMENT_DEFAULT_def

text \<open>
  What the agent finds around it: the chain, its key, the controller and the pipeline, the payout
  objects, and the answers of the key generator when a period is appended.
\<close>

record agent_env =
  ae_chain :: env
  ae_admin :: PrivateKey
  ae_controller :: controller_ref
  ae_pipeline :: pipeline_ref
  ae_payout :: "pubkey \<Rightarrow> payout_ref"
  ae_program :: pubkey
  ae_fresh :: "err + PrivateKey"
  ae_fresh1 :: "err + PrivateKey"

definition RunCloseBids :: "env \<Rightarrow> PrivateKey \<Rightarrow> controller_ref \<Rightarrow> pipeline_ref \<Rightarrow> payout_ref \<Rightarrow> unit act" where
  "RunCloseBids v admin ctr pip pay =
     bind (SetTx admin) (\<lambda>_. bind (CloseBids ctr pip pay admin) (\<lambda>_. FinishTx v True))"

definition RunClosePayout :: "env \<Rightarrow> PrivateKey \<Rightarrow> controller_ref \<Rightarrow> pipeline_ref \<Rightarrow> payout_ref \<Rightarrow> unit act" where
  "RunClosePayout v admin ctr pip pay =
     bind (SetTx admin) (\<lambda>_. bind (ClosePayout ctr pip pay admin) (\<lambda>_. FinishTx v True))"

definition RunAppendPeriod :: "agent_env \<Rightarrow> uint64 \<Rightarrow> uint64 \<Rightarrow> uint16 \<Rightarrow> uint16 \<Rightarrow> Rate \<Rightarrow> Rate \<Rightarrow> uint16 \<Rightarrow> unit act" where
  "RunAppendPeriod ae st len withhold bidSpace crankFee payoutShare tickSize =
     bind (SetTx (ae_admin ae)) (\<lambda>_.
     bind (UpdatePipeline (ctr_Id (ae_controller ae)) (pip_Id (ae_pipeline ae)) (ae_admin ae) crankFee ALLOTMENT_DEFAULT
             payoutShare tickSize) (\<lambda>_.
     bind (AppendPeriod (ae_chain ae) (ae_program ae) (ae_fresh ae) (ae_fresh1 ae) (ae_controller ae) (ae_pipeline ae)
             (ae_admin ae) st len withhold bidSpace) (\<lambda>_.
     FinishTx (ae_chain ae) True)))"

datatype job =
    JobCloseBids pubkey
  | JobClosePayout pubkey
  | JobAppend uint64 uint64 uint16 uint16 Rate Rate uint16

fun job_run :: "agent_env \<Rightarrow> job \<Rightarrow> unit act" where
  "job_run ae (JobCloseBids p) = RunCloseBids (ae_chain ae) (ae_admin ae) (ae_controller ae) (ae_pipeline ae) (ae_payout ae p)"
| "job_run ae (JobClosePayout p) = RunClosePayout (ae_chain ae) (ae_admin ae) (ae_controller ae) (ae_pipeline ae) (ae_payout ae p)"
| "job_run ae (JobAppend st len withhold bidSpace crankFee payoutShare tickSize) =
     RunAppendPeriod ae st len withhold bidSpace crankFee payoutShare tickSize"

text \<open>
  A goroutine that cranks a payout, or a detached send with its tries and its delay in seconds. Every
  task also ends with the context of the agent; the context of the trigger, if any, is given.
\<close>

datatype task = GoCrank ctx pubkey | SendDetached "ctx option" int int job

section \<open>The agent\<close>

record payoutInfo =
  pi_cancel :: ctx
  pi_pwd :: pubkey

record pagent =
  pg_errorC :: "err chan"
  pg_slot :: uint64
  pg_periodSettings :: "PeriodSettings option"
  pg_rateSettings :: "RateSettings option"
  pg_payoutM :: "pubkey \<rightharpoonup> payoutInfo"
  pg_lookaheadC :: "uint64 chan"
  pg_schedulers :: "(ctx \<times> pubkey) list"
  pg_deleters :: "(ctx \<times> pubkey) list"
  pg_tasks :: "task list"
  pg_closeSignalCList :: "nat list"
  pg_ctx_next :: ctx
  pg_ctx_done :: "ctx list"

definition new_pagent :: pagent where
  "new_pagent =
     \<lparr>pg_errorC = make_chan 5, pg_slot = 0, pg_periodSettings = None, pg_rateSettings = None, pg_payoutM = Map.empty,
      pg_lookaheadC = make_chan 1, pg_schedulers = [], pg_deleters = [], pg_tasks = [], pg_closeSignalCList = [],
      pg_ctx_next = 0, pg_ctx_done = []\<rparr>"

text \<open>A send on the channel that only this loop reads: when it is full, the loop waits for itself.\<close>

definition report :: "err option \<Rightarrow> pagent \<Rightarrow> pagent call" where
  "report e s =
     (case e of
        None \<Rightarrow> returns s
      | Some x \<Rightarrow> (case chan_send x (pg_errorC s) of None \<Rightarrow> None | Some c \<Rightarrow> returns (s\<lparr>pg_errorC := c\<rparr>)))"

definition add_task :: "task \<Rightarrow> pagent \<Rightarrow> pagent" where
  "add_task t s = s\<lparr>pg_tasks := pg_tasks s @ [t]\<rparr>"

text \<open>
  A new payout gets a context, a schedule with the goroutine that reads it, and a goroutine that waits
  for the context to end.
\<close>

definition on_payout :: "pubkey \<Rightarrow> pagent \<Rightarrow> pagent" where
  "on_payout pwd s =
     (case pg_payoutM s pwd of
        Some _ \<Rightarrow> s
      | None \<Rightarrow>
          (let c = pg_ctx_next s in
           s\<lparr>pg_ctx_next := Suc c, pg_payoutM := (pg_payoutM s)(pwd \<mapsto> \<lparr>pi_cancel = c, pi_pwd = pwd\<rparr>),
             pg_deleters := pg_deleters s @ [(c, pwd)], pg_schedulers := pg_schedulers s @ [(c, pwd)]\<rparr>))"

text \<open>The context of a trigger is merged with that of the agent; MergeCtx panics when there is none.\<close>

definition run_payout_crank :: "pevent \<Rightarrow> pagent \<Rightarrow> (err option \<times> pagent) outcome" where
  "run_payout_crank event s =
     (case ReadTrigger event of
        Inl e \<Rightarrow> Ret (Some e, s)
      | Inr trigger \<Rightarrow>
          (case Context trigger of None \<Rightarrow> Panic | Some c \<Rightarrow> Ret (None, add_task (GoCrank c (Subject trigger)) s)))"

definition run_payout_close_bids :: "pevent \<Rightarrow> pagent \<Rightarrow> (err option \<times> pagent) outcome" where
  "run_payout_close_bids event s =
     (case ReadTrigger event of
        Inl e \<Rightarrow> Ret (Some e, s)
      | Inr trigger \<Rightarrow>
          (case Context trigger of
             None \<Rightarrow> Panic
           | Some c \<Rightarrow> Ret (None, add_task (SendDetached (Some c) MAX_TRIES_PAYOUT_CLOSE_BIDS DELAY_PAYOUT_CLOSE_BIDS
                        (JobCloseBids (Subject trigger))) s)))"

definition run_payout_close_payout :: "pevent \<Rightarrow> pagent \<Rightarrow> (err option \<times> pagent) outcome" where
  "run_payout_close_payout event s =
     (case ReadTrigger event of
        Inl e \<Rightarrow> Ret (Some e, s)
      | Inr trigger \<Rightarrow> Ret (None, add_task (SendDetached None MAX_TRIES_PAYOUT_CLOSE_PAYOUT DELAY_PAYOUT_CLOSE_PAYOUT
                        (JobClosePayout (Subject trigger))) s))"

definition on_payout_event :: "pevent \<Rightarrow> pagent \<Rightarrow> pagent call" where
  "on_payout_event event s =
     (if \<not> IsTrigger event then returns s
      else case ReadTrigger event of
             Inl e \<Rightarrow> report (Some e) s
           | Inr payload \<Rightarrow>
               (case (if Type event = TRIGGER_CRANK then run_payout_crank event s
                      else if Type event = TRIGGER_CLOSE_BIDS then run_payout_close_bids event s
                      else if Type event = TRIGGER_CLOSE_PAYOUT then run_payout_close_payout event s
                      else Ret (None, s)) of
                  Panic \<Rightarrow> Some Panic
                | Ret (e, s') \<Rightarrow> report e s'))"

definition ReadTrigger_append :: "aevent \<Rightarrow> err + TriggerAppend" where
  "ReadTrigger_append e = (case Payload e of None \<Rightarrow> Inl ''no trigger payload'' | Some t \<Rightarrow> Inr t)"

text \<open>
  The settings of the period are narrowed to the width of the instruction; a start that is too close
  becomes zero, which means as soon as possible.
\<close>

definition run_period_append :: "aevent \<Rightarrow> pagent \<Rightarrow> (err option \<times> pagent) outcome" where
  "run_period_append event s =
     (case pg_periodSettings s of
        None \<Rightarrow> Ret (Some ''no period settings'', s)
      | Some ps \<Rightarrow>
          (case pg_rateSettings s of
             None \<Rightarrow> Ret (Some ''no rate settings'', s)
           | Some rs \<Rightarrow>
               (case ReadTrigger_append event of
                  Inl e \<Rightarrow> Ret (Some e, s)
                | Inr payload \<Rightarrow>
                    (let st = (if pg_slot s + PERIOD_START_TOO_CLOSE < ta_start payload then ta_start payload else 0)
                     in case RateFromProto (CrankFee rs) of
                          Panic \<Rightarrow> Panic
                        | Ret crankFee \<Rightarrow>
                            (case RateFromProto (PayoutShare rs) of
                               Panic \<Rightarrow> Panic
                             | Ret payoutShare \<Rightarrow>
                                 Ret (None, add_task (SendDetached (Some (ta_context payload)) MAX_TRIES_PERIOD_APPEND
                                   DELAY_PERIOD_APPEND (JobAppend st (ps_Length ps) (ucast (Withhold ps)) (ucast (BidSpace ps))
                                      crankFee payoutShare (ucast (TickSize ps)))) s))))))"

definition on_pipeline_event :: "aevent \<Rightarrow> pagent \<Rightarrow> pagent call" where
  "on_pipeline_event event s =
     (if Type event = TRIGGER_PERIOD_APPEND
      then case run_period_append event s of Panic \<Rightarrow> Some Panic | Ret (e, s') \<Rightarrow> report e s'
      else returns s)"

text \<open>The goroutine loopDeletePayout hands in a payout whose context has ended.\<close>

definition on_delete_payout :: "pubkey \<Rightarrow> pagent \<Rightarrow> pagent" where
  "on_delete_payout k s =
     (case pg_payoutM s k of
        None \<Rightarrow> s
      | Some pi \<Rightarrow> s\<lparr>pg_ctx_done := pi_cancel pi # pg_ctx_done s, pg_payoutM := (pg_payoutM s)(k := None)\<rparr>)"

text \<open>
  The cases of the select. New period settings are passed on to the pipeline schedule, which may have
  to read the previous look-ahead first. The result says whether the loop goes on, and with which
  error it ends.
\<close>

datatype pagent_msg =
    PaDone | PaError | PaRequest nat | PaPeriodSettings PeriodSettings | PaRateSettings RateSettings
  | PaPayoutError "err option" | PaPayout pubkey | PaSlotError "err option" | PaSlot uint64
  | PaEventError "err option" | PaPipelineEvent aevent | PaPayoutEvent pevent | PaDelete pubkey

datatype loop_state = Continue | Exit "err option"

definition going_on :: "pagent call \<Rightarrow> (loop_state \<times> pagent) call" where
  "going_on c = and_then c (\<lambda>s. returns (Continue, s))"

fun pagent_case :: "pagent_msg \<Rightarrow> pagent \<Rightarrow> (loop_state \<times> pagent) call" where
  "pagent_case PaDone s = returns (Exit None, s)"
| "pagent_case PaError s =
     (case chan_recv (pg_errorC s) of None \<Rightarrow> None | Some (e, c) \<Rightarrow> returns (Exit (Some e), s\<lparr>pg_errorC := c\<rparr>))"
| "pagent_case (PaRequest n) s = returns (Continue, s\<lparr>pg_closeSignalCList := pg_closeSignalCList s @ [n]\<rparr>)"
| "pagent_case (PaPeriodSettings ps) s =
     (case chan_send (Lookahead ps) (pg_lookaheadC s) of
        None \<Rightarrow> None
      | Some c \<Rightarrow> returns (Continue, s\<lparr>pg_periodSettings := Some ps, pg_lookaheadC := c\<rparr>))"
| "pagent_case (PaRateSettings rs) s = returns (Continue, s\<lparr>pg_rateSettings := Some rs\<rparr>)"
| "pagent_case (PaPayoutError e) s = returns (Exit e, s)"
| "pagent_case (PaPayout pwd) s = returns (Continue, on_payout pwd s)"
| "pagent_case (PaSlotError e) s = returns (Continue, s)"
| "pagent_case (PaSlot n) s = returns (Continue, s\<lparr>pg_slot := n\<rparr>)"
| "pagent_case (PaEventError e) s = returns (Exit e, s)"
| "pagent_case (PaPipelineEvent e) s = going_on (on_pipeline_event e s)"
| "pagent_case (PaPayoutEvent e) s = going_on (on_payout_event e s)"
| "pagent_case (PaDelete k) s = returns (Continue, on_delete_payout k s)"

text \<open>Before its loop, the agent takes in the payouts that the pipeline has already.\<close>

definition pagent_init :: "err + pubkey list \<Rightarrow> pagent \<Rightarrow> pagent call" where
  "pagent_init ps s = (case ps of Inl e \<Rightarrow> report (Some e) s | Inr l \<Rightarrow> returns (fold on_payout l s))"

section \<open>What a job sends\<close>

fun job_ops :: "agent_env \<Rightarrow> job \<Rightarrow> script_op list" where
  "job_ops ae (JobCloseBids p) = [OpCloseBids (ae_controller ae) (ae_pipeline ae) (ae_payout ae p) (ae_admin ae)]"
| "job_ops ae (JobClosePayout p) = [OpClosePayout (ae_controller ae) (ae_pipeline ae) (ae_payout ae p) (ae_admin ae)]"
| "job_ops ae (JobAppend st len withhold bidSpace crankFee payoutShare tickSize) =
     [OpUpdatePipeline (ctr_Id (ae_controller ae)) (pip_Id (ae_pipeline ae)) (ae_admin ae) crankFee ALLOTMENT_DEFAULT payoutShare tickSize,
      OpPeriod (ae_program ae) (ae_fresh ae) (ae_fresh1 ae) (ae_controller ae) (ae_pipeline ae) (ae_admin ae) st len withhold bidSpace]"

lemma bind_assoc: "bind (bind m f) g = bind m (\<lambda>x. bind (f x) g)"
  by (auto simp: bind_def fun_eq_iff split: outcome.split prod.split sum.split)

lemma bind_yield: "bind (yield x) f = f x"
  by (simp add: bind_def yield_def fun_eq_iff)

text \<open>Every job is one transaction of the admin, so what is shown of transactions holds of it.\<close>

lemma job_transaction: "job_run ae j = transaction (ae_chain ae) (ae_admin ae) (job_ops ae j) True"
  by (cases j) (simp_all add: RunCloseBids_def RunClosePayout_def RunAppendPeriod_def transaction_def ignore_def
      bind_assoc bind_yield bind_unit)

lemma job_pays: "\<forall>op\<in>set (job_ops ae j). pays_from k op"
  by (cases j) auto

lemma job_bounded:
  assumes "Send n cs (job_run ae j) s = Some res" "0 < n"
  obtains r where "res = Ret r" "sr_tries r \<le> nat n" "sent_since s (sr_tries r) (PublicKey (ae_admin ae)) (sr_script r)"
    "sr_err r = None \<Longrightarrow> TaskDone \<notin> set cs \<Longrightarrow>
       SendTx (ae_chain ae) (fst (last (submitted (sr_script r)))) True = None"
proof -
  have st: "sent_since s 0 (PublicKey (ae_admin ae)) s" by (simp add: sent_since_def)
  from send_loop_transaction [OF job_pays st, of "nat n" cs "ae_chain ae" ae j True None res] assms
  obtain r where r: "res = Ret r" "sent_since s (sr_tries r) (PublicKey (ae_admin ae)) (sr_script r)"
    "sr_err r = None \<Longrightarrow> TaskDone \<notin> set cs \<Longrightarrow>
       SendTx (ae_chain ae) (fst (last (submitted (sr_script r)))) True = None"
    by (auto simp: job_transaction Send_def)
  from r(1) assms send_loop_tries [of "nat n" cs "job_run ae j" None 0 s r] have "sr_tries r \<le> nat n"
    by (auto simp: Send_def)
  from that [OF r(1) this r(2) r(3)] show ?thesis .
qed

section \<open>What a payout schedule has announced\<close>

text \<open>The state of the schedule of a payout once it has handled some messages.\<close>

definition sched_of :: "pubkey \<Rightarrow> loop_msg list \<Rightarrow> internal" where
  "sched_of p ms = snd (PayoutSchedule.loopInternal ms (init_internal p))"

abbreviation announced :: "pubkey \<Rightarrow> loop_msg list \<Rightarrow> pevent list" where
  "announced p ms \<equiv> PayoutSchedule.outbox (sched_of p ms)"

lemma sched_of_loop: "PayoutSchedule.loopInternal ms (init_internal p) = (fst (PayoutSchedule.loopInternal ms (init_internal p)), sched_of p ms)"
  by (simp add: sched_of_def)

definition grows :: "internal \<Rightarrow> internal \<Rightarrow> bool" where
  "grows s s' \<longleftrightarrow> (\<exists>es. PayoutSchedule.outbox s' = PayoutSchedule.outbox s @ es)"

lemma grows_refl: "PayoutSchedule.outbox s' = PayoutSchedule.outbox s \<Longrightarrow> grows s s'"
  by (simp add: grows_def)

lemma grows_trans: "grows s t \<Longrightarrow> grows t u \<Longrightarrow> grows s u"
  by (auto simp: grows_def)

lemma grows_handler: "handler t = Some h \<Longrightarrow> grows s (h s)"
  by (auto simp: handler_def on_defs run_defs grows_def cancel_def split: if_splits option.splits)

lemma grows_on_event: "on_event e s = (x, s') \<Longrightarrow> grows s s'"
  by (auto simp: on_event_def grows_def split: option.splits if_splits dest!: grows_handler [of _ _ s])

lemma grows_loop: "grows s (snd (PayoutSchedule.loopInternal ms s))"
proof (induction ms arbitrary: s)
  case (Cons m ms)
  have c: "grows s (PayoutSchedule.CloseSignal n s)" for n by (simp add: grows_def PayoutSchedule.CloseSignal_def)
  show ?case
    by (cases m) (auto split: prod.split option.split intro: grows_refl grows_trans [OF c Cons.IH]
        grows_trans [OF grows_on_event Cons.IH] grows_on_event Cons.IH)
qed (simp add: grows_refl)

lemma grows_append: "grows (snd (PayoutSchedule.loopInternal ms s)) (snd (PayoutSchedule.loopInternal (ms @ ns) s))"
proof (induction ms arbitrary: s)
  case (Cons m ms)
  show ?case by (cases m) (auto split: prod.split option.split intro: grows_refl Cons.IH)
qed (simp add: grows_loop)

lemma announced_append: obtains es where "announced p (ms @ ns) = announced p ms @ es"
  using grows_append [of ms "init_internal p" ns] that by (auto simp: grows_def sched_of_def)

text \<open>The three triggers that the agent acts on, and what they carry.\<close>

definition acted_on :: "EventType set" where
  "acted_on = {TRIGGER_CRANK, TRIGGER_CLOSE_BIDS, TRIGGER_CLOSE_PAYOUT}"

definition about :: "pubkey \<Rightarrow> pevent \<Rightarrow> bool" where
  "about p e \<longleftrightarrow> (Type e \<in> {TRIGGER_CRANK, TRIGGER_CLOSE_BIDS} \<longrightarrow> (\<exists>c. Payload e = Some \<lparr>Context = Some c, Subject = p\<rparr>))
     \<and> (Type e = TRIGGER_CLOSE_PAYOUT \<longrightarrow> Payload e = Some \<lparr>Context = None, Subject = p\<rparr>)"

definition about_inv :: "pubkey \<Rightarrow> internal \<Rightarrow> bool" where
  "about_inv p s \<longleftrightarrow> payout s = p \<and> (\<forall>e\<in>set (PayoutSchedule.outbox s). about p e)"

lemma about_broadcast:
  "about_inv p s \<Longrightarrow> about p e \<Longrightarrow> about_inv p (PayoutSchedule.broadcast e s)"
  by (auto simp: about_inv_def)

lemma about_low: "Type e < thresh \<Longrightarrow> about p e"
  by (auto simp: about_def event_codes)

lemma about_frame:
  "PayoutSchedule.outbox s' = PayoutSchedule.outbox s \<Longrightarrow> payout s' = payout s \<Longrightarrow> about_inv p s' = about_inv p s"
  by (simp add: about_inv_def)

lemma about_set [simp]:
  "about_inv p (s\<lparr>hasStarted := b\<rparr>) = about_inv p s" "about_inv p (s\<lparr>hasFinished := b\<rparr>) = about_inv p s"
  "about_inv p (s\<lparr>isClockReadyToClose := b\<rparr>) = about_inv p s" "about_inv p (s\<lparr>bidIsFinal := b\<rparr>) = about_inv p s"
  "about_inv p (s\<lparr>bidHasClosed := b\<rparr>) = about_inv p s" "about_inv p (s\<lparr>validatorAddingHasStarted := b\<rparr>) = about_inv p s"
  "about_inv p (s\<lparr>validatorHasWithdrawn := b\<rparr>) = about_inv p s" "about_inv p (s\<lparr>stakerAddingHasStarted := b\<rparr>) = about_inv p s"
  "about_inv p (s\<lparr>stakerAddingIsDone := b\<rparr>) = about_inv p s" "about_inv p (s\<lparr>cancelCrank := x\<rparr>) = about_inv p s"
  "about_inv p (s\<lparr>cancelCloseBid := x\<rparr>) = about_inv p s" "about_inv p (s\<lparr>keepPayoutOpen := b\<rparr>) = about_inv p s"
  "about_inv p (cancel c s) = about_inv p s" "about_inv p (PayoutSchedule.CloseSignal n s) = about_inv p s"
  by (simp_all add: about_inv_def cancel_def PayoutSchedule.CloseSignal_def)

lemma about_run:
  assumes "about_inv p s"
  shows "about_inv p (run_crank s)" "about_inv p (run_close_bids s)" "about_inv p (run_close_payout s)"
    "about_inv p (run_validator_set_payout s)" "about_inv p (run_validator_withdraw s)"
  using assms by (auto simp: run_defs about_inv_def about_def event_codes)

lemma about_handler: "about_inv p s \<Longrightarrow> handler t = Some h \<Longrightarrow> about_inv p (h s)"
  by (auto simp: handler_def on_defs Let_def about_run split: if_splits option.splits)

lemma about_on_event: "about_inv p s \<Longrightarrow> on_event e s = (x, s') \<Longrightarrow> about_inv p s'"
  by (auto simp: on_event_def about_handler intro!: about_broadcast about_low dest: handler_event
      split: option.splits if_splits)

lemma announced_about: "e \<in> set (announced p ms) \<Longrightarrow> about p e"
proof -
  have "about_inv p (init_internal p)" by (simp add: about_inv_def init_internal_def)
  then have "about_inv p (sched_of p ms)"
    by (rule loopInternal_invariant [OF sched_of_loop, where I = "about_inv p"]) (auto intro: about_on_event)
  then show "e \<in> set (announced p ms) \<Longrightarrow> about p e" by (simp add: about_inv_def)
qed

lemma close_inv_loop: "close_inv s \<Longrightarrow> close_inv (snd (PayoutSchedule.loopInternal ms s))"
proof (induction ms arbitrary: s)
  case (Cons m ms)
  show ?case
  proof (cases "keepPayoutOpen s")
    case True
    have e: "close_inv s'" if "on_event e s = (x, s')" for e x s'
      using that close_inv_on_event [OF Cons.prems True, of e s'] Cons.prems
      by (cases x) (auto simp: on_event_def split: option.splits)
    have "close_inv (PayoutSchedule.CloseSignal n s)" for n
      using Cons.prems close_inv_view [of "PayoutSchedule.CloseSignal n s" s] by simp
    then show ?thesis using True Cons.IH Cons.prems by (cases m) (auto split: prod.split option.split dest!: e)
  qed (use Cons.prems in simp)
qed simp

lemma announced_once: "t \<in> acted_on \<Longrightarrow> times t (announced p ms) \<le> 1"
proof -
  have "crank_inv (sched_of p ms) \<and> bids_inv (sched_of p ms)"
    by (rule loopInternal_invariant [OF sched_of_loop, where I = "\<lambda>s. crank_inv s \<and> bids_inv s"])
      (rule once_init, blast intro: once_on_event [THEN conjunct1] once_on_event [THEN conjunct2], simp)
  moreover have "close_inv (sched_of p ms)" by (simp add: sched_of_def close_inv_loop close_inv_init)
  ultimately show "t \<in> acted_on \<Longrightarrow> times t (announced p ms) \<le> 1"
    using once_D(1) unfolding once_defs acted_on_def times_def trigs_def [symmetric]
    by (auto simp: close_inv_def times_def trigs_def)
qed

section \<open>The agent with its schedules\<close>

text \<open>
  The agent, the payout schedules it has started, and the two goroutines it starts with each of them:
  loopPayoutScheduler takes the events of its schedule in order and hands them to the agent, and
  loopDeletePayout waits for the end of the context. A schedule is known by its context; sy_msgs holds
  what it has handled, sy_read how many of its events have left its subscription, and sy_got those
  that reached the agent. A full subscription may lose an event.
\<close>

record agent_sys =
  sy_agent :: pagent
  sy_msgs :: "ctx \<Rightarrow> loop_msg list"
  sy_read :: "ctx \<Rightarrow> nat"
  sy_got :: "ctx \<Rightarrow> pevent list"
  sy_stopped :: bool

datatype agent_label =
    AgentMsg pagent_msg | ScheduleMsg nat loop_msg | ForwardEvent nat | LoseEvent nat | DeletePayout nat | ReadLookahead

definition agent_does :: "pagent_msg \<Rightarrow> agent_sys \<Rightarrow> agent_sys call" where
  "agent_does m y =
     (if sy_stopped y then None
      else and_then (pagent_case m (sy_agent y)) (\<lambda>(l, a). returns (y\<lparr>sy_agent := a, sy_stopped := (l \<noteq> Continue)\<rparr>)))"

definition next_event :: "nat \<Rightarrow> agent_sys \<Rightarrow> (ctx \<times> pevent) option" where
  "next_event i y =
     (if i < length (pg_schedulers (sy_agent y)) then
        (case pg_schedulers (sy_agent y) ! i of (c, p) \<Rightarrow>
           (let es = announced p (sy_msgs y c)
            in if sy_read y c < length es then Some (c, es ! sy_read y c) else None))
      else None)"

fun agent_step :: "agent_label \<Rightarrow> agent_sys \<Rightarrow> agent_sys call" where
  "agent_step (AgentMsg m) y =
     (case m of PaPayoutEvent _ \<Rightarrow> None | PaDelete _ \<Rightarrow> None | _ \<Rightarrow> agent_does m y)"
| "agent_step (ScheduleMsg i m) y =
     (if i < length (pg_schedulers (sy_agent y)) then
        let c = fst (pg_schedulers (sy_agent y) ! i) in returns (y\<lparr>sy_msgs := (sy_msgs y)(c := sy_msgs y c @ [m])\<rparr>)
      else None)"
| "agent_step (ForwardEvent i) y =
     (case next_event i y of
        None \<Rightarrow> None
      | Some (c, e) \<Rightarrow> agent_does (PaPayoutEvent e)
          (y\<lparr>sy_read := (sy_read y)(c := Suc (sy_read y c)), sy_got := (sy_got y)(c := sy_got y c @ [e])\<rparr>))"
| "agent_step (LoseEvent i) y =
     (case next_event i y of
        None \<Rightarrow> None
      | Some (c, e) \<Rightarrow> returns (y\<lparr>sy_read := (sy_read y)(c := Suc (sy_read y c))\<rparr>))"
| "agent_step (DeletePayout i) y =
     (if i < length (pg_deleters (sy_agent y)) then
        (case pg_deleters (sy_agent y) ! i of (c, p) \<Rightarrow>
           if c \<in> set (pg_ctx_done (sy_agent y)) then agent_does (PaDelete p) y else None)
      else None)"
| "agent_step ReadLookahead y =
     (case chan_recv (pg_lookaheadC (sy_agent y)) of
        None \<Rightarrow> None
      | Some (_, c) \<Rightarrow> returns (y\<lparr>sy_agent := (sy_agent y)\<lparr>pg_lookaheadC := c\<rparr>\<rparr>))"

definition agent_start :: "pubkey list \<Rightarrow> agent_sys" where
  "agent_start ps =
     \<lparr>sy_agent = fold on_payout ps new_pagent, sy_msgs = (\<lambda>_. []), sy_read = (\<lambda>_. 0), sy_got = (\<lambda>_. []), sy_stopped = False\<rparr>"

text \<open>The trigger and the payout that a task acts on.\<close>

fun task_subject :: "task \<Rightarrow> (EventType \<times> pubkey) option" where
  "task_subject (GoCrank c p) = Some (TRIGGER_CRANK, p)"
| "task_subject (SendDetached c n d (JobCloseBids p)) = Some (TRIGGER_CLOSE_BIDS, p)"
| "task_subject (SendDetached c n d (JobClosePayout p)) = Some (TRIGGER_CLOSE_PAYOUT, p)"
| "task_subject (SendDetached c n d (JobAppend st len w b cf sh ts)) = None"

definition started :: "EventType \<Rightarrow> pubkey \<Rightarrow> pagent \<Rightarrow> nat" where
  "started t p a = length (filter (\<lambda>k. task_subject k = Some (t, p)) (pg_tasks a))"

definition watch_inv :: "pagent \<Rightarrow> bool" where
  "watch_inv a \<longleftrightarrow> pg_ctx_done a = [] \<and> distinct (map fst (pg_schedulers a)) \<and> distinct (map snd (pg_schedulers a))
     \<and> (\<forall>(c, p)\<in>set (pg_schedulers a). c < pg_ctx_next a)
     \<and> dom (pg_payoutM a) = snd ` set (pg_schedulers a)
     \<and> (\<forall>(c, p)\<in>set (pg_schedulers a). pg_payoutM a p = Some \<lparr>pi_cancel = c, pi_pwd = p\<rparr>)"

definition follows :: "agent_sys \<Rightarrow> ctx \<Rightarrow> pubkey \<Rightarrow> bool" where
  "follows y c p \<longleftrightarrow> subseq (sy_got y c) (take (sy_read y c) (announced p (sy_msgs y c)))
     \<and> sy_read y c \<le> length (announced p (sy_msgs y c))
     \<and> (\<forall>t\<in>acted_on. started t p (sy_agent y) = times t (sy_got y c))"

definition act_inv :: "agent_sys \<Rightarrow> bool" where
  "act_inv y \<longleftrightarrow> watch_inv (sy_agent y)
     \<and> (\<forall>c p. (c, p) \<in> set (pg_schedulers (sy_agent y)) \<longrightarrow> follows y c p)
     \<and> (\<forall>c. c \<notin> fst ` set (pg_schedulers (sy_agent y)) \<longrightarrow> sy_msgs y c = [] \<and> sy_read y c = 0 \<and> sy_got y c = [])
     \<and> (\<forall>t\<in>acted_on. \<forall>p. p \<notin> snd ` set (pg_schedulers (sy_agent y)) \<longrightarrow> started t p (sy_agent y) = 0)"

definition same_watch :: "pagent \<Rightarrow> pagent \<Rightarrow> bool" where
  "same_watch a a' \<longleftrightarrow> pg_schedulers a' = pg_schedulers a \<and> pg_payoutM a' = pg_payoutM a \<and> pg_ctx_done a' = pg_ctx_done a
     \<and> pg_ctx_next a' = pg_ctx_next a"

lemma watch_same: "same_watch a a' \<Longrightarrow> watch_inv a' = watch_inv a"
  by (simp add: same_watch_def watch_inv_def)

lemma started_add: "started t p (add_task k a) = started t p a + (if task_subject k = Some (t, p) then 1 else 0)"
  by (simp add: started_def add_task_def)

lemma panic_returns [simp]: "Some Panic \<noteq> returns x" "returns x \<noteq> Some Panic" "None \<noteq> returns x" "returns x \<noteq> None"
  "returns x = returns y \<longleftrightarrow> x = y"
  by (simp_all add: returns_def)

lemma report_frame: "report e a = returns a' \<Longrightarrow> same_watch a a' \<and> (\<forall>t p. started t p a' = started t p a)"
  by (auto simp: report_def returns_def same_watch_def started_def split: option.splits)

lemma append_frame:
  "run_period_append e a = Ret (x, a') \<Longrightarrow> same_watch a a' \<and> (\<forall>t p. started t p a' = started t p a)"
  by (auto simp: run_period_append_def Let_def same_watch_def started_add split: option.splits sum.splits outcome.splits)
    (simp_all add: add_task_def)

text \<open>Only a payout and a payout event change what the agent watches and what it has started.\<close>

lemma agent_frame:
  assumes "pagent_case m a = returns (l, a')" "\<nexists>p. m = PaPayout p" "\<nexists>e. m = PaPayoutEvent e" "\<nexists>p. m = PaDelete p"
  shows "same_watch a a' \<and> (\<forall>t p. started t p a' = started t p a)"
proof (cases m)
  case (PaPipelineEvent e)
  with assms(1) obtain x b where "on_pipeline_event e a = returns a'" by (auto simp: going_on_def)
  then show ?thesis
    by (auto simp: on_pipeline_event_def same_watch_def dest!: append_frame report_frame split: if_splits outcome.splits)
qed (use assms in \<open>auto simp: same_watch_def started_def returns_def split: option.splits\<close>)

text \<open>An announced event starts the task it asks for, and nothing else.\<close>

lemma event_acts:
  assumes "about p e" "Type e \<in> acted_on"
  obtains k where "on_payout_event e a = returns (add_task k a)" "task_subject k = Some (Type e, p)"
proof -
  have d: "TRIGGER_CLOSE_BIDS \<noteq> TRIGGER_CRANK" "TRIGGER_CLOSE_PAYOUT \<noteq> TRIGGER_CRANK" "TRIGGER_CLOSE_PAYOUT \<noteq> TRIGGER_CLOSE_BIDS"
    "thresh \<le> TRIGGER_CRANK" "thresh \<le> TRIGGER_CLOSE_BIDS" "thresh \<le> TRIGGER_CLOSE_PAYOUT"
    by (simp_all add: event_codes)
  note defs = on_payout_event_def IsTrigger_def ReadTrigger_def run_payout_crank_def run_payout_close_bids_def
    run_payout_close_payout_def report_def
  consider "Type e = TRIGGER_CRANK" | "Type e = TRIGGER_CLOSE_BIDS" | "Type e = TRIGGER_CLOSE_PAYOUT"
    using assms(2) by (auto simp: acted_on_def)
  then show ?thesis
  proof cases
    case 1
    then obtain c where "Payload e = Some \<lparr>Context = Some c, Subject = p\<rparr>" using assms(1) by (auto simp: about_def)
    with 1 d show ?thesis by (intro that [of "GoCrank c p"]) (simp_all add: defs)
  next
    case 2
    then obtain c where "Payload e = Some \<lparr>Context = Some c, Subject = p\<rparr>" using assms(1) by (auto simp: about_def)
    with 2 d show ?thesis
      by (intro that [of "SendDetached (Some c) MAX_TRIES_PAYOUT_CLOSE_BIDS DELAY_PAYOUT_CLOSE_BIDS (JobCloseBids p)"])
        (simp_all add: defs)
  next
    case 3
    then have "Payload e = Some \<lparr>Context = None, Subject = p\<rparr>" using assms(1) by (simp add: about_def)
    with 3 d show ?thesis
      by (intro that [of "SendDetached None MAX_TRIES_PAYOUT_CLOSE_PAYOUT DELAY_PAYOUT_CLOSE_PAYOUT (JobClosePayout p)"])
        (simp_all add: defs)
  qed
qed

lemma event_ignored:
  assumes "Type e \<notin> acted_on"
  shows "on_payout_event e a = returns a \<or> (\<exists>x. on_payout_event e a = report (Some x) a)"
  using assms by (auto simp: on_payout_event_def acted_on_def report_def split: sum.split)

lemma report_no_panic: "report e a \<noteq> Some Panic"
  by (simp add: report_def split: option.split)

lemma payout_event_acts:
  assumes "about p e"
  shows "on_payout_event e a \<noteq> Some Panic"
    and "on_payout_event e a = returns a' \<Longrightarrow> same_watch a a'
      \<and> (\<forall>t\<in>acted_on. \<forall>q. started t q a' = started t q a + (if t = Type e \<and> q = p then 1 else 0))"
proof -
  show "on_payout_event e a \<noteq> Some Panic"
  proof (cases "Type e \<in> acted_on")
    case True
    then show ?thesis by (rule event_acts [OF assms, of a]) simp
  qed (use event_ignored [of e a] report_no_panic [of _ a] in auto)
  assume r: "on_payout_event e a = returns a'"
  show "same_watch a a' \<and> (\<forall>t\<in>acted_on. \<forall>q. started t q a' = started t q a + (if t = Type e \<and> q = p then 1 else 0))"
  proof (cases "Type e \<in> acted_on")
    case True
    then obtain k where "a' = add_task k a" "task_subject k = Some (Type e, p)" using event_acts [OF assms, of a] r by auto
    then show ?thesis by (auto simp: started_add) (simp add: same_watch_def add_task_def)
  next
    case False
    with event_ignored [OF False, of a] r report_frame [of _ a a'] show ?thesis by (auto simp: same_watch_def)
  qed
qed

lemma watch_on_payout:
  assumes "watch_inv a"
  shows "watch_inv (on_payout p a)"
    and "pg_schedulers (on_payout p a) = pg_schedulers a @ (if p \<in> snd ` set (pg_schedulers a) then [] else [(pg_ctx_next a, p)])"
    and "started t q (on_payout p a) = started t q a"
proof -
  have d: "(pg_payoutM a p = None) = (p \<notin> snd ` set (pg_schedulers a))" using assms by (auto simp: watch_inv_def)
  show "pg_schedulers (on_payout p a) = pg_schedulers a @ (if p \<in> snd ` set (pg_schedulers a) then [] else [(pg_ctx_next a, p)])"
    using d by (cases "pg_payoutM a p") (auto simp: on_payout_def Let_def)
  show "started t q (on_payout p a) = started t q a"
    by (auto simp: on_payout_def Let_def started_def split: option.split)
  show "watch_inv (on_payout p a)"
  proof (cases "pg_payoutM a p")
    case None
    then have n: "p \<notin> snd ` set (pg_schedulers a)" using d by simp
    have lt: "\<And>c q. (c, q) \<in> set (pg_schedulers a) \<Longrightarrow> c < pg_ctx_next a" using assms by (auto simp: watch_inv_def)
    show ?thesis using assms None n
      by (auto simp: watch_inv_def on_payout_def Let_def dest: lt)
  qed (use assms in \<open>simp add: on_payout_def\<close>)
qed

lemma one_context: "act_inv y \<Longrightarrow> (c, p) \<in> set (pg_schedulers (sy_agent y)) \<Longrightarrow> (c, q) \<in> set (pg_schedulers (sy_agent y)) \<Longrightarrow> q = p"
  by (auto simp: act_inv_def watch_inv_def dest: eq_key_imp_eq_value)

lemma act_frame:
  assumes "act_inv y" "same_watch (sy_agent y) a" "\<forall>t p. started t p a = started t p (sy_agent y)"
  shows "act_inv (y\<lparr>sy_agent := a, sy_stopped := b\<rparr>)" "act_inv (y\<lparr>sy_agent := a\<rparr>)"
  using assms watch_same [OF assms(2)] by (auto simp: act_inv_def same_watch_def follows_def)

lemma act_payout: "act_inv y \<Longrightarrow> act_inv (y\<lparr>sy_agent := on_payout p (sy_agent y), sy_stopped := b\<rparr>)"
proof -
  assume y: "act_inv y"
  then have w: "watch_inv (sy_agent y)" by (simp add: act_inv_def)
  have "pg_ctx_next (sy_agent y) \<notin> fst ` set (pg_schedulers (sy_agent y))" using w by (auto simp: watch_inv_def)
  then show ?thesis using y watch_on_payout [OF w, where p = p]
    by (auto simp: act_inv_def follows_def image_iff split: if_splits)
qed

text \<open>A step that touches one schedule only.\<close>

lemma act_local:
  assumes "act_inv y" "(c, p) \<in> set (pg_schedulers (sy_agent y))" "sy_agent y' = sy_agent y" "follows y' c p"
    "\<And>d. d \<noteq> c \<Longrightarrow> sy_msgs y' d = sy_msgs y d \<and> sy_read y' d = sy_read y d \<and> sy_got y' d = sy_got y d"
  shows "act_inv y'"
proof -
  have "follows y' d q" if m: "(d, q) \<in> set (pg_schedulers (sy_agent y))" for d q
  proof (cases "d = c")
    case True
    then have "(c, q) \<in> set (pg_schedulers (sy_agent y))" using m by simp
    from one_context [OF assms(1,2) this] True assms(4) show ?thesis by simp
  next
    case False
    then show ?thesis using assms(1,3) assms(5) [OF False] m by (auto simp: act_inv_def follows_def)
  qed
  moreover have "sy_msgs y' d = [] \<and> sy_read y' d = 0 \<and> sy_got y' d = []"
    if "d \<notin> fst ` set (pg_schedulers (sy_agent y))" for d
  proof -
    have "d \<noteq> c" using that assms(2) by force
    then show ?thesis using assms(1) assms(5) that by (simp add: act_inv_def)
  qed
  ultimately show ?thesis using assms(1,3) by (simp add: act_inv_def)
qed

lemma act_schedule:
  assumes "act_inv y" "(c, p) \<in> set (pg_schedulers (sy_agent y))"
  shows "act_inv (y\<lparr>sy_msgs := (sy_msgs y)(c := sy_msgs y c @ [m])\<rparr>)"
proof (rule act_local [OF assms])
  obtain es where "announced p (sy_msgs y c @ [m]) = announced p (sy_msgs y c) @ es" by (rule announced_append)
  moreover have "follows y c p" using assms by (simp add: act_inv_def)
  ultimately show "follows (y\<lparr>sy_msgs := (sy_msgs y)(c := sy_msgs y c @ [m])\<rparr>) c p" by (simp add: follows_def)
qed simp_all

lemma next_event_of:
  assumes "next_event i y = Some (c, e)"
  obtains p where "(c, p) \<in> set (pg_schedulers (sy_agent y))" "sy_read y c < length (announced p (sy_msgs y c))"
    "e = announced p (sy_msgs y c) ! sy_read y c" "about p e"
    "take (Suc (sy_read y c)) (announced p (sy_msgs y c)) = take (sy_read y c) (announced p (sy_msgs y c)) @ [e]"
proof -
  obtain p where p: "(c, p) \<in> set (pg_schedulers (sy_agent y))" "sy_read y c < length (announced p (sy_msgs y c))"
    "e = announced p (sy_msgs y c) ! sy_read y c"
    using assms nth_mem by (fastforce simp: next_event_def Let_def split: if_splits prod.splits)
  then have "about p e" using announced_about nth_mem by blast
  with p show ?thesis using that by (simp add: take_Suc_conv_app_nth)
qed

lemma act_lose:
  assumes "act_inv y" "next_event i y = Some (c, e)"
  shows "act_inv (y\<lparr>sy_read := (sy_read y)(c := Suc (sy_read y c))\<rparr>)"
proof -
  obtain p where p: "(c, p) \<in> set (pg_schedulers (sy_agent y))" "sy_read y c < length (announced p (sy_msgs y c))"
    "take (Suc (sy_read y c)) (announced p (sy_msgs y c)) = take (sy_read y c) (announced p (sy_msgs y c)) @ [e]"
    using next_event_of [OF assms(2)] .
  have "follows y c p" using assms(1) p(1) by (simp add: act_inv_def)
  then have "follows (y\<lparr>sy_read := (sy_read y)(c := Suc (sy_read y c))\<rparr>) c p"
    using p(2,3) by (simp add: follows_def list_emb_prefix)
  from act_local [OF assms(1) p(1) _ this] show ?thesis by simp
qed

lemma one_payout:
  assumes "act_inv y" "(c, p) \<in> set (pg_schedulers (sy_agent y))" "(d, p) \<in> set (pg_schedulers (sy_agent y))"
  shows "d = c"
proof -
  have "pg_payoutM (sy_agent y) p = Some \<lparr>pi_cancel = b, pi_pwd = p\<rparr>" if "(b, p) \<in> set (pg_schedulers (sy_agent y))" for b
    using assms(1) that unfolding act_inv_def watch_inv_def by blast
  from this [OF assms(2)] this [OF assms(3)] show ?thesis by simp
qed

lemma act_forward:
  assumes "act_inv y" "next_event i y = Some (c, e)" "on_payout_event e (sy_agent y) = returns a'"
  shows "act_inv (y\<lparr>sy_read := (sy_read y)(c := Suc (sy_read y c)), sy_got := (sy_got y)(c := sy_got y c @ [e]),
    sy_agent := a', sy_stopped := b\<rparr>)" (is "act_inv ?y")
proof -
  obtain p where p: "(c, p) \<in> set (pg_schedulers (sy_agent y))" "sy_read y c < length (announced p (sy_msgs y c))" "about p e"
    "take (Suc (sy_read y c)) (announced p (sy_msgs y c)) = take (sy_read y c) (announced p (sy_msgs y c)) @ [e]"
    using next_event_of [OF assms(2)] .
  have a: "same_watch (sy_agent y) a'"
    "\<forall>t\<in>acted_on. \<forall>q. started t q a' = started t q (sy_agent y) + (if t = Type e \<and> q = p then 1 else 0)"
    using payout_event_acts(2) [OF p(3) assms(3)] by blast+
  have f: "follows y d q" if "(d, q) \<in> set (pg_schedulers (sy_agent y))" for d q using assms(1) that by (simp add: act_inv_def)
  have "follows ?y d q" if m: "(d, q) \<in> set (pg_schedulers (sy_agent y))" for d q
  proof (cases "d = c")
    case True
    then have "(c, q) \<in> set (pg_schedulers (sy_agent y))" using m by simp
    from one_context [OF assms(1) p(1) this] True f [OF p(1)] p(2,4) a(2) show ?thesis
      by (auto simp: follows_def list_emb_append_mono)
  next
    case False
    then have "q \<noteq> p" using one_payout [OF assms(1) p(1)] m by auto
    then show ?thesis using False f [OF m] a(2) by (auto simp: follows_def)
  qed
  moreover have "started t q a' = 0" if "t \<in> acted_on" "q \<notin> snd ` set (pg_schedulers (sy_agent y))" for t q
  proof -
    have "q \<noteq> p" using that(2) p(1) by force
    then show ?thesis using that assms(1) a(2) by (simp add: act_inv_def)
  qed
  moreover have "c \<in> fst ` set (pg_schedulers (sy_agent y))" using p(1) by force
  ultimately show ?thesis using assms(1) a(1) watch_same [OF a(1)] by (auto simp: act_inv_def same_watch_def)
qed

lemma act_step:
  assumes "act_inv y" "agent_step l y = returns y'"
  shows "act_inv y'"
proof (cases l)
  case (AgentMsg m)
  then have m: "\<nexists>e. m = PaPayoutEvent e" "\<nexists>p. m = PaDelete p" "agent_does m y = returns y'"
    using assms(2) by (auto split: pagent_msg.splits)
  then obtain s a where a: "pagent_case m (sy_agent y) = returns (s, a)" "y' = y\<lparr>sy_agent := a, sy_stopped := (s \<noteq> Continue)\<rparr>"
    by (auto simp: agent_does_def split: if_splits)
  show ?thesis
  proof (cases "\<exists>p. m = PaPayout p")
    case True
    then show ?thesis using a act_payout [OF assms(1)] by auto
  next
    case False
    from agent_frame [OF a(1) False m(1,2)] show ?thesis using a(2) act_frame(1) [OF assms(1)] by blast
  qed
next
  case (ScheduleMsg i m)
  then show ?thesis using assms act_schedule [OF assms(1), of "fst (pg_schedulers (sy_agent y) ! i)" "snd (pg_schedulers (sy_agent y) ! i)" m]
    by (auto simp: Let_def split: if_splits)
next
  case (ForwardEvent i)
  then obtain c e where n: "next_event i y = Some (c, e)"
    "agent_does (PaPayoutEvent e) (y\<lparr>sy_read := (sy_read y)(c := Suc (sy_read y c)), sy_got := (sy_got y)(c := sy_got y c @ [e])\<rparr>) = returns y'"
    using assms(2) by (auto split: option.splits)
  then obtain a where "on_payout_event e (sy_agent y) = returns a"
    "y' = y\<lparr>sy_read := (sy_read y)(c := Suc (sy_read y c)), sy_got := (sy_got y)(c := sy_got y c @ [e]), sy_agent := a, sy_stopped := False\<rparr>"
    by (auto simp: agent_does_def going_on_def split: if_splits)
  then show ?thesis using act_forward [OF assms(1) n(1)] by simp
next
  case (LoseEvent i)
  then show ?thesis using assms act_lose [OF assms(1), of i] by (auto split: option.splits)
next
  case (DeletePayout i)
  then show ?thesis using assms by (auto simp: act_inv_def watch_inv_def split: if_splits prod.splits)
next
  case ReadLookahead
  then obtain c where "y' = y\<lparr>sy_agent := (sy_agent y)\<lparr>pg_lookaheadC := c\<rparr>\<rparr>" using assms(2) by (auto split: option.splits)
  then show ?thesis using act_frame(2) [OF assms(1), of "(sy_agent y)\<lparr>pg_lookaheadC := c\<rparr>"]
    by (simp add: same_watch_def started_def)
qed

lemma act_start: "act_inv (agent_start ps)"
proof -
  have w: "watch_inv (fold on_payout qs a) \<and> pg_tasks (fold on_payout qs a) = pg_tasks a" if "watch_inv a" for qs a
    using that
  proof (induction qs arbitrary: a)
    case (Cons q qs)
    have "pg_tasks (on_payout q a) = pg_tasks a" by (simp add: on_payout_def Let_def split: option.split)
    then show ?case using Cons.IH [OF watch_on_payout(1) [OF Cons.prems]] by simp
  qed simp
  have "watch_inv new_pagent" by (simp add: watch_inv_def new_pagent_def)
  from w [OF this, of ps] show ?thesis by (simp add: act_inv_def follows_def agent_start_def started_def new_pagent_def)
qed

text \<open>A payout that was taken in is never forgotten.\<close>

definition taken_in :: "agent_label list \<Rightarrow> pubkey set" where
  "taken_in ls = {p. AgentMsg (PaPayout p) \<in> set ls}"

lemma dom_step:
  assumes "act_inv y" "agent_step l y = returns y'"
  shows "dom (pg_payoutM (sy_agent y)) \<union> taken_in [l] \<subseteq> dom (pg_payoutM (sy_agent y'))"
proof -
  have d: "dom (pg_payoutM (sy_agent x)) = snd ` set (pg_schedulers (sy_agent x))" if "act_inv x" for x
    using that by (simp add: act_inv_def watch_inv_def)
  have w: "watch_inv (sy_agent y)" using assms(1) by (simp add: act_inv_def)
  have "set (pg_schedulers (sy_agent y)) \<subseteq> set (pg_schedulers (sy_agent y')) \<and> taken_in [l] \<subseteq> snd ` set (pg_schedulers (sy_agent y'))"
  proof (cases "\<exists>p. l = AgentMsg (PaPayout p)")
    case True
    then show ?thesis using assms(2) watch_on_payout(2) [OF w]
      by (auto simp: taken_in_def agent_does_def split: if_splits)
  next
    case False
    moreover have "pg_schedulers (sy_agent y') = pg_schedulers (sy_agent y)"
    proof (cases l)
      case (AgentMsg m)
      then show ?thesis using False assms(2) agent_frame [of m "sy_agent y"]
        by (auto simp: agent_does_def same_watch_def split: pagent_msg.splits if_splits)
    next
      case (ForwardEvent i)
      then obtain c e a where n: "next_event i y = Some (c, e)" "on_payout_event e (sy_agent y) = returns a" "sy_agent y' = a"
        using assms(2) by (auto simp: agent_does_def going_on_def split: option.splits if_splits)
      obtain p where "about p e" using next_event_of [OF n(1)] .
      from payout_event_acts(2) [OF this n(2)] n(3) show ?thesis by (simp add: same_watch_def)
    next
      case (DeletePayout i)
      then show ?thesis using assms by (auto simp: act_inv_def watch_inv_def split: if_splits prod.splits)
    qed (use assms(2) in \<open>auto simp: Let_def split: if_splits option.splits\<close>)
    ultimately show ?thesis by (auto simp: taken_in_def)
  qed
  then show ?thesis using d [OF assms(1)] d [OF act_step [OF assms]] by auto
qed

lemma dom_run:
  "act_inv y \<Longrightarrow> calls agent_step ls y = returns y' \<Longrightarrow>
     act_inv y' \<and> dom (pg_payoutM (sy_agent y)) \<union> taken_in ls \<subseteq> dom (pg_payoutM (sy_agent y'))"
proof (induction ls arbitrary: y)
  case (Cons l ls)
  then obtain y1 where y1: "agent_step l y = returns y1" "calls agent_step ls y1 = returns y'" by auto
  have "taken_in (l # ls) = taken_in [l] \<union> taken_in ls" by (auto simp: taken_in_def)
  then show ?case using Cons.IH [OF act_step [OF Cons.prems(1) y1(1)] y1(2)] dom_step [OF Cons.prems(1) y1(1)] by blast
qed (simp add: taken_in_def)

lemma times_subseq: "subseq xs ys \<Longrightarrow> times t xs \<le> times t ys"
  by (induction rule: list_emb.induct) auto

lemma times_take: "times t (take n xs) \<le> times t xs"
  using times_simps(3) [of t "take n xs" "drop n xs"] by simp

lemma follows_once:
  assumes "follows y c p" "t \<in> acted_on"
  shows "started t p (sy_agent y) \<le> 1"
proof -
  have "times t (sy_got y c) \<le> times t (take (sy_read y c) (announced p (sy_msgs y c)))"
    using assms(1) by (intro times_subseq) (simp add: follows_def)
  also have "\<dots> \<le> times t (announced p (sy_msgs y c))" by (rule times_take)
  also have "\<dots> \<le> 1" by (rule announced_once [OF assms(2)])
  finally show ?thesis using assms by (simp add: follows_def)
qed

lemma follows_subseq: "follows y c p \<Longrightarrow> subseq (sy_got y c) (announced p (sy_msgs y c))"
  unfolding follows_def by (metis append_take_drop_id list_emb_prefix)

lemma start_dom: "set ps \<subseteq> dom (pg_payoutM (fold on_payout ps a))"
proof (induction ps arbitrary: a rule: rev_induct)
  case (snoc p ps)
  have "dom (pg_payoutM b) \<union> {p} \<subseteq> dom (pg_payoutM (on_payout p b))" for b
    by (auto simp: on_payout_def Let_def split: option.split)
  then show ?case using snoc.IH [of a] by fastforce
qed simp

text \<open>
  C28. The agent of a pipeline with the schedules of its payouts, in whatever order slots, settings,
  payouts and events reach it: for every payout it starts at most one crank, one closing of the bids
  and one closing of the payout, and it starts exactly as many as triggers of that kind were handed to
  it; what was handed to it is a part, in order, of what the schedule of that payout announced. A
  payout that was taken in keeps its place in the table and is watched until the agent ends, also
  after it was closed, because the goroutine that would remove it waits for a context that only the
  removal cancels.
\<close>

theorem one_instruction_per_payout:
  assumes "calls agent_step ls (agent_start ps) = returns y"
  shows "(\<forall>t\<in>acted_on. \<forall>p. started t p (sy_agent y) \<le> 1)
    \<and> (\<forall>(c, p)\<in>set (pg_schedulers (sy_agent y)). subseq (sy_got y c) (announced p (sy_msgs y c))
         \<and> (\<forall>t\<in>acted_on. started t p (sy_agent y) = times t (sy_got y c)))
    \<and> set ps \<union> taken_in ls \<subseteq> dom (pg_payoutM (sy_agent y)) \<and> pg_ctx_done (sy_agent y) = []"
proof -
  have r: "act_inv y" "dom (pg_payoutM (sy_agent (agent_start ps))) \<union> taken_in ls \<subseteq> dom (pg_payoutM (sy_agent y))"
    using dom_run [OF act_start assms] by blast+
  have f: "follows y c p" if "(c, p) \<in> set (pg_schedulers (sy_agent y))" for c p using r(1) that by (simp add: act_inv_def)
  have one: "started t p (sy_agent y) \<le> 1" if "t \<in> acted_on" for t p
  proof (cases "p \<in> snd ` set (pg_schedulers (sy_agent y))")
    case True
    then obtain c where "(c, p) \<in> set (pg_schedulers (sy_agent y))" by force
    then show ?thesis using f follows_once that by blast
  qed (use r(1) that in \<open>auto simp: act_inv_def\<close>)
  have got: "subseq (sy_got y c) (announced p (sy_msgs y c)) \<and> (\<forall>t\<in>acted_on. started t p (sy_agent y) = times t (sy_got y c))"
    if "(c, p) \<in> set (pg_schedulers (sy_agent y))" for c p
    using f [OF that] follows_subseq [OF f [OF that]] by (simp add: follows_def)
  have dom: "set ps \<union> taken_in ls \<subseteq> dom (pg_payoutM (sy_agent y))"
    using r(2) start_dom [of ps new_pagent] by (auto simp: agent_start_def)
  have "pg_ctx_done (sy_agent y) = []" using r(1) by (simp add: act_inv_def watch_inv_def)
  with one got dom show ?thesis by blast
qed

definition demo_labels :: "agent_label list" where
  "demo_labels =
     [AgentMsg (PaPayout ''Q''), AgentMsg (PaPayout ''P''), ScheduleMsg 0 (LoopEvent (ev EVENT_PERIOD_START)),
      ForwardEvent 0, ScheduleMsg 0 (LoopEvent (ev EVENT_PERIOD_START)), ForwardEvent 0,
      ScheduleMsg 0 (LoopEvent (ev EVENT_PERIOD_FINISH)), LoseEvent 0, ForwardEvent 0]"

definition demo_result :: "agent_sys \<Rightarrow> bool" where
  "demo_result y \<longleftrightarrow> started TRIGGER_CRANK ''P'' (sy_agent y) = 1 \<and> started TRIGGER_CLOSE_BIDS ''P'' (sy_agent y) = 1
     \<and> length (sy_got y 0) = 3"

lemma demo_run_agent: "case calls agent_step demo_labels (agent_start [''P'']) of Some (Ret y) \<Rightarrow> demo_result y | _ \<Rightarrow> False"
  by code_simp

theorem one_instruction_per_payout_witness:
  "\<exists>y. calls agent_step demo_labels (agent_start [''P'']) = returns y \<and> demo_result y
     \<and> started TRIGGER_CRANK ''P'' (sy_agent y) \<le> 1 \<and> {''P'', ''Q''} \<subseteq> dom (pg_payoutM (sy_agent y))"
proof -
  obtain y where y: "calls agent_step demo_labels (agent_start [''P'']) = returns y" "demo_result y"
    using demo_run_agent by (auto simp: returns_def split: option.splits outcome.splits)
  have "''Q'' \<in> taken_in demo_labels" by (simp add: taken_in_def demo_labels_def)
  with one_instruction_per_payout [OF y(1)] y show ?thesis by (auto simp: acted_on_def)
qed

section \<open>Appending a period\<close>

lemma RateFromProto_Some [simp]: "RateFromProto (Some r) = Ret r"
  by (cases r) (simp add: RateFromProto_def)

lemma run_period_append_eq:
  assumes "pg_periodSettings a = Some ps" "pg_rateSettings a = Some \<lparr>CrankFee = Some cf, PayoutShare = Some sh\<rparr>" "Payload e = Some t"
  shows "run_period_append e a = Ret (None, add_task (SendDetached (Some (ta_context t)) MAX_TRIES_PERIOD_APPEND DELAY_PERIOD_APPEND
     (JobAppend (if pg_slot a + PERIOD_START_TOO_CLOSE < ta_start t then ta_start t else 0) (ps_Length ps) (ucast (Withhold ps))
        (ucast (BidSpace ps)) cf sh (ucast (TickSize ps)))) a)"
  using assms by (simp add: run_period_append_def ReadTrigger_append_def Let_def)

text \<open>
  C29. An append that the pipeline schedule asks for becomes one transaction with five tries, which
  updates the rates of the pipeline and appends a period of the length that was set. Its start is the
  one that was asked for if that is more than fifty slots ahead, and otherwise zero. Withholding, bid
  space and tick size are cut to sixteen bits: a value of 65536 or more is sent as its remainder.
\<close>

theorem append_follows_settings:
  assumes "Type e = TRIGGER_PERIOD_APPEND" "Payload e = Some t" "pg_periodSettings a = Some ps"
    "pg_rateSettings a = Some \<lparr>CrankFee = Some cf, PayoutShare = Some sh\<rparr>" "unat (pg_slot a) + 50 < 2 ^ 64"
  shows "\<exists>st w b ts. on_pipeline_event e a = returns (add_task (SendDetached (Some (ta_context t)) 5 10
        (JobAppend st (ps_Length ps) w b cf sh ts)) a)
    \<and> (st = ta_start t \<and> unat (pg_slot a) + 50 < unat st \<or> st = 0 \<and> unat (ta_start t) \<le> unat (pg_slot a) + 50)
    \<and> unat w = unat (Withhold ps) mod 65536 \<and> unat b = unat (BidSpace ps) mod 65536 \<and> unat ts = unat (TickSize ps) mod 65536
    \<and> (\<forall>ae. job_run ae (JobAppend st (ps_Length ps) w b cf sh ts) = transaction (ae_chain ae) (ae_admin ae)
          [OpUpdatePipeline (ctr_Id (ae_controller ae)) (pip_Id (ae_pipeline ae)) (ae_admin ae) cf 100 sh ts,
           OpPeriod (ae_program ae) (ae_fresh ae) (ae_fresh1 ae) (ae_controller ae) (ae_pipeline ae) (ae_admin ae)
             st (ps_Length ps) w b] True)"
proof -
  have c: "unat (ucast x :: uint16) = unat x mod 65536" for x :: "'n :: len word"
    by (simp add: unsigned_ucast_eq take_bit_eq_mod)
  have s: "unat (pg_slot a + 50) = unat (pg_slot a) + 50" using assms(5) by (simp add: unat_word_ariths)
  have "on_pipeline_event e a = returns (add_task (SendDetached (Some (ta_context t)) 5 10
      (JobAppend (if pg_slot a + 50 < ta_start t then ta_start t else 0) (ps_Length ps) (ucast (Withhold ps)) (ucast (BidSpace ps))
         cf sh (ucast (TickSize ps)))) a)"
    using run_period_append_eq [OF assms(3,4,2)] assms(1) by (simp add: on_pipeline_event_def report_def agent_limits)
  moreover have "pg_slot a + 50 < ta_start t \<longleftrightarrow> unat (pg_slot a) + 50 < unat (ta_start t)" using s by (simp add: word_less_nat_alt)
  ultimately show ?thesis
    by (intro exI [of _ "if pg_slot a + 50 < ta_start t then ta_start t else 0"] exI [of _ "ucast (Withhold ps)"]
        exI [of _ "ucast (BidSpace ps)"] exI [of _ "ucast (TickSize ps)"])
      (simp add: c job_transaction ALLOTMENT_DEFAULT_def)
qed

definition demo_append :: aevent where
  "demo_append = CreateWithPayload TRIGGER_PERIOD_APPEND True 0 \<lparr>ta_context = 7, ta_pipeline = ''L'', ta_start = 500\<rparr>"

definition demo_settings :: PeriodSettings where
  "demo_settings = \<lparr>Withhold = 65536, Lookahead = 450, ps_Length = 150, TickSize = 2, BidSpace = 65586\<rparr>"

theorem append_follows_settings_witness:
  "\<exists>st w b ts. on_pipeline_event demo_append (new_pagent\<lparr>pg_periodSettings := Some demo_settings,
       pg_rateSettings := Some \<lparr>CrankFee = Some \<lparr>rate_N = 0, rate_D = 2\<rparr>, PayoutShare = Some \<lparr>rate_N = 1, rate_D = 1\<rparr>\<rparr>\<rparr>)
     = returns (add_task (SendDetached (Some 7) 5 10
         (JobAppend st 150 w b \<lparr>rate_N = 0, rate_D = 2\<rparr> \<lparr>rate_N = 1, rate_D = 1\<rparr> ts)) (new_pagent\<lparr>pg_periodSettings := Some demo_settings,
       pg_rateSettings := Some \<lparr>CrankFee = Some \<lparr>rate_N = 0, rate_D = 2\<rparr>, PayoutShare = Some \<lparr>rate_N = 1, rate_D = 1\<rparr>\<rparr>\<rparr>))
     \<and> unat w = 0 \<and> unat b = 50"
proof -
  let ?a = "new_pagent\<lparr>pg_periodSettings := Some demo_settings,
       pg_rateSettings := Some \<lparr>CrankFee = Some \<lparr>rate_N = 0, rate_D = 2\<rparr>, PayoutShare = Some \<lparr>rate_N = 1, rate_D = 1\<rparr>\<rparr>\<rparr>"
  have h: "Type demo_append = TRIGGER_PERIOD_APPEND" "Payload demo_append = Some \<lparr>ta_context = 7, ta_pipeline = ''L'', ta_start = 500\<rparr>"
    "pg_periodSettings ?a = Some demo_settings"
    "pg_rateSettings ?a = Some \<lparr>CrankFee = Some \<lparr>rate_N = 0, rate_D = 2\<rparr>, PayoutShare = Some \<lparr>rate_N = 1, rate_D = 1\<rparr>\<rparr>"
    "unat (pg_slot ?a) + 50 < 2 ^ 64"
    by (simp_all add: demo_append_def new_pagent_def)
  show ?thesis using append_follows_settings [OF h] by (auto simp: demo_settings_def)
qed

text \<open>An append that is asked for before the settings have come puts an error in the channel that ends the agent.\<close>

lemma append_before_settings_stops:
  assumes "Type e = TRIGGER_PERIOD_APPEND" "pg_periodSettings a = None" "length (cbuf (pg_errorC a)) < ccap (pg_errorC a)"
  shows "\<exists>a'. on_pipeline_event e a = returns a' \<and> pg_tasks a' = pg_tasks a
    \<and> cbuf (pg_errorC a') = cbuf (pg_errorC a) @ [''no period settings'']"
  using assms by (simp add: on_pipeline_event_def run_period_append_def report_def chan_send_def)

text \<open>A full error channel stops the loop for ever, because the loop itself is what empties it.\<close>

lemma full_error_channel_blocks:
  assumes "Type e = TRIGGER_PERIOD_APPEND" "pg_periodSettings a = None" "length (cbuf (pg_errorC a)) = ccap (pg_errorC a)"
  shows "pagent_case (PaPipelineEvent e) a = None"
  using assms by (simp add: going_on_def on_pipeline_event_def run_period_append_def report_def chan_send_def and_then_def)

section \<open>Panics\<close>

text \<open>As long as the rates that are set are complete, no message and no event makes the agent panic.\<close>

definition rates_ok :: "RateSettings \<Rightarrow> bool" where
  "rates_ok rs \<longleftrightarrow> CrankFee rs \<noteq> None \<and> PayoutShare rs \<noteq> None"

definition rates_inv :: "pagent \<Rightarrow> bool" where
  "rates_inv a \<longleftrightarrow> (\<forall>rs. pg_rateSettings a = Some rs \<longrightarrow> rates_ok rs)"

lemma report_rates: "report e a = returns a' \<Longrightarrow> pg_rateSettings a' = pg_rateSettings a"
  by (auto simp: report_def split: option.splits)

lemma append_safe:
  assumes "rates_inv a"
  shows "on_pipeline_event e a \<noteq> Some Panic" "on_pipeline_event e a = returns a' \<Longrightarrow> pg_rateSettings a' = pg_rateSettings a"
proof -
  have p: "run_period_append e a \<noteq> Panic" "run_period_append e a = Ret (x, b) \<Longrightarrow> pg_rateSettings b = pg_rateSettings a" for x b
    using assms by (auto simp: run_period_append_def rates_inv_def rates_ok_def RateFromProto_def Let_def add_task_def
        split: option.splits sum.splits outcome.splits)
  show "on_pipeline_event e a \<noteq> Some Panic" "on_pipeline_event e a = returns a' \<Longrightarrow> pg_rateSettings a' = pg_rateSettings a"
    using p report_no_panic report_rates
    by (fastforce simp: on_pipeline_event_def split: outcome.splits if_splits)+
qed

lemma payout_event_rates: "on_payout_event e a = returns a' \<Longrightarrow> pg_rateSettings a' = pg_rateSettings a"
  by (auto simp: on_payout_event_def run_payout_crank_def run_payout_close_bids_def run_payout_close_payout_def add_task_def
      dest!: report_rates split: if_splits sum.splits outcome.splits option.splits)

fun good_label :: "agent_label \<Rightarrow> bool" where
  "good_label (AgentMsg (PaRateSettings rs)) = rates_ok rs"
| "good_label _ = True"

lemma step_safe:
  assumes "act_inv y" "rates_inv (sy_agent y)" "good_label l"
  shows "agent_step l y \<noteq> Some Panic \<and> (\<forall>y'. agent_step l y = returns y' \<longrightarrow> rates_inv (sy_agent y'))"
proof (cases l)
  case (AgentMsg m)
  have "pg_rateSettings (on_payout p a) = pg_rateSettings a" for p a by (simp add: on_payout_def Let_def split: option.split)
  then show ?thesis using AgentMsg assms(2,3) append_safe [OF assms(2)]
    by (cases m) (auto simp: agent_does_def going_on_def and_then_def rates_inv_def returns_def [symmetric]
        split: option.splits outcome.splits if_splits)
next
  case (ForwardEvent i)
  show ?thesis
  proof (cases "next_event i y")
    case (Some x)
    then obtain c e where n: "next_event i y = Some (c, e)" by (cases x) auto
    obtain p where "about p e" using next_event_of [OF n] .
    note np = payout_event_acts(1) [OF this, of "sy_agent y"]
    consider "on_payout_event e (sy_agent y) = None" | a where "on_payout_event e (sy_agent y) = returns a"
      using np by (cases "on_payout_event e (sy_agent y)") (auto simp: returns_def elim: outcome.exhaust)
    then show ?thesis
    proof cases
      case 1
      then show ?thesis using ForwardEvent n by (simp add: agent_does_def going_on_def and_then_def)
    next
      case (2 a)
      with payout_event_rates [OF 2] assms(2) ForwardEvent n show ?thesis
        by (auto simp: agent_does_def going_on_def rates_inv_def)
    qed
  qed (use ForwardEvent in simp)
next
  case (DeletePayout i)
  then show ?thesis using assms by (auto simp: act_inv_def watch_inv_def split: if_splits prod.splits)
qed (use assms in \<open>auto simp: Let_def rates_inv_def split: if_splits option.splits prod.splits\<close>)

lemma agent_never_panics:
  assumes "\<forall>l\<in>set ls. good_label l"
  shows "calls agent_step ls (agent_start ps) \<noteq> Some Panic"
proof -
  have "calls agent_step ls y \<noteq> Some Panic" if "act_inv y" "rates_inv (sy_agent y)" for y
    using assms that
  proof (induction ls arbitrary: y)
    case (Cons l ls)
    have g: "good_label l" using Cons.prems(1) by simp
    from step_safe [OF Cons.prems(2,3) g] Cons.IH act_step [OF Cons.prems(2), of l] Cons.prems(1) show ?case
      by (cases "agent_step l y") (auto simp: and_then_def returns_def split: outcome.split)
  qed (simp add: returns_def)
  moreover have "pg_rateSettings (fold on_payout ps a) = pg_rateSettings a" for a
    by (induction ps arbitrary: a) (simp_all add: on_payout_def Let_def split: option.split)
  ultimately show ?thesis using act_start [of ps] by (simp add: rates_inv_def agent_start_def new_pagent_def)
qed

end
