(* ===== verification/ConfigFile.thy ===== *)
theory ConfigFile
  imports Prelude
begin

text \<open>
  The configuration file that the agents of a pipeline and of a validator keep
  (agent/pipeline/admin/internal.go and agent/validator/internal.go have the same three functions).
  Saving opens the file for writing without truncating it and writes over its beginning; when it
  cannot be opened, it is created anew. Loading decodes the first JSON value of the file.

  The encoder and the decoder of encoding/json are arguments. What is used of them is that the
  decoder reads the next value of its input, whatever follows it, and that the encoding of a value
  decodes to it.
\<close>

record filesys =
  fs_file :: "string option"
  fs_writable :: bool
  fs_creatable :: bool
  fs_readable :: bool

record 'a json =
  json_encode :: "'a \<Rightarrow> string"
  json_decode :: "string \<Rightarrow> err + 'a"

definition json_ok :: "'a json \<Rightarrow> bool" where
  "json_ok j \<longleftrightarrow> (\<forall>x rest. json_decode j (json_encode j x @ rest) = Inr x)"

definition config_exists :: "filesys \<Rightarrow> bool" where
  "config_exists fs \<longleftrightarrow> fs_file fs \<noteq> None"

definition config_load :: "'a json \<Rightarrow> filesys \<Rightarrow> err + 'a" where
  "config_load j fs =
     (case fs_file fs of
        None \<Rightarrow> Inl ''no such file''
      | Some f \<Rightarrow> if fs_readable fs then json_decode j f else Inl ''permission denied'')"

definition config_save :: "'a json \<Rightarrow> 'a \<Rightarrow> filesys \<Rightarrow> err option \<times> filesys" where
  "config_save j c fs =
     (let d = json_encode j c in
      case (if fs_writable fs then fs_file fs else None) of
        Some old \<Rightarrow> (None, fs\<lparr>fs_file := Some (d @ drop (length d) old)\<rparr>)
      | None \<Rightarrow> if fs_creatable fs then (None, fs\<lparr>fs_file := Some d\<rparr>) else (Some ''cannot create file'', fs))"

lemma save_ok:
  assumes "config_save j c fs = (None, fs')"
  obtains rest where "fs_file fs' = Some (json_encode j c @ rest)" "config_exists fs'"
    "fs_writable fs' = fs_writable fs" "fs_creatable fs' = fs_creatable fs" "fs_readable fs' = fs_readable fs"
  using assms by (auto simp: config_save_def config_exists_def Let_def split: option.splits if_splits)

lemma save_failed: "config_save j c fs = (Some e, fs') \<Longrightarrow> fs' = fs"
  by (auto simp: config_save_def Let_def split: option.splits if_splits)

text \<open>What was saved is loaded again, also when an older and longer file was written over.\<close>

lemma load_saved:
  assumes "json_ok j" "config_save j c fs = (None, fs')" "fs_readable fs"
  shows "config_load j fs' = Inr c"
proof -
  obtain rest where "fs_file fs' = Some (json_encode j c @ rest)" "fs_readable fs' = fs_readable fs"
    by (rule save_ok [OF assms(2)])
  then show ?thesis using assms(1,3) by (simp add: config_load_def json_ok_def)
qed

text \<open>A concrete encoding that satisfies the law: a fixed number of naturals, each in unary with a full stop.\<close>

definition unary :: "nat list \<Rightarrow> string" where
  "unary ns = concat (map (\<lambda>n. replicate n CHR ''1'' @ ''.'') ns)"

fun read_unary :: "nat \<Rightarrow> string \<Rightarrow> nat list" where
  "read_unary 0 s = []"
| "read_unary (Suc k) s =
     length (takeWhile (\<lambda>c. c = CHR ''1'') s) # read_unary k (drop 1 (dropWhile (\<lambda>c. c = CHR ''1'') s))"

lemma read_unary: "length ns = k \<Longrightarrow> read_unary k (unary ns @ rest) = ns"
proof (induction k arbitrary: ns)
  case (Suc k)
  then obtain n ms where n: "ns = n # ms" "length ms = k" by (cases ns) auto
  have "takeWhile (\<lambda>c. c = CHR ''1'') (replicate n CHR ''1'' @ CHR ''.'' # r) = replicate n CHR ''1''"
    "dropWhile (\<lambda>c. c = CHR ''1'') (replicate n CHR ''1'' @ CHR ''.'' # r) = CHR ''.'' # r" for r
    by (induction n) auto
  then show ?case using Suc.IH [OF n(2)] n(1) by (simp add: unary_def)
qed simp

end
