(* ===== verification/PipelineAdmin.thy ===== *)
theory PipelineAdmin
  imports PipelineAgent ConfigFile
begin

text \<open>
  The administration of a pipeline agent: the checks of its configuration (agent/pipeline/config.go,
  state/pipeline/pipeline.go) and the server behind the settings (agent/pipeline/admin), which keeps
  them in a file and hands copies of them to the agent. What it has sent to the agent is collected in
  order. The copy that goes through JSON is the settings themselves, and blank settings for nil.
\<close>

section \<open>Configuration\<close>

record Configuration =
  ProgramIdCba :: "pubkey option"
  cfg_Pipeline :: "pubkey option"
  Wallet :: "PrivateKey option"
  Settings :: "PipelineSettings option"

definition Configuration_Check :: "Configuration \<Rightarrow> err option" where
  "Configuration_Check c =
     (if Wallet c = None then Some ''no wallet private key''
      else if ProgramIdCba c = None then Some ''no program id''
      else if cfg_Pipeline c = None then Some ''no pipeline id''
      else case Settings c of None \<Rightarrow> Some ''no settings'' | Some ps \<Rightarrow> Check ps)"

record InitializationArg =
  Relay :: "PrivateKey option"
  Program :: "Configuration option"
  ConfigFilePath :: string

definition InitializationArg_Check :: "InitializationArg \<Rightarrow> err option" where
  "InitializationArg_Check args =
     (if Relay args = None then Some ''no relay configuration''
      else case Program args of
             None \<Rightarrow> Some ''no configuration''
           | Some p \<Rightarrow>
               (case Configuration_Check p of
                  Some e \<Rightarrow> Some e
                | None \<Rightarrow> if ConfigFilePath args = [] then Some ''no configuration file path'' else None))"

text \<open>A missing rate is read through nil.\<close>

definition convertRateToProto :: "(uint64 \<times> uint64) option \<Rightarrow> Rate outcome" where
  "convertRateToProto r = (case r of None \<Rightarrow> Panic | Some (n, d) \<Rightarrow> Ret \<lparr>rate_N = n, rate_D = d\<rparr>)"

definition ToProtoRateSettings :: "PipelineSettings \<Rightarrow> RateSettings outcome" where
  "ToProtoRateSettings ps =
     (case convertRateToProto (PipelineSettings.CrankFee ps) of
        Panic \<Rightarrow> Panic
      | Ret cf \<Rightarrow> (case convertRateToProto (PipelineSettings.PayoutShare ps) of
                     Panic \<Rightarrow> Panic
                   | Ret sh \<Rightarrow> Ret \<lparr>CrankFee = Some cf, PayoutShare = Some sh\<rparr>))"

section \<open>The server\<close>

type_synonym SettingsForFile = "RateSettings option \<times> PeriodSettings option"

definition DefaultRateSettings :: RateSettings where
  "DefaultRateSettings = \<lparr>CrankFee = Some \<lparr>rate_N = 0, rate_D = 2\<rparr>, PayoutShare = Some \<lparr>rate_N = 1, rate_D = 1\<rparr>\<rparr>"

definition TICKSIZE_DEFAULT :: uint16 where "TICKSIZE_DEFAULT = 1"
definition BIDSPACE_DEFAULT :: uint16 where "BIDSPACE_DEFAULT = 50"

definition DefaultPeriodSettings :: PeriodSettings where
  "DefaultPeriodSettings =
     \<lparr>Withhold = 0, Lookahead = 3 * 150, ps_Length = 150, TickSize = ucast TICKSIZE_DEFAULT, BidSpace = ucast BIDSPACE_DEFAULT\<rparr>"

record admin =
  ad_errorC :: "err chan"
  ad_rateSettings :: "RateSettings option"
  ad_periodSettings :: "PeriodSettings option"
  ad_file :: filesys
  ad_toAgent :: "pagent_msg list"
  ad_closeSignalCList :: "nat list"

definition period_copy :: "PeriodSettings option \<Rightarrow> PeriodSettings" where
  "period_copy p = (case p of None \<Rightarrow> \<lparr>Withhold = 0, Lookahead = 0, ps_Length = 0, TickSize = 0, BidSpace = 0\<rparr> | Some x \<Rightarrow> x)"

definition rate_copy :: "RateSettings option \<Rightarrow> RateSettings" where
  "rate_copy r = (case r of None \<Rightarrow> \<lparr>CrankFee = None, PayoutShare = None\<rparr> | Some x \<Rightarrow> x)"

definition on_period_settings_update :: "admin \<Rightarrow> admin" where
  "on_period_settings_update s = s\<lparr>ad_toAgent := ad_toAgent s @ [PaPeriodSettings (period_copy (ad_periodSettings s))]\<rparr>"

definition on_rate_settings_update :: "admin \<Rightarrow> admin" where
  "on_rate_settings_update s = s\<lparr>ad_toAgent := ad_toAgent s @ [PaRateSettings (rate_copy (ad_rateSettings s))]\<rparr>"

definition settings_change :: "admin \<Rightarrow> admin" where
  "settings_change s = on_rate_settings_update (on_period_settings_update s)"

definition admin_save :: "SettingsForFile json \<Rightarrow> admin \<Rightarrow> err option \<times> admin" where
  "admin_save j s =
     (case config_save j (ad_rateSettings s, ad_periodSettings s) (ad_file s) of (e, fs) \<Rightarrow> (e, s\<lparr>ad_file := fs\<rparr>))"

definition admin_load :: "SettingsForFile json \<Rightarrow> admin \<Rightarrow> err option \<times> admin" where
  "admin_load j s =
     (case config_load j (ad_file s) of
        Inl e \<Rightarrow> (Some e, s)
      | Inr (r, p) \<Rightarrow> (None, s\<lparr>ad_periodSettings := p, ad_rateSettings := r\<rparr>))"

definition admin_init :: "SettingsForFile json \<Rightarrow> admin \<Rightarrow> err option \<times> admin" where
  "admin_init j s = (if config_exists (ad_file s) then admin_load j s else admin_save j s)"

text \<open>
  The goroutine up to its loop. An error goes into the channel that ends the loop, and the settings
  are handed to the agent before that.
\<close>

definition admin_start :: "SettingsForFile json \<Rightarrow> PipelineSettings \<Rightarrow> filesys \<Rightarrow> admin outcome" where
  "admin_start j ini fs =
     (case ToProtoRateSettings ini of
        Panic \<Rightarrow> Panic
      | Ret rs \<Rightarrow>
          (let s = \<lparr>ad_errorC = make_chan 1, ad_rateSettings = Some rs,
                    ad_periodSettings = Some (DefaultPeriodSettings\<lparr>BidSpace := ucast (PipelineSettings.BidSpace ini)\<rparr>),
                    ad_file = fs, ad_toAgent = [], ad_closeSignalCList = []\<rparr>
           in case admin_init j s of
                (None, s1) \<Rightarrow> Ret (settings_change s1)
              | (Some e, s1) \<Rightarrow> Ret (settings_change (s1\<lparr>ad_errorC := (ad_errorC s1)\<lparr>cbuf := [e]\<rparr>\<rparr>))))"

text \<open>Attach refuses nil settings and registers the close signal.\<close>

definition Attach :: "SettingsForFile json \<Rightarrow> nat \<Rightarrow> PipelineSettings option \<Rightarrow> filesys \<Rightarrow> (err + admin) outcome" where
  "Attach j signal ini fs =
     (case ini of
        None \<Rightarrow> Ret (Inl ''no initial settings'')
      | Some ps \<Rightarrow> (case admin_start j ps fs of
                      Panic \<Rightarrow> Panic
                    | Ret s \<Rightarrow> Ret (Inr (s\<lparr>ad_closeSignalCList := ad_closeSignalCList s @ [signal]\<rparr>))))"

definition GetPeriod :: "admin \<Rightarrow> err + PeriodSettings" where
  "GetPeriod s = (case ad_periodSettings s of None \<Rightarrow> Inl ''no settings'' | Some p \<Rightarrow> Inr p)"

text \<open>
  The request is copied before a tick size of zero is replaced in the original. When the file cannot
  be written, the old settings are restored.
\<close>

definition SetPeriod :: "SettingsForFile json \<Rightarrow> PeriodSettings \<Rightarrow> admin \<Rightarrow> (err + PeriodSettings) \<times> admin" where
  "SetPeriod j req s =
     (let newSettings = req; req1 = (if TickSize req = 0 then req\<lparr>TickSize := 1\<rparr> else req) in
      if TickSize req1 = 0 \<or> 65535 \<le> TickSize req1 then (Inl ''tick size out of range'', s)
      else case admin_save j (s\<lparr>ad_periodSettings := Some newSettings\<rparr>) of
             (Some e, s1) \<Rightarrow> (Inl e, s1\<lparr>ad_periodSettings := ad_periodSettings s\<rparr>)
           | (None, s1) \<Rightarrow> (Inr newSettings, settings_change s1))"

definition admin_finish :: "err option \<Rightarrow> admin \<Rightarrow> (nat \<times> err option) list" where
  "admin_finish e s = map (\<lambda>c. (c, e)) (ad_closeSignalCList s)"

section \<open>Properties\<close>

text \<open>A configuration that passes its check brings rates, so the server starts without a panic.\<close>

lemma checked_rates:
  assumes "Check ps = None"
  obtains cf sh where "ToProtoRateSettings ps = Ret \<lparr>CrankFee = Some cf, PayoutShare = Some sh\<rparr>" "10 \<le> PipelineSettings.BidSpace ps"
proof -
  obtain a b c d where "PipelineSettings.CrankFee ps = Some (a, b)" "PipelineSettings.PayoutShare ps = Some (c, d)"
    "10 \<le> PipelineSettings.BidSpace ps"
    using assms by (auto simp: Check_def not_less split: if_splits)
  then show ?thesis using that by (simp add: ToProtoRateSettings_def convertRateToProto_def)
qed

lemma settings_change_sends:
  "ad_toAgent (settings_change s) = ad_toAgent s @ [PaPeriodSettings (period_copy (ad_periodSettings s)), PaRateSettings (rate_copy (ad_rateSettings s))]"
  "ad_periodSettings (settings_change s) = ad_periodSettings s" "ad_rateSettings (settings_change s) = ad_rateSettings s"
  "ad_file (settings_change s) = ad_file s" "ad_errorC (settings_change s) = ad_errorC s"
  by (simp_all add: settings_change_def on_period_settings_update_def on_rate_settings_update_def)


definition rate_nats :: "Rate option \<Rightarrow> nat list" where
  "rate_nats r = (case r of None \<Rightarrow> [0, 0, 0] | Some x \<Rightarrow> [1, unat (rate_N x), unat (rate_D x)])"

definition rates_nats :: "RateSettings option \<Rightarrow> nat list" where
  "rates_nats r = (case r of None \<Rightarrow> [0, 0, 0, 0, 0, 0, 0] | Some x \<Rightarrow> 1 # rate_nats (CrankFee x) @ rate_nats (PayoutShare x))"

definition period_nats :: "PeriodSettings option \<Rightarrow> nat list" where
  "period_nats p = (case p of None \<Rightarrow> [0, 0, 0, 0, 0, 0]
     | Some x \<Rightarrow> [1, unat (Withhold x), unat (Lookahead x), unat (ps_Length x), unat (TickSize x), unat (BidSpace x)])"

definition nats_rate :: "nat list \<Rightarrow> Rate option" where
  "nats_rate ns = (if ns ! 0 = 0 then None else Some \<lparr>rate_N = of_nat (ns ! 1), rate_D = of_nat (ns ! 2)\<rparr>)"

definition nats_rates :: "nat list \<Rightarrow> RateSettings option" where
  "nats_rates ns = (if ns ! 0 = 0 then None else Some \<lparr>CrankFee = nats_rate (drop 1 ns), PayoutShare = nats_rate (drop 4 ns)\<rparr>)"

definition nats_period :: "nat list \<Rightarrow> PeriodSettings option" where
  "nats_period ns =
     (if ns ! 0 = 0 then None
      else Some \<lparr>Withhold = of_nat (ns ! 1), Lookahead = of_nat (ns ! 2), ps_Length = of_nat (ns ! 3),
             TickSize = of_nat (ns ! 4), BidSpace = of_nat (ns ! 5)\<rparr>)"

definition demo_json :: "SettingsForFile json" where
  "demo_json = \<lparr>json_encode = (\<lambda>c. unary (rates_nats (fst c) @ period_nats (snd c))),
     json_decode = (\<lambda>s. let ns = read_unary 13 s in Inr (nats_rates ns, nats_period (drop 7 ns)))\<rparr>"

lemma demo_json_ok: "json_ok demo_json"
proof -
  have r: "length (rate_nats r) = 3" "nats_rate (rate_nats r @ xs) = r" for r xs
    by (cases r; simp add: rate_nats_def nats_rate_def)+
  have rs: "length (rates_nats r) = 7" for r by (simp add: rates_nats_def r split: option.split)
  have "nats_rates (rates_nats r @ xs) = r" for r xs
    by (cases r) (simp_all add: rates_nats_def nats_rates_def r)
  moreover have "length (period_nats p) = 6" "nats_period (period_nats p) = p" for p
    by (cases p; simp add: period_nats_def nats_period_def)+
  ultimately show ?thesis using rs by (simp add: json_ok_def demo_json_def read_unary Let_def)
qed

definition demo_admin :: admin where
  "demo_admin = \<lparr>ad_errorC = make_chan 1, ad_rateSettings = Some DefaultRateSettings, ad_periodSettings = None,
     ad_file = \<lparr>fs_file = Some ''old contents'', fs_writable = True, fs_creatable = True, fs_readable = True\<rparr>,
     ad_toAgent = [], ad_closeSignalCList = []\<rparr>"

definition demo_initial :: PipelineSettings where
  "demo_initial = \<lparr>PipelineSettings.CrankFee = Some (1, 100), BidSpace = 20, RefundSpace = 5, PayoutShare = Some (95, 100)\<rparr>"


text \<open>
  A file without rates, which decodes without an error, makes the agent panic at the next append: the
  copy that the server sends has no rates, and RateFromProto reads through nil.
\<close>

lemma file_without_rates_panics:
  assumes "Check ini = None" "config_exists fs" "config_load j fs = Inr (None, Some ps)"
    "Type e = TRIGGER_PERIOD_APPEND" "Payload e = Some t" "pg_periodSettings a = Some ps"
  shows "\<exists>b. admin_start j ini fs = Ret b \<and> ad_toAgent b = [PaPeriodSettings ps, PaRateSettings \<lparr>CrankFee = None, PayoutShare = None\<rparr>]
    \<and> pagent_case (PaPipelineEvent e) (a\<lparr>pg_rateSettings := Some \<lparr>CrankFee = None, PayoutShare = None\<rparr>\<rparr>) = Some Panic"
proof -
  obtain cf sh where "ToProtoRateSettings ini = Ret \<lparr>CrankFee = Some cf, PayoutShare = Some sh\<rparr>" by (rule checked_rates [OF assms(1)])
  then show ?thesis using assms(2-)
    by (simp add: admin_start_def Let_def admin_init_def admin_load_def settings_change_sends period_copy_def rate_copy_def
        going_on_def on_pipeline_event_def run_period_append_def ReadTrigger_append_def RateFromProto_def and_then_def)
qed

end
