(* ===== verification/ValidatorAgent.thy ===== *)
theory ValidatorAgent
  imports PipelineAgent ValidatorSchedule ConfigFile
begin

text \<open>
  The agent of a validator, agent/validator (internal.go, settings.go, pipeline.go, payout.go, event.go,
  run.go, admin.go). Its settings select a pipeline; for every pipeline it follows there is a goroutine
  (loopPipeline) that offers the payouts of the pipeline to the agent, and for every payout it takes in
  there is a validator schedule, whose triggers become transactions.

  The structs pipelineInfo are pointers into a list, each together with its goroutine. The agent waits
  at its select, or inside a request: for room in the channel of a look-ahead, or for the client to take
  the answer. Payouts reach the agent over a channel without a buffer, so agent and goroutine meet in
  one step. Base58, the router, and JSON are arguments.
\<close>

section \<open>State\<close>

record ValidatorSettings =
  PipelineId :: string
  vs_Lookahead :: uint64

record pwd_data =
  py_Id :: pubkey
  py_Start :: uint64
  py_Length :: uint64

datatype listener_pc = Listening | Offering pwd_data | ListenerEnded

record listener =
  ln_pipeline :: pubkey
  ln_done :: bool
  ln_lookAheadC :: "uint64 chan"
  ln_slot :: uint64
  ln_lookAhead :: uint64
  ln_pc :: listener_pc

definition new_listener :: "pubkey \<Rightarrow> listener" where
  "new_listener p =
     \<lparr>ln_pipeline = p, ln_done = False, ln_lookAheadC = make_chan 1, ln_slot = 0, ln_lookAhead = 0, ln_pc = Listening\<rparr>"

datatype vjob = VSetPayout pubkey pubkey | VWithdraw pubkey pubkey pubkey

datatype vtask = VSend "ctx option" int int vjob

datatype vagent_pc = AtSelect | SendingLookahead "nat list" uint64 | Replying "err option" | Stopped "err option"

record vagent =
  va_settings :: "ValidatorSettings option"
  va_selected :: "nat option"
  va_pipelineM :: "pubkey \<rightharpoonup> nat"
  va_listeners :: "listener list"
  va_payoutM :: "pubkey \<rightharpoonup> pubkey"
  va_schedules :: "pubkey list"
  va_latestPeriodFinish :: uint64
  va_file :: filesys
  va_errorC :: "err chan"
  va_tasks :: "vtask list"
  va_closeSignalCList :: "nat list"
  va_pc :: vagent_pc
  va_clientWaits :: bool

definition new_vagent :: "filesys \<Rightarrow> vagent" where
  "new_vagent fs =
     \<lparr>va_settings = None, va_selected = None, va_pipelineM = Map.empty, va_listeners = [], va_payoutM = Map.empty,
      va_schedules = [], va_latestPeriodFinish = 0, va_file = fs, va_errorC = make_chan 1, va_tasks = [],
      va_closeSignalCList = [], va_pc = AtSelect, va_clientWaits = False\<rparr>"

record venv =
  ve_json :: "ValidatorSettings json"
  ve_base58 :: "string \<Rightarrow> err + pubkey"
  ve_router :: "pubkey \<Rightarrow> err + pubkey"

section \<open>Pipelines and payouts\<close>

text \<open>The listener of a pipeline, which is started when there is none.\<close>

definition on_pipeline :: "pubkey \<Rightarrow> vagent \<Rightarrow> nat \<times> vagent" where
  "on_pipeline p s =
     (case va_pipelineM s p of
        Some i \<Rightarrow> (i, s)
      | None \<Rightarrow>
          (let i = length (va_listeners s)
           in (i, s\<lparr>va_pipelineM := (va_pipelineM s)(p \<mapsto> i), va_listeners := va_listeners s @ [new_listener p]\<rparr>)))"

definition on_payout :: "pubkey \<Rightarrow> pwd_data \<Rightarrow> vagent \<Rightarrow> vagent" where
  "on_payout p pwd s =
     (case va_payoutM s (py_Id pwd) of
        Some _ \<Rightarrow> s
      | None \<Rightarrow>
          (let s1 = snd (on_pipeline p s) in
           s1\<lparr>va_latestPeriodFinish := py_Start pwd + py_Length pwd - 1, va_payoutM := (va_payoutM s1)(py_Id pwd \<mapsto> p),
              va_schedules := va_schedules s1 @ [py_Id pwd]\<rparr>))"

section \<open>Settings\<close>

definition update_listener :: "nat \<Rightarrow> (listener \<Rightarrow> listener) \<Rightarrow> vagent \<Rightarrow> vagent" where
  "update_listener i f s = s\<lparr>va_listeners := (va_listeners s)[i := f (va_listeners s ! i)]\<rparr>"

text \<open>The context of a pipeline ends and its entry goes.\<close>

definition drop_pipeline :: "nat \<Rightarrow> vagent \<Rightarrow> vagent" where
  "drop_pipeline i s =
     (update_listener i (\<lambda>l. l\<lparr>ln_done := True\<rparr>) s)
       \<lparr>va_pipelineM := (va_pipelineM s)(ln_pipeline (va_listeners s ! i) := None)\<rparr>"

text \<open>
  The part of on_settings before the look-ahead. The new settings are in force once they have been
  saved, also when the pipeline they name turns out to be unknown. The comparison of a missing id with
  the selected pipeline reads through nil.
\<close>

definition is_different :: "pubkey option \<Rightarrow> vagent \<Rightarrow> bool outcome" where
  "is_different newId s =
     (case va_selected s of
        None \<Rightarrow> Ret (newId \<noteq> None)
      | Some i \<Rightarrow> (case newId of None \<Rightarrow> Panic | Some k \<Rightarrow> Ret (k \<noteq> ln_pipeline (va_listeners s ! i))))"

definition named_pipeline :: "venv \<Rightarrow> ValidatorSettings \<Rightarrow> err + (pubkey \<times> pubkey) option" where
  "named_pipeline ve ns =
     (if PipelineId ns = [] then Inr None
      else case ve_base58 ve (PipelineId ns) of
             Inl e \<Rightarrow> Inl e
           | Inr k \<Rightarrow> (case ve_router ve k of Inl e \<Rightarrow> Inl e | Inr p \<Rightarrow> Inr (Some (k, p))))"

definition select_pipeline :: "venv \<Rightarrow> ValidatorSettings option \<Rightarrow> vagent \<Rightarrow> (err option \<times> vagent) outcome" where
  "select_pipeline ve newSettings s =
     (case newSettings of
        None \<Rightarrow> Ret (Some ''no settings'', s)
      | Some ns \<Rightarrow>
          (case config_save (ve_json ve) ns (va_file s) of
             (Some e, fs) \<Rightarrow> Ret (Some e, s\<lparr>va_file := fs\<rparr>)
           | (None, fs) \<Rightarrow>
               (let s1 = s\<lparr>va_settings := Some ns, va_file := fs\<rparr> in
                case named_pipeline ve ns of
                  Inl e \<Rightarrow> Ret (Some e, s1)
                | Inr named \<Rightarrow>
                    (case is_different (map_option fst named) s1 of
                       Panic \<Rightarrow> Panic
                     | Ret False \<Rightarrow> Ret (None, s1)
                     | Ret True \<Rightarrow>
                         (let s2 = (case va_selected s1 of None \<Rightarrow> s1 | Some i \<Rightarrow> drop_pipeline i s1) in
                          case named of
                            None \<Rightarrow> Ret (None, s2)
                          | Some (k, p) \<Rightarrow> (case on_pipeline p s2 of (i, s3) \<Rightarrow> Ret (None, s3\<lparr>va_selected := Some i\<rparr>)))))))"

definition send_lookahead :: "uint64 \<Rightarrow> nat \<Rightarrow> vagent \<Rightarrow> vagent call" where
  "send_lookahead v i s =
     (case chan_send v (ln_lookAheadC (va_listeners s ! i)) of
        None \<Rightarrow> None
      | Some c \<Rightarrow> returns (update_listener i (\<lambda>l. l\<lparr>ln_lookAheadC := c\<rparr>) s))"

definition on_settings_lookahead :: "nat list \<Rightarrow> vagent \<Rightarrow> vagent call" where
  "on_settings_lookahead order s =
     (case va_settings s of None \<Rightarrow> returns s | Some ns \<Rightarrow> calls (send_lookahead (vs_Lookahead ns)) order s)"

definition on_settings :: "venv \<Rightarrow> nat list \<Rightarrow> ValidatorSettings option \<Rightarrow> vagent \<Rightarrow> (err option \<times> vagent) call" where
  "on_settings ve order ns s =
     (case select_pipeline ve ns s of
        Panic \<Rightarrow> Some Panic
      | Ret (Some e, s1) \<Rightarrow> returns (Some e, s1)
      | Ret (None, s1) \<Rightarrow> and_then (on_settings_lookahead order s1) (\<lambda>s2. returns (None, s2)))"

text \<open>Before its loop, the agent loads the file; an error goes into the channel that ends it.\<close>

definition vagent_config_load :: "venv \<Rightarrow> nat list \<Rightarrow> vagent \<Rightarrow> (err option \<times> vagent) call" where
  "vagent_config_load ve order s =
     (case config_load (ve_json ve) (va_file s) of
        Inl e \<Rightarrow> returns (Some e, s)
      | Inr ns \<Rightarrow> on_settings ve order (Some ns) s)"

definition vagent_start :: "venv \<Rightarrow> nat list \<Rightarrow> filesys \<Rightarrow> vagent call" where
  "vagent_start ve order fs =
     (let s = new_vagent fs in
      if config_exists fs
      then and_then (vagent_config_load ve order s) (\<lambda>(e, s1).
             returns (case e of None \<Rightarrow> s1 | Some x \<Rightarrow> s1\<lparr>va_errorC := (va_errorC s1)\<lparr>cbuf := [x]\<rparr>\<rparr>))
      else returns s)"

section \<open>Triggers\<close>

definition MAX_TRIES_VALIDATOR_SET_PAYOUT :: int where "MAX_TRIES_VALIDATOR_SET_PAYOUT = 5"
definition MAX_TRIES_VALIDATOR_WITHDRAW_RECEIPT :: int where "MAX_TRIES_VALIDATOR_WITHDRAW_RECEIPT = 10"

definition ReadTrigger_validator :: "vevent \<Rightarrow> err + TriggerValidator" where
  "ReadTrigger_validator e = (case Payload e of None \<Rightarrow> Inl ''no payload'' | Some t \<Rightarrow> Inr t)"

definition add_vtask :: "vtask \<Rightarrow> vagent \<Rightarrow> vagent" where
  "add_vtask t s = s\<lparr>va_tasks := va_tasks s @ [t]\<rparr>"

definition run_validator_set_payout :: "vevent \<Rightarrow> vagent \<Rightarrow> (err option \<times> vagent) outcome" where
  "run_validator_set_payout event s =
     (case ReadTrigger_validator event of
        Inl e \<Rightarrow> Ret (Some e, s)
      | Inr t \<Rightarrow> Ret (None, add_vtask (VSend (tv_context t) MAX_TRIES_VALIDATOR_SET_PAYOUT 10
                   (VSetPayout (tv_payout t) (tv_pipeline t))) s))"

definition run_validator_withdraw_receipt :: "vevent \<Rightarrow> vagent \<Rightarrow> (err option \<times> vagent) outcome" where
  "run_validator_withdraw_receipt event s =
     (case ReadTrigger_validator event of
        Inl e \<Rightarrow> Ret (Some e, s)
      | Inr t \<Rightarrow>
          (case tv_context t of
             None \<Rightarrow> Panic
           | Some c \<Rightarrow> Ret (None, add_vtask (VSend (Some c) MAX_TRIES_VALIDATOR_WITHDRAW_RECEIPT 30
                        (VWithdraw (tv_payout t) (tv_pipeline t) (tv_receipt t))) s)))"

definition on_event :: "vevent \<Rightarrow> vagent \<Rightarrow> (err option \<times> vagent) outcome" where
  "on_event event s =
     (if Type event = TRIGGER_VALIDATOR_SET_PAYOUT then run_validator_set_payout event s
      else if Type event = TRIGGER_VALIDATOR_WITHDRAW_RECEIPT then run_validator_withdraw_receipt event s
      else Ret (None, s))"

text \<open>The bodies of the two closures.\<close>

definition runValidatorSetPayout :: "env \<Rightarrow> err + PrivateKey \<Rightarrow> pubkey \<Rightarrow> pubkey \<Rightarrow> pubkey \<Rightarrow> pubkey \<Rightarrow> PrivateKey \<Rightarrow> unit act" where
  "runValidatorSetPayout v fresh controllerId payoutId pipelineId validatorId validatorAdmin =
     bind (SetTx validatorAdmin) (\<lambda>_.
     bind (ValidatorSetPipeline fresh controllerId payoutId pipelineId validatorId validatorAdmin) (\<lambda>_.
     FinishTx v True))"

definition runValidatorWithdrawReceipt :: "env \<Rightarrow> PrivateKey \<Rightarrow> controller_ref \<Rightarrow> pubkey \<Rightarrow> pipeline_ref \<Rightarrow> validator_ref \<Rightarrow> pubkey \<Rightarrow> unit act" where
  "runValidatorWithdrawReceipt v validatorAdmin ctr payoutId pip vali receiptId =
     bind (SetTx validatorAdmin) (\<lambda>_.
     bind (ValidatorWithdrawReceipt v ctr payoutId pip vali receiptId validatorAdmin) (\<lambda>_.
     FinishTx v True))"

section \<open>The agent with its listeners\<close>

text \<open>
  The steps of the agent, of the clients of its server, and of the listeners. A request goes on with
  the listeners in the order in which Go walks over the table. A listener that offers a payout either
  hands it over while the agent is at its select, or gives up once its context has ended.
\<close>

datatype vlabel =
    VSetDefault "ValidatorSettings option" "nat list" | VSendLookahead | VReply | VClientLeaves
  | VGetDefault | VCloseSignal nat | VEvent vevent | VError | VServerError "err option" | VContextDone
  | VHandOver nat | VGiveUp nat | VListenerDone nat | VListenerSlot nat uint64 | VListenerPayout nat pwd_data
  | VListenerError nat "err option" | VListenerLookahead nat

text \<open>The order of the table, as Go may walk over it.\<close>

definition walks :: "nat list \<Rightarrow> vagent \<Rightarrow> bool" where
  "walks order s \<longleftrightarrow> distinct order \<and> set order = ran (va_pipelineM s)"

text \<open>A request has been taken from the channel.\<close>

definition set_default :: "venv \<Rightarrow> ValidatorSettings option \<Rightarrow> nat list \<Rightarrow> vagent \<Rightarrow> vagent call" where
  "set_default ve ns order s =
     (case select_pipeline ve ns (s\<lparr>va_clientWaits := True\<rparr>) of
        Panic \<Rightarrow> Some Panic
      | Ret (Some e, s1) \<Rightarrow> returns (s1\<lparr>va_pc := Replying (Some e)\<rparr>)
      | Ret (None, s1) \<Rightarrow>
          if walks order s1
          then returns (s1\<lparr>va_pc := SendingLookahead order (case ns of None \<Rightarrow> 0 | Some x \<Rightarrow> vs_Lookahead x)\<rparr>)
          else None)"

text \<open>The cases of the main goroutine, by where it stands.\<close>

definition select_step :: "venv \<Rightarrow> vlabel \<Rightarrow> vagent \<Rightarrow> vagent call" where
  "select_step ve l s =
     (case l of
        VSetDefault ns order \<Rightarrow> set_default ve ns order s
      | VGetDefault \<Rightarrow> returns s
      | VCloseSignal n \<Rightarrow> returns (s\<lparr>va_closeSignalCList := va_closeSignalCList s @ [n]\<rparr>)
      | VEvent e \<Rightarrow>
          (case on_event e s of
             Panic \<Rightarrow> Some Panic
           | Ret (None, s1) \<Rightarrow> returns s1
           | Ret (Some x, s1) \<Rightarrow> returns (s1\<lparr>va_pc := Stopped (Some x)\<rparr>))
      | VError \<Rightarrow>
          (case chan_recv (va_errorC s) of
             None \<Rightarrow> None
           | Some (e, c) \<Rightarrow> returns (s\<lparr>va_errorC := c, va_pc := Stopped (Some e)\<rparr>))
      | VServerError e \<Rightarrow> returns (s\<lparr>va_pc := Stopped e\<rparr>)
      | VContextDone \<Rightarrow> returns (s\<lparr>va_pc := Stopped None\<rparr>)
      | _ \<Rightarrow> None)"

definition lookahead_step :: "vlabel \<Rightarrow> nat list \<Rightarrow> uint64 \<Rightarrow> vagent \<Rightarrow> vagent call" where
  "lookahead_step l r v s =
     (if l = VContextDone then returns (s\<lparr>va_pc := Replying None\<rparr>)
      else if l = VSendLookahead
      then (case r of
              [] \<Rightarrow> returns (s\<lparr>va_pc := Replying None\<rparr>)
            | i # r' \<Rightarrow> and_then (send_lookahead v i s) (\<lambda>s1. returns (s1\<lparr>va_pc := SendingLookahead r' v\<rparr>)))
      else None)"

definition main_step :: "venv \<Rightarrow> vlabel \<Rightarrow> vagent \<Rightarrow> vagent call" where
  "main_step ve l s =
     (case va_pc s of
        AtSelect \<Rightarrow> select_step ve l s
      | SendingLookahead r v \<Rightarrow> lookahead_step l r v s
      | Replying e \<Rightarrow>
          if l = VReply \<and> va_clientWaits s then returns (s\<lparr>va_pc := AtSelect, va_clientWaits := False\<rparr>) else None
      | Stopped e \<Rightarrow> None)"

text \<open>The cases of a listener.\<close>

definition listener_step :: "vlabel \<Rightarrow> nat \<Rightarrow> vagent \<Rightarrow> vagent call" where
  "listener_step l i s =
     (if \<not> i < length (va_listeners s) then None
      else let n = va_listeners s ! i in
      case ln_pc n of
        Listening \<Rightarrow>
          (case l of
             VListenerDone _ \<Rightarrow> if ln_done n then returns (update_listener i (\<lambda>n. n\<lparr>ln_pc := ListenerEnded\<rparr>) s) else None
           | VListenerSlot _ v \<Rightarrow> returns (update_listener i (\<lambda>n. n\<lparr>ln_slot := v\<rparr>) s)
           | VListenerPayout _ pwd \<Rightarrow> returns (update_listener i (\<lambda>n. n\<lparr>ln_pc := Offering pwd\<rparr>) s)
           | VListenerError _ e \<Rightarrow>
               (let s1 = update_listener i (\<lambda>n. n\<lparr>ln_pc := ListenerEnded\<rparr>) s
                in case e of
                     None \<Rightarrow> returns s1
                   | Some x \<Rightarrow> (case chan_send x (va_errorC s1) of None \<Rightarrow> None | Some c \<Rightarrow> returns (s1\<lparr>va_errorC := c\<rparr>)))
           | VListenerLookahead _ \<Rightarrow>
               (case chan_recv (ln_lookAheadC n) of
                  None \<Rightarrow> None
                | Some (v, c) \<Rightarrow> returns (update_listener i (\<lambda>n. n\<lparr>ln_lookAhead := v, ln_lookAheadC := c\<rparr>) s))
           | _ \<Rightarrow> None)
      | Offering pwd \<Rightarrow>
          (case l of
             VHandOver _ \<Rightarrow>
               if va_pc s = AtSelect
               then returns (on_payout (ln_pipeline n) pwd (update_listener i (\<lambda>n. n\<lparr>ln_pc := Listening\<rparr>) s))
               else None
           | VGiveUp _ \<Rightarrow> if ln_done n then returns (update_listener i (\<lambda>n. n\<lparr>ln_pc := Listening\<rparr>) s) else None
           | _ \<Rightarrow> None)
      | ListenerEnded \<Rightarrow> None)"

fun listener_of :: "vlabel \<Rightarrow> nat option" where
  "listener_of (VHandOver i) = Some i"
| "listener_of (VGiveUp i) = Some i"
| "listener_of (VListenerDone i) = Some i"
| "listener_of (VListenerSlot i v) = Some i"
| "listener_of (VListenerPayout i p) = Some i"
| "listener_of (VListenerError i e) = Some i"
| "listener_of (VListenerLookahead i) = Some i"
| "listener_of _ = None"

definition vstep :: "venv \<Rightarrow> vlabel \<Rightarrow> vagent \<Rightarrow> vagent call" where
  "vstep ve l s =
     (case listener_of l of
        Some i \<Rightarrow> listener_step l i s
      | None \<Rightarrow> if l = VClientLeaves then returns (s\<lparr>va_clientWaits := False\<rparr>) else main_step ve l s)"

section \<open>One listener per pipeline\<close>

definition listeners_inv :: "vagent \<Rightarrow> bool" where
  "listeners_inv s \<longleftrightarrow>
     (\<forall>p i. va_pipelineM s p = Some i \<longleftrightarrow>
        i < length (va_listeners s) \<and> ln_pipeline (va_listeners s ! i) = p \<and> \<not> ln_done (va_listeners s ! i))
   \<and> (\<forall>i. va_selected s = Some i \<longrightarrow> i < length (va_listeners s) \<and> \<not> ln_done (va_listeners s ! i))
   \<and> distinct (va_schedules s) \<and> set (va_schedules s) = dom (va_payoutM s)"

lemma listeners_frame:
  assumes "listeners_inv s" "va_pipelineM s' = va_pipelineM s" "va_selected s' = va_selected s" "va_schedules s' = va_schedules s"
    "va_payoutM s' = va_payoutM s" "length (va_listeners s') = length (va_listeners s)"
    "\<And>i. i < length (va_listeners s) \<Longrightarrow> ln_pipeline (va_listeners s' ! i) = ln_pipeline (va_listeners s ! i)
        \<and> ln_done (va_listeners s' ! i) = ln_done (va_listeners s ! i)"
  shows "listeners_inv s'"
  using assms unfolding listeners_inv_def by auto

lemma updated_listener:
  "k < length (va_listeners s) \<Longrightarrow> va_listeners (update_listener i f s) ! k = (if k = i then f (va_listeners s ! k) else va_listeners s ! k)"
  by (simp add: update_listener_def)

lemma update_fields [simp]:
  "length (va_listeners (update_listener i f s)) = length (va_listeners s)" "va_pipelineM (update_listener i f s) = va_pipelineM s"
  "va_selected (update_listener i f s) = va_selected s" "va_schedules (update_listener i f s) = va_schedules s"
  "va_payoutM (update_listener i f s) = va_payoutM s" "va_pc (update_listener i f s) = va_pc s"
  "va_settings (update_listener i f s) = va_settings s" "va_errorC (update_listener i f s) = va_errorC s"
  "va_tasks (update_listener i f s) = va_tasks s" "va_file (update_listener i f s) = va_file s"
  by (simp_all add: update_listener_def)

lemma listeners_update:
  assumes "listeners_inv s" "\<And>l. ln_pipeline (f l) = ln_pipeline l" "\<And>l. ln_done (f l) = ln_done l"
  shows "listeners_inv (update_listener i f s)"
  by (rule listeners_frame [OF assms(1)]) (auto simp: updated_listener assms(2,3))

lemma on_pipeline_inv:
  assumes "listeners_inv s" "on_pipeline p s = (i, s')"
  shows "listeners_inv s'" "i < length (va_listeners s')" "ln_pipeline (va_listeners s' ! i) = p" "\<not> ln_done (va_listeners s' ! i)"
    "va_schedules s' = va_schedules s" "va_payoutM s' = va_payoutM s" "va_selected s' = va_selected s" "va_pc s' = va_pc s"
proof -
  have "listeners_inv s' \<and> i < length (va_listeners s') \<and> ln_pipeline (va_listeners s' ! i) = p \<and> \<not> ln_done (va_listeners s' ! i)"
  proof (cases "va_pipelineM s p")
    case None
    then have e: "i = length (va_listeners s)" "va_pipelineM s' = (va_pipelineM s)(p \<mapsto> i)" "va_listeners s' = va_listeners s @ [new_listener p]"
      "va_selected s' = va_selected s" "va_schedules s' = va_schedules s" "va_payoutM s' = va_payoutM s"
      using assms(2) by (auto simp: on_pipeline_def Let_def)
    have "\<not> (j < length (va_listeners s) \<and> ln_pipeline (va_listeners s ! j) = p \<and> \<not> ln_done (va_listeners s ! j))" for j
      using assms(1) None unfolding listeners_inv_def by (metis option.distinct(1))
    then show ?thesis using assms(1) unfolding listeners_inv_def e
      by (auto simp: nth_append new_listener_def less_Suc_eq split: if_splits)
  next
    case (Some j)
    then have "s' = s" "i = j" using assms(2) by (auto simp: on_pipeline_def)
    then show ?thesis using assms(1) Some by (simp add: listeners_inv_def)
  qed
  then show "listeners_inv s'" "i < length (va_listeners s')" "ln_pipeline (va_listeners s' ! i) = p" "\<not> ln_done (va_listeners s' ! i)"
    by blast+
  show "va_schedules s' = va_schedules s" "va_payoutM s' = va_payoutM s" "va_selected s' = va_selected s" "va_pc s' = va_pc s"
    using assms(2) by (auto simp: on_pipeline_def Let_def split: option.splits)
qed

lemma drop_pipeline_inv:
  assumes "listeners_inv s" "va_selected s = Some i"
  shows "listeners_inv ((drop_pipeline i s)\<lparr>va_selected := None\<rparr>)"
proof -
  have i: "i < length (va_listeners s)" "\<not> ln_done (va_listeners s ! i)" using assms by (auto simp: listeners_inv_def)
  have u: "k = i" if "k < length (va_listeners s)" "\<not> ln_done (va_listeners s ! k)" "ln_pipeline (va_listeners s ! k) = ln_pipeline (va_listeners s ! i)" for k
    using assms(1) i that unfolding listeners_inv_def by (metis option.inject)
  have "va_pipelineM (drop_pipeline i s) p = Some k \<longleftrightarrow>
      k < length (va_listeners s) \<and> ln_pipeline (va_listeners (drop_pipeline i s) ! k) = p \<and> \<not> ln_done (va_listeners (drop_pipeline i s) ! k)" for p k
    using assms(1) i u [of k] unfolding listeners_inv_def
    by (cases "k < length (va_listeners s)") (auto simp: drop_pipeline_def updated_listener)
  then show ?thesis using assms(1) by (simp add: listeners_inv_def drop_pipeline_def)
qed

text \<open>The ways in which select_pipeline returns.\<close>

lemma different_frame [simp]: "is_different k (s\<lparr>va_settings := x, va_file := y\<rparr>) = is_different k s"
  by (simp add: is_different_def split: option.split)

lemma select_pipeline_elim:
  assumes "select_pipeline ve ns s = Ret (e, s')"
  obtains (none) "ns = None" "e = Some ''no settings''" "s' = s"
  | (unsaved) n x fs where "ns = Some n" "config_save (ve_json ve) n (va_file s) = (Some x, fs)" "e = Some x" "s' = s\<lparr>va_file := fs\<rparr>"
  | (unknown) n fs x where "ns = Some n" "config_save (ve_json ve) n (va_file s) = (None, fs)" "named_pipeline ve n = Inl x"
      "e = Some x" "s' = s\<lparr>va_settings := Some n, va_file := fs\<rparr>"
  | (same) n fs named where "ns = Some n" "config_save (ve_json ve) n (va_file s) = (None, fs)" "named_pipeline ve n = Inr named"
      "is_different (map_option fst named) s = Ret False" "e = None" "s' = s\<lparr>va_settings := Some n, va_file := fs\<rparr>"
  | (new) n fs k p t i s3 where "ns = Some n" "config_save (ve_json ve) n (va_file s) = (None, fs)"
      "named_pipeline ve n = Inr (Some (k, p))" "is_different (Some k) s = Ret True"
      "t = (case va_selected s of None \<Rightarrow> s\<lparr>va_settings := Some n, va_file := fs\<rparr>
              | Some j \<Rightarrow> drop_pipeline j (s\<lparr>va_settings := Some n, va_file := fs\<rparr>))"
      "on_pipeline p t = (i, s3)" "e = None" "s' = s3\<lparr>va_selected := Some i\<rparr>"
proof (cases ns)
  case None
  then show ?thesis using assms none by (simp add: select_pipeline_def)
next
  case (Some n)
  obtain x fs where sv: "config_save (ve_json ve) n (va_file s) = (x, fs)" by force
  show ?thesis
  proof (cases x)
    case None
    show ?thesis
    proof (cases "named_pipeline ve n")
      case (Inl y)
      then show ?thesis using assms Some None sv unknown by (simp add: select_pipeline_def)
    next
      case (Inr named)
      show ?thesis
      proof (cases "is_different (map_option fst named) s")
        case (Ret d)
        show ?thesis
        proof (cases d)
          case False
          then show ?thesis using assms Some None sv Inr Ret same by (simp add: select_pipeline_def)
        next
          case True
          then obtain k p where kp: "named = Some (k, p)" using Ret by (cases named) (auto simp: is_different_def split: option.splits)
          obtain i s3 where o: "on_pipeline p (case va_selected s of None \<Rightarrow> s\<lparr>va_settings := Some n, va_file := fs\<rparr>
              | Some j \<Rightarrow> drop_pipeline j (s\<lparr>va_settings := Some n, va_file := fs\<rparr>)) = (i, s3)" by force
          have "e = None" "s' = s3\<lparr>va_selected := Some i\<rparr>"
            using assms Some None sv Inr Ret True kp o by (simp_all add: select_pipeline_def Let_def)
          with Some None sv Inr Ret True kp o show ?thesis by (intro new [OF _ _ _ _ refl o]) auto
        qed
      qed (use assms Some None sv Inr in \<open>simp add: select_pipeline_def\<close>)
    qed
  next
    case (Some y)
    have "config_save (ve_json ve) n (va_file s) = (Some y, fs)" using sv Some by simp
    moreover from this have "e = Some y" "s' = s\<lparr>va_file := fs\<rparr>" using assms \<open>ns = Some n\<close> by (simp_all add: select_pipeline_def)
    ultimately show ?thesis using unsaved \<open>ns = Some n\<close> by blast
  qed
qed

lemma selected_inv:
  assumes "listeners_inv (t\<lparr>va_selected := x\<rparr>)" "on_pipeline p t = (i, s3)"
  shows "listeners_inv (s3\<lparr>va_selected := Some i\<rparr>)"
proof -
  have "on_pipeline p (t\<lparr>va_selected := x\<rparr>) = (i, s3\<lparr>va_selected := x\<rparr>)"
    using assms(2) by (auto simp: on_pipeline_def Let_def split: option.splits)
  from on_pipeline_inv [OF assms(1) this] show ?thesis by (simp add: listeners_inv_def)
qed

lemma select_pipeline_inv:
  assumes "listeners_inv s" "select_pipeline ve ns s = Ret (e, s')"
  shows "listeners_inv s'"
  using assms(2)
proof (cases rule: select_pipeline_elim)
  case (new n fs k p t i s3)
  let ?s = "s\<lparr>va_settings := Some n, va_file := fs\<rparr>"
  have s: "listeners_inv ?s" by (rule listeners_frame [OF assms(1)]) simp_all
  have "\<exists>x. listeners_inv (t\<lparr>va_selected := x\<rparr>)"
  proof (cases "va_selected s")
    case None
    then show ?thesis using s new(5) by (intro exI [of _ None]) (simp add: listeners_inv_def)
  next
    case (Some j)
    then show ?thesis using drop_pipeline_inv [OF s, of j] new(5) by (intro exI [of _ None]) simp
  qed
  then show ?thesis using selected_inv [OF _ new(6)] new(8) by auto
qed (use assms(1) in \<open>auto intro: listeners_frame [OF assms(1)]\<close>)

lemma on_payout_inv: "listeners_inv s \<Longrightarrow> listeners_inv (on_payout p pwd s)"
proof (cases "va_payoutM s (py_Id pwd)")
  case None
  assume i: "listeners_inv s"
  obtain k s1 where o: "on_pipeline p s = (k, s1)" by force
  note f = on_pipeline_inv [OF i o]
  have "py_Id pwd \<notin> set (va_schedules s)" using i None by (auto simp: listeners_inv_def)
  then show ?thesis using f None o by (auto simp: on_payout_def Let_def listeners_inv_def)
qed (simp add: on_payout_def)

lemma on_event_frame: "on_event e s = Ret (x, s') \<Longrightarrow> s' = s\<lparr>va_tasks := va_tasks s'\<rparr>"
  by (auto simp: on_event_def run_validator_set_payout_def run_validator_withdraw_receipt_def add_vtask_def
      split: if_splits sum.splits option.splits)

lemma listeners_agent [simp]:
  "listeners_inv (s\<lparr>va_pc := a\<rparr>) = listeners_inv s" "listeners_inv (s\<lparr>va_clientWaits := b\<rparr>) = listeners_inv s"
  "listeners_inv (s\<lparr>va_errorC := c\<rparr>) = listeners_inv s" "listeners_inv (s\<lparr>va_tasks := d\<rparr>) = listeners_inv s"
  "listeners_inv (s\<lparr>va_closeSignalCList := e\<rparr>) = listeners_inv s"
  by (simp_all add: listeners_inv_def)

lemma on_event_inv: "listeners_inv s \<Longrightarrow> on_event e s = Ret (x, s') \<Longrightarrow> listeners_inv s'"
  using on_event_frame listeners_agent(4) by metis

lemma send_lookahead_inv: "listeners_inv s \<Longrightarrow> send_lookahead v i s = returns s' \<Longrightarrow> listeners_inv s'"
  by (auto simp: send_lookahead_def intro: listeners_update split: option.splits)

lemma main_step_inv: "listeners_inv s \<Longrightarrow> main_step ve l s = returns s' \<Longrightarrow> listeners_inv s'"
proof -
  assume i: "listeners_inv s" and st: "main_step ve l s = returns s'"
  have "listeners_inv s'" if "set_default ve ns order s = returns s'" for ns order
    using that select_pipeline_inv [of "s\<lparr>va_clientWaits := True\<rparr>" ve ns] i
    by (auto simp: set_default_def split: outcome.splits prod.splits option.splits if_splits)
  then show ?thesis using i st send_lookahead_inv [OF i] on_event_inv [OF i]
    by (auto simp: main_step_def select_step_def lookahead_step_def
        split: vagent_pc.splits vlabel.splits if_splits list.splits outcome.splits prod.splits option.splits)
qed

lemma listener_step_inv: "listeners_inv s \<Longrightarrow> listener_step l i s = returns s' \<Longrightarrow> listeners_inv s'"
  by (auto simp: listener_step_def Let_def intro!: listeners_update on_payout_inv
      split: if_splits listener_pc.splits vlabel.splits option.splits)

lemma vstep_inv: "listeners_inv s \<Longrightarrow> vstep ve l s = returns s' \<Longrightarrow> listeners_inv s'"
  by (auto simp: vstep_def intro: main_step_inv listener_step_inv split: option.splits if_splits)

lemma calls_lookahead_inv: "listeners_inv s \<Longrightarrow> calls (send_lookahead v) order s = returns s' \<Longrightarrow> listeners_inv s'"
  by (rule calls_invariant [where I = listeners_inv]) (auto intro: send_lookahead_inv)

lemma new_vagent_inv: "listeners_inv (new_vagent fs)"
  by (simp add: listeners_inv_def new_vagent_def)

lemma on_settings_inv: "listeners_inv s \<Longrightarrow> on_settings ve order ns s = returns (e, s') \<Longrightarrow> listeners_inv s'"
  by (auto simp: on_settings_def on_settings_lookahead_def dest: select_pipeline_inv calls_lookahead_inv
      split: outcome.splits prod.splits option.splits)

lemma vagent_start_inv: "vagent_start ve order fs = returns s \<Longrightarrow> listeners_inv s"
  using new_vagent_inv [of fs] on_settings_inv [OF new_vagent_inv, of ve order _ fs]
  by (auto simp: vagent_start_def vagent_config_load_def Let_def split: if_splits sum.splits option.splits)


section \<open>What new settings do\<close>

lemma lookahead_fields:
  assumes "calls (send_lookahead v) order s = returns s'"
  shows "va_selected s' = va_selected s" "va_pipelineM s' = va_pipelineM s" "va_settings s' = va_settings s" "va_file s' = va_file s"
    "length (va_listeners s') = length (va_listeners s)"
    "i < length (va_listeners s) \<Longrightarrow> ln_pipeline (va_listeners s' ! i) = ln_pipeline (va_listeners s ! i)
       \<and> ln_done (va_listeners s' ! i) = ln_done (va_listeners s ! i) \<and> ln_pc (va_listeners s' ! i) = ln_pc (va_listeners s ! i)"
proof -
  let ?I = "\<lambda>t. va_selected t = va_selected s \<and> va_pipelineM t = va_pipelineM s \<and> va_settings t = va_settings s \<and> va_file t = va_file s
    \<and> length (va_listeners t) = length (va_listeners s)
    \<and> (\<forall>i < length (va_listeners s). ln_pipeline (va_listeners t ! i) = ln_pipeline (va_listeners s ! i)
       \<and> ln_done (va_listeners t ! i) = ln_done (va_listeners s ! i) \<and> ln_pc (va_listeners t ! i) = ln_pc (va_listeners s ! i))"
  have "?I s'"
    by (rule calls_invariant [OF assms, where I = ?I])
      (auto simp: send_lookahead_def updated_listener split: option.splits if_splits)
  then show "va_selected s' = va_selected s" "va_pipelineM s' = va_pipelineM s" "va_settings s' = va_settings s" "va_file s' = va_file s"
    "length (va_listeners s') = length (va_listeners s)"
    "i < length (va_listeners s) \<Longrightarrow> ln_pipeline (va_listeners s' ! i) = ln_pipeline (va_listeners s ! i)
       \<and> ln_done (va_listeners s' ! i) = ln_done (va_listeners s ! i) \<and> ln_pc (va_listeners s' ! i) = ln_pc (va_listeners s ! i)" by blast+
qed

lemma lookahead_no_panic: "calls (send_lookahead v) order s \<noteq> Some Panic"
proof (induction order arbitrary: s)
  case (Cons i order)
  then show ?case by (auto simp: send_lookahead_def and_then_def returns_def split: option.split)
qed (simp add: returns_def)

lemma on_settings_panic: "on_settings ve order ns s = Some Panic \<longleftrightarrow> select_pipeline ve ns s = Panic"
  using lookahead_no_panic
  by (auto simp: on_settings_def on_settings_lookahead_def and_then_def returns_def split: outcome.splits prod.splits option.splits)

lemma select_pipeline_panic:
  "select_pipeline ve (Some ns) s = Panic \<longleftrightarrow>
     PipelineId ns = [] \<and> va_selected s \<noteq> None \<and> fst (config_save (ve_json ve) ns (va_file s)) = None"
  by (auto simp: select_pipeline_def is_different_def named_pipeline_def Let_def
      split: prod.splits option.splits sum.splits if_splits outcome.splits bool.splits)

lemma named_pipeline_some:
  assumes "named_pipeline ve ns = Inr named"
  shows "named = None \<longleftrightarrow> PipelineId ns = []"
    "named = Some (k, p) \<Longrightarrow> ve_base58 ve (PipelineId ns) = Inr k \<and> ve_router ve k = Inr p"
  using assms by (auto simp: named_pipeline_def split: if_splits sum.splits)

lemma select_pipeline_ok:
  assumes "listeners_inv s" "\<And>k p. ve_router ve k = Inr p \<Longrightarrow> p = k" "select_pipeline ve (Some ns) s = Ret (None, s')"
  shows "va_settings s' = Some ns
    \<and> (if PipelineId ns = [] then va_selected s' = None
       else \<exists>i k. ve_base58 ve (PipelineId ns) = Inr k \<and> va_selected s' = Some i \<and> ln_pipeline (va_listeners s' ! i) = k
          \<and> (\<forall>j. va_selected s = Some j \<and> ln_pipeline (va_listeners s ! j) \<noteq> k \<longrightarrow> j < length (va_listeners s') \<and> ln_done (va_listeners s' ! j)))"
  using assms(3)
proof (cases rule: select_pipeline_elim)
  case (same n fs named)
  show ?thesis
  proof (cases named)
    case None
    then have "va_selected s = None" using same(4) by (auto simp: is_different_def split: option.splits)
    then show ?thesis using same named_pipeline_some(1) [OF same(3)] None by simp
  next
    case (Some kp)
    then obtain k p where kp: "named = Some (k, p)" by (cases kp) auto
    then obtain i where "va_selected s = Some i" "k = ln_pipeline (va_listeners s ! i)"
      using same(4) by (auto simp: is_different_def split: option.splits)
    then show ?thesis using same named_pipeline_some [OF same(3)] kp by auto
  qed
next
  case (new n fs k p t i s3)
  have k: "ve_base58 ve (PipelineId ns) = Inr k" "p = k" "PipelineId ns \<noteq> []" 
    using new(1) named_pipeline_some(1) [OF new(3)] named_pipeline_some(2) [OF new(3) refl] assms(2) [of k p] by simp_all
  let ?s = "s\<lparr>va_settings := Some n, va_file := fs\<rparr>"
  have s: "listeners_inv ?s" by (rule listeners_frame [OF assms(1)]) simp_all
  have t: "listeners_inv (t\<lparr>va_selected := None\<rparr>)" "va_settings t = Some ns"
    "\<And>j. va_selected s = Some j \<Longrightarrow> j < length (va_listeners t) \<and> ln_done (va_listeners t ! j)"
  proof -
    show "listeners_inv (t\<lparr>va_selected := None\<rparr>)" using new(5) s drop_pipeline_inv [OF s]
      by (cases "va_selected s") (auto simp: listeners_inv_def)
    show "va_settings t = Some ns" using new(1,5) by (simp add: drop_pipeline_def split: option.splits)
    show "j < length (va_listeners t) \<and> ln_done (va_listeners t ! j)" if "va_selected s = Some j" for j
    proof -
      have "j < length (va_listeners s)" using assms(1) that by (simp add: listeners_inv_def)
      then show ?thesis using new(5) that by (simp add: drop_pipeline_def updated_listener)
    qed
  qed
  have o: "on_pipeline p (t\<lparr>va_selected := None\<rparr>) = (i, s3\<lparr>va_selected := None\<rparr>)"
    using new(6) by (auto simp: on_pipeline_def Let_def split: option.splits)
  note f = on_pipeline_inv [OF t(1) o]
  have old: "va_listeners s3 ! j = va_listeners t ! j \<and> j < length (va_listeners s3)" if "j < length (va_listeners t)" for j
    using new(6) that by (auto simp: on_pipeline_def Let_def nth_append split: option.splits)
  have "va_settings s3 = Some ns" using new(6) t(2) by (auto simp: on_pipeline_def Let_def split: option.splits)
  then show ?thesis using k f(3) new(8) t(3) old by auto
qed simp_all

text \<open>
  C32. New settings for a validator. They make the agent panic exactly when they name no pipeline while
  one is selected and could be saved. When they are refused, the selection and the listeners are as
  before; they are in force nevertheless if only the pipeline they name was unknown. When they are
  accepted, the pipeline they name is selected and has a running listener, and the listener of a
  different pipeline that was selected before has been told to end.
\<close>

theorem settings_select_pipeline:
  assumes "listeners_inv s" "\<And>k p. ve_router ve k = Inr p \<Longrightarrow> p = k"
  shows "(on_settings ve order (Some ns) s = Some Panic \<longleftrightarrow>
      PipelineId ns = [] \<and> va_selected s \<noteq> None \<and> fst (config_save (ve_json ve) ns (va_file s)) = None)
    \<and> (\<forall>e s'. on_settings ve order (Some ns) s = returns (Some e, s') \<longrightarrow>
         va_selected s' = va_selected s \<and> va_pipelineM s' = va_pipelineM s \<and> va_listeners s' = va_listeners s
         \<and> va_settings s' = (if fst (config_save (ve_json ve) ns (va_file s)) = None then Some ns else va_settings s))
    \<and> (\<forall>s'. on_settings ve order (Some ns) s = returns (None, s') \<longrightarrow> va_settings s' = Some ns
         \<and> (if PipelineId ns = [] then va_selected s' = None
            else \<exists>i k. ve_base58 ve (PipelineId ns) = Inr k \<and> va_selected s' = Some i \<and> va_pipelineM s' k = Some i
               \<and> ln_pipeline (va_listeners s' ! i) = k \<and> \<not> ln_done (va_listeners s' ! i)
               \<and> (\<forall>j. va_selected s = Some j \<and> ln_pipeline (va_listeners s ! j) \<noteq> k \<longrightarrow> ln_done (va_listeners s' ! j))))"
proof (intro conjI allI impI)
  show "on_settings ve order (Some ns) s = Some Panic \<longleftrightarrow>
      PipelineId ns = [] \<and> va_selected s \<noteq> None \<and> fst (config_save (ve_json ve) ns (va_file s)) = None"
    by (simp only: on_settings_panic select_pipeline_panic)
next
  fix e s' assume "on_settings ve order (Some ns) s = returns (Some e, s')"
  then have "select_pipeline ve (Some ns) s = Ret (Some e, s')"
    by (auto simp: on_settings_def split: outcome.splits prod.splits option.splits)
  then show "va_selected s' = va_selected s" "va_pipelineM s' = va_pipelineM s" "va_listeners s' = va_listeners s"
    "va_settings s' = (if fst (config_save (ve_json ve) ns (va_file s)) = None then Some ns else va_settings s)"
    by (auto elim!: select_pipeline_elim)
next
  fix s' assume o: "on_settings ve order (Some ns) s = returns (None, s')"
  then obtain s1 where s1: "select_pipeline ve (Some ns) s = Ret (None, s1)" "on_settings_lookahead order s1 = returns s'"
    by (auto simp: on_settings_def split: outcome.splits prod.splits option.splits)
  note sel = select_pipeline_ok [OF assms s1(1)]
  have c: "calls (send_lookahead (vs_Lookahead ns)) order s1 = returns s'" using s1(2) sel by (simp add: on_settings_lookahead_def)
  note f = lookahead_fields [OF c]
  show "va_settings s' = Some ns" using f(3) sel by simp
  have inv: "listeners_inv s'" by (rule on_settings_inv [OF assms(1) o])
  show "if PipelineId ns = [] then va_selected s' = None
      else \<exists>i k. ve_base58 ve (PipelineId ns) = Inr k \<and> va_selected s' = Some i \<and> va_pipelineM s' k = Some i
               \<and> ln_pipeline (va_listeners s' ! i) = k \<and> \<not> ln_done (va_listeners s' ! i)
         \<and> (\<forall>j. va_selected s = Some j \<and> ln_pipeline (va_listeners s ! j) \<noteq> k \<longrightarrow> ln_done (va_listeners s' ! j))"
  proof (cases "PipelineId ns = []")
    case False
    then obtain i k where ik: "ve_base58 ve (PipelineId ns) = Inr k" "va_selected s1 = Some i" "ln_pipeline (va_listeners s1 ! i) = k"
      "\<And>j. va_selected s = Some j \<Longrightarrow> ln_pipeline (va_listeners s ! j) \<noteq> k \<Longrightarrow> j < length (va_listeners s1) \<and> ln_done (va_listeners s1 ! j)"
      using sel by auto
    have "va_selected s' = Some i" using ik(2) f(1) by simp
    then have "i < length (va_listeners s')" "va_pipelineM s' (ln_pipeline (va_listeners s' ! i)) = Some i" "\<not> ln_done (va_listeners s' ! i)"
      using inv by (auto simp: listeners_inv_def)
    then show ?thesis using False ik f by auto
  qed (use sel f(1) in simp)
qed

section \<open>Waits that never end\<close>

text \<open>
  The agent waits for room in the channel of a listener, and that listener waits for the agent to take
  a payout.
\<close>

definition waits_for :: "nat \<Rightarrow> vagent \<Rightarrow> bool" where
  "waits_for i s \<longleftrightarrow> i < length (va_listeners s) \<and> (\<exists>r v. va_pc s = SendingLookahead (i # r) v)
     \<and> (\<exists>pwd. ln_pc (va_listeners s ! i) = Offering pwd) \<and> \<not> ln_done (va_listeners s ! i)
     \<and> length (cbuf (ln_lookAheadC (va_listeners s ! i))) = ccap (ln_lookAheadC (va_listeners s ! i))"

lemma waits_other:
  assumes "waits_for i s" "j \<noteq> i"
  shows "waits_for i (update_listener j f s)"
proof -
  have "i < length (va_listeners s)" using assms(1) by (simp add: waits_for_def)
  then show ?thesis using assms by (simp add: waits_for_def updated_listener)
qed

lemma listener_step_waiting:
  assumes "waits_for i s" "listener_step l j s = returns s'"
  shows "waits_for i s' \<and> va_pc s' = va_pc s \<and> va_schedules s' = va_schedules s \<and> va_tasks s' = va_tasks s"
proof (cases "j = i")
  case True
  then show ?thesis using assms
    by (auto simp: waits_for_def listener_step_def Let_def split: if_splits vlabel.splits)
next
  case False
  have "va_pc s \<noteq> AtSelect" using assms(1) by (auto simp: waits_for_def)
  moreover have "waits_for i (t\<lparr>va_errorC := c\<rparr>) = waits_for i t" for t c by (simp add: waits_for_def)
  ultimately show ?thesis using assms(2) waits_other [OF assms(1) False]
    by (auto simp: listener_step_def Let_def split: if_splits listener_pc.splits vlabel.splits option.splits)
qed

lemma vstep_waiting:
  assumes "waits_for i s" "l \<noteq> VContextDone" "vstep ve l s = returns s'"
  shows "waits_for i s' \<and> va_pc s' = va_pc s \<and> va_schedules s' = va_schedules s \<and> va_tasks s' = va_tasks s"
proof (cases "listener_of l")
  case (Some j)
  then show ?thesis using assms listener_step_waiting [OF assms(1)] by (simp add: vstep_def)
next
  case None
  obtain r v where pc: "va_pc s = SendingLookahead (i # r) v" using assms(1) by (auto simp: waits_for_def)
  have full: "send_lookahead v i s = None" using assms(1) by (simp add: waits_for_def send_lookahead_def chan_send_def)
  show ?thesis
  proof (cases "l = VClientLeaves")
    case True
    then show ?thesis using assms None by (auto simp: vstep_def waits_for_def)
  next
    case False
    then have "main_step ve l s = returns s'" using assms(3) None by (simp add: vstep_def)
    then show ?thesis using pc full assms(2) by (auto simp: main_step_def lookahead_step_def and_then_def split: if_splits)
  qed
qed

lemma waiting_for_ever:
  assumes "waits_for i s" "VContextDone \<notin> set ls" "calls (vstep ve) ls s = returns s'"
  shows "waits_for i s' \<and> va_pc s' = va_pc s \<and> va_schedules s' = va_schedules s \<and> va_tasks s' = va_tasks s"
  by (rule calls_invariant [OF assms(3), where I = "\<lambda>t. waits_for i t \<and> va_pc t = va_pc s \<and> va_schedules t = va_schedules s \<and> va_tasks t = va_tasks s"])
    (use assms(1,2) vstep_waiting in \<open>auto, metis+\<close>)

definition fresh_file :: filesys where
  "fresh_file = \<lparr>fs_file = None, fs_writable = True, fs_creatable = True, fs_readable = True\<rparr>"

lemma fresh_creatable: "fs_creatable fresh_file"
  by (simp add: fresh_file_def)

lemma save_again: "fs_creatable f \<Longrightarrow> \<exists>g. config_save j c f = (None, g) \<and> fs_creatable g"
  by (auto simp: config_save_def Let_def split: option.split)

definition offered :: "ValidatorSettings \<Rightarrow> pubkey \<Rightarrow> pwd_data \<Rightarrow> filesys \<Rightarrow> vagent" where
  "offered ns p pwd f = (new_vagent f)\<lparr>va_settings := Some ns, va_selected := Some 0, va_pipelineM := [p \<mapsto> 0],
     va_listeners := [(new_listener p)\<lparr>ln_lookAheadC := \<lparr>cbuf = [vs_Lookahead ns], ccap = 1\<rparr>, ln_pc := Offering pwd\<rparr>]\<rparr>"

lemma offered_fields [simp]: "va_settings (offered ns p pwd f) = Some ns" "va_selected (offered ns p pwd f) = Some 0"
  "va_pc (offered ns p pwd f) = AtSelect" "va_file (offered ns p pwd f) = f" "va_pipelineM (offered ns p pwd f) = [p \<mapsto> 0]"
  by (simp_all add: offered_def new_vagent_def)

text \<open>A client selects a pipeline, and a payout comes before the listener has read its look-ahead.\<close>

definition first_selection :: "ValidatorSettings \<Rightarrow> pwd_data \<Rightarrow> vlabel list" where
  "first_selection ns pwd = [VSetDefault (Some ns) [0], VSendLookahead, VSendLookahead, VReply, VListenerPayout 0 pwd]"

lemma reach_offered:
  assumes "PipelineId ns \<noteq> []" "ve_base58 ve (PipelineId ns) = Inr p" "ve_router ve p = Inr p" "fs_creatable fs"
  obtains f where "calls (vstep ve) (first_selection ns pwd) (new_vagent fs) = returns (offered ns p pwd f)" "fs_creatable f"
proof -
  obtain f where f: "config_save (ve_json ve) ns fs = (None, f)" "fs_creatable f" using save_again [OF assms(4), of "ve_json ve" ns] by auto
  let ?s1 = "(new_vagent f)\<lparr>va_settings := Some ns, va_selected := Some 0, va_pipelineM := [p \<mapsto> 0], va_listeners := [new_listener p],
    va_clientWaits := True\<rparr>"
  have "set_default ve (Some ns) [0] (new_vagent fs) = returns (?s1\<lparr>va_pc := SendingLookahead [0] (vs_Lookahead ns)\<rparr>)"
    using f(1) assms(1-3)
    by (simp add: set_default_def select_pipeline_def named_pipeline_def is_different_def on_pipeline_def walks_def new_vagent_def Let_def)
  then have "calls (vstep ve) (first_selection ns pwd) (new_vagent fs) = returns (offered ns p pwd f)"
    by (simp add: first_selection_def vstep_def main_step_def select_step_def lookahead_step_def send_lookahead_def
        listener_step_def update_listener_def chan_send_def make_chan_def new_listener_def new_vagent_def offered_def Let_def)
  then show ?thesis using that f(2) by blast
qed

lemma start_fresh: "vagent_start ve order fresh_file = returns (new_vagent fresh_file)"
  by (simp add: vagent_start_def config_exists_def fresh_file_def Let_def)


text \<open>
  A pipeline that was deselected can come back. A client selects one pipeline and then another
  while the listener of the first is offering a payout; if the agent takes that payout, it starts a
  new listener for the first pipeline, follows its payouts again, and has a schedule for this payout.
\<close>

theorem deselected_pipeline_returns:
  fixes ns ns' :: ValidatorSettings and pwd :: pwd_data
  assumes "PipelineId ns \<noteq> []" "ve_base58 ve (PipelineId ns) = Inr p" "ve_router ve p = Inr p"
    "PipelineId ns' \<noteq> []" "ve_base58 ve (PipelineId ns') = Inr q" "ve_router ve q = Inr q" "p \<noteq> q"
  shows "\<exists>ls s. calls (vstep ve) ls (new_vagent fresh_file) = returns s \<and> va_pc s = AtSelect
    \<and> (\<exists>i. va_selected s = Some i \<and> ln_pipeline (va_listeners s ! i) = q)
    \<and> (\<exists>j. va_pipelineM s p = Some j \<and> ln_pipeline (va_listeners s ! j) = p \<and> \<not> ln_done (va_listeners s ! j))
    \<and> va_schedules s = [py_Id pwd]"
proof -
  obtain f where f: "calls (vstep ve) (first_selection ns pwd) (new_vagent fresh_file) = returns (offered ns p pwd f)" "fs_creatable f"
    by (rule reach_offered [OF assms(1-3) fresh_creatable])
  obtain g where g: "config_save (ve_json ve) ns' f = (None, g)" using save_again [OF f(2), of "ve_json ve" ns'] by auto
  let ?ls = "[VSetDefault (Some ns') [1], VSendLookahead, VSendLookahead, VReply, VHandOver 0]"
  have d: "drop_pipeline 0 ((offered ns p pwd f)\<lparr>va_clientWaits := True, va_settings := Some ns', va_file := g\<rparr>)
      = (offered ns p pwd g)\<lparr>va_settings := Some ns', va_clientWaits := True, va_pipelineM := Map.empty,
          va_listeners := [(va_listeners (offered ns p pwd g) ! 0)\<lparr>ln_done := True\<rparr>]\<rparr>"
    by (simp add: drop_pipeline_def update_listener_def offered_def new_vagent_def new_listener_def)
  have l0: "ln_pipeline (va_listeners (offered ns p pwd x) ! 0) = p" "ln_pc (va_listeners (offered ns p pwd x) ! 0) = Offering pwd"
    "va_payoutM (offered ns p pwd x) = Map.empty" "va_schedules (offered ns p pwd x) = []" for x
    by (simp_all add: offered_def new_vagent_def new_listener_def)
  have "set_default ve (Some ns') [1] (offered ns p pwd f) = returns ((offered ns p pwd g)\<lparr>va_settings := Some ns', va_clientWaits := True,
     va_pipelineM := [q \<mapsto> 1], va_listeners := [(va_listeners (offered ns p pwd g) ! 0)\<lparr>ln_done := True\<rparr>, new_listener q],
     va_selected := Some 1, va_pc := SendingLookahead [1] (vs_Lookahead ns')\<rparr>)"
    using g assms(4-7) d l0(1) [of f]
    by (simp add: set_default_def select_pipeline_def named_pipeline_def is_different_def on_pipeline_def walks_def Let_def)
  then have "\<exists>s. calls (vstep ve) ?ls (offered ns p pwd f) = returns s \<and> va_pc s = AtSelect
    \<and> (\<exists>i. va_selected s = Some i \<and> ln_pipeline (va_listeners s ! i) = q)
    \<and> (\<exists>j. va_pipelineM s p = Some j \<and> ln_pipeline (va_listeners s ! j) = p \<and> \<not> ln_done (va_listeners s ! j))
    \<and> va_schedules s = [py_Id pwd]"
    using assms(7) l0
    by (simp add: vstep_def main_step_def select_step_def lookahead_step_def send_lookahead_def listener_step_def update_listener_def
        chan_send_def make_chan_def new_listener_def on_payout_def on_pipeline_def Let_def)
  then obtain s where s: "calls (vstep ve) ?ls (offered ns p pwd f) = returns s" "va_pc s = AtSelect"
    "\<exists>i. va_selected s = Some i \<and> ln_pipeline (va_listeners s ! i) = q"
    "\<exists>j. va_pipelineM s p = Some j \<and> ln_pipeline (va_listeners s ! j) = p \<and> \<not> ln_done (va_listeners s ! j)" "va_schedules s = [py_Id pwd]"
    by blast
  have "calls (vstep ve) (first_selection ns pwd @ ?ls) (new_vagent fresh_file) = returns s"
    by (simp only: calls_append f(1) and_then_returns s(1))
  then show ?thesis using s by blast
qed

text \<open>When a client leaves before it has its answer, the agent waits for it for ever, even past the end of its context.\<close>

lemma listener_step_busy:
  assumes "listener_step l i t = returns t'"
  shows "va_pc t \<noteq> AtSelect \<Longrightarrow> va_pc t' = va_pc t \<and> va_clientWaits t' = va_clientWaits t"
  using assms
  by (auto simp: listener_step_def update_listener_def Let_def split: if_splits listener_pc.splits vlabel.splits option.splits)

lemma client_leaves_agent_waits:
  assumes "va_pc s = Replying e" "\<not> va_clientWaits s" "calls (vstep ve) ls s = returns s'"
  shows "va_pc s' = Replying e"
proof -
  have step: "va_pc t' = Replying e \<and> \<not> va_clientWaits t'" if "va_pc t = Replying e \<and> \<not> va_clientWaits t" "vstep ve l t = returns t'" for l t t'
  proof (cases "listener_of l")
    case None
    then show ?thesis using that by (auto simp: vstep_def main_step_def split: if_splits)
  next
    case (Some i)
    then have "listener_step l i t = returns t'" using that(2) by (simp add: vstep_def)
    from listener_step_busy [OF this] that(1) show ?thesis by simp
  qed
  have "va_pc s' = Replying e \<and> \<not> va_clientWaits s'"
    by (rule calls_invariant [OF assms(3), where I = "\<lambda>t. va_pc t = Replying e \<and> \<not> va_clientWaits t"])
      (use assms(1,2) in simp, rule step)
  then show ?thesis ..
qed

section \<open>What the jobs send\<close>

lemma runValidatorSetPayout_transaction:
  "runValidatorSetPayout v fresh c y l k a = transaction v a [OpSetPipeline fresh c y l k a] True"
  by (simp add: runValidatorSetPayout_def transaction_def ignore_def bind_assoc bind_yield bind_unit)

lemma runValidatorWithdrawReceipt_transaction:
  "runValidatorWithdrawReceipt v a c y l k r = transaction v a [OpWithdrawReceipt c y l k r a] True"
  by (simp add: runValidatorWithdrawReceipt_def transaction_def bind_unit)

section \<open>Witnesses\<close>

definition demo_venv :: venv where
  "demo_venv = \<lparr>ve_json = \<lparr>json_encode = (\<lambda>ns. replicate (length (PipelineId ns)) CHR ''x''), json_decode = (\<lambda>s. Inl ''not read'')\<rparr>,
     ve_base58 = (\<lambda>s. if s = ''!'' then Inl ''decode'' else Inr s), ve_router = (\<lambda>k. if k = ''?'' then Inl ''unknown'' else Inr k)\<rparr>"

definition demo_vs :: "string \<Rightarrow> ValidatorSettings" where
  "demo_vs k = \<lparr>PipelineId = k, vs_Lookahead = 450\<rparr>"

definition demo_offer :: pwd_data where
  "demo_offer = \<lparr>py_Id = ''P'', py_Start = 100, py_Length = 50\<rparr>"

lemma demo_known: "PipelineId (demo_vs ''A'') \<noteq> []" "ve_base58 demo_venv (PipelineId (demo_vs ''A'')) = Inr ''A''" "ve_router demo_venv ''A'' = Inr ''A''"
  "PipelineId (demo_vs ''B'') \<noteq> []" "ve_base58 demo_venv (PipelineId (demo_vs ''B'')) = Inr ''B''" "ve_router demo_venv ''B'' = Inr ''B''"
  by (simp_all add: demo_vs_def demo_venv_def)


theorem settings_select_pipeline_witness:
  "on_settings demo_venv [0] (Some (demo_vs '''')) (offered (demo_vs ''A'') ''A'' demo_offer fresh_file) = Some Panic"
proof -
  have i: "listeners_inv (offered (demo_vs ''A'') ''A'' demo_offer fresh_file)"
    by (auto simp: listeners_inv_def offered_def new_vagent_def new_listener_def intro: gr0I)
  have r: "p = k" if "ve_router demo_venv k = Inr p" for k p using that by (simp add: demo_venv_def split: if_splits)
  have "fst (config_save (ve_json demo_venv) (demo_vs '''') fresh_file) = None" by (simp add: config_save_def fresh_file_def Let_def)
  moreover note settings_select_pipeline [OF i, of demo_venv "[0]" "demo_vs ''''", OF r, THEN conjunct1]
  ultimately show ?thesis by (simp add: demo_vs_def)
qed


theorem deselected_pipeline_returns_witness:
  "\<exists>ls s. calls (vstep demo_venv) ls (new_vagent fresh_file) = returns s \<and> va_pc s = AtSelect
    \<and> (\<exists>i. va_selected s = Some i \<and> ln_pipeline (va_listeners s ! i) = ''B'')
    \<and> (\<exists>j. va_pipelineM s ''A'' = Some j \<and> ln_pipeline (va_listeners s ! j) = ''A'' \<and> \<not> ln_done (va_listeners s ! j))
    \<and> va_schedules s = [''P'']"
  using deselected_pipeline_returns [OF demo_known, of demo_offer] by (simp add: demo_offer_def)

end
