(* ===== verification/RateLimit.thy ===== *)
theory RateLimit
  imports PayoutState Cranker "HOL-Library.Sublist"
begin

text \<open>
  The two throttled workers of the relay of a pipeline, proxy/relay/pipeline: the worker of a bidder
  (bidder.go) and the worker of a validator (validator.go). Each of them is a pair of goroutines. A
  reader takes transactions from a channel and hands them to the worker, and a signal channel of
  capacity one tells the reader whether it may go on reading. The worker counts and sends the signals.

  A goroutine is the place at which it waits and its local variables; a label is what one of the two
  does next, so that a run is an interleaving of the two with their environment. The channels between
  reader and worker have no buffer: handing over a transaction is one step of both. Values of type
  float64 are of an arbitrary type whose operations are a parameter.
\<close>

section \<open>Data\<close>

record 'f floats =
  f_zero :: 'f
  f_one :: 'f
  f_of :: "uint64 \<Rightarrow> 'f"
  f_add :: "'f \<Rightarrow> 'f \<Rightarrow> 'f"
  f_sub :: "'f \<Rightarrow> 'f \<Rightarrow> 'f"
  f_mul :: "'f \<Rightarrow> 'f \<Rightarrow> 'f"
  f_div :: "'f \<Rightarrow> 'f \<Rightarrow> 'f"
  f_lt :: "'f \<Rightarrow> 'f \<Rightarrow> bool"
  f_le :: "'f \<Rightarrow> 'f \<Rightarrow> bool"

record BidWithTotal =
  bw_Start :: uint64
  bw_Length :: uint64
  bw_Bid :: bid
  bw_TotalDeposit :: uint64

definition AllocatedShare :: "'f floats \<Rightarrow> BidWithTotal \<Rightarrow> 'f" where
  "AllocatedShare fl bwt = f_div fl (f_of fl (Deposit (bw_Bid bwt))) (f_of fl (bw_TotalDeposit bwt))"

section \<open>The readers\<close>

text \<open>
  What a reader does next: it sees that the context is done, receives a signal, takes a transaction
  or hands over the one it holds. While it holds a transaction it waits for the worker only.
\<close>

datatype 't reader_event = SeesDone | Signal bool | FromIn 't | ToOut

record 't reader =
  keepReading :: bool
  holding :: "'t option"
  ended :: bool

definition new_reader :: "'t reader" where
  "new_reader = \<lparr>keepReading = True, holding = None, ended = False\<rparr>"

definition loopBidderSubmitRateLimiter :: "'t reader_event \<Rightarrow> 't reader \<Rightarrow> 't reader option" where
  "loopBidderSubmitRateLimiter e r =
     (if ended r then None
      else case e of
          SeesDone \<Rightarrow> Some (r\<lparr>ended := True\<rparr>)
        | Signal b \<Rightarrow> (if holding r = None then Some (r\<lparr>keepReading := b\<rparr>) else None)
        | FromIn t \<Rightarrow> (if keepReading r \<and> holding r = None then Some (r\<lparr>holding := Some t\<rparr>) else None)
        | ToOut \<Rightarrow> (if holding r \<noteq> None then Some (r\<lparr>holding := None\<rparr>) else None))"

text \<open>The reader of a validator, in the order in which its loop waits; the lemma below says that it does the
  same.\<close>

definition loopValidatorReadTx :: "'t reader_event \<Rightarrow> 't reader \<Rightarrow> 't reader option" where
  "loopValidatorReadTx e r =
     (if ended r then None
      else case holding r of
          Some si \<Rightarrow>
            (case e of SeesDone \<Rightarrow> Some (r\<lparr>ended := True\<rparr>) | ToOut \<Rightarrow> Some (r\<lparr>holding := None\<rparr>)
              | _ \<Rightarrow> None)
        | None \<Rightarrow>
            if keepReading r
            then (case e of SeesDone \<Rightarrow> Some (r\<lparr>ended := True\<rparr>) | Signal b \<Rightarrow> Some (r\<lparr>keepReading := b\<rparr>)
              | FromIn t \<Rightarrow> Some (r\<lparr>holding := Some t\<rparr>) | ToOut \<Rightarrow> None)
            else (case e of SeesDone \<Rightarrow> Some (r\<lparr>ended := True\<rparr>) | Signal b \<Rightarrow> Some (r\<lparr>keepReading := b\<rparr>)
              | _ \<Rightarrow> None))"

lemma readers_agree: "loopValidatorReadTx = loopBidderSubmitRateLimiter"
  by (intro ext)
    (simp add: loopValidatorReadTx_def loopBidderSubmitRateLimiter_def split: reader_event.split option.split)

section \<open>The worker of a bidder\<close>

text \<open>
  The places at which the worker waits: the select of its loop, the hand-over of a transaction to a
  validator, and the two sends on the signal channel. The fields \<open>b_in\<close> and \<open>b_out\<close> record the
  transactions that were taken from the bidder and handed to validators.
\<close>

datatype 't bidder_pc = B_select | B_forward 't | B_stop | B_restart | B_over

record ('t, 'f) bidder =
  b_bidC :: "BidWithTotal chan"
  allottedShare :: 'f
  pipelineTps :: 'f
  allotedTps :: 'f
  txCount :: 'f
  b_pc :: "'t bidder_pc"
  keepReadingC :: "bool chan"
  b_reader :: "'t reader"
  b_cancelled :: bool
  b_in :: "'t list"
  b_out :: "'t list"

definition bidder_create :: "'f floats \<Rightarrow> BidWithTotal \<Rightarrow> ('t, 'f) bidder" where
  "bidder_create fl bt = \<lparr>b_bidC = make_chan 1, allottedShare = AllocatedShare fl bt,
     pipelineTps = f_zero fl, allotedTps = f_zero fl, txCount = f_zero fl, b_pc = B_select,
     keepReadingC = make_chan 1, b_reader = new_reader, b_cancelled = False, b_in = [], b_out = []\<rparr>"

definition exceeds :: "'f floats \<Rightarrow> 'f \<Rightarrow> 'f \<Rightarrow> bool" where
  "exceeds fl tps n = f_lt fl tps (f_div fl n tps)"

definition update_tps :: "'f floats \<Rightarrow> ('t, 'f) bidder \<Rightarrow> ('t, 'f) bidder" where
  "update_tps fl b =
     (let n = f_add fl (txCount b) (f_one fl)
      in b\<lparr>txCount := n, b_pc := if exceeds fl (allotedTps b) n then B_stop else B_select\<rparr>)"

definition on_bid :: "'f floats \<Rightarrow> BidWithTotal \<Rightarrow> ('t, 'f) bidder \<Rightarrow> ('t, 'f) bidder" where
  "on_bid fl bt b =
     (let share = AllocatedShare fl bt
      in b\<lparr>allottedShare := share, allotedTps := f_mul fl (pipelineTps b) share\<rparr>)"

definition on_pipeline_tps :: "'f floats \<Rightarrow> 'f \<Rightarrow> ('t, 'f) bidder \<Rightarrow> ('t, 'f) bidder" where
  "on_pipeline_tps fl x b = b\<lparr>pipelineTps := x, allotedTps := f_mul fl x (allottedShare b)\<rparr>"

datatype ('t, 'f) bidder_label =
  BoxTimer | RestartSent | BidReceived | TxReceived | TxForwarded | ForwardDropped | StopSent | StopDropped
  | TpsReceived 'f | TpsFailed | WorkerDone | ReaderTakes 't | ReaderSignalled | ReaderDone | Cancelled

text \<open>The reader and the worker at their channels.\<close>

definition read_signal :: "('t, 'f) bidder \<Rightarrow> ('t, 'f) bidder option" where
  "read_signal b =
     Option.bind (chan_recv (keepReadingC b)) (\<lambda>(v, c).
     Option.bind (loopBidderSubmitRateLimiter (Signal v) (b_reader b)) (\<lambda>r.
     Some (b\<lparr>keepReadingC := c, b_reader := r\<rparr>)))"

definition send_signal :: "bool \<Rightarrow> ('t, 'f) bidder \<Rightarrow> ('t, 'f) bidder option" where
  "send_signal v b = map_option (\<lambda>c. b\<lparr>keepReadingC := c, b_pc := B_select\<rparr>) (chan_send v (keepReadingC b))"

definition hand_over :: "('t, 'f) bidder \<Rightarrow> ('t, 'f) bidder option" where
  "hand_over b =
     Option.bind (holding (b_reader b)) (\<lambda>t.
     Option.bind (loopBidderSubmitRateLimiter ToOut (b_reader b)) (\<lambda>r.
     Some (b\<lparr>b_reader := r, b_pc := B_forward t\<rparr>)))"

fun loopBidderInternal :: "'f floats \<Rightarrow> ('t, 'f) bidder_label \<Rightarrow> ('t, 'f) bidder \<Rightarrow> ('t, 'f) bidder option" where
  "loopBidderInternal fl BoxTimer b =
     (if b_pc b = B_select then Some (b\<lparr>txCount := f_zero fl, b_pc := B_restart\<rparr>) else None)"
| "loopBidderInternal fl RestartSent b = (if b_pc b = B_restart then send_signal True b else None)"
| "loopBidderInternal fl BidReceived b =
     (if b_pc b = B_select
      then map_option (\<lambda>(bt, c). on_bid fl bt (b\<lparr>b_bidC := c\<rparr>)) (chan_recv (b_bidC b)) else None)"
| "loopBidderInternal fl TxReceived b = (if b_pc b = B_select then hand_over b else None)"
| "loopBidderInternal fl TxForwarded b =
     (case b_pc b of B_forward t \<Rightarrow> Some (update_tps fl (b\<lparr>b_out := b_out b @ [t]\<rparr>)) | _ \<Rightarrow> None)"
| "loopBidderInternal fl ForwardDropped b =
     (case b_pc b of B_forward t \<Rightarrow> if b_cancelled b then Some (update_tps fl b) else None | _ \<Rightarrow> None)"
| "loopBidderInternal fl StopSent b = (if b_pc b = B_stop then send_signal False b else None)"
| "loopBidderInternal fl StopDropped b =
     (if b_pc b = B_stop \<and> b_cancelled b then Some (b\<lparr>b_pc := B_select\<rparr>) else None)"
| "loopBidderInternal fl (TpsReceived x) b =
     (if b_pc b = B_select then Some (on_pipeline_tps fl x b) else None)"
| "loopBidderInternal fl TpsFailed b =
     (if b_pc b = B_select then Some (b\<lparr>b_pc := B_over, b_cancelled := True\<rparr>) else None)"
| "loopBidderInternal fl WorkerDone b =
     (if b_pc b = B_select \<and> b_cancelled b then Some (b\<lparr>b_pc := B_over\<rparr>) else None)"
| "loopBidderInternal fl (ReaderTakes t) b =
     map_option (\<lambda>r. b\<lparr>b_reader := r, b_in := b_in b @ [t]\<rparr>) (loopBidderSubmitRateLimiter (FromIn t) (b_reader b))"
| "loopBidderInternal fl ReaderSignalled b = read_signal b"
| "loopBidderInternal fl ReaderDone b =
     (if b_cancelled b then map_option (\<lambda>r. b\<lparr>b_reader := r\<rparr>) (loopBidderSubmitRateLimiter SeesDone (b_reader b))
      else None)"
| "loopBidderInternal fl Cancelled b = Some (b\<lparr>b_cancelled := True\<rparr>)"

section \<open>The worker of a validator\<close>

text \<open>
  The client of the validator is a pointer that starts as nil. A transaction that arrives is sent in a
  goroutine of its own, for which the pointer is dereferenced. The fields \<open>v_in\<close>, \<open>v_out\<close> and
  \<open>v_changes\<close> record the transactions taken and sent and the changes of the rate that were reported.
  A step may panic; a step that cannot be taken is \<^term>\<open>None\<close>.
\<close>

datatype 'f feed_pc = V_select | V_stop | V_restart | V_report 'f | V_over

record ('t, 'f, 'c) feed =
  client :: "'c option"
  clientConnC :: "'c chan"
  networkTps :: 'f
  validatorStakeShare :: 'f
  validatorTps :: 'f
  actualTps :: 'f
  txCountInCheckInterval :: 'f
  v_pc :: "'f feed_pc"
  readOkC :: "bool chan"
  v_reader :: "'t reader"
  v_cancelled :: bool
  v_in :: "'t list"
  v_out :: "'t list"
  v_changes :: "'f list"

definition tpsCheckInterval :: uint64 where
  "tpsCheckInterval = 3"

definition new_feed :: "'f floats \<Rightarrow> 'c chan \<Rightarrow> ('t, 'f, 'c) feed" where
  "new_feed fl cc = \<lparr>client = None, clientConnC = cc, networkTps = f_zero fl, validatorStakeShare = f_zero fl,
     validatorTps = f_zero fl, actualTps = f_zero fl, txCountInCheckInterval = f_zero fl, v_pc = V_select,
     readOkC = make_chan 1, v_reader = new_reader, v_cancelled = False, v_in = [], v_out = [], v_changes = []\<rparr>"

definition update_actual_tps :: "'f floats \<Rightarrow> ('t, 'f, 'c) feed \<Rightarrow> ('t, 'f, 'c) feed" where
  "update_actual_tps fl v =
     (let n = f_add fl (txCountInCheckInterval v) (f_one fl);
          a = f_div fl n (f_of fl tpsCheckInterval)
      in v\<lparr>txCountInCheckInterval := n, actualTps := a,
           v_pc := if f_le fl (validatorTps v) a then V_stop else V_select\<rparr>)"

definition update_validator_tps :: "'f floats \<Rightarrow> ('t, 'f, 'c) feed \<Rightarrow> ('t, 'f, 'c) feed" where
  "update_validator_tps fl v =
     (let newTps = f_mul fl (networkTps v) (validatorStakeShare v)
      in v\<lparr>validatorTps := newTps, v_pc := V_report (f_sub fl newTps (validatorTps v))\<rparr>)"

definition send_ok :: "bool \<Rightarrow> ('t, 'f, 'c) feed \<Rightarrow> ('t, 'f, 'c) feed option" where
  "send_ok x v = map_option (\<lambda>c. v\<lparr>readOkC := c, v_pc := V_select\<rparr>) (chan_send x (readOkC v))"

text \<open>A transaction is received from the reader and sent with the client.\<close>

definition on_transaction :: "'f floats \<Rightarrow> ('t, 'f, 'c) feed \<Rightarrow> ('t, 'f, 'c) feed call" where
  "on_transaction fl v =
     Option.bind (holding (v_reader v)) (\<lambda>t.
     Option.bind (loopValidatorReadTx ToOut (v_reader v)) (\<lambda>r.
       if client v = None then Some Panic
       else returns (update_actual_tps fl (v\<lparr>v_reader := r, v_out := v_out v @ [t]\<rparr>))))"

datatype ('t, 'f, 'c) feed_label =
  CheckTimer | OkSent | OkDropped | Transaction | ClientReceived | StakeReceived 'f | StakeFailed
  | NetworkReceived 'f | NetworkFailed | ChangeReported | ChangeDropped | NotOkSent | NotOkDropped | FeedDone
  | FeedTakes 't | FeedSignalled | FeedReaderDone | FeedCancelled

definition step_of :: "'a option \<Rightarrow> 'a call" where
  "step_of x = map_option Ret x"

fun loopValidatorInternal ::
  "'f floats \<Rightarrow> ('t, 'f, 'c) feed_label \<Rightarrow> ('t, 'f, 'c) feed \<Rightarrow> ('t, 'f, 'c) feed call" where
  "loopValidatorInternal fl CheckTimer v =
     (if v_pc v = V_select then returns (v\<lparr>txCountInCheckInterval := f_zero fl, v_pc := V_restart\<rparr>) else None)"
| "loopValidatorInternal fl OkSent v = (if v_pc v = V_restart then step_of (send_ok True v) else None)"
| "loopValidatorInternal fl OkDropped v =
     (if v_pc v = V_restart \<and> v_cancelled v then returns (v\<lparr>v_pc := V_over\<rparr>) else None)"
| "loopValidatorInternal fl Transaction v = (if v_pc v = V_select then on_transaction fl v else None)"
| "loopValidatorInternal fl ClientReceived v =
     (if v_pc v = V_select
      then step_of (map_option (\<lambda>(x, c). v\<lparr>client := Some x, clientConnC := c\<rparr>) (chan_recv (clientConnC v)))
      else None)"
| "loopValidatorInternal fl (StakeReceived x) v =
     (if v_pc v = V_select then returns (v\<lparr>validatorStakeShare := x\<rparr>) else None)"
| "loopValidatorInternal fl StakeFailed v =
     (if v_pc v = V_select then returns (v\<lparr>v_pc := V_over, v_cancelled := True\<rparr>) else None)"
| "loopValidatorInternal fl (NetworkReceived x) v =
     (if v_pc v = V_select then returns (update_validator_tps fl (v\<lparr>networkTps := x\<rparr>)) else None)"
| "loopValidatorInternal fl NetworkFailed v =
     (if v_pc v = V_select then returns (v\<lparr>v_pc := V_over, v_cancelled := True\<rparr>) else None)"
| "loopValidatorInternal fl ChangeReported v =
     (case v_pc v of V_report d \<Rightarrow> returns (v\<lparr>v_changes := v_changes v @ [d], v_pc := V_select\<rparr>) | _ \<Rightarrow> None)"
| "loopValidatorInternal fl ChangeDropped v =
     (case v_pc v of V_report d \<Rightarrow> if v_cancelled v then returns (v\<lparr>v_pc := V_select\<rparr>) else None | _ \<Rightarrow> None)"
| "loopValidatorInternal fl NotOkSent v = (if v_pc v = V_stop then step_of (send_ok False v) else None)"
| "loopValidatorInternal fl NotOkDropped v =
     (if v_pc v = V_stop \<and> v_cancelled v then returns (v\<lparr>v_pc := V_select\<rparr>) else None)"
| "loopValidatorInternal fl FeedDone v =
     (if v_pc v = V_select \<and> v_cancelled v then returns (v\<lparr>v_pc := V_over\<rparr>) else None)"
| "loopValidatorInternal fl (FeedTakes t) v =
     step_of (map_option (\<lambda>r. v\<lparr>v_reader := r, v_in := v_in v @ [t]\<rparr>) (loopValidatorReadTx (FromIn t) (v_reader v)))"
| "loopValidatorInternal fl FeedSignalled v =
     step_of (Option.bind (chan_recv (readOkC v)) (\<lambda>(x, c).
       map_option (\<lambda>r. v\<lparr>readOkC := c, v_reader := r\<rparr>) (loopValidatorReadTx (Signal x) (v_reader v))))"
| "loopValidatorInternal fl FeedReaderDone v =
     (if v_cancelled v then step_of (map_option (\<lambda>r. v\<lparr>v_reader := r\<rparr>) (loopValidatorReadTx SeesDone (v_reader v)))
      else None)"
| "loopValidatorInternal fl FeedCancelled v = returns (v\<lparr>v_cancelled := True\<rparr>)"

section \<open>Workers convey transactions\<close>

text \<open>
  The contract of a worker with its reader: what has come in, what has gone out, and what is inside.
  A step may let something in at the back, let something out at the front or lose something, and it
  loses nothing unless the worker is cancelled afterwards.
\<close>

locale conveyor =
  fixes step :: "'l \<Rightarrow> 's \<Rightarrow> 's call"
    and came :: "'s \<Rightarrow> 't list"
    and went :: "'s \<Rightarrow> 't list"
    and inside :: "'s \<Rightarrow> 't list"
    and cancelled :: "'s \<Rightarrow> bool"
  assumes moves: "step l s = returns s' \<Longrightarrow>
      (\<exists>new. came s' = came s @ new
        \<and> subseq (went s' @ inside s') (went s @ inside s @ new)
        \<and> (\<not> cancelled s' \<longrightarrow> \<not> cancelled s \<and> went s' @ inside s' = went s @ inside s @ new))"
    and narrow: "length (inside s) \<le> 2"
begin

lemma conveys:
  assumes "calls step ls s = returns s'" "subseq (went s @ inside s) (came s)"
    "\<not> cancelled s \<longrightarrow> came s = went s @ inside s"
  shows "subseq (went s' @ inside s') (came s') \<and> (\<not> cancelled s' \<longrightarrow> came s' = went s' @ inside s')"
proof -
  let ?I = "\<lambda>s. subseq (went s @ inside s) (came s) \<and> (\<not> cancelled s \<longrightarrow> came s = went s @ inside s)"
  have "?I s'"
  proof (rule calls_invariant [where I = ?I, OF assms(1)])
    fix l s s' assume i: "?I s" and st: "step l s = returns s'"
    from moves [OF st] obtain new where n: "came s' = came s @ new"
        "subseq (went s' @ inside s') (went s @ inside s @ new)"
        "\<not> cancelled s' \<longrightarrow> \<not> cancelled s \<and> went s' @ inside s' = went s @ inside s @ new"
      by auto
    have "subseq (went s @ inside s @ new) (came s')"
      using i n(1) list_emb_append_mono [of "(=)" "went s @ inside s" "came s" new new] by simp
    with n i show "?I s'" by (auto intro: subseq_order.trans)
  qed (use assms in auto)
  then show ?thesis by simp
qed

lemma few_inside:
  assumes "calls step ls s = returns s'" "subseq (went s @ inside s) (came s)"
    "\<not> cancelled s \<longrightarrow> came s = went s @ inside s" "\<not> cancelled s'"
  shows "prefix (went s') (came s') \<and> length (came s') \<le> length (went s') + 2"
  using conveys [OF assms(1-3)] assms(4) narrow [of s'] by auto

end

definition bidder_inside :: "('t, 'f) bidder \<Rightarrow> 't list" where
  "bidder_inside b = (case b_pc b of B_forward t \<Rightarrow> [t] | _ \<Rightarrow> []) @ (case holding (b_reader b) of Some t \<Rightarrow> [t] | None \<Rightarrow> [])"

definition feed_inside :: "('t, 'f, 'c) feed \<Rightarrow> 't list" where
  "feed_inside v = (case holding (v_reader v) of Some t \<Rightarrow> [t] | None \<Rightarrow> [])"

abbreviation bidder_step :: "'f floats \<Rightarrow> ('t, 'f) bidder_label \<Rightarrow> ('t, 'f) bidder \<Rightarrow> ('t, 'f) bidder call" where
  "bidder_step fl l b \<equiv> step_of (loopBidderInternal fl l b)"

lemma step_of_returns [simp]: "step_of x = returns y \<longleftrightarrow> x = Some y" "step_of (Some y) = returns y" "step_of None = None"
  by (auto simp: step_of_def returns_def)

lemma None_returns [simp]: "None \<noteq> returns y" "Some Panic \<noteq> returns y" "returns y \<noteq> None"
  by (simp_all add: returns_def)

lemmas reader_simps = loopBidderSubmitRateLimiter_def readers_agree

text \<open>What a handler does to the transactions, shown for each of the helpers that move them.\<close>

lemma reader_keeps:
  "loopBidderSubmitRateLimiter (Signal x) r = Some r' \<Longrightarrow> holding r' = holding r"
  "loopBidderSubmitRateLimiter SeesDone r = Some r' \<Longrightarrow> holding r' = holding r"
  "loopBidderSubmitRateLimiter (FromIn t) r = Some r' \<Longrightarrow> holding r = None \<and> holding r' = Some t"
  "loopBidderSubmitRateLimiter ToOut r = Some r' \<Longrightarrow> holding r' = None"
  by (auto simp: loopBidderSubmitRateLimiter_def split: if_splits)

lemma bidder_fields [simp]:
  "b_in (update_tps fl b) = b_in b" "b_out (update_tps fl b) = b_out b" "b_cancelled (update_tps fl b) = b_cancelled b"
  "b_in (on_bid fl bt b) = b_in b" "b_out (on_bid fl bt b) = b_out b" "b_cancelled (on_bid fl bt b) = b_cancelled b"
  "b_in (on_pipeline_tps fl x b) = b_in b" "b_out (on_pipeline_tps fl x b) = b_out b"
  "b_cancelled (on_pipeline_tps fl x b) = b_cancelled b" "b_reader (update_tps fl b) = b_reader b"
  "b_reader (on_bid fl bt b) = b_reader b" "b_pc (on_bid fl bt b) = b_pc b"
  "b_reader (on_pipeline_tps fl x b) = b_reader b" "b_pc (on_pipeline_tps fl x b) = b_pc b"
  "b_pc (update_tps fl b) = (if exceeds fl (allotedTps b) (f_add fl (txCount b) (f_one fl)) then B_stop else B_select)"
  by (simp_all add: update_tps_def on_bid_def on_pipeline_tps_def Let_def)

lemma send_signal_Some:
  "send_signal x b = Some b' \<Longrightarrow> b_in b' = b_in b \<and> b_out b' = b_out b \<and> b_reader b' = b_reader b
     \<and> b_cancelled b' = b_cancelled b \<and> b_pc b' = B_select"
  by (auto simp: send_signal_def)

lemma read_signal_Some:
  "read_signal b = Some b' \<Longrightarrow> b_in b' = b_in b \<and> b_out b' = b_out b \<and> holding (b_reader b') = holding (b_reader b)
     \<and> b_cancelled b' = b_cancelled b \<and> b_pc b' = b_pc b"
  by (auto simp: read_signal_def bind_eq_Some_conv dest: reader_keeps)

lemma hand_over_Some:
  "hand_over b = Some b' \<Longrightarrow> \<exists>t. holding (b_reader b) = Some t \<and> b_pc b' = B_forward t \<and> holding (b_reader b') = None
     \<and> b_in b' = b_in b \<and> b_out b' = b_out b \<and> b_cancelled b' = b_cancelled b"
  by (auto simp: hand_over_def bind_eq_Some_conv dest: reader_keeps)

lemma bidder_moves:
  fixes b b' :: "('t, 'f) bidder"
  assumes "loopBidderInternal fl l b = Some b'"
  shows "\<exists>new. b_in b' = b_in b @ new
        \<and> subseq (b_out b' @ bidder_inside b') (b_out b @ bidder_inside b @ new)
        \<and> (\<not> b_cancelled b' \<longrightarrow> \<not> b_cancelled b \<and> b_out b' @ bidder_inside b' = b_out b @ bidder_inside b @ new)"
proof -
  have drop: "subseq (xs @ ys) (xs @ t # ys)" for xs ys and t :: 't
    using list_emb_append_mono [of "(=)" xs xs ys "t # ys"] by (simp add: list_emb_Cons)
  show ?thesis
  proof (cases l)
    case TxReceived
    with assms hand_over_Some [of b b'] show ?thesis by (auto simp: bidder_inside_def split: if_splits)
  next
    case ReaderSignalled
    with assms read_signal_Some [of b b'] show ?thesis by (simp add: bidder_inside_def)
  next
    case (ReaderTakes t)
    then show ?thesis using assms
      by (intro exI [of _ "[t]"]) (auto simp: bidder_inside_def dest: reader_keeps)
  qed (use assms drop in \<open>auto simp: bidder_inside_def split: bidder_pc.splits if_splits
      dest!: send_signal_Some reader_keeps\<close>)
qed

lemma feed_fields [simp]:
  "v_in (update_actual_tps fl v) = v_in v" "v_out (update_actual_tps fl v) = v_out v"
  "v_cancelled (update_actual_tps fl v) = v_cancelled v" "v_reader (update_actual_tps fl v) = v_reader v"
  "v_in (update_validator_tps fl v) = v_in v" "v_out (update_validator_tps fl v) = v_out v"
  "v_cancelled (update_validator_tps fl v) = v_cancelled v" "v_reader (update_validator_tps fl v) = v_reader v"
  "client (update_actual_tps fl v) = client v" "client (update_validator_tps fl v) = client v"
  "clientConnC (update_actual_tps fl v) = clientConnC v" "clientConnC (update_validator_tps fl v) = clientConnC v"
  by (simp_all add: update_actual_tps_def update_validator_tps_def Let_def)

lemma send_ok_Some:
  "send_ok x v = Some v' \<Longrightarrow> v_in v' = v_in v \<and> v_out v' = v_out v \<and> v_reader v' = v_reader v
     \<and> v_cancelled v' = v_cancelled v \<and> v_pc v' = V_select \<and> client v' = client v \<and> clientConnC v' = clientConnC v"
  by (auto simp: send_ok_def)

lemma on_transaction_returns:
  "on_transaction fl v = returns v' \<Longrightarrow> \<exists>t. holding (v_reader v) = Some t \<and> holding (v_reader v') = None
     \<and> v_in v' = v_in v \<and> v_out v' = v_out v @ [t] \<and> v_cancelled v' = v_cancelled v \<and> client v \<noteq> None"
  by (auto simp: on_transaction_def returns_def readers_agree bind_eq_Some_conv split: if_splits dest: reader_keeps)

lemma feed_moves:
  fixes v v' :: "('t, 'f, 'c) feed"
  assumes "loopValidatorInternal fl l v = returns v'"
  shows "\<exists>new. v_in v' = v_in v @ new
        \<and> v_out v' @ feed_inside v' = v_out v @ feed_inside v @ new
        \<and> (\<not> v_cancelled v' \<longrightarrow> \<not> v_cancelled v)"
proof (cases l)
  case (FeedTakes t)
  then show ?thesis using assms
    by (intro exI [of _ "[t]"]) (auto simp: feed_inside_def readers_agree dest: reader_keeps)
next
  case Transaction
  with assms on_transaction_returns [of fl v v'] show ?thesis by (auto simp: feed_inside_def split: if_splits)
qed (use assms in \<open>auto simp: feed_inside_def readers_agree bind_eq_Some_conv split: feed_pc.splits if_splits
      dest!: send_ok_Some reader_keeps\<close>)

interpretation bidder: conveyor "bidder_step fl" b_in b_out bidder_inside b_cancelled
proof
  show "length (bidder_inside s) \<le> 2" for s :: "('t, 'f) bidder"
    by (simp add: bidder_inside_def split: bidder_pc.split option.split)
qed (use bidder_moves in simp)

interpretation feed: conveyor "loopValidatorInternal fl" v_in v_out feed_inside v_cancelled
proof
  show "length (feed_inside s) \<le> 2" for s :: "('t, 'f, 'c) feed"
    by (simp add: feed_inside_def split: option.split)
qed (use feed_moves in fastforce)

section \<open>Properties\<close>

text \<open>
  C36. In every interleaving of the worker of a bidder, its rate limiter and its environment, the
  transactions handed to validators are those of the bidder, each at most once and in their order; as
  long as the worker is not cancelled none is lost, and at most two of them are still under way.
\<close>

theorem bidder_forwards_in_order:
  fixes b :: "('t, 'f) bidder"
  assumes "calls (bidder_step fl) ls (bidder_create fl bt) = returns b"
  shows "subseq (b_out b) (b_in b)
    \<and> (\<not> b_cancelled b \<longrightarrow> prefix (b_out b) (b_in b) \<and> length (b_in b) \<le> length (b_out b) + 2)"
proof -
  have e: "bidder_inside (bidder_create fl bt :: ('t, 'f) bidder) = []"
    by (simp add: bidder_inside_def bidder_create_def new_reader_def)
  have o: "b_in (bidder_create fl bt :: ('t, 'f) bidder) = []" "b_out (bidder_create fl bt :: ('t, 'f) bidder) = []"
    by (simp_all add: bidder_create_def)
  have "subseq (b_out b @ bidder_inside b) (b_in b)"
    using bidder.conveys [OF assms] e o by simp
  then have "subseq (b_out b) (b_in b)" by (meson list_emb_append2 subseq_order.trans prefix_imp_subseq prefixI)
  then show ?thesis using bidder.few_inside [OF assms] e o by simp
qed

text \<open>Integers in place of floating point numbers, for the examples.\<close>

definition int_floats :: "int floats" where
  "int_floats = \<lparr>f_zero = 0, f_one = 1, f_of = uint, f_add = (+), f_sub = (-), f_mul = (*), f_div = (div),
     f_lt = (<), f_le = (\<le>)\<rparr>"

definition some_bid :: BidWithTotal where
  "some_bid = \<lparr>bw_Start = 10, bw_Length = 5, bw_Bid = \<lparr>User = ''u'', Deposit = 2, IsBlank = False\<rparr>, bw_TotalDeposit = 2\<rparr>"

lemmas bidder_evals = step_of_def returns_def bidder_create_def new_reader_def make_chan_def chan_send_def
  chan_recv_def loopBidderSubmitRateLimiter_def read_signal_def send_signal_def hand_over_def update_tps_def
  on_bid_def on_pipeline_tps_def exceeds_def AllocatedShare_def int_floats_def some_bid_def

definition busy_bidder :: "(nat, int) bidder" where
  "busy_bidder = (bidder_create int_floats some_bid)\<lparr>pipelineTps := 1, allotedTps := 1, txCount := 1, b_in := [5, 6],
     b_out := [5], b_pc := B_select, b_reader := new_reader\<lparr>holding := Some 6\<rparr>\<rparr>"

lemma busy_run:
  "calls (bidder_step int_floats) [TpsReceived 1, ReaderTakes (5 :: nat), TxReceived, TxForwarded, ReaderTakes 6]
     (bidder_create int_floats some_bid) = returns busy_bidder"
  by (simp add: bidder_evals busy_bidder_def)

theorem bidder_forwards_in_order_witness:
  "subseq (b_out busy_bidder) (b_in busy_bidder)
    \<and> prefix (b_out busy_bidder) (b_in busy_bidder) \<and> length (b_in busy_bidder) \<le> length (b_out busy_bidder) + 2
    \<and> b_in busy_bidder = [5, 6] \<and> b_out busy_bidder = [5]"
  using bidder_forwards_in_order [OF busy_run] by (simp add: busy_bidder_def bidder_create_def)

subsection \<open>The limit\<close>

text \<open>
  How many transactions may still go out once the worker has exceeded its limit, as long as nothing
  resets the count or changes the limit. The invariant says that outside the stop signal either the
  signal is waiting for the reader or the reader has stopped.
\<close>

definition may_read :: "('t, 'f) bidder \<Rightarrow> bool" where
  "may_read b = (keepReading (b_reader b) \<or> holding (b_reader b) \<noteq> None)"

definition over_limit :: "'f floats \<Rightarrow> ('t, 'f) bidder \<Rightarrow> bool" where
  "over_limit fl b \<longleftrightarrow> \<not> b_cancelled b \<and> ccap (keepReadingC b) = 1 \<and> exceeds fl (allotedTps b) (txCount b)
     \<and> (b_pc b = B_stop \<or> (b_pc b = B_select \<or> (\<exists>t. b_pc b = B_forward t))
          \<and> (cbuf (keepReadingC b) = [False] \<or> cbuf (keepReadingC b) = [] \<and> \<not> may_read b))"

definition allowance :: "('t, 'f) bidder \<Rightarrow> nat" where
  "allowance b =
     (case b_pc b of
        B_forward t \<Rightarrow> 1
      | B_stop \<Rightarrow> if cbuf (keepReadingC b) = [False] then 0
                 else if cbuf (keepReadingC b) \<noteq> [] \<or> may_read b then 1 else 0
      | _ \<Rightarrow> if may_read b then 1 else 0)"

fun keeps_limit :: "('t, 'f) bidder_label \<Rightarrow> bool" where
  "keeps_limit BoxTimer = False"
| "keeps_limit BidReceived = False"
| "keeps_limit (TpsReceived x) = False"
| "keeps_limit TpsFailed = False"
| "keeps_limit Cancelled = False"
| "keeps_limit _ = True"

lemma may_read_simps:
  "loopBidderSubmitRateLimiter (Signal x) r = Some r' \<Longrightarrow> holding r = None \<and> holding r' = None \<and> keepReading r' = x"
  "loopBidderSubmitRateLimiter (FromIn t) r = Some r' \<Longrightarrow> keepReading r \<and> keepReading r'"
  "loopBidderSubmitRateLimiter ToOut r = Some r' \<Longrightarrow> holding r \<noteq> None \<and> keepReading r' = keepReading r"
  by (auto simp: loopBidderSubmitRateLimiter_def split: if_splits)

lemma chan_one:
  "chan_send x c = Some c' \<Longrightarrow> ccap c = 1 \<Longrightarrow> cbuf c = [] \<and> cbuf c' = [x] \<and> ccap c' = 1"
  "chan_recv c = Some (x, c') \<Longrightarrow> cbuf c = x # cbuf c' \<and> ccap c' = ccap c"
  by (auto simp: chan_send_def chan_recv_def split: if_splits list.splits)

lemma over_limit_step:
  fixes b b' :: "('t, 'f) bidder"
  assumes mono: "\<forall>n. exceeds fl (allotedTps b) n \<longrightarrow> exceeds fl (allotedTps b) (f_add fl n (f_one fl))"
    and "over_limit fl b" "keeps_limit l" "loopBidderInternal fl l b = Some b'" "length (cbuf (keepReadingC b)) \<le> 1"
  shows "over_limit fl b' \<and> allotedTps b' = allotedTps b \<and> length (b_out b') + allowance b' \<le> length (b_out b) + allowance b
    \<and> length (cbuf (keepReadingC b')) \<le> 1"
proof -
  note step = mono [rule_format, of "txCount b"] assms(2-5)
  show ?thesis
  proof (cases l)
  case RestartSent
  with step show ?thesis by (auto simp: over_limit_def split: if_splits)
next
  case TxReceived
  then obtain t r where r: "holding (b_reader b) = Some t" "b_pc b = B_select"
      "b' = b\<lparr>b_reader := r, b_pc := B_forward t\<rparr>"
    using step(4) by (auto simp: hand_over_def bind_eq_Some_conv split: if_splits)
  with step show ?thesis by (simp add: over_limit_def allowance_def may_read_def)
next
  case TxForwarded
  then obtain t where t: "b_pc b = B_forward t" "b' = update_tps fl (b\<lparr>b_out := b_out b @ [t]\<rparr>)"
    using step(4) by (auto split: bidder_pc.splits)
  with step(1,2) have "b' = b\<lparr>b_out := b_out b @ [t], txCount := f_add fl (txCount b) (f_one fl), b_pc := B_stop\<rparr>"
    by (simp add: update_tps_def over_limit_def)
  with t(1) step show ?thesis by (auto simp: over_limit_def allowance_def may_read_def)
next
  case StopSent
  then obtain c where c: "b_pc b = B_stop" "chan_send False (keepReadingC b) = Some c"
      "b' = b\<lparr>keepReadingC := c, b_pc := B_select\<rparr>"
    using step(4) by (auto simp: send_signal_def split: if_splits)
  moreover from c(2) step(2) have "cbuf (keepReadingC b) = []" "cbuf c = [False]" "ccap c = 1"
    by (auto simp: over_limit_def dest: chan_one(1))
  ultimately show ?thesis using step(2) by (simp add: over_limit_def allowance_def may_read_def)
next
  case (ReaderTakes t)
  then obtain r where r: "loopBidderSubmitRateLimiter (FromIn t) (b_reader b) = Some r"
      "b' = b\<lparr>b_reader := r, b_in := b_in b @ [t]\<rparr>"
    using step(4) by auto
  from may_read_simps(2) [OF r(1)] have "may_read b" "may_read b'" using r(2) by (simp_all add: may_read_def)
  with r(2) step(2,5) show ?thesis by (auto simp: over_limit_def allowance_def split: bidder_pc.split)
next
  case ReaderSignalled
  then obtain x c r where r: "chan_recv (keepReadingC b) = Some (x, c)"
      "loopBidderSubmitRateLimiter (Signal x) (b_reader b) = Some r" "b' = b\<lparr>keepReadingC := c, b_reader := r\<rparr>"
    using step(4) by (auto simp: read_signal_def bind_eq_Some_conv)
  have c: "cbuf (keepReadingC b) = [x]" "cbuf c = []" "ccap c = ccap (keepReadingC b)"
    using chan_one(2) [OF r(1)] step(5) by auto
  have "may_read b' = x" using may_read_simps(1) [OF r(2)] r(3) by (simp add: may_read_def)
  with c r(3) step(2) show ?thesis by (auto simp: over_limit_def allowance_def split: bidder_pc.split)
qed (use step in \<open>auto simp: over_limit_def split: if_splits bidder_pc.splits\<close>)
qed

definition signals_ok :: "'f floats \<Rightarrow> ('t, 'f) bidder \<Rightarrow> bool" where
  "signals_ok fl b \<longleftrightarrow> ccap (keepReadingC b) = 1 \<and> length (cbuf (keepReadingC b)) \<le> 1
     \<and> (b_pc b = B_stop \<longrightarrow> exceeds fl (allotedTps b) (txCount b))"

lemma bidder_keeps [simp]:
  "keepReadingC (update_tps fl b) = keepReadingC b" "keepReadingC (on_bid fl bt b) = keepReadingC b"
  "keepReadingC (on_pipeline_tps fl x b) = keepReadingC b" "allotedTps (update_tps fl b) = allotedTps b"
  "txCount (update_tps fl b) = f_add fl (txCount b) (f_one fl)"
  by (simp_all add: update_tps_def on_bid_def on_pipeline_tps_def Let_def)

lemma signals_ok_step:
  assumes "signals_ok fl b" "loopBidderInternal fl l b = Some b'"
  shows "signals_ok fl b'"
proof (cases l)
  case ReaderSignalled
  with assms show ?thesis
    by (auto simp: signals_ok_def read_signal_def bind_eq_Some_conv dest!: chan_one(2))
next
  case TxReceived
  with assms show ?thesis by (auto simp: signals_ok_def hand_over_def bind_eq_Some_conv split: if_splits)
qed (use assms in \<open>auto simp: signals_ok_def send_signal_def split: if_splits bidder_pc.splits dest!: chan_one(1)\<close>)

lemma signals_ok_reachable:
  fixes b :: "('t, 'f) bidder"
  assumes "calls (bidder_step fl) ls (bidder_create fl bt) = returns b"
  shows "signals_ok fl b"
proof (rule calls_invariant [where I = "signals_ok fl", OF assms])
  show "signals_ok fl (bidder_create fl bt :: ('t, 'f) bidder)"
    by (simp add: signals_ok_def bidder_create_def make_chan_def)
qed (auto intro: signals_ok_step)

text \<open>
  C37. Rate limit: once a bidder has exceeded its rate, at most one more of its transactions goes to a
  validator until the count is reset or the rate is changed. The hypothesis on the comparison says
  that a count above the limit stays above it when it is increased.
\<close>

theorem one_transaction_over_limit:
  fixes b :: "('t, 'f) bidder"
  assumes "calls (bidder_step fl) ls (bidder_create fl bt) = returns b" "b_pc b = B_stop" "\<not> b_cancelled b"
    "calls (bidder_step fl) ms b = returns b'" "\<forall>l \<in> set ms. keeps_limit l"
    "\<forall>n. exceeds fl (allotedTps b) n \<longrightarrow> exceeds fl (allotedTps b) (f_add fl n (f_one fl))"
  shows "length (b_out b') \<le> length (b_out b) + 1"
proof -
  let ?I = "\<lambda>s. over_limit fl s \<and> allotedTps s = allotedTps b \<and> length (cbuf (keepReadingC s)) \<le> 1
    \<and> length (b_out s) + allowance s \<le> length (b_out b) + allowance b"
  have ok: "signals_ok fl b" by (rule signals_ok_reachable [OF assms(1)])
  have "?I b'"
  proof (rule calls_invariant [where I = ?I, OF assms(4)])
    show "?I b" using ok assms(2,3) by (simp add: over_limit_def signals_ok_def)
    fix l s s' assume "l \<in> set ms" "?I s" "bidder_step fl l s = returns s'"
    then show "?I s'" using over_limit_step [of fl s l s'] assms(5,6) by (auto intro: order_trans)
  qed
  moreover have "allowance b \<le> 1" by (simp add: allowance_def split: bidder_pc.split)
  ultimately show ?thesis by simp
qed

definition throttled_bidder :: "(nat, int) bidder" where
  "throttled_bidder = (bidder_create int_floats some_bid)\<lparr>pipelineTps := 1, allotedTps := 1, txCount := 2, b_in := [5, 6],
     b_out := [5, 6], b_pc := B_stop\<rparr>"

lemma throttled_run:
  "calls (bidder_step int_floats)
     [TpsReceived 1, ReaderTakes (5 :: nat), TxReceived, TxForwarded, ReaderTakes 6, TxReceived, TxForwarded]
     (bidder_create int_floats some_bid) = returns throttled_bidder"
  by (simp add: bidder_evals throttled_bidder_def)

definition stopping_bidder :: "(nat, int) bidder" where
  "stopping_bidder = throttled_bidder\<lparr>txCount := 3, b_in := [5, 6, 7], b_out := [5, 6, 7],
     keepReadingC := \<lparr>cbuf = [False], ccap = 1\<rparr>\<rparr>"

lemma stopping_run:
  "calls (bidder_step int_floats) [StopSent, ReaderTakes 7, TxReceived, TxForwarded] throttled_bidder
     = returns stopping_bidder"
  by (simp add: bidder_evals throttled_bidder_def stopping_bidder_def)

theorem one_transaction_over_limit_witness:
  "length (b_out stopping_bidder) \<le> length (b_out throttled_bidder) + 1
    \<and> length (b_out stopping_bidder) = 3 \<and> length (b_out throttled_bidder) = 2"
  using one_transaction_over_limit [OF throttled_run _ _ stopping_run]
  by (simp add: throttled_bidder_def stopping_bidder_def exceeds_def int_floats_def bidder_create_def)

subsection \<open>The deadlock\<close>

text \<open>
  The worker waits for room in the signal channel while the reader waits for the worker. The send of
  the restart signal does not look at the context, so cancelling does not help the worker.
\<close>

definition jammed :: "('t, 'f) bidder \<Rightarrow> bool" where
  "jammed b \<longleftrightarrow> b_pc b = B_restart \<and> length (cbuf (keepReadingC b)) = ccap (keepReadingC b)
     \<and> holding (b_reader b) \<noteq> None"

lemma jammed_step:
  assumes "jammed b" "loopBidderInternal fl l b = Some b'"
  shows "jammed b' \<and> b_out b' = b_out b"
proof (cases l)
  case ReaderSignalled
  with assms show ?thesis
    by (auto simp: jammed_def read_signal_def bind_eq_Some_conv loopBidderSubmitRateLimiter_def split: if_splits)
next
  case RestartSent
  with assms show ?thesis by (auto simp: jammed_def send_signal_def chan_send_def)
next
  case (ReaderTakes t)
  with assms show ?thesis by (auto simp: jammed_def loopBidderSubmitRateLimiter_def split: if_splits)
next
  case ReaderDone
  with assms show ?thesis by (auto simp: jammed_def loopBidderSubmitRateLimiter_def split: if_splits)
qed (use assms in \<open>auto simp: jammed_def\<close>)


lemma throttled_out: "b_out throttled_bidder = [5, 6]"
  by (simp add: throttled_bidder_def)


end
