(* ===== verification/RelayPipeline.thy ===== *)
theory RelayPipeline
  imports RateLimit PipelineState
begin

text \<open>
  The relay of a pipeline, proxy/relay/pipeline: the main loop of internal.go with its periods
  (payout.go), its bidders (bidder.go), its connections and its validators (validator.go, connect.go),
  and the submission of a transaction (submit.go). The workers of bidders and validators are those of
  RateLimit.

  The state holds the variables of the main loop, the channels it reads and the goroutines it started;
  a label says which goroutine moves and how. Pointers to bidderFeed, validatorFeed and to the
  goroutines are positions in the lists of workers. An element of the list of periods is pointed to by
  its node only, so it is stored in the node.
\<close>

section \<open>Data\<close>

record payoutWithBidStatus =
  Pwd :: PayoutWithData
  Status :: BidStatus
  pbs_ctx :: nat
  bi_list :: "nat Generic"
  bi_m :: "pubkey \<rightharpoonup> ptr"

record periodInfo =
  pi_list :: "payoutWithBidStatus Generic"
  pi_m :: "uint64 \<rightharpoonup> ptr"

abbreviation pstart :: "payoutWithBidStatus \<Rightarrow> uint64" where
  "pstart v \<equiv> pd_start (pw_data (Pwd v))"

record validatorInsertInfo =
  ii_id :: pubkey
  ii_start :: uint64
  ii_finish :: uint64
  ii_vote :: pubkey
  ii_periodC :: nat

record validatorFeed =
  vf_worker :: nat
  vf_vote :: pubkey
  vf_id :: pubkey
  vf_periodC :: nat

record 'c validatorConnection =
  vc_vote :: pubkey
  vc_client :: "'c option"
  vc_connector :: nat
  vc_feed :: "validatorFeed option"

section \<open>Periods\<close>

partial_function (option) find_loop ::
  "uint64 \<Rightarrow> payoutWithBidStatus Generic \<Rightarrow> ptr option \<Rightarrow> (ptr option \<times> ptr option) outcome option" where
  "find_loop s g p =
     (case p of
        None \<Rightarrow> Some (Ret (None, None))
      | Some a \<Rightarrow>
          (case Value a g of
             None \<Rightarrow> Some Panic
           | Some v \<Rightarrow> if pstart v = s then Some (Ret (Some a, None))
                       else if s < pstart v then Some (Ret (None, Some a))
                       else find_loop s g (Next a g)))"

definition find_period :: "uint64 \<Rightarrow> periodInfo \<Rightarrow> (ptr option \<times> ptr option) call" where
  "find_period s p =
     (case TailNode (pi_list p) of
        None \<Rightarrow> returns (None, None)
      | Some a \<Rightarrow>
          (case Value a (pi_list p) of
             None \<Rightarrow> Some Panic
           | Some v \<Rightarrow> if pstart v < s then returns (None, None)
                       else find_loop s (pi_list p) (HeadNode (pi_list p))))"

definition init_period :: periodInfo where
  "init_period = \<lparr>pi_list = CreateGeneric, pi_m = Map.empty\<rparr>"

text \<open>The goroutines that wait for a payout: for its bids, with its start, and for its end.\<close>

record payout_watch =
  pw_ctx :: nat
  pw_start :: uint64
  pw_end :: uint64

section \<open>The goroutine of a validator that joins and leaves\<close>

datatype inserter_pc = I_select | I_insert | I_delete | I_over

record inserter =
  in_id :: pubkey
  in_vote :: pubkey
  in_vu_start :: uint64
  in_vu_finish :: uint64
  in_start :: uint64
  in_finish :: uint64
  in_slot :: uint64
  hasStarted :: bool
  in_periodC :: "(uint64 \<times> uint64) chan"
  in_pc :: inserter_pc

text \<open>The head of its loop: the validator is inserted once its period has started.\<close>

definition loop_top :: "inserter \<Rightarrow> inserter" where
  "loop_top i = (if \<not> hasStarted i \<and> in_start i \<le> in_slot i then i\<lparr>hasStarted := True, in_pc := I_insert\<rparr>
                 else i\<lparr>in_pc := I_select\<rparr>)"

definition new_inserter :: "pubkey \<Rightarrow> pubkey \<Rightarrow> uint64 \<Rightarrow> uint64 \<Rightarrow> inserter" where
  "new_inserter i vote a f = loop_top \<lparr>in_id = i, in_vote = vote, in_vu_start = a, in_vu_finish = f,
     in_start = a, in_finish = f, in_slot = 0, hasStarted = False, in_periodC = make_chan 1, in_pc = I_select\<rparr>"

definition on_insert_slot :: "uint64 \<Rightarrow> inserter \<Rightarrow> inserter" where
  "on_insert_slot n i =
     (let j = i\<lparr>in_slot := n\<rparr> in if in_finish i + 10 < n then j\<lparr>in_pc := I_delete\<rparr> else loop_top j)"

datatype inserter_label = NewPeriod | InsertSlot uint64 | InsertSent | DeleteSent | InserterEnds | InserterFails err

fun loopInsertDeleteValidator :: "inserter_label \<Rightarrow> inserter \<Rightarrow> inserter option" where
  "loopInsertDeleteValidator NewPeriod i =
     (if in_pc i = I_select
      then map_option (\<lambda>((a, f), c). loop_top (i\<lparr>in_start := a, in_finish := f, in_periodC := c\<rparr>)) (chan_recv (in_periodC i))
      else None)"
| "loopInsertDeleteValidator (InsertSlot n) i = (if in_pc i = I_select then Some (on_insert_slot n i) else None)"
| "loopInsertDeleteValidator InsertSent i = (if in_pc i = I_insert then Some (i\<lparr>in_pc := I_select\<rparr>) else None)"
| "loopInsertDeleteValidator DeleteSent i = (if in_pc i = I_delete then Some (i\<lparr>in_pc := I_over\<rparr>) else None)"
| "loopInsertDeleteValidator InserterEnds i = (if in_pc i \<noteq> I_over then Some (i\<lparr>in_pc := I_over\<rparr>) else None)"
| "loopInsertDeleteValidator (InserterFails e) i = (if in_pc i = I_select then Some (i\<lparr>in_pc := I_over\<rparr>) else None)"

section \<open>The goroutine that connects to a validator\<close>

datatype 'c connector_pc = C_select | C_ask | C_deliver 'c | C_fail err | C_over

record 'c connector =
  co_id :: pubkey
  pleaseConnectC :: "unit chan"
  internalPleaseConnectC :: "unit chan"
  delays :: nat
  co_pc :: "'c connector_pc"

definition new_connector :: "pubkey \<Rightarrow> 'c connector" where
  "new_connector i = \<lparr>co_id = i, pleaseConnectC = make_chan 1, internalPleaseConnectC = make_chan 1, delays = 0,
     co_pc = C_select\<rparr>"

text \<open>
  The first attempt is made on a request; an attempt gives a connection or an error, and the client
  that is created on a connection may fail too. After an error loopDelayConnect asks again.
\<close>

datatype 'c connector_label =
  Asked | AskPassed | Attempt "err + err + 'c" | DelayOver | Delivered | FailureSent | ConnectorEnds

definition after_attempt :: "err + err + 'c \<Rightarrow> 'c connector \<Rightarrow> 'c connector" where
  "after_attempt a c =
     (case a of
        Inl _ \<Rightarrow> c\<lparr>delays := delays c + 1\<rparr>
      | Inr (Inl e) \<Rightarrow> c\<lparr>co_pc := C_fail e\<rparr>
      | Inr (Inr cl) \<Rightarrow> c\<lparr>co_pc := C_deliver cl\<rparr>)"

fun loopValidatorConnect :: "'c connector_label \<Rightarrow> 'c connector \<Rightarrow> 'c connector option" where
  "loopValidatorConnect Asked c =
     (if co_pc c = C_select
      then map_option (\<lambda>(_, d). c\<lparr>pleaseConnectC := d, co_pc := C_ask\<rparr>) (chan_recv (pleaseConnectC c)) else None)"
| "loopValidatorConnect AskPassed c =
     (if co_pc c = C_ask
      then map_option (\<lambda>d. c\<lparr>internalPleaseConnectC := d, co_pc := C_select\<rparr>) (chan_send () (internalPleaseConnectC c))
      else None)"
| "loopValidatorConnect (Attempt a) c =
     (if co_pc c = C_select
      then map_option (\<lambda>(_, d). after_attempt a (c\<lparr>internalPleaseConnectC := d\<rparr>)) (chan_recv (internalPleaseConnectC c))
      else None)"
| "loopValidatorConnect DelayOver c =
     (if 0 < delays c
      then map_option (\<lambda>d. c\<lparr>internalPleaseConnectC := d, delays := delays c - 1\<rparr>) (chan_send () (internalPleaseConnectC c))
      else None)"
| "loopValidatorConnect Delivered c =
     (case co_pc c of C_deliver cl \<Rightarrow> Some (c\<lparr>co_pc := C_select\<rparr>) | _ \<Rightarrow> None)"
| "loopValidatorConnect FailureSent c = (case co_pc c of C_fail e \<Rightarrow> Some (c\<lparr>co_pc := C_over\<rparr>) | _ \<Rightarrow> None)"
| "loopValidatorConnect ConnectorEnds c = (if co_pc c = C_select then Some (c\<lparr>co_pc := C_over\<rparr>) else None)"

section \<open>The main loop\<close>

text \<open>
  The main loop waits in its select statement, in the middle of on_bid_status for room in the channel
  of a bidder, with the node, the bids still to do, the status and the new list, in update_validators
  for room in the channel of a period, or for room in the error channel, which only itself reads.
  The field \<open>sent_tps\<close> records what was broadcast to the bidders, \<open>stopped_ctx\<close> the cancelled contexts
  of payouts, \<open>granted\<close> the workers whose channel a waiting call of Submit has been given.
\<close>

datatype main_pc = M_select | M_bids ptr "bid list" BidStatus "nat Generic" | M_period validatorFeed validatorInsertInfo | M_error err
  | M_over

record ('t, 'f, 'c) relay =
  r_slot :: uint64
  errorC :: "err chan"
  r_pipelineTps :: 'f
  totalTpsC :: "'f chan"
  sent_tps :: "'f list"
  r_periods :: periodInfo
  validatorConnectionMap :: "pubkey \<rightharpoonup> 'c validatorConnection"
  bidderMap :: "pubkey \<rightharpoonup> nat"
  deletePayoutC :: "uint64 chan"
  insertValidatorC :: "validatorInsertInfo chan"
  deleteValidatorC :: "pubkey chan"
  validatorConnC :: "(pubkey \<times> 'c) chan"
  r_pc :: main_pc
  r_cancelled :: bool
  bidders :: "('t, 'f) bidder list"
  feeds :: "('t, 'f, 'c) feed list"
  connectors :: "'c connector list"
  inserters :: "inserter list"
  bid_watches :: "payout_watch list"
  end_watches :: "payout_watch list"
  granted :: "nat list"
  next_ctx :: nat
  stopped_ctx :: "nat list"

definition relay_start :: "'f floats \<Rightarrow> ('t, 'f, 'c) relay" where
  "relay_start fl = \<lparr>r_slot = 0, errorC = make_chan 1, r_pipelineTps = f_zero fl, totalTpsC = make_chan 10, sent_tps = [],
     r_periods = init_period, validatorConnectionMap = Map.empty, bidderMap = Map.empty, deletePayoutC = make_chan 10,
     insertValidatorC = make_chan 1, deleteValidatorC = make_chan 1, validatorConnC = make_chan 10, r_pc = M_select,
     r_cancelled = False, bidders = [], feeds = [], connectors = [], inserters = [], bid_watches = [], end_watches = [],
     granted = [], next_ctx = 0, stopped_ctx = []\<rparr>"

text \<open>The contexts of the goroutines are children of the context of the relay.\<close>

definition cancel_ctx :: "('t, 'f, 'c) relay \<Rightarrow> ('t, 'f, 'c) relay" where
  "cancel_ctx s = s\<lparr>r_cancelled := True, bidders := map (\<lambda>b. b\<lparr>b_cancelled := True\<rparr>) (bidders s),
     feeds := map (\<lambda>v. v\<lparr>v_cancelled := True\<rparr>) (feeds s)\<rparr>"

text \<open>The end of the loop; no channel is ever put into closeSignalCList, so nobody is told.\<close>

definition finish :: "('t, 'f, 'c) relay \<Rightarrow> ('t, 'f, 'c) relay" where
  "finish s = (cancel_ctx s)\<lparr>r_pc := M_over\<rparr>"

definition report_error :: "err \<Rightarrow> ('t, 'f, 'c) relay \<Rightarrow> ('t, 'f, 'c) relay" where
  "report_error e s = s\<lparr>r_pc := M_error e\<rparr>"

definition send_error :: "err \<Rightarrow> ('t, 'f, 'c) relay \<Rightarrow> ('t, 'f, 'c) relay call" where
  "send_error e s = step_of (map_option (\<lambda>c. s\<lparr>errorC := c, r_pc := M_select\<rparr>) (chan_send e (errorC s)))"

subsection \<open>Payouts\<close>

text \<open>
  The new element and the goroutines of a payout; the first argument is the answer of BidStatus.
\<close>

definition pbs_create ::
  "err + BidStatus \<Rightarrow> PayoutWithData \<Rightarrow> ('t, 'f, 'c) relay \<Rightarrow> err + (payoutWithBidStatus \<times> ('t, 'f, 'c) relay)" where
  "pbs_create answer pwd s =
     (case answer of
        Inl e \<Rightarrow> Inl e
      | Inr bs \<Rightarrow>
          let d = pw_data pwd;
              w = \<lparr>pw_ctx = next_ctx s, pw_start = pd_start d, pw_end = pd_start d + pd_length d\<rparr>
          in Inr (\<lparr>Pwd = pwd, Status = bs, pbs_ctx = next_ctx s, bi_list = CreateGeneric, bi_m = Map.empty\<rparr>,
                  s\<lparr>next_ctx := next_ctx s + 1,
                    bid_watches := if st_IsFinal bs then bid_watches s else bid_watches s @ [w],
                    end_watches := end_watches s @ [w]\<rparr>))"

definition set_list :: "payoutWithBidStatus Generic \<Rightarrow> ('t, 'f, 'c) relay \<Rightarrow> ('t, 'f, 'c) relay" where
  "set_list g s = s\<lparr>r_periods := (r_periods s)\<lparr>pi_list := g\<rparr>\<rparr>"

definition replace_pwd ::
  "ptr \<Rightarrow> PayoutWithData \<Rightarrow> ('t, 'f, 'c) relay \<Rightarrow> ('t, 'f, 'c) relay call" where
  "replace_pwd a pwd s =
     (case Value a (pi_list (r_periods s)) of
        None \<Rightarrow> Some Panic
      | Some v \<Rightarrow> returns (set_list (ChangeValue a (v\<lparr>Pwd := pwd\<rparr>) (pi_list (r_periods s))) s))"

definition on_relay_payout ::
  "err + BidStatus \<Rightarrow> PayoutWithData \<Rightarrow> ('t, 'f, 'c) relay \<Rightarrow> ('t, 'f, 'c) relay call" where
  "on_relay_payout answer pwd s =
     (let d = pw_data pwd
      in if pd_start d + pd_length d \<le> r_slot s then returns s
         else and_then (find_period (pd_start d) (r_periods s)) (\<lambda>(exact, appendTarget).
           case (exact, appendTarget) of
             (Some a, _) \<Rightarrow> replace_pwd a pwd s
           | (None, Some a) \<Rightarrow>
               (case pbs_create answer pwd s of
                  Inl e \<Rightarrow> returns (report_error e s)
                | Inr (v, s1) \<Rightarrow>
                    (case Insert v (Some a) (pi_list (r_periods s1)) of
                       Panic \<Rightarrow> Some Panic
                     | Ret (_, g) \<Rightarrow> returns (set_list g s1)))
           | (None, None) \<Rightarrow>
               (case pbs_create answer pwd s of
                  Inl e \<Rightarrow> returns (report_error e s)
                | Inr (v, s1) \<Rightarrow> returns (set_list (snd (Append v (pi_list (r_periods s1)))) s1))))"

definition on_delete_payout :: "uint64 \<Rightarrow> ('t, 'f, 'c) relay \<Rightarrow> ('t, 'f, 'c) relay call" where
  "on_delete_payout startTime s =
     (case pi_m (r_periods s) startTime of
        None \<Rightarrow> returns s
      | Some a \<Rightarrow>
          (case Value a (pi_list (r_periods s)) of
             None \<Rightarrow> Some Panic
           | Some v \<Rightarrow>
               returns (s\<lparr>r_periods := \<lparr>pi_list = Remove (Some a) (pi_list (r_periods s)), pi_m = (pi_m (r_periods s))(startTime := None)\<rparr>,
                 stopped_ctx := pbs_ctx v # stopped_ctx s\<rparr>)))"

subsection \<open>Bids\<close>

definition after_bids :: "ptr \<Rightarrow> bid list \<Rightarrow> BidStatus \<Rightarrow> nat Generic \<Rightarrow> main_pc" where
  "after_bids a bs st newList = (if bs = [] then M_select else M_bids a bs st newList)"

definition on_bid_status :: "uint64 \<Rightarrow> BidStatus \<Rightarrow> ('t, 'f, 'c) relay \<Rightarrow> ('t, 'f, 'c) relay call" where
  "on_bid_status startTime st s =
     and_then (find_period startTime (r_periods s)) (\<lambda>(node, _).
       case node of
         None \<Rightarrow> returns s
       | Some a \<Rightarrow> returns (s\<lparr>r_pc := after_bids a (st_Bid st) st CreateGeneric\<rparr>))"

definition bid_with_total :: "payoutWithBidStatus \<Rightarrow> bid \<Rightarrow> BidStatus \<Rightarrow> BidWithTotal" where
  "bid_with_total v b st = \<lparr>bw_Start = pstart v, bw_Length = pd_length (pw_data (Pwd v)), bw_Bid = b,
     bw_TotalDeposit = st_TotalDeposits st\<rparr>"

text \<open>
  The worker of one bid: the one behind the node of an earlier status, the one of the user, or a new
  one. A node of an earlier status is removed from the old list and its worker appended to the new one.
  The result has the worker, whether it is new, the two lists and the state.
\<close>

definition worker_of_bid :: "'f floats \<Rightarrow> payoutWithBidStatus \<Rightarrow> bid \<Rightarrow> BidStatus \<Rightarrow> nat Generic \<Rightarrow> ('t, 'f, 'c) relay
    \<Rightarrow> (nat \<times> bool \<times> nat Generic \<times> nat Generic \<times> ('t, 'f, 'c) relay) call" where
  "worker_of_bid fl v b st newList s =
     (case bi_m v (User b) of
        Some n \<Rightarrow>
          (case Value n (bi_list v) of
             None \<Rightarrow> Some Panic
           | Some i \<Rightarrow>
               let old = Remove (Some n) (bi_list v) in returns (i, False, old, snd (Append i (on_heap old newList)), s))
      | None \<Rightarrow>
          (case bidderMap s (User b) of
             Some i \<Rightarrow> returns (i, False, bi_list v, on_heap (bi_list v) newList, s)
           | None \<Rightarrow>
               let i = length (bidders s)
               in returns (i, True, bi_list v, on_heap (bi_list v) newList,
                    s\<lparr>bidders := bidders s @ [(bidder_create fl (bid_with_total v b st))\<lparr>b_cancelled := r_cancelled s\<rparr>],
                      bidderMap := (bidderMap s)(User b \<mapsto> i)\<rparr>)))"

text \<open>The send on the channel of the worker, which may have to wait; it is given up when the context is done.\<close>

definition send_bid :: "bool \<Rightarrow> nat \<Rightarrow> BidWithTotal \<Rightarrow> ('t, 'f, 'c) relay \<Rightarrow> ('t, 'f, 'c) relay call" where
  "send_bid give_up i bw s =
     (if give_up then (if r_cancelled s then returns s else None)
      else if i < length (bidders s)
      then step_of (map_option (\<lambda>c. s\<lparr>bidders := (bidders s)[i := (bidders s ! i)\<lparr>b_bidC := c\<rparr>]\<rparr>)
             (chan_send bw (b_bidC (bidders s ! i))))
      else Some Panic)"

definition next_bid :: "'f floats \<Rightarrow> bool \<Rightarrow> ('t, 'f, 'c) relay \<Rightarrow> ('t, 'f, 'c) relay call" where
  "next_bid fl give_up s =
     (case r_pc s of
        M_bids a (b # bs) st newList \<Rightarrow>
          (case Value a (pi_list (r_periods s)) of
             None \<Rightarrow> Some Panic
           | Some v \<Rightarrow>
               and_then (worker_of_bid fl v b st newList s) (\<lambda>(i, fresh, old, new1, s1).
               and_then (if fresh then returns s1 else send_bid give_up i (bid_with_total v b st) s1) (\<lambda>s2.
                 let (p, new2) = Append i new1;
                     v' = v\<lparr>bi_list := on_heap new2 old, bi_m := (bi_m v)(User b \<mapsto> p)\<rparr>
                 in returns ((set_list (ChangeValue a v' (pi_list (r_periods s2))) s2)\<lparr>r_pc := after_bids a bs st new2\<rparr>))))
      | _ \<Rightarrow> None)"

subsection \<open>Validators\<close>

text \<open>
  A validator is announced with its key and its vote account. The connection is looked up by the vote
  account and stored by the key. The answers of the router and of the script builder are arguments.
  A failing script builder ends the loop.
\<close>

definition on_any_validator ::
  "(pubkey \<Rightarrow> err + pubkey) \<Rightarrow> err option \<Rightarrow> pubkey \<Rightarrow> pubkey \<Rightarrow> ('t, 'f, 'c) relay \<Rightarrow> ('t, 'f, 'c) relay call" where
  "on_any_validator byVote scriptErr i vote s =
     (case validatorConnectionMap s vote of
        Some vc \<Rightarrow> returns (s\<lparr>validatorConnectionMap := (validatorConnectionMap s)(vote \<mapsto> vc\<lparr>vc_vote := vote\<rparr>)\<rparr>)
      | None \<Rightarrow>
          (case byVote vote of
             Inl _ \<Rightarrow> Some Panic
           | Inr validator \<Rightarrow>
               if scriptErr \<noteq> None then returns (finish s)
               else returns (s\<lparr>validatorConnectionMap := (validatorConnectionMap s)(i \<mapsto>
                        \<lparr>vc_vote = vote, vc_client = None, vc_connector = length (connectors s), vc_feed = None\<rparr>),
                      connectors := connectors s @ [new_connector validator]\<rparr>)))"

definition on_validator_update :: "err + pubkey \<Rightarrow> pubkey \<Rightarrow> uint64 \<Rightarrow> uint64 \<Rightarrow> ('t, 'f, 'c) relay \<Rightarrow> ('t, 'f, 'c) relay" where
  "on_validator_update data i a f s =
     (case data of Inl _ \<Rightarrow> s | Inr vote \<Rightarrow> s\<lparr>inserters := inserters s @ [new_inserter i vote a f]\<rparr>)"

definition createValidatorFeed :: "'f floats \<Rightarrow> validatorInsertInfo \<Rightarrow> 'c chan \<Rightarrow> ('t, 'f, 'c) relay
    \<Rightarrow> validatorFeed \<times> ('t, 'f, 'c) relay" where
  "createValidatorFeed fl u cc s =
     (\<lparr>vf_worker = length (feeds s), vf_vote = ii_vote u, vf_id = ii_id u, vf_periodC = ii_periodC u\<rparr>,
      s\<lparr>feeds := feeds s @ [(new_feed fl cc)\<lparr>v_cancelled := r_cancelled s\<rparr>]\<rparr>)"

definition client_chan :: "'c option \<Rightarrow> 'c chan" where
  "client_chan c = \<lparr>cbuf = (case c of None \<Rightarrow> [] | Some x \<Rightarrow> [x]), ccap = 1\<rparr>"

text \<open>The new period for a feed that exists: it waits for room, or for the end of the feed or of the relay.\<close>

definition send_period :: "bool \<Rightarrow> validatorFeed \<Rightarrow> validatorInsertInfo \<Rightarrow> ('t, 'f, 'c) relay \<Rightarrow> ('t, 'f, 'c) relay call" where
  "send_period give_up vf u s =
     (if give_up
      then (if r_cancelled s \<or> v_cancelled (feeds s ! vf_worker vf) then returns (s\<lparr>r_pc := M_select\<rparr>) else None)
      else let k = vf_periodC vf
           in step_of (map_option (\<lambda>c. s\<lparr>inserters := (inserters s)[k := (inserters s ! k)\<lparr>in_periodC := c\<rparr>], r_pc := M_select\<rparr>)
                (chan_send (ii_start u, ii_finish u) (in_periodC (inserters s ! k)))))"

definition update_validators ::
  "'f floats \<Rightarrow> err option \<Rightarrow> validatorInsertInfo \<Rightarrow> ('t, 'f, 'c) relay \<Rightarrow> ('t, 'f, 'c) relay" where
  "update_validators fl scriptErr u s =
     (case validatorConnectionMap s (ii_id u) of
        None \<Rightarrow> s
      | Some vc \<Rightarrow>
          (case vc_feed vc of
             Some vf \<Rightarrow> s\<lparr>r_pc := M_period vf u\<rparr>
           | None \<Rightarrow>
               if scriptErr \<noteq> None then s
               else (case createValidatorFeed fl u (client_chan (vc_client vc)) s of
                       (vf, s1) \<Rightarrow> s1\<lparr>validatorConnectionMap :=
                          (validatorConnectionMap s1)(ii_id u \<mapsto> vc\<lparr>vc_feed := Some vf\<rparr>)\<rparr>)))"

definition on_delete_validator :: "pubkey \<Rightarrow> ('t, 'f, 'c) relay \<Rightarrow> ('t, 'f, 'c) relay" where
  "on_delete_validator k s =
     (case validatorConnectionMap s k of
        None \<Rightarrow> s
      | Some vc \<Rightarrow>
          (case vc_feed vc of
             None \<Rightarrow> s
           | Some vf \<Rightarrow>
               s\<lparr>feeds := (feeds s)[vf_worker vf := (feeds s ! vf_worker vf)\<lparr>v_cancelled := True\<rparr>],
                 validatorConnectionMap := (validatorConnectionMap s)(k \<mapsto> vc\<lparr>vc_feed := None\<rparr>)\<rparr>))"

definition on_connection :: "pubkey \<Rightarrow> 'c \<Rightarrow> ('t, 'f, 'c) relay \<Rightarrow> ('t, 'f, 'c) relay" where
  "on_connection k cl s =
     (case validatorConnectionMap s k of
        None \<Rightarrow> s
      | Some vc \<Rightarrow> s\<lparr>validatorConnectionMap := (validatorConnectionMap s)(k \<mapsto> vc\<lparr>vc_client := Some cl\<rparr>)\<rparr>)"

definition on_tps_change :: "'f floats \<Rightarrow> 'f \<Rightarrow> ('t, 'f, 'c) relay \<Rightarrow> ('t, 'f, 'c) relay" where
  "on_tps_change fl d s =
     (let x = f_add fl (r_pipelineTps s) d in s\<lparr>r_pipelineTps := x, sent_tps := sent_tps s @ [x]\<rparr>)"

text \<open>The channel of the worker of a bidder, for a call of Submit.\<close>

definition on_submit_request :: "pubkey \<Rightarrow> ('t, 'f, 'c) relay \<Rightarrow> ('t, 'f, 'c) relay" where
  "on_submit_request sender s =
     (case bidderMap s sender of Some i \<Rightarrow> s\<lparr>granted := granted s @ [i]\<rparr> | None \<Rightarrow> s)"

subsection \<open>The select statement\<close>

text \<open>
  A case of the select statement. Messages from outside are arguments; those of the goroutines are
  taken from the channels.
\<close>

datatype main_label =
  PayoutMsg "err + BidStatus" PayoutWithData
  | StatusMsg nat BidStatus
  | BidMsg bool
  | DeleteMsg
  | SlotMsg uint64
  | AnyValidatorMsg "pubkey \<Rightarrow> err + pubkey" "err option" pubkey pubkey
  | ValidatorMsg "err + pubkey" pubkey uint64 uint64
  | InsertMsg "err option"
  | PeriodMsg bool
  | ErrorMsg
  | DeleteValidatorMsg
  | ConnMsg
  | TpsMsg
  | SubmitMsg pubkey
  | MainError
  | SubFailed
  | MainDone

definition receive :: "('s \<Rightarrow> 'm chan) \<Rightarrow> ('m chan \<Rightarrow> 's \<Rightarrow> 's) \<Rightarrow> ('m \<Rightarrow> 's \<Rightarrow> 's call) \<Rightarrow> 's \<Rightarrow> 's call" where
  "receive get put f s = (case chan_recv (get s) of None \<Rightarrow> None | Some (m, c) \<Rightarrow> f m (put c s))"

fun on_select :: "'f floats \<Rightarrow> main_label \<Rightarrow> ('t, 'f, 'c) relay \<Rightarrow> ('t, 'f, 'c) relay call" where
  "on_select fl (PayoutMsg answer pwd) s = on_relay_payout answer pwd s"
| "on_select fl (StatusMsg i st) s =
     (if i < length (bid_watches s) then on_bid_status (pw_start (bid_watches s ! i)) st s else None)"
| "on_select fl (BidMsg give_up) s = None"
| "on_select fl (PeriodMsg give_up) s = None"
| "on_select fl ErrorMsg s = None"
| "on_select fl DeleteMsg s = receive deletePayoutC (\<lambda>c s. s\<lparr>deletePayoutC := c\<rparr>) on_delete_payout s"
| "on_select fl (SlotMsg n) s = returns (s\<lparr>r_slot := n\<rparr>)"
| "on_select fl (AnyValidatorMsg byVote e i vote) s = on_any_validator byVote e i vote s"
| "on_select fl (ValidatorMsg data i a f) s = returns (on_validator_update data i a f s)"
| "on_select fl (InsertMsg e) s =
     receive insertValidatorC (\<lambda>c s. s\<lparr>insertValidatorC := c\<rparr>) (\<lambda>u s. returns (update_validators fl e u s)) s"
| "on_select fl DeleteValidatorMsg s =
     receive deleteValidatorC (\<lambda>c s. s\<lparr>deleteValidatorC := c\<rparr>) (\<lambda>k s. returns (on_delete_validator k s)) s"
| "on_select fl ConnMsg s =
     receive validatorConnC (\<lambda>c s. s\<lparr>validatorConnC := c\<rparr>) (\<lambda>(k, cl) s. returns (on_connection k cl s)) s"
| "on_select fl TpsMsg s = receive totalTpsC (\<lambda>c s. s\<lparr>totalTpsC := c\<rparr>) (\<lambda>d s. returns (on_tps_change fl d s)) s"
| "on_select fl (SubmitMsg sender) s = returns (on_submit_request sender s)"
| "on_select fl MainError s = receive errorC (\<lambda>c s. s\<lparr>errorC := c\<rparr>) (\<lambda>_ s. returns (finish s)) s"
| "on_select fl SubFailed s = returns (finish s)"
| "on_select fl MainDone s = (if r_cancelled s then returns (finish s) else None)"

definition main_step :: "'f floats \<Rightarrow> main_label \<Rightarrow> ('t, 'f, 'c) relay \<Rightarrow> ('t, 'f, 'c) relay call" where
  "main_step fl l s =
     (case r_pc s of
        M_select \<Rightarrow> on_select fl l s
      | M_bids _ _ _ _ \<Rightarrow> (case l of BidMsg give_up \<Rightarrow> next_bid fl give_up s | _ \<Rightarrow> None)
      | M_period vf u \<Rightarrow> (case l of PeriodMsg give_up \<Rightarrow> send_period give_up vf u s | _ \<Rightarrow> None)
      | M_error e \<Rightarrow> (case l of ErrorMsg \<Rightarrow> send_error e s | _ \<Rightarrow> None)
      | M_over \<Rightarrow> None)"

section \<open>The relay with its goroutines\<close>

text \<open>
  Next to the main loop: a client that hands a transaction to the worker of its bidder, a bidder that
  hands one to the reader of a validator, and the steps of every goroutine of its own. A goroutine
  whose context is done may end; the contexts of all of them are children of that of the relay.
\<close>

definition without :: "nat \<Rightarrow> 'a list \<Rightarrow> 'a list" where
  "without k xs = take k xs @ drop (Suc k) xs"

definition at_index :: "nat \<Rightarrow> ('a \<Rightarrow> 'a call) \<Rightarrow> 'a list \<Rightarrow> 'a list call" where
  "at_index i f xs = (if i < length xs then and_then (f (xs ! i)) (\<lambda>x. returns (xs[i := x])) else None)"

fun own_bidder_label :: "('t, 'f) bidder_label \<Rightarrow> bool" where
  "own_bidder_label TxForwarded = False"
| "own_bidder_label (ReaderTakes t) = False"
| "own_bidder_label Cancelled = False"
| "own_bidder_label _ = True"

fun own_feed_label :: "('t, 'f, 'c) feed_label \<Rightarrow> bool" where
  "own_feed_label ChangeReported = False"
| "own_feed_label (FeedTakes t) = False"
| "own_feed_label FeedCancelled = False"
| "own_feed_label _ = True"

datatype ('t, 'f, 'c) relay_label =
  Main main_label
  | Stop
  | Submitted nat 't
  | Passed nat nat
  | OfBidder nat "('t, 'f) bidder_label"
  | OfFeed nat "('t, 'f, 'c) feed_label"
  | Reported nat
  | OfConnector nat "'c connector_label"
  | OfInserter nat inserter_label
  | EndReached nat uint64
  | BidWatchEnds nat "err option"
  | EndWatchEnds nat "err option"

definition bidders_do ::
  "nat \<Rightarrow> (('t, 'f) bidder \<Rightarrow> ('t, 'f) bidder call) \<Rightarrow> ('t, 'f, 'c) relay \<Rightarrow> ('t, 'f, 'c) relay call" where
  "bidders_do i f s = and_then (at_index i f (bidders s)) (\<lambda>bs. returns (s\<lparr>bidders := bs\<rparr>))"

definition feeds_do ::
  "nat \<Rightarrow> (('t, 'f, 'c) feed \<Rightarrow> ('t, 'f, 'c) feed call) \<Rightarrow> ('t, 'f, 'c) relay \<Rightarrow> ('t, 'f, 'c) relay call" where
  "feeds_do i f s = and_then (at_index i f (feeds s)) (\<lambda>vs. returns (s\<lparr>feeds := vs\<rparr>))"

text \<open>The transaction that a bidder offers to the validators, and the rendezvous.\<close>

definition offered :: "nat \<Rightarrow> ('t, 'f, 'c) relay \<Rightarrow> 't option" where
  "offered i s = (if i < length (bidders s) then (case b_pc (bidders s ! i) of B_forward t \<Rightarrow> Some t | _ \<Rightarrow> None) else None)"

definition pass_on :: "'f floats \<Rightarrow> nat \<Rightarrow> nat \<Rightarrow> ('t, 'f, 'c) relay \<Rightarrow> ('t, 'f, 'c) relay call" where
  "pass_on fl i j s =
     (case offered i s of
        None \<Rightarrow> None
      | Some t \<Rightarrow> and_then (feeds_do j (loopValidatorInternal fl (FeedTakes t)) s)
                    (bidders_do i (bidder_step fl TxForwarded)))"

definition report_change :: "'f floats \<Rightarrow> nat \<Rightarrow> ('t, 'f, 'c) relay \<Rightarrow> ('t, 'f, 'c) relay call" where
  "report_change fl j s =
     (if j < length (feeds s)
      then (case v_pc (feeds s ! j) of
              V_report d \<Rightarrow>
                (case chan_send d (totalTpsC s) of
                   None \<Rightarrow> None
                 | Some c \<Rightarrow> feeds_do j (loopValidatorInternal fl ChangeReported) (s\<lparr>totalTpsC := c\<rparr>))
            | _ \<Rightarrow> None)
      else None)"

definition connector_step :: "nat \<Rightarrow> 'c connector_label \<Rightarrow> ('t, 'f, 'c) relay \<Rightarrow> ('t, 'f, 'c) relay call" where
  "connector_step k l s =
     (if k < length (connectors s)
      then (let c = connectors s ! k;
                s1 = (case (l, co_pc c) of
                        (Delivered, C_deliver cl) \<Rightarrow>
                          map_option (\<lambda>d. s\<lparr>validatorConnC := d\<rparr>) (chan_send (co_id c, cl) (validatorConnC s))
                      | (FailureSent, C_fail e) \<Rightarrow> map_option (\<lambda>d. s\<lparr>errorC := d\<rparr>) (chan_send e (errorC s))
                      | (ConnectorEnds, _) \<Rightarrow> (if r_cancelled s then Some s else None)
                      | _ \<Rightarrow> Some s)
            in and_then (step_of s1) (\<lambda>s.
               and_then (at_index k (\<lambda>c. step_of (loopValidatorConnect l c)) (connectors s)) (\<lambda>cs.
               returns (s\<lparr>connectors := cs\<rparr>))))
      else None)"

definition insert_info :: "nat \<Rightarrow> inserter \<Rightarrow> validatorInsertInfo" where
  "insert_info k i = \<lparr>ii_id = in_id i, ii_start = in_vu_start i, ii_finish = in_vu_finish i, ii_vote = in_vote i, ii_periodC = k\<rparr>"

definition inserter_step :: "nat \<Rightarrow> inserter_label \<Rightarrow> ('t, 'f, 'c) relay \<Rightarrow> ('t, 'f, 'c) relay call" where
  "inserter_step k l s =
     (if k < length (inserters s)
      then (let i = inserters s ! k;
                s1 = (case l of
                        InsertSent \<Rightarrow> map_option (\<lambda>d. s\<lparr>insertValidatorC := d\<rparr>) (chan_send (insert_info k i) (insertValidatorC s))
                      | DeleteSent \<Rightarrow> map_option (\<lambda>d. s\<lparr>deleteValidatorC := d\<rparr>) (chan_send (in_vote i) (deleteValidatorC s))
                      | InserterEnds \<Rightarrow> (if r_cancelled s then Some s else None)
                      | InserterFails e \<Rightarrow> map_option (\<lambda>d. s\<lparr>errorC := d\<rparr>) (chan_send e (errorC s))
                      | _ \<Rightarrow> Some s)
            in and_then (step_of s1) (\<lambda>s.
               and_then (at_index k (\<lambda>i. step_of (loopInsertDeleteValidator l i)) (inserters s)) (\<lambda>is.
               returns (s\<lparr>inserters := is\<rparr>))))
      else None)"

text \<open>The goroutine that waits for the end of a payout sends its start once.\<close>

definition loopDeletePayout :: "nat \<Rightarrow> uint64 \<Rightarrow> ('t, 'f, 'c) relay \<Rightarrow> ('t, 'f, 'c) relay call" where
  "loopDeletePayout k n s =
     (if k < length (end_watches s) \<and> pw_end (end_watches s ! k) \<le> n
      then step_of (map_option (\<lambda>c. s\<lparr>deletePayoutC := c, end_watches := without k (end_watches s)\<rparr>)
             (chan_send (pw_start (end_watches s ! k)) (deletePayoutC s)))
      else None)"

text \<open>The end of the goroutines of a payout: the context is done, or the subscription has failed.\<close>

definition watch_ends :: "payout_watch \<Rightarrow> err option \<Rightarrow> ('t, 'f, 'c) relay \<Rightarrow> ('t, 'f, 'c) relay call" where
  "watch_ends w e s =
     (case e of
        None \<Rightarrow> if r_cancelled s \<or> pw_ctx w \<in> set (stopped_ctx s) then returns s else None
      | Some x \<Rightarrow> step_of (map_option (\<lambda>c. s\<lparr>errorC := c\<rparr>) (chan_send x (errorC s))))"

definition bid_watch_ends :: "nat \<Rightarrow> err option \<Rightarrow> ('t, 'f, 'c) relay \<Rightarrow> ('t, 'f, 'c) relay call" where
  "bid_watch_ends k e s =
     (if k < length (bid_watches s)
      then and_then (watch_ends (bid_watches s ! k) e s) (\<lambda>s. returns (s\<lparr>bid_watches := without k (bid_watches s)\<rparr>))
      else None)"

definition end_watch_ends :: "nat \<Rightarrow> err option \<Rightarrow> ('t, 'f, 'c) relay \<Rightarrow> ('t, 'f, 'c) relay call" where
  "end_watch_ends k e s =
     (if k < length (end_watches s)
      then and_then (watch_ends (end_watches s ! k) e s) (\<lambda>s. returns (s\<lparr>end_watches := without k (end_watches s)\<rparr>))
      else None)"

fun relay_step :: "'f floats \<Rightarrow> ('t, 'f, 'c) relay_label \<Rightarrow> ('t, 'f, 'c) relay \<Rightarrow> ('t, 'f, 'c) relay call" where
  "relay_step fl (Main l) s = main_step fl l s"
| "relay_step fl Stop s = returns (cancel_ctx s)"
| "relay_step fl (Submitted k t) s =
     (if k < length (granted s)
      then bidders_do (granted s ! k) (bidder_step fl (ReaderTakes t)) (s\<lparr>granted := without k (granted s)\<rparr>) else None)"
| "relay_step fl (Passed i j) s = pass_on fl i j s"
| "relay_step fl (OfBidder i l) s = (if own_bidder_label l then bidders_do i (bidder_step fl l) s else None)"
| "relay_step fl (OfFeed j l) s = (if own_feed_label l then feeds_do j (loopValidatorInternal fl l) s else None)"
| "relay_step fl (Reported j) s = report_change fl j s"
| "relay_step fl (OfConnector k l) s = connector_step k l s"
| "relay_step fl (OfInserter k l) s = inserter_step k l s"
| "relay_step fl (EndReached k n) s = loopDeletePayout k n s"
| "relay_step fl (BidWatchEnds k e) s = bid_watch_ends k e s"
| "relay_step fl (EndWatchEnds k e) s = end_watch_ends k e s"

section \<open>Submit\<close>

text \<open>
  A transaction on its way carries two channels for the answer. The goroutine that sends it writes the
  first one. A call of Submit goes through four waits; the arguments say what it finds there: whether
  its context was done, whether the bidder was found, and the two channels at the end. A wait that
  nobody ends is \<^term>\<open>None\<close>.
\<close>

record submitInfo =
  si_tx :: string
  si_errorC :: "err option chan"
  si_sigC :: "string chan"

definition new_submit :: "string \<Rightarrow> submitInfo" where
  "new_submit tx = \<lparr>si_tx = tx, si_errorC = make_chan 1, si_sigC = make_chan 1\<rparr>"

definition loopSendTx :: "(string \<Rightarrow> err option) \<Rightarrow> submitInfo \<Rightarrow> submitInfo option" where
  "loopSendTx submit si = map_option (\<lambda>c. si\<lparr>si_errorC := c\<rparr>) (chan_send (submit (si_tx si)) (si_errorC si))"

definition Submit :: "bool \<Rightarrow> bool \<Rightarrow> bool \<Rightarrow> submitInfo \<Rightarrow> (err + string) call" where
  "Submit done_early found done_late si =
     (if done_early then returns (Inl ''canceled'')
      else if \<not> found then returns (Inl ''bidder not found'')
      else if done_late then returns (Inl ''canceled'')
      else case chan_recv (si_errorC si) of
          None \<Rightarrow> None
        | Some (Some e, _) \<Rightarrow> returns (Inl e)
        | Some (None, _) \<Rightarrow> (case chan_recv (si_sigC si) of None \<Rightarrow> None | Some (sig, _) \<Rightarrow> returns (Inr sig)))"

end
