(* ===== verification/RelayRuns.thy ===== *)
theory RelayRuns
  imports RelayPipeline
begin

text \<open>
  What the relay of a pipeline does in all its runs: the search for a period, the workers of the
  bidders, the connections to the validators, and the answers to a call of Submit.
\<close>

section \<open>The search for a period\<close>

text \<open>The search on the sequence of nodes and elements.\<close>

fun seek :: "uint64 \<Rightarrow> (ptr \<times> payoutWithBidStatus) list \<Rightarrow> ptr option \<times> ptr option" where
  "seek s [] = (None, None)"
| "seek s ((a, v) # r) = (if pstart v = s then (Some a, None) else if s < pstart v then (None, Some a) else seek s r)"

lemma find_loop_seek:
  assumes "linked g (xs @ ps)"
  shows "find_loop s g (hd_or ps None) = returns (seek s (map (item_at g) ps))"
  using assms
proof (induction ps arbitrary: xs)
  case Nil
  then show ?case by (simp add: find_loop.simps returns_def)
next
  case (Cons p ps)
  obtain v where v: "Value p g = Some v" using linked_Value_ex [OF Cons.prems] by auto
  have "Next p g = hd_or ps None" using linked_split(2) [OF Cons.prems] .
  moreover have "find_loop s g (hd_or ps None) = returns (seek s (map (item_at g) ps))"
    using Cons.IH [of "xs @ [p]"] Cons.prems by simp
  moreover have "item_at g p = (p, v)" using v by (simp add: item_at_def)
  ultimately show ?case using v by (simp add: find_loop.simps [of s g "Some p"] returns_def)
qed

lemma find_period_seek:
  assumes "linked (pi_list p) ps"
  shows "find_period s p =
    returns (if ps = [] \<or> pstart (val (pi_list p) (last ps)) < s then (None, None) else seek s (items (pi_list p)))"
proof (cases ps rule: rev_cases)
  case Nil
  with linked_tail [OF assms] show ?thesis by (simp add: find_period_def TailNode_def)
next
  case (snoc qs t)
  then obtain v where v: "Value t (pi_list p) = Some v" using linked_Value_ex [OF assms] by auto
  have "TailNode (pi_list p) = Some t" "HeadNode (pi_list p) = hd_or ps None"
    using snoc linked_tail [OF assms] linked_head [OF assms] by (simp_all add: TailNode_def HeadNode_def)
  with v snoc find_loop_seek [of "pi_list p" "[]" ps s] assms show ?thesis
    by (simp add: find_period_def items_linked)
qed

lemma seek_in: "seek s xs = (Some a, t) \<Longrightarrow> \<exists>v. (a, v) \<in> set xs \<and> pstart v = s"
  "seek s xs = (e, Some a) \<Longrightarrow> \<exists>v. (a, v) \<in> set xs \<and> s < pstart v"
  by (induction xs) (auto split: if_splits)

lemma seek_before:
  "(\<And>x. x \<in> set xs \<Longrightarrow> pstart (snd x) < s) \<Longrightarrow> seek s (xs @ ys) = seek s ys"
proof (induction xs)
  case (Cons x xs)
  obtain a v where x: "x = (a, v)" by (cases x)
  have "\<not> s < pstart v" "pstart v \<noteq> s" using Cons.prems [of x] x by (auto dest: less_asym)
  then show ?case using Cons x by simp
qed simp

lemma seek_exact:
  assumes "sorted_wrt (\<lambda>x y. pstart (snd x) < pstart (snd y)) xs" "(a, v) \<in> set xs" "pstart v = s"
  shows "seek s xs = (Some a, None)"
proof -
  from assms(2) obtain ys zs where xs: "xs = ys @ (a, v) # zs" by (meson split_list)
  with assms(1,3) have "pstart (snd x) < s" if "x \<in> set ys" for x using that by (auto simp: sorted_wrt_append)
  then show ?thesis using seek_before [of ys s "(a, v) # zs"] assms(3) xs by simp
qed

lemma find_period_total:
  assumes "list_inv (pi_list p)"
  shows "\<exists>e t. find_period s p = returns (e, t) \<and> (\<forall>a. e = Some a \<longrightarrow> (\<exists>v. (a, v) \<in> set (items (pi_list p)) \<and> pstart v = s))
    \<and> (\<forall>a. t = Some a \<longrightarrow> (\<exists>v. (a, v) \<in> set (items (pi_list p)) \<and> s < pstart v))"
proof -
  obtain ps where l: "linked (pi_list p) ps" using assms by (auto simp: list_inv_def)
  obtain e t where "seek s (items (pi_list p)) = (e, t)" by fastforce
  with find_period_seek [OF l, of s] seek_in [of s "items (pi_list p)"] show ?thesis by auto
qed

text \<open>What a payout does to the list of periods, on every branch.\<close>

abbreviation periods_of :: "('t, 'f, 'c) relay \<Rightarrow> (ptr \<times> payoutWithBidStatus) list" where
  "periods_of s \<equiv> items (pi_list (r_periods s))"

lemma set_list_simps [simp]:
  "r_periods (set_list g s) = (r_periods s)\<lparr>pi_list := g\<rparr>" "bidders (set_list g s) = bidders s"
  "bidderMap (set_list g s) = bidderMap s" "r_pc (set_list g s) = r_pc s" "feeds (set_list g s) = feeds s"
  "connectors (set_list g s) = connectors s" "validatorConnectionMap (set_list g s) = validatorConnectionMap s"
  "validatorConnC (set_list g s) = validatorConnC s" "stopped_ctx (set_list g s) = stopped_ctx s"
  "r_slot (set_list g s) = r_slot s" "r_cancelled (set_list g s) = r_cancelled s"
  by (simp_all add: set_list_def)

lemma pbs_create_Inr:
  assumes "pbs_create answer pwd s = Inr (v, s1)"
  shows "r_periods s1 = r_periods s" "bidders s1 = bidders s" "bidderMap s1 = bidderMap s" "r_pc s1 = r_pc s"
    "feeds s1 = feeds s" "connectors s1 = connectors s" "validatorConnectionMap s1 = validatorConnectionMap s"
    "validatorConnC s1 = validatorConnC s" "stopped_ctx s1 = stopped_ctx s" "r_slot s1 = r_slot s"
    "Pwd v = pwd" "bi_m v = Map.empty" "bi_list v = CreateGeneric"
  using assms by (auto simp: pbs_create_def Let_def split: sum.splits)

text \<open>
  A payout that comes in order: it starts after all the others and goes to the end of the list, where
  it is found.
\<close>

lemma on_relay_payout_append:
  fixes s :: "('t, 'f, 'c) relay"
  assumes "list_inv (pi_list (r_periods s))" "r_slot s < start_of pwd + pd_length (pw_data pwd)"
    "\<forall>x \<in> set (periods_of s). pstart (snd x) < start_of pwd"
  shows "\<exists>s' v. on_relay_payout (Inr bs) pwd s = returns s' \<and> list_inv (pi_list (r_periods s'))
    \<and> periods_of s' = periods_of s @ [(brk (pi_list (r_periods s)), v)] \<and> Pwd v = pwd \<and> Status v = bs
    \<and> r_slot s' = r_slot s"
proof -
  let ?g = "pi_list (r_periods s)"
  obtain ps where l: "linked ?g ps" using assms(1) by (auto simp: list_inv_def)
  have "pstart (val ?g p) < start_of pwd" if "p \<in> set ps" for p
    using assms(3) that by (simp add: items_linked [OF l] item_at_def)
  then have f: "find_period (start_of pwd) (r_periods s) = returns (None, None)"
    using find_period_seek [OF l, of "start_of pwd"] by (cases ps rule: rev_cases) auto
  obtain v s1 where c: "pbs_create (Inr bs) pwd s = Inr (v, s1)" by (simp add: pbs_create_def Let_def)
  have st: "Status v = bs" using c by (auto simp: pbs_create_def Let_def)
  note c' = pbs_create_Inr [OF c]
  have e: "on_relay_payout (Inr bs) pwd s = returns (set_list (snd (Append v ?g)) s1)"
    using assms(2) f c c'(1) by (simp add: on_relay_payout_def Let_def not_le)
  show ?thesis using linked_Append [OF l, of v] c' st
    by (intro exI [of _ "set_list (snd (Append v ?g)) s1"] exI [of _ v]) (auto simp: e list_inv_def)
qed
lemma sorted_found:
  assumes "list_inv (pi_list p)" "sorted_wrt (\<lambda>x y. pstart (snd x) < pstart (snd y)) (items (pi_list p))"
    "(a, v) \<in> set (items (pi_list p))"
  shows "find_period (pstart v) p = returns (Some a, None)"
proof -
  obtain ps where l: "linked (pi_list p) ps" using assms(1) by (auto simp: list_inv_def)
  have "ps \<noteq> []" "\<not> pstart (val (pi_list p) (last ps)) < pstart v"
  proof -
    show "ps \<noteq> []" using assms(3) l by (auto simp: items_linked)
    then obtain qs t where ps: "ps = qs @ [t]" by (metis rev_exhaust)
    show "\<not> pstart (val (pi_list p) (last ps)) < pstart v"
      using assms(2,3) ps by (auto simp: items_linked [OF l] item_at_def sorted_wrt_append dest: less_asym)
  qed
  then show ?thesis using find_period_seek [OF l, of "pstart v"] seek_exact [OF assms(2,3)] by simp
qed

lemma payouts_append:
  fixes s :: "('t, 'f, 'c) relay"
  assumes "list_inv (pi_list (r_periods s))" "sorted_wrt (<) (map (pstart \<circ> snd) (periods_of s) @ map (start_of \<circ> snd) ms)"
    "\<forall>(bs, pwd) \<in> set ms. r_slot s < start_of pwd + pd_length (pw_data pwd)"
  shows "\<exists>s'. calls (\<lambda>(bs, pwd). on_relay_payout (Inr bs) pwd) ms s = returns s' \<and> list_inv (pi_list (r_periods s'))
    \<and> map (Pwd \<circ> snd) (periods_of s') = map (Pwd \<circ> snd) (periods_of s) @ map snd ms"
  using assms
proof (induction ms arbitrary: s)
  case Nil
  then show ?case by auto
next
  case (Cons m ms)
  obtain bs pwd where m: "m = (bs, pwd)" by (cases m)
  have "\<forall>x \<in> set (periods_of s). pstart (snd x) < start_of pwd" using Cons.prems(2) m by (auto simp: sorted_wrt_append)
  then obtain s1 v where s1: "on_relay_payout (Inr bs) pwd s = returns s1" "list_inv (pi_list (r_periods s1))"
      "periods_of s1 = periods_of s @ [(brk (pi_list (r_periods s)), v)]" "Pwd v = pwd" "r_slot s1 = r_slot s"
    using on_relay_payout_append [of s pwd bs] Cons.prems(1,3) m by auto
  with Cons.IH [OF s1(2)] Cons.prems(2,3) m show ?case by auto
qed

text \<open>
  Payouts that arrive in the order of their periods and have not ended are all kept, in that
  order, and the search finds each of them under its start.
\<close>

theorem payouts_in_order_found:
  fixes fl :: "'f floats"
  assumes "sorted_wrt (<) (map (start_of \<circ> snd) ms)" "\<forall>(bs, pwd) \<in> set ms. 0 < start_of pwd + pd_length (pw_data pwd)"
  shows "\<exists>s. calls (\<lambda>(bs, pwd). on_relay_payout (Inr bs) pwd) ms (relay_start fl :: ('t, 'f, 'c) relay) = returns s
    \<and> map (Pwd \<circ> snd) (periods_of s) = map snd ms
    \<and> (\<forall>(bs, pwd) \<in> set ms. \<exists>a v. find_period (start_of pwd) (r_periods s) = returns (Some a, None)
          \<and> Value a (pi_list (r_periods s)) = Some v \<and> Pwd v = pwd)"
proof -
  let ?s = "relay_start fl :: ('t, 'f, 'c) relay"
  have z: "periods_of ?s = []" "list_inv (pi_list (r_periods ?s))" "r_slot ?s = 0"
    using generic.create_inv generic.create_seq by (simp_all add: relay_start_def init_period_def)
  then obtain s where s: "calls (\<lambda>(bs, pwd). on_relay_payout (Inr bs) pwd) ms ?s = returns s"
      "list_inv (pi_list (r_periods s))" "map (Pwd \<circ> snd) (periods_of s) = map snd ms"
    using payouts_append [of ?s ms] assms by auto
  have "map (pstart \<circ> snd) (periods_of s) = map (start_of \<circ> snd) ms"
    using arg_cong [OF s(3), of "map start_of"] by (simp add: o_def)
  then have srt: "sorted_wrt (\<lambda>x y. pstart (snd x) < pstart (snd y)) (periods_of s)"
    using assms(1) sorted_wrt_map [of "(<)" "pstart \<circ> snd" "periods_of s"] by simp
  have "\<exists>a v. find_period (start_of pwd) (r_periods s) = returns (Some a, None)
      \<and> Value a (pi_list (r_periods s)) = Some v \<and> Pwd v = pwd" if "(bs, pwd) \<in> set ms" for bs pwd
  proof -
    from that have "pwd \<in> set (map (Pwd \<circ> snd) (periods_of s))" unfolding s(3) by force
    then obtain a v where v: "(a, v) \<in> set (periods_of s)" "Pwd v = pwd" by auto
    then show ?thesis using sorted_found [OF s(2) srt v(1)] s(2) item_Value [of "pi_list (r_periods s)" _ a v]
      by (auto simp: list_inv_def)
  qed
  with s show ?thesis by auto
qed

definition pay :: "uint64 \<Rightarrow> PayoutWithData" where
  "pay n = \<lparr>pw_id = ''p'', pw_payout = ''p'', pw_data = \<lparr>pd_pipeline = ''l'', pd_start = n, pd_length = 10\<rparr>\<rparr>"

lemma pay_simps [simp]: "start_of (pay n) = n" "pd_length (pw_data (pay n)) = 10"
  by (simp_all add: pay_def)

theorem payouts_in_order_found_witness:
  "\<exists>s. calls (\<lambda>(bs, pwd). on_relay_payout (Inr bs) pwd) [(getBlankBidStatus, pay 10), (getBlankBidStatus, pay 20)]
       (relay_start int_floats :: (nat, int, nat) relay) = returns s
    \<and> map (Pwd \<circ> snd) (periods_of s) = [pay 10, pay 20]
    \<and> (\<exists>a v. find_period 20 (r_periods s) = returns (Some a, None)
          \<and> Value a (pi_list (r_periods s)) = Some v \<and> Pwd v = pay 20)"
proof -
  let ?ms = "[(getBlankBidStatus, pay 10), (getBlankBidStatus, pay 20)]"
  have "sorted_wrt (<) (map (start_of \<circ> snd) ?ms)" "\<forall>(bs, pwd) \<in> set ?ms. 0 < start_of pwd + pd_length (pw_data pwd)"
    by simp_all
  then obtain s where s: "calls (\<lambda>(bs, pwd). on_relay_payout (Inr bs) pwd) ?ms
        (relay_start int_floats :: (nat, int, nat) relay) = returns s"
      "map (Pwd \<circ> snd) (periods_of s) = map snd ?ms"
      "\<forall>(bs, pwd) \<in> set ?ms. \<exists>a v. find_period (start_of pwd) (r_periods s) = returns (Some a, None)
          \<and> Value a (pi_list (r_periods s)) = Some v \<and> Pwd v = pwd"
    using payouts_in_order_found by blast
  have "\<exists>a v. find_period 20 (r_periods s) = returns (Some a, None)
      \<and> Value a (pi_list (r_periods s)) = Some v \<and> Pwd v = pay 20"
    using bspec [OF s(3), of "(getBlankBidStatus, pay 20)"] by simp
  with s(1,2) show ?thesis by (intro exI [of _ s]) (simp only: list.map snd_conv simp_thms)
qed

lemma find_period_items:
  assumes "linked (pi_list p) ps"
  shows "find_period s p = returns (if items (pi_list p) = [] \<or> pstart (snd (last (items (pi_list p)))) < s then (None, None)
    else seek s (items (pi_list p)))"
  unfolding find_period_seek [OF assms] items_linked [OF assms]
  by (cases ps rule: rev_cases) (simp_all add: item_at_def)

lemma find_period_first:
  assumes "linked (pi_list p) ps" "items (pi_list p) = xs @ (a, v) # ys" "\<forall>x \<in> set xs. pstart (snd x) < s"
    "s < pstart v" "\<forall>y \<in> set ys. s \<le> pstart (snd y)"
  shows "find_period s p = returns (None, Some a)"
proof -
  have "seek s (items (pi_list p)) = (None, Some a)"
    using assms(2-4) seek_before [of xs s "(a, v) # ys"] by auto
  moreover have "\<not> pstart (snd (last (items (pi_list p)))) < s"
    using assms(2,4,5) by (cases ys rule: rev_cases) (auto simp: not_less)
  ultimately show ?thesis using find_period_items [OF assms(1), of s] assms(2) by simp
qed

text \<open>
  A payout that comes late: the node found is the first that starts later, and the new element goes
  behind it.
\<close>

lemma on_relay_payout_insert:
  fixes s :: "('t, 'f, 'c) relay"
  assumes "linked (pi_list (r_periods s)) (xs @ p # ys)" "r_slot s < start_of pwd + pd_length (pw_data pwd)"
    "find_period (start_of pwd) (r_periods s) = returns (None, Some p)"
  shows "\<exists>s' v. on_relay_payout (Inr bs) pwd s = returns s' \<and> Pwd v = pwd
    \<and> linked (pi_list (r_periods s')) (xs @ p # brk (pi_list (r_periods s)) # ys)
    \<and> periods_of s' = map (item_at (pi_list (r_periods s))) (xs @ [p]) @ (brk (pi_list (r_periods s)), v)
        # map (item_at (pi_list (r_periods s))) ys"
proof -
  let ?g = "pi_list (r_periods s)"
  obtain v s1 where c: "pbs_create (Inr bs) pwd s = Inr (v, s1)" by (simp add: pbs_create_def Let_def)
  note c' = pbs_create_Inr [OF c]
  obtain g' where g': "Insert v (Some p) ?g = Ret (Some (brk ?g), g')" "linked g' (xs @ p # brk ?g # ys)"
      "items g' = map (item_at ?g) (xs @ [p]) @ (brk ?g, v) # map (item_at ?g) ys"
    by (rule linked_Insert [OF assms(1)])
  have "on_relay_payout (Inr bs) pwd s = returns (set_list g' s1)"
    using assms(2,3) c c'(1) g'(1) by (simp add: on_relay_payout_def Let_def not_le)
  then show ?thesis using g' c'(1,11) by (intro exI [of _ "set_list g' s1"] exI [of _ v]) simp
qed


text \<open>A relay that knows the period at slot 20.\<close>

definition known_20 :: "(nat, int, nat) relay" where
  "known_20 = set_list (snd (Append \<lparr>Pwd = pay 20, Status = getBlankBidStatus, pbs_ctx = 0, bi_list = CreateGeneric,
     bi_m = Map.empty\<rparr> CreateGeneric)) (relay_start int_floats)"


text \<open>The outcomes of the two longest handlers of the main loop.\<close>

lemma on_relay_payoutE:
  assumes "on_relay_payout answer pwd s = returns s'"
  obtains "s' = s"
  | a v where "Value a (pi_list (r_periods s)) = Some v" "\<exists>t. find_period (start_of pwd) (r_periods s) = returns (Some a, t)"
      "s' = set_list (ChangeValue a (v\<lparr>Pwd := pwd\<rparr>) (pi_list (r_periods s))) s"
  | e where "s' = report_error e s"
  | v s1 a q g where "pbs_create answer pwd s = Inr (v, s1)" "find_period (start_of pwd) (r_periods s) = returns (None, Some a)"
      "Insert v (Some a) (pi_list (r_periods s)) = Ret (q, g)" "s' = set_list g s1"
  | v s1 where "pbs_create answer pwd s = Inr (v, s1)" "s' = set_list (snd (Append v (pi_list (r_periods s)))) s1"
proof (cases "start_of pwd + pd_length (pw_data pwd) \<le> r_slot s")
  case True
  with assms that(1) show ?thesis by (simp add: on_relay_payout_def Let_def)
next
  case False
  then obtain e t where f: "find_period (start_of pwd) (r_periods s) = returns (e, t)"
    using assms by (auto simp: on_relay_payout_def Let_def)
  consider a where "e = Some a" | a where "e = None" "t = Some a" | "e = None" "t = None" by (cases e; cases t) auto
  then show ?thesis
  proof cases
    case (1 a)
    with assms False f have r: "replace_pwd a pwd s = returns s'" by (simp add: on_relay_payout_def Let_def)
    then obtain v where "Value a (pi_list (r_periods s)) = Some v" by (auto simp: replace_pwd_def split: option.splits)
    with r f 1 show ?thesis by (intro that(2)) (auto simp: replace_pwd_def)
  next
    case (2 a)
    show ?thesis
    proof (cases "pbs_create answer pwd s")
      case (Inl e)
      with assms False f 2 have "s' = report_error e s" by (simp add: on_relay_payout_def Let_def)
      then show ?thesis by (rule that(3))
    next
      case (Inr x)
      then obtain v s1 where c: "pbs_create answer pwd s = Inr (v, s1)" by (cases x) simp
      then obtain q g where "Insert v (Some a) (pi_list (r_periods s)) = Ret (q, g)" "s' = set_list g s1"
        using assms False f 2 pbs_create_Inr(1) [OF c] by (auto simp: on_relay_payout_def Let_def split: outcome.splits)
      with c f 2 show ?thesis by (intro that(4)) simp_all
    qed
  next
    case 3
    show ?thesis
    proof (cases "pbs_create answer pwd s")
      case (Inl e)
      with assms False f 3 have "s' = report_error e s" by (simp add: on_relay_payout_def Let_def)
      then show ?thesis by (rule that(3))
    next
      case (Inr x)
      then obtain v s1 where c: "pbs_create answer pwd s = Inr (v, s1)" by (cases x) simp
      with assms False f 3 pbs_create_Inr(1) [OF c] show ?thesis
        by (intro that(5)) (auto simp: on_relay_payout_def Let_def)
    qed
  qed
qed

lemma next_bidE:
  assumes "next_bid fl give_up s = returns s'"
  obtains a b bs st nl v i fr old n1 s1 s2 where "r_pc s = M_bids a (b # bs) st nl"
    "Value a (pi_list (r_periods s)) = Some v" "worker_of_bid fl v b st nl s = returns (i, fr, old, n1, s1)"
    "s2 = s1 \<and> fr \<or> \<not> fr \<and> send_bid give_up i (bid_with_total v b st) s1 = returns s2"
    "s' = (set_list (ChangeValue a (v\<lparr>bi_list := on_heap (snd (Append i n1)) old,
       bi_m := (bi_m v)(User b \<mapsto> fst (Append i n1))\<rparr>) (pi_list (r_periods s2))) s2)\<lparr>r_pc := after_bids a bs st (snd (Append i n1))\<rparr>"
proof -
  obtain a b bs st nl where pc: "r_pc s = M_bids a (b # bs) st nl"
    using assms by (auto simp: next_bid_def split: main_pc.splits list.splits)
  then obtain v where v: "Value a (pi_list (r_periods s)) = Some v"
    using assms by (auto simp: next_bid_def split: option.splits)
  with assms pc obtain i fr old n1 s1 where w: "worker_of_bid fl v b st nl s = returns (i, fr, old, n1, s1)"
    by (auto simp: next_bid_def)
  with assms pc v that show ?thesis by (auto simp: next_bid_def Let_def case_prod_beta split: if_splits)
qed

section \<open>Validators are never connected\<close>

text \<open>
  A connector asks for a connection when it is asked to, and nothing in the package writes to the
  channel on which it is asked. So every connector stays idle, no connection has a client, and every
  worker of a validator starts with a nil pointer for its client and an empty channel.
\<close>

definition idle_connector :: "'c connector \<Rightarrow> bool" where
  "idle_connector c \<longleftrightarrow> cbuf (pleaseConnectC c) = [] \<and> cbuf (internalPleaseConnectC c) = [] \<and> delays c = 0
     \<and> (co_pc c = C_select \<or> co_pc c = C_over)"

definition idle_feed :: "('t, 'f, 'c) feed \<Rightarrow> bool" where
  "idle_feed v \<longleftrightarrow> client v = None \<and> cbuf (clientConnC v) = [] \<and> v_out v = []"

definition idle :: "('t, 'f, 'c) relay \<Rightarrow> bool" where
  "idle s \<longleftrightarrow> (\<forall>c \<in> set (connectors s). idle_connector c) \<and> cbuf (validatorConnC s) = []
     \<and> (\<forall>k vc. validatorConnectionMap s k = Some vc \<longrightarrow> vc_client vc = None) \<and> (\<forall>v \<in> set (feeds s). idle_feed v)"

definition conn_part where
  "conn_part s = (connectors s, validatorConnC s, validatorConnectionMap s, feeds s)"

lemma idle_frame: "conn_part s' = conn_part s \<Longrightarrow> idle s \<Longrightarrow> idle s'"
  by (simp add: idle_def conn_part_def)

lemma chan_recv_empty [simp]: "cbuf c = [] \<Longrightarrow> chan_recv c = None"
  by (simp add: chan_recv_def)

lemma idle_feed_step:
  fixes v v' :: "('t, 'f, 'c) feed"
  assumes "idle_feed v" "loopValidatorInternal fl l v = returns v'"
  shows "idle_feed v'"
proof (cases l)
  case Transaction
  with assms on_transaction_returns [of fl v v'] show ?thesis by (auto simp: idle_feed_def split: if_splits)
next
  case FeedSignalled
  with assms show ?thesis by (auto simp: idle_feed_def bind_eq_Some_conv)
qed (use assms in \<open>auto simp: idle_feed_def send_ok_def split: if_splits feed_pc.splits\<close>)

lemma idle_connector_step:
  assumes "idle_connector c" "loopValidatorConnect l c = Some c'"
  shows "idle_connector c'"
  using assms by (cases l) (auto simp: idle_connector_def split: if_splits connector_pc.splits)

lemma at_index_returns:
  "at_index i f xs = returns ys \<longleftrightarrow> i < length xs \<and> (\<exists>y. f (xs ! i) = returns y \<and> ys = xs[i := y])"
  by (auto simp: at_index_def)

lemma at_index_all:
  "at_index i f xs = returns ys \<Longrightarrow> (\<And>x y. P x \<Longrightarrow> f x = returns y \<Longrightarrow> P y) \<Longrightarrow> \<forall>x \<in> set xs. P x \<Longrightarrow> \<forall>y \<in> set ys. P y"
  by (auto simp: at_index_returns dest!: set_update_subset_insert [THEN subsetD]) (meson nth_mem)

lemma idle_feeds_do:
  assumes "idle s" "feeds_do j (loopValidatorInternal fl l) s = returns s'"
  shows "idle s'"
proof -
  obtain vs where "at_index j (loopValidatorInternal fl l) (feeds s) = returns vs" "s' = s\<lparr>feeds := vs\<rparr>"
    using assms(2) by (auto simp: feeds_do_def)
  moreover from this(1) have "\<forall>v \<in> set vs. idle_feed v"
    by (rule at_index_all) (use assms(1) idle_feed_step in \<open>auto simp: idle_def\<close>)
  ultimately show ?thesis using assms(1) by (simp add: idle_def)
qed

lemma bidders_do_frame: "bidders_do i f s = returns s' \<Longrightarrow> conn_part s' = conn_part s"
  by (auto simp: bidders_do_def conn_part_def)

lemma payout_frame:
  "on_relay_payout answer pwd s = returns s' \<Longrightarrow> conn_part s' = conn_part s"
  by (erule on_relay_payoutE) (auto simp: report_error_def conn_part_def dest: pbs_create_Inr)

lemma status_frame: "on_bid_status t st s = returns s' \<Longrightarrow> conn_part s' = conn_part s"
  by (auto simp: on_bid_status_def conn_part_def split: option.splits)

lemma delete_frame: "on_delete_payout t s = returns s' \<Longrightarrow> conn_part s' = conn_part s"
  by (auto simp: on_delete_payout_def conn_part_def split: option.splits)

lemma next_bid_frame:
  assumes "next_bid fl give_up s = returns s'"
  shows "conn_part s' = conn_part s"
proof -
  have w: "conn_part s1 = conn_part s" if "worker_of_bid fl v b st nl s = returns (i, fr, old, n1, s1)" for v b st nl i fr old n1 s1
    using that by (auto simp: worker_of_bid_def conn_part_def Let_def split: option.splits)
  have d: "conn_part s2 = conn_part s1" if "send_bid give_up i bw s1 = returns s2" for i bw s1 s2
    using that by (auto simp: send_bid_def conn_part_def split: if_splits)
  show ?thesis using assms
  proof (rule next_bidE)
    fix a b bs st nl v i fr old n1 s1 s2
    assume "worker_of_bid fl v b st nl s = returns (i, fr, old, n1, s1)"
      "s2 = s1 \<and> fr \<or> \<not> fr \<and> send_bid give_up i (bid_with_total v b st) s1 = returns s2"
      "s' = (set_list (ChangeValue a (v\<lparr>bi_list := on_heap (snd (Append i n1)) old,
         bi_m := (bi_m v)(User b \<mapsto> fst (Append i n1))\<rparr>) (pi_list (r_periods s2))) s2)\<lparr>r_pc := after_bids a bs st (snd (Append i n1))\<rparr>"
    then have "conn_part s2 = conn_part s" "conn_part s' = conn_part s2"
      using w [of v b st nl i fr old n1 s1] d [of i _ s1 s2] by (auto simp: conn_part_def)
    then show ?thesis by simp
  qed
qed

lemma idle_cancel: "idle s \<Longrightarrow> idle (cancel_ctx s)" "idle s \<Longrightarrow> idle (finish s)"
  by (auto simp: idle_def idle_feed_def cancel_ctx_def finish_def)

lemma idle_any_validator:
  assumes "idle s" "on_any_validator byVote e i vote s = returns s'"
  shows "idle s'"
proof (cases "validatorConnectionMap s vote")
  case None
  then show ?thesis using assms idle_cancel(2) [OF assms(1)]
    by (auto simp: on_any_validator_def idle_def idle_connector_def new_connector_def make_chan_def
        split: sum.splits if_splits)
next
  case (Some vc)
  then have "vc_client vc = None" using assms(1) by (auto simp: idle_def)
  with Some show ?thesis using assms by (auto simp: on_any_validator_def idle_def split: if_splits)
qed

lemma idle_update_validators: "idle s \<Longrightarrow> idle (update_validators fl e u s)"
  by (auto simp: update_validators_def createValidatorFeed_def idle_def idle_feed_def new_feed_def client_chan_def
      split: option.split)

lemma idle_delete_validator:
  fixes s :: "('t, 'f, 'c) relay"
  assumes "idle s"
  shows "idle (on_delete_validator k s)"
proof -
  have keep: "\<forall>v \<in> set (xs[i := (xs ! i)\<lparr>v_cancelled := True\<rparr>]). idle_feed v" if "\<forall>v \<in> set xs. idle_feed v"
    for xs :: "('t, 'f, 'c) feed list" and i
  proof (cases "i < length xs")
    case True
    then have "idle_feed ((xs ! i)\<lparr>v_cancelled := True\<rparr>)" using that nth_mem [of i xs] by (simp add: idle_feed_def)
    then show ?thesis using that by (auto dest!: set_update_subset_insert [THEN subsetD])
  next
    case False
    then show ?thesis using that by (simp add: list_update_beyond)
  qed
  show ?thesis using assms keep [of "feeds s"] by (auto simp: on_delete_validator_def idle_def split: option.split)
qed

lemma idle_select:
  assumes "idle s" "on_select fl l s = returns s'"
  shows "idle s'"
proof (cases l)
  case (PayoutMsg answer pwd)
  with assms show ?thesis by (auto intro: idle_frame [OF payout_frame])
next
  case (StatusMsg i st)
  with assms show ?thesis by (auto intro: idle_frame [OF status_frame] split: if_splits)
next
  case DeleteMsg
  with assms obtain t c where "on_delete_payout t (s\<lparr>deletePayoutC := c\<rparr>) = returns s'"
    by (auto simp: receive_def split: option.splits)
  from delete_frame [OF this] assms(1) show ?thesis by (intro idle_frame [of s' s]) (simp_all add: conn_part_def)
next
  case (AnyValidatorMsg byVote e i vote)
  with assms show ?thesis by (auto intro: idle_any_validator)
next
  case (InsertMsg e)
  with assms show ?thesis
    by (auto simp: receive_def split: option.splits intro!: idle_update_validators) (simp add: idle_def)
next
  case DeleteValidatorMsg
  with assms show ?thesis
    by (auto simp: receive_def split: option.splits intro!: idle_delete_validator) (simp add: idle_def)
next
  case ConnMsg
  with assms show ?thesis by (simp add: receive_def idle_def)
next
  case MainError
  with assms show ?thesis by (auto simp: receive_def split: option.splits intro!: idle_cancel) (simp add: idle_def)
next
  case (ValidatorMsg d i a f)
  with assms show ?thesis by (auto simp: on_validator_update_def idle_def split: sum.splits)
next
  case (SubmitMsg u)
  with assms show ?thesis by (auto simp: on_submit_request_def idle_def split: option.splits)
next
  case TpsMsg
  with assms show ?thesis by (auto simp: receive_def on_tps_change_def idle_def Let_def split: option.splits)
next
  case (SlotMsg n)
  with assms show ?thesis by (auto simp: idle_def)
qed (use assms in \<open>auto intro: idle_cancel split: if_splits\<close>)

lemma idle_main:
  assumes "idle s" "main_step fl l s = returns s'"
  shows "idle s'"
proof -
  have "conn_part t = conn_part s" if "send_period g vf u s = returns t" for g vf u t
    using that by (auto simp: send_period_def conn_part_def Let_def split: if_splits)
  moreover have "conn_part t = conn_part s" if "send_error e s = returns t" for e t
    using that by (auto simp: send_error_def conn_part_def)
  ultimately show ?thesis using assms
    by (auto simp: main_step_def split: main_pc.splits main_label.splits
        intro: idle_select idle_frame [OF next_bid_frame] idle_frame)
qed

lemma idle_connector_relay:
  assumes "idle s" "connector_step k l s = returns s'"
  shows "idle s'"
proof -
  from assms(2) have k: "k < length (connectors s)" by (auto simp: connector_step_def split: if_splits)
  then have c: "idle_connector (connectors s ! k)" using assms(1) by (simp add: idle_def)
  have "\<exists>c'. loopValidatorConnect l (connectors s ! k) = Some c' \<and> s' = s\<lparr>connectors := (connectors s)[k := c']\<rparr>"
    using assms(2) k c
    by (cases l) (auto simp: connector_step_def at_index_returns idle_connector_def Let_def
        split: connector_pc.splits if_splits)
  then obtain c' where "loopValidatorConnect l (connectors s ! k) = Some c'" "s' = s\<lparr>connectors := (connectors s)[k := c']\<rparr>"
    by blast
  with idle_connector_step [OF c] assms(1) show ?thesis
    by (auto simp: idle_def dest!: set_update_subset_insert [THEN subsetD])
qed

lemma idle_step:
  assumes "idle s" "relay_step fl l s = returns s'"
  shows "idle s'"
proof (cases l)
  case (Main m)
  with assms show ?thesis by (auto intro: idle_main)
next
  case Stop
  with assms show ?thesis by (auto intro: idle_cancel)
next
  case (Submitted k t)
  with assms obtain g where "bidders_do (granted s ! k) g (s\<lparr>granted := without k (granted s)\<rparr>) = returns s'"
    by (auto split: if_splits)
  from bidders_do_frame [OF this] assms(1) show ?thesis by (intro idle_frame [of s' s]) (simp_all add: conn_part_def)
next
  case (Passed i j)
  with assms obtain t s1 where "feeds_do j (loopValidatorInternal fl (FeedTakes t)) s = returns s1"
      "bidders_do i (bidder_step fl TxForwarded) s1 = returns s'"
    by (auto simp: pass_on_def split: option.splits)
  with assms(1) show ?thesis by (auto intro: idle_frame [OF bidders_do_frame] idle_feeds_do)
next
  case (OfBidder i m)
  with assms show ?thesis by (auto intro: idle_frame [OF bidders_do_frame] split: if_splits)
next
  case (OfFeed j m)
  with assms show ?thesis by (auto intro: idle_feeds_do split: if_splits)
next
  case (Reported j)
  with assms obtain c where "feeds_do j (loopValidatorInternal fl ChangeReported) (s\<lparr>totalTpsC := c\<rparr>) = returns s'"
    by (auto simp: report_change_def split: if_splits feed_pc.splits option.splits)
  then show ?thesis by (rule idle_feeds_do [rotated]) (use assms(1) in \<open>simp add: idle_def\<close>)
next
  case (OfConnector k m)
  with assms show ?thesis by (auto intro: idle_connector_relay)
next
  case (OfInserter k m)
  with assms show ?thesis
    by (cases m) (auto simp: inserter_step_def idle_def Let_def split: if_splits)
next
  case (EndReached k n)
  with assms show ?thesis by (auto simp: loopDeletePayout_def idle_def split: if_splits)
next
  case (BidWatchEnds k e)
  with assms show ?thesis by (auto simp: bid_watch_ends_def watch_ends_def idle_def split: if_splits option.splits)
next
  case (EndWatchEnds k e)
  with assms show ?thesis by (auto simp: end_watch_ends_def watch_ends_def idle_def split: if_splits option.splits)
qed

lemma idle_reachable:
  fixes s :: "('t, 'f, 'c) relay"
  assumes "calls (relay_step fl) ls (relay_start fl) = returns s"
  shows "idle s"
proof (rule calls_invariant [where I = idle, OF assms])
  show "idle (relay_start fl :: ('t, 'f, 'c) relay)" by (simp add: idle_def relay_start_def make_chan_def)
qed (rule idle_step)

text \<open>
  C35. The relay never connects to a validator. Whatever the order of messages and goroutines, no
  connection ever has a client and no transaction is ever sent to a validator; a transaction that
  reaches the worker of a validator makes the whole process panic, because the worker dereferences
  its nil client.
\<close>

theorem relay_never_connects:
  fixes s :: "('t, 'f, 'c) relay"
  assumes "calls (relay_step fl) ls (relay_start fl) = returns s"
  shows "(\<forall>k vc. validatorConnectionMap s k = Some vc \<longrightarrow> vc_client vc = None)
    \<and> (\<forall>v \<in> set (feeds s). client v = None \<and> v_out v = [])
    \<and> (\<forall>j < length (feeds s). v_pc (feeds s ! j) = V_select \<and> holding (v_reader (feeds s ! j)) \<noteq> None
         \<and> \<not> ended (v_reader (feeds s ! j)) \<longrightarrow> relay_step fl (OfFeed j Transaction) s = Some Panic)"
proof -
  have i: "idle s" by (rule idle_reachable [OF assms])
  have "relay_step fl (OfFeed j Transaction) s = Some Panic"
    if "j < length (feeds s)" "v_pc (feeds s ! j) = V_select" "holding (v_reader (feeds s ! j)) \<noteq> None"
      "\<not> ended (v_reader (feeds s ! j))" for j
  proof -
    have "client (feeds s ! j) = None" using i that(1) by (simp add: idle_def idle_feed_def)
    with that show ?thesis
      by (auto simp: feeds_do_def at_index_def on_transaction_def readers_agree loopBidderSubmitRateLimiter_def)
  qed
  with i show ?thesis by (simp add: idle_def idle_feed_def)
qed

text \<open>A run that takes a transaction of a bidder to a validator.\<close>

definition open_status :: "bid list \<Rightarrow> BidStatus" where
  "open_status bs = \<lparr>st_Bid = bs, st_IsFinal = False, st_TotalDeposits = 2, st_IsOpen = True\<rparr>"

definition delivery :: "(nat, int, nat) relay_label list" where
  "delivery = [Main (AnyValidatorMsg (\<lambda>_. Inr ''V'') None ''V'' ''w''), Main (ValidatorMsg (Inr ''w'') ''V'' 0 100),
     OfInserter 0 InsertSent, Main (InsertMsg None), Main (PayoutMsg (Inr (open_status [])) (pay 10)),
     Main (StatusMsg 0 (open_status [\<lparr>User = ''u'', Deposit = 2, IsBlank = False\<rparr>])), Main (BidMsg False),
     Main (SubmitMsg ''u''), Submitted 0 7, OfBidder 0 TxReceived, Passed 0 0]"

lemmas relay_evals = relay_start_def init_period_def make_chan_def chan_send_def chan_recv_def main_step_def
  on_any_validator_def new_connector_def on_validator_update_def new_inserter_def loop_top_def inserter_step_def
  insert_info_def at_index_def receive_def update_validators_def createValidatorFeed_def client_chan_def new_feed_def
  new_reader_def on_relay_payout_def pbs_create_def find_period_def find_loop.simps set_list_def TailNode_def HeadNode_def
  CreateGeneric_def Append_def alloc_def Value_def Next_def ChangeValue_def on_bid_status_def after_bids_def next_bid_def
  worker_of_bid_def on_heap_def set_next_def set_prev_def bidder_create_def AllocatedShare_def bid_with_total_def
  on_submit_request_def without_def bidders_do_def feeds_do_def hand_over_def pass_on_def offered_def update_tps_def exceeds_def
  int_floats_def open_status_def loopBidderSubmitRateLimiter_def readers_agree on_transaction_def returns_def step_of_def

lemma delivery_run:
  "\<exists>s. calls (relay_step int_floats) delivery (relay_start int_floats) = returns s \<and> length (feeds s) = 1
     \<and> v_pc (feeds s ! 0) = V_select \<and> holding (v_reader (feeds s ! 0)) = Some 7 \<and> \<not> ended (v_reader (feeds s ! 0))"
  by (simp add: delivery_def relay_evals Let_def)

theorem relay_never_connects_witness:
  "\<exists>s. calls (relay_step int_floats) delivery (relay_start int_floats) = returns s
     \<and> relay_step int_floats (OfFeed 0 Transaction) s = Some Panic"
proof -
  obtain s where s: "calls (relay_step int_floats) delivery (relay_start int_floats) = returns s" "length (feeds s) = 1"
      "v_pc (feeds s ! 0) = V_select" "holding (v_reader (feeds s ! 0)) = Some 7" "\<not> ended (v_reader (feeds s ! 0))"
    using delivery_run by blast
  then show ?thesis using relay_never_connects [OF s(1)] by (intro exI [of _ s]) simp
qed

section \<open>One worker for each bidder\<close>

text \<open>
  The table of the bidders: every user has one worker, every worker one user, and the bids in the
  channel of a worker are bids of its user. The nodes that a payout keeps for its bidders point to
  these workers. No entry is ever made in the table of periods by their start.
\<close>

definition table_ok :: "(pubkey \<rightharpoonup> nat) \<Rightarrow> BidWithTotal chan list \<Rightarrow> bool" where
  "table_ok m qs \<longleftrightarrow> (\<forall>u i. m u = Some i \<longrightarrow> i < length qs) \<and> (\<forall>i < length qs. \<exists>u. m u = Some i)
     \<and> (\<forall>u w i. m u = Some i \<and> m w = Some i \<longrightarrow> u = w)
     \<and> (\<forall>i < length qs. \<forall>bw \<in> set (cbuf (qs ! i)). m (User (bw_Bid bw)) = Some i)"

definition bids_ok :: "(pubkey \<rightharpoonup> nat) \<Rightarrow> payoutWithBidStatus \<Rightarrow> bool" where
  "bids_ok m v \<longleftrightarrow> (\<forall>u n. bi_m v u = Some n \<longrightarrow> n < brk (bi_list v) \<and> (\<exists>i. Value n (bi_list v) = Some i \<and> m u = Some i))"

definition periods_ok :: "(pubkey \<rightharpoonup> nat) \<Rightarrow> periodInfo \<Rightarrow> bool" where
  "periods_ok m p \<longleftrightarrow> list_inv (pi_list p) \<and> pi_m p = Map.empty \<and> (\<forall>x \<in> set (items (pi_list p)). bids_ok m (snd x))"

definition workers_ok :: "('t, 'f, 'c) relay \<Rightarrow> bool" where
  "workers_ok s \<longleftrightarrow> table_ok (bidderMap s) (map b_bidC (bidders s)) \<and> periods_ok (bidderMap s) (r_periods s)
     \<and> (\<forall>a bs st nl. r_pc s = M_bids a bs st nl \<longrightarrow> a \<in> fst ` set (periods_of s))"

lemma workers_frame:
  "workers_ok s \<Longrightarrow> bidderMap s' = bidderMap s \<Longrightarrow> map b_bidC (bidders s') = map b_bidC (bidders s) \<Longrightarrow>
     r_periods s' = r_periods s \<Longrightarrow> (\<And>a bs st nl. r_pc s' = M_bids a bs st nl \<Longrightarrow> r_pc s' = r_pc s) \<Longrightarrow> workers_ok s'"
  unfolding workers_ok_def by metis

lemma Remove_any:
  "Value a (Remove n g) = Value a g" "brk (Remove n g) = brk g"
  by (auto simp: Remove_def Let_def Value_def set_next_def set_prev_def option.map_comp o_def split: option.splits)

lemma Append_any:
  "fst (Append x g) = brk g" "brk (snd (Append x g)) = Suc (brk g)"
  "Value a (snd (Append x g)) = (if a = brk g then Some x else Value a g)"
  by (auto simp: Append_def alloc_def Let_def Value_def set_next_def set_prev_def option.map_comp o_def split: option.splits)

lemma table_okD:
  assumes "table_ok m qs"
  shows "m u = Some i \<Longrightarrow> i < length qs" "i < length qs \<Longrightarrow> \<exists>u. m u = Some i" "m u = Some i \<Longrightarrow> m w = Some i \<Longrightarrow> u = w"
    "i < length qs \<Longrightarrow> bw \<in> set (cbuf (qs ! i)) \<Longrightarrow> m (User (bw_Bid bw)) = Some i"
  using assms unfolding table_ok_def by blast+

lemma table_ok_new:
  assumes "table_ok m qs" "m u = None"
  shows "table_ok (m(u \<mapsto> length qs)) (qs @ [make_chan n])"
proof -
  note d = table_okD [OF assms(1)]
  let ?m = "m(u \<mapsto> length qs)" and ?qs = "qs @ [make_chan n]"
  have no: "m w \<noteq> Some (length qs)" for w using d(1) by blast
  have "i < length ?qs" if "?m w = Some i" for w i using that d(1) [of w i] by (auto split: if_splits)
  moreover have "\<exists>w. ?m w = Some i" if i: "i < length ?qs" for i
  proof (cases "i = length qs")
    case False
    with i have "i < length qs" by simp
    then obtain w where "m w = Some i" using d(2) by blast
    then show ?thesis using assms(2) by (intro exI [of _ w]) auto
  qed auto
  moreover have "w = w'" if "?m w = Some i" "?m w' = Some i" for w w' i
    using that no d(3) [of w i w'] by (auto split: if_splits)
  moreover have "?m (User (bw_Bid bw)) = Some i" if "i < length ?qs" "bw \<in> set (cbuf (?qs ! i))" for i bw
    using that d(4) [of i bw] assms(2) by (cases "i = length qs") (auto simp: nth_append make_chan_def)
  ultimately show ?thesis unfolding table_ok_def by blast
qed

lemma table_ok_queue:
  assumes "table_ok m qs" "\<forall>bw \<in> set (cbuf q). m (User (bw_Bid bw)) = Some i"
  shows "table_ok m (qs[i := q])"
proof -
  have "m (User (bw_Bid bw)) = Some j" if "j < length qs" "bw \<in> set (cbuf (qs[i := q] ! j))" for j bw
    using that table_okD(4) [OF assms(1), of j bw] assms(2) by (cases "i = j") auto
  with assms(1) show ?thesis unfolding table_ok_def by simp
qed

lemma bids_ok_mono: "bids_ok m v \<Longrightarrow> m u = None \<Longrightarrow> bids_ok (m(u \<mapsto> i)) v"
  by (fastforce simp: bids_ok_def)

lemma bids_ok_new: "bi_m v = Map.empty \<Longrightarrow> bids_ok m v"
  by (simp add: bids_ok_def)

lemma periods_change:
  assumes "periods_ok m p" "bids_ok m v" "a \<in> fst ` set (items (pi_list p))"
  shows "periods_ok m (p\<lparr>pi_list := ChangeValue a v (pi_list p)\<rparr>)"
    and "map fst (items (ChangeValue a v (pi_list p))) = map fst (items (pi_list p))"
proof -
  obtain ps where l: "linked (pi_list p) ps" using assms(1) by (auto simp: periods_ok_def list_inv_def)
  have a: "a \<in> set ps" using assms(3) by (auto simp: items_linked [OF l] item_at_def)
  note c = linked_ChangeValue(1) [OF l, of a v] linked_ChangeValue(2) [OF l a, of v]
  show "periods_ok m (p\<lparr>pi_list := ChangeValue a v (pi_list p)\<rparr>)"
    using assms(1,2) c by (auto simp: periods_ok_def list_inv_def)
  show "map fst (items (ChangeValue a v (pi_list p))) = map fst (items (pi_list p))"
    unfolding c(2) by (simp add: case_prod_beta o_def)
qed

lemma periods_of_cons:
  assumes "periods_ok m p" "list_inv g" "\<And>x. x \<in> set (items g) \<Longrightarrow> x \<in> set (items (pi_list p)) \<or> bi_m (snd x) = Map.empty"
  shows "periods_ok m (p\<lparr>pi_list := g\<rparr>)"
  using assms by (auto simp: periods_ok_def intro: bids_ok_new)

lemma insert_items:
  assumes "list_inv g" "a \<in> fst ` set (items g)" "Insert v (Some a) g = Ret (q, g')"
  shows "list_inv g'" "set (items g') = insert (brk g, v) (set (items g))" "length (items g') = Suc (length (items g))"
proof -
  obtain xs ys where l: "linked g (xs @ a # ys)" using linked_nodes_split [OF assms(1,2)] .
  obtain h where h: "Insert v (Some a) g = Ret (Some (brk g), h)" "linked h (xs @ a # brk g # ys)"
      "items h = map (item_at g) (xs @ [a]) @ (brk g, v) # map (item_at g) ys"
    by (rule linked_Insert [OF l])
  with assms(3) have "g' = h" by simp
  with h(2,3) l show "list_inv g'" "set (items g') = insert (brk g, v) (set (items g))" "length (items g') = Suc (length (items g))"
    by (auto simp: list_inv_def items_linked [OF l])
qed

text \<open>What a payout does to the list, with the bidders of the others untouched.\<close>

lemma payout_periods:
  fixes s :: "('t, 'f, 'c) relay"
  assumes "on_relay_payout answer pwd s = returns s'" "periods_ok m (r_periods s)"
  shows "periods_ok m (r_periods s') \<and> length (periods_of s) \<le> length (periods_of s')
    \<and> bidderMap s' = bidderMap s \<and> bidders s' = bidders s \<and> (r_pc s' = r_pc s \<or> (\<exists>e. r_pc s' = M_error e))
    \<and> stopped_ctx s' = stopped_ctx s"
  using assms(1)
proof (rule on_relay_payoutE)
  assume "s' = s"
  then show ?thesis using assms(2) by simp
next
  fix a v
  assume a: "Value a (pi_list (r_periods s)) = Some v" "\<exists>t. find_period (start_of pwd) (r_periods s) = returns (Some a, t)"
    "s' = set_list (ChangeValue a (v\<lparr>Pwd := pwd\<rparr>) (pi_list (r_periods s))) s"
  obtain ps where l: "linked (pi_list (r_periods s)) ps" using assms(2) by (auto simp: periods_ok_def list_inv_def)
  obtain w where w: "(a, w) \<in> set (periods_of s)"
    using a(2) find_period_total [of "r_periods s" "start_of pwd"] assms(2) by (auto simp: periods_ok_def)
  with item_Value [OF l w] a(1) have "bids_ok m v" using assms(2) by (force simp: periods_ok_def)
  then have "bids_ok m (v\<lparr>Pwd := pwd\<rparr>)" by (simp add: bids_ok_def)
  note c = periods_change [OF assms(2) this, of a]
  have "a \<in> fst ` set (periods_of s)" using w by force
  from c [OF this] show ?thesis unfolding a(3) by (auto dest: map_eq_imp_length_eq)
next
  fix e
  assume "s' = report_error e s"
  then show ?thesis using assms(2) by (simp add: report_error_def)
next
  fix v s1 a q g
  assume c: "pbs_create answer pwd s = Inr (v, s1)" and f: "find_period (start_of pwd) (r_periods s) = returns (None, Some a)"
    and i: "Insert v (Some a) (pi_list (r_periods s)) = Ret (q, g)" and s': "s' = set_list g s1"
  have l: "list_inv (pi_list (r_periods s))" using assms(2) by (simp add: periods_ok_def)
  then have "a \<in> fst ` set (periods_of s)" using f find_period_total [OF l, of "start_of pwd"] by force
  note g = insert_items [OF l this i]
  have "periods_ok m ((r_periods s)\<lparr>pi_list := g\<rparr>)"
    by (rule periods_of_cons [OF assms(2) g(1)]) (use g(2) pbs_create_Inr(12) [OF c] in auto)
  with g(3) pbs_create_Inr [OF c] show ?thesis unfolding s' by simp
next
  fix v s1
  assume c: "pbs_create answer pwd s = Inr (v, s1)" and s': "s' = set_list (snd (Append v (pi_list (r_periods s)))) s1"
  have l: "list_inv (pi_list (r_periods s))" using assms(2) by (simp add: periods_ok_def)
  note g = inv_Append [OF l, of v]
  have "periods_ok m ((r_periods s)\<lparr>pi_list := snd (Append v (pi_list (r_periods s)))\<rparr>)"
    by (rule periods_of_cons [OF assms(2) g(1)]) (use g(2) pbs_create_Inr(12) [OF c] in auto)
  with g(2) pbs_create_Inr [OF c] show ?thesis unfolding s' by simp
qed

lemma bidder_channel: "b_bidC (bidder_create fl bt) = make_chan 1"
  by (simp add: bidder_create_def)

text \<open>The worker of a bid belongs to its user, and the table is extended by at most that user.\<close>

lemma worker_of_bid_ok:
  fixes s :: "('t, 'f, 'c) relay"
  assumes "worker_of_bid fl v b st nl s = returns (i, fr, old, n1, s1)" "bids_ok (bidderMap s) v"
    "table_ok (bidderMap s) (map b_bidC (bidders s))"
  shows "bidderMap s1 (User b) = Some i" "table_ok (bidderMap s1) (map b_bidC (bidders s1))"
    "bidderMap s1 = bidderMap s \<or> bidderMap s (User b) = None \<and> (\<exists>k. bidderMap s1 = (bidderMap s)(User b \<mapsto> k))"
    "r_periods s1 = r_periods s" "stopped_ctx s1 = stopped_ctx s"
    "bids_ok (bidderMap s1) (v\<lparr>bi_list := on_heap (snd (Append i n1)) old, bi_m := (bi_m v)(User b \<mapsto> fst (Append i n1))\<rparr>)"
proof -
  consider n where "bi_m v (User b) = Some n" "Value n (bi_list v) = Some i" "s1 = s"
      "n1 = snd (Append i (on_heap (Remove (Some n) (bi_list v)) nl))"
    | "bi_m v (User b) = None" "bidderMap s (User b) = Some i" "s1 = s" "n1 = on_heap (bi_list v) nl"
    | "bi_m v (User b) = None" "bidderMap s (User b) = None" "i = length (bidders s)" "n1 = on_heap (bi_list v) nl"
      "s1 = s\<lparr>bidders := bidders s @ [(bidder_create fl (bid_with_total v b st))\<lparr>b_cancelled := r_cancelled s\<rparr>],
         bidderMap := (bidderMap s)(User b \<mapsto> i)\<rparr>"
    using assms(1) by (auto simp: worker_of_bid_def Let_def split: option.splits)
  then have *: "bidderMap s1 (User b) = Some i \<and> table_ok (bidderMap s1) (map b_bidC (bidders s1))
    \<and> (bidderMap s1 = bidderMap s \<or> bidderMap s (User b) = None \<and> (\<exists>k. bidderMap s1 = (bidderMap s)(User b \<mapsto> k)))
    \<and> r_periods s1 = r_periods s \<and> stopped_ctx s1 = stopped_ctx s \<and> bids_ok (bidderMap s1) v
    \<and> brk (bi_list v) \<le> brk n1 \<and> (\<forall>a < brk (bi_list v). Value a n1 = Value a (bi_list v))"
  proof cases
    case (1 n)
    then have "bidderMap s (User b) = Some i" using assms(2) by (force simp: bids_ok_def)
    then show ?thesis using 1 assms(2,3) by (auto simp: Append_any Remove_any)
  next
    case 2
    then show ?thesis using assms(2,3) by auto
  next
    case 3
    then show ?thesis using table_ok_new [OF assms(3), of "User b" 1] bids_ok_mono [OF assms(2), of "User b" i]
      by (auto simp: bidder_channel)
  qed
  show "bidderMap s1 (User b) = Some i" "table_ok (bidderMap s1) (map b_bidC (bidders s1))"
    "bidderMap s1 = bidderMap s \<or> bidderMap s (User b) = None \<and> (\<exists>k. bidderMap s1 = (bidderMap s)(User b \<mapsto> k))"
    "r_periods s1 = r_periods s" "stopped_ctx s1 = stopped_ctx s"
    using * by auto
  show "bids_ok (bidderMap s1) (v\<lparr>bi_list := on_heap (snd (Append i n1)) old, bi_m := (bi_m v)(User b \<mapsto> fst (Append i n1))\<rparr>)"
    using * unfolding bids_ok_def by (auto simp: Append_any less_Suc_eq) (meson less_le_trans nat_less_le)+
qed

lemma send_bid_ok:
  assumes "send_bid g i bw s = returns s'" "table_ok (bidderMap s) (map b_bidC (bidders s))"
    "bidderMap s (User (bw_Bid bw)) = Some i"
  shows "table_ok (bidderMap s') (map b_bidC (bidders s'))" "bidderMap s' = bidderMap s" "r_periods s' = r_periods s"
    "stopped_ctx s' = stopped_ctx s"
proof -
  have "s' = s \<or> (\<exists>c. i < length (bidders s) \<and> chan_send bw (b_bidC (bidders s ! i)) = Some c
      \<and> s' = s\<lparr>bidders := (bidders s)[i := (bidders s ! i)\<lparr>b_bidC := c\<rparr>]\<rparr>)"
    using assms(1) by (auto simp: send_bid_def split: if_splits)
  then consider "s' = s" | c where "i < length (bidders s)" "chan_send bw (b_bidC (bidders s ! i)) = Some c"
      "s' = s\<lparr>bidders := (bidders s)[i := (bidders s ! i)\<lparr>b_bidC := c\<rparr>]\<rparr>" by blast
  then have "table_ok (bidderMap s') (map b_bidC (bidders s')) \<and> bidderMap s' = bidderMap s \<and> r_periods s' = r_periods s
      \<and> stopped_ctx s' = stopped_ctx s"
  proof cases
    case 2
    have "\<forall>x \<in> set (cbuf c). bidderMap s (User (bw_Bid x)) = Some i"
      using 2(1,2) assms(3) table_okD(4) [OF assms(2), of i] by (auto simp: chan_send_def split: if_splits)
    from table_ok_queue [OF assms(2) this] 2(3) show ?thesis by (simp add: map_update)
  qed (use assms(2) in simp)
  then show "table_ok (bidderMap s') (map b_bidC (bidders s'))" "bidderMap s' = bidderMap s" "r_periods s' = r_periods s"
    "stopped_ctx s' = stopped_ctx s" by auto
qed

lemma workers_next_bid:
  fixes s :: "('t, 'f, 'c) relay"
  assumes "workers_ok s" "next_bid fl g s = returns s'"
  shows "workers_ok s' \<and> map fst (periods_of s') = map fst (periods_of s) \<and> stopped_ctx s' = stopped_ctx s
    \<and> bidderMap s \<subseteq>\<^sub>m bidderMap s'"
  using assms(2)
proof (rule next_bidE)
  fix a b bs st nl v i fr old n1 s1 s2
  assume pc: "r_pc s = M_bids a (b # bs) st nl" and v: "Value a (pi_list (r_periods s)) = Some v"
    and w: "worker_of_bid fl v b st nl s = returns (i, fr, old, n1, s1)"
    and snd: "s2 = s1 \<and> fr \<or> \<not> fr \<and> send_bid g i (bid_with_total v b st) s1 = returns s2"
    and s': "s' = (set_list (ChangeValue a (v\<lparr>bi_list := on_heap (snd (Append i n1)) old,
       bi_m := (bi_m v)(User b \<mapsto> fst (Append i n1))\<rparr>) (pi_list (r_periods s2))) s2)\<lparr>r_pc := after_bids a bs st (snd (Append i n1))\<rparr>"
  have t: "table_ok (bidderMap s) (map b_bidC (bidders s))" and p: "periods_ok (bidderMap s) (r_periods s)"
    and a: "a \<in> fst ` set (periods_of s)"
    using assms(1) pc by (auto simp: workers_ok_def)
  obtain ps where l: "linked (pi_list (r_periods s)) ps" using p by (auto simp: periods_ok_def list_inv_def)
  from a obtain u where "(a, u) \<in> set (periods_of s)" by auto
  with item_Value [OF l this] v have "bids_ok (bidderMap s) v" using p by (force simp: periods_ok_def)
  note w' = worker_of_bid_ok [OF w this t]
  have s2: "table_ok (bidderMap s2) (map b_bidC (bidders s2)) \<and> bidderMap s2 = bidderMap s1 \<and> r_periods s2 = r_periods s
      \<and> stopped_ctx s2 = stopped_ctx s"
    using snd w' send_bid_ok [of g i "bid_with_total v b st" s1 s2] by (auto simp: bid_with_total_def)
  have p': "periods_ok (bidderMap s1) (r_periods s)"
    using w'(3)
  proof
    assume "bidderMap s (User b) = None \<and> (\<exists>k. bidderMap s1 = (bidderMap s)(User b \<mapsto> k))"
    then obtain k where "bidderMap s (User b) = None" "bidderMap s1 = (bidderMap s)(User b \<mapsto> k)" by blast
    then show ?thesis using p bids_ok_mono [of "bidderMap s"] unfolding periods_ok_def by auto
  qed (use p in simp)
  have m: "bidderMap s \<subseteq>\<^sub>m bidderMap s1" using w'(3) by (auto simp: map_le_def)
  note c = periods_change [OF p' w'(6) a]
  have f: "map fst (periods_of s') = map fst (periods_of s)" using c(2) s2 unfolding s' by simp
  have "a \<in> fst ` set (periods_of s')" using a f by (metis list.set_map)
  then have pc': "\<forall>a bs st nl. r_pc s' = M_bids a bs st nl \<longrightarrow> a \<in> fst ` set (periods_of s')"
    unfolding s' by (simp add: after_bids_def)
  have "bidderMap s' = bidderMap s1" "bidders s' = bidders s2" "stopped_ctx s' = stopped_ctx s"
    "periods_ok (bidderMap s1) (r_periods s')"
    using s2 c(1) unfolding s' by simp_all
  moreover have "table_ok (bidderMap s1) (map b_bidC (bidders s2))" using s2 by auto
  ultimately show ?thesis using pc' f m by (simp add: workers_ok_def)
qed

text \<open>What a step leaves of the relay: the invariant, the known periods and the known bidders.\<close>

definition grows :: "('t, 'f, 'c) relay \<Rightarrow> ('t, 'f, 'c) relay \<Rightarrow> bool" where
  "grows s s' \<longleftrightarrow> workers_ok s' \<and> length (periods_of s) \<le> length (periods_of s') \<and> bidderMap s \<subseteq>\<^sub>m bidderMap s'
     \<and> stopped_ctx s' = stopped_ctx s"

lemma grows_frame:
  "workers_ok s \<Longrightarrow> bidderMap s' = bidderMap s \<Longrightarrow> map b_bidC (bidders s') = map b_bidC (bidders s) \<Longrightarrow>
     r_periods s' = r_periods s \<Longrightarrow> stopped_ctx s' = stopped_ctx s \<Longrightarrow>
     (\<And>a bs st nl. r_pc s' = M_bids a bs st nl \<Longrightarrow> r_pc s' = r_pc s) \<Longrightarrow> grows s s'"
  unfolding grows_def using workers_frame [of s s'] by simp

lemma bidder_queue:
  assumes "loopBidderInternal fl l b = Some b'"
  shows "set (cbuf (b_bidC b')) \<subseteq> set (cbuf (b_bidC b))"
proof (cases l)
  case BidReceived
  with assms show ?thesis
    by (auto simp: on_bid_def chan_recv_def Let_def split: if_splits list.splits)
next
  case ReaderSignalled
  with assms show ?thesis by (auto simp: read_signal_def bind_eq_Some_conv)
next
  case TxReceived
  with assms show ?thesis by (auto simp: hand_over_def bind_eq_Some_conv split: if_splits)
qed (use assms in \<open>auto simp: send_signal_def update_tps_def on_pipeline_tps_def Let_def split: if_splits bidder_pc.splits\<close>)

lemma grows_bidders_do:
  fixes s :: "('t, 'f, 'c) relay"
  assumes "workers_ok s" "bidders_do i (bidder_step fl l) s = returns s'"
  shows "grows s s'"
proof -
  obtain b where b: "i < length (bidders s)" "loopBidderInternal fl l (bidders s ! i) = Some b"
      "s' = s\<lparr>bidders := (bidders s)[i := b]\<rparr>"
    using assms(2) by (auto simp: bidders_do_def at_index_returns)
  have t: "table_ok (bidderMap s) (map b_bidC (bidders s))" using assms(1) by (simp add: workers_ok_def)
  have "\<forall>x \<in> set (cbuf (b_bidC b)). bidderMap s (User (bw_Bid x)) = Some i"
    using bidder_queue [OF b(2)] table_okD(4) [OF t, of i] b(1) by auto
  from table_ok_queue [OF t this] b(3) assms(1) show ?thesis by (simp add: grows_def workers_ok_def map_update)
qed

lemma relay_grows_trans: "grows s t \<Longrightarrow> grows t u \<Longrightarrow> grows s u"
  unfolding grows_def using map_le_trans by force

lemma grows_cancel: "workers_ok s \<Longrightarrow> grows s (cancel_ctx s)" "workers_ok s \<Longrightarrow> grows s (finish s)"
  by (auto intro!: grows_frame simp: cancel_ctx_def finish_def)

lemma grows_select:
  fixes s :: "('t, 'f, 'c) relay"
  assumes "workers_ok s" "r_pc s = M_select" "on_select fl l s = returns s'"
  shows "grows s s'"
proof (cases l)
  case (PayoutMsg answer pwd)
  have "periods_ok (bidderMap s) (r_periods s)" using assms(1) by (simp add: workers_ok_def)
  from payout_periods [OF _ this, of answer pwd s'] PayoutMsg assms show ?thesis by (auto simp: grows_def workers_ok_def)
next
  case (StatusMsg i st)
  then obtain t where t: "on_bid_status t st s = returns s'" using assms(3) by (auto split: if_splits)
  have l: "list_inv (pi_list (r_periods s))" using assms(1) by (simp add: workers_ok_def periods_ok_def)
  obtain e x where f: "find_period t (r_periods s) = returns (e, x)"
      "\<forall>a. e = Some a \<longrightarrow> (\<exists>v. (a, v) \<in> set (periods_of s) \<and> pstart v = t)"
    using find_period_total [OF l, of t] by blast
  show ?thesis
  proof (cases e)
    case None
    with t f have "s' = s" by (simp add: on_bid_status_def)
    with assms(1) show ?thesis by (simp add: grows_def)
  next
    case (Some a)
    with f(2) have "a \<in> fst ` set (periods_of s)" by force
    moreover have "s' = s\<lparr>r_pc := after_bids a (st_Bid st) st CreateGeneric\<rparr>"
      using t f(1) Some by (auto simp: on_bid_status_def)
    ultimately show ?thesis using assms(1) by (auto simp: grows_def workers_ok_def after_bids_def split: if_splits)
  qed
next
  case DeleteMsg
  have "pi_m (r_periods s) = Map.empty" using assms(1) by (simp add: workers_ok_def periods_ok_def)
  with DeleteMsg assms show ?thesis
    by (auto simp: receive_def on_delete_payout_def split: option.splits intro!: grows_frame)
next
  case (AnyValidatorMsg byVote e i vote)
  with assms grows_cancel(2) [OF assms(1)] show ?thesis
    by (auto simp: on_any_validator_def split: option.splits sum.splits if_splits intro!: grows_frame)
next
  case (InsertMsg e)
  with assms show ?thesis
    by (auto simp: receive_def update_validators_def createValidatorFeed_def split: option.splits if_splits intro!: grows_frame)
next
  case DeleteValidatorMsg
  with assms show ?thesis
    by (auto simp: receive_def on_delete_validator_def split: option.splits intro!: grows_frame)
next
  case ConnMsg
  with assms show ?thesis by (auto simp: receive_def on_connection_def split: option.splits intro!: grows_frame)
next
  case MainError
  with assms show ?thesis
    by (auto simp: receive_def finish_def cancel_ctx_def split: option.splits intro!: grows_frame)
next
  case (ValidatorMsg d i a f)
  with assms show ?thesis by (auto simp: on_validator_update_def split: sum.splits intro!: grows_frame)
next
  case (SubmitMsg u)
  with assms show ?thesis by (auto simp: on_submit_request_def split: option.splits intro!: grows_frame)
next
  case TpsMsg
  with assms show ?thesis by (auto simp: receive_def on_tps_change_def Let_def split: option.splits intro!: grows_frame)
next
  case (SlotMsg n)
  with assms show ?thesis by (auto intro!: grows_frame)
qed (use assms grows_cancel in \<open>auto split: if_splits\<close>)

lemma grows_main:
  assumes "workers_ok s" "main_step fl l s = returns s'"
  shows "grows s s'"
proof (cases "r_pc s")
  case M_select
  with assms show ?thesis by (auto simp: main_step_def intro: grows_select)
next
  case (M_bids a bs st nl)
  with assms(2) obtain g where "next_bid fl g s = returns s'" by (auto simp: main_step_def split: main_label.splits)
  from workers_next_bid [OF assms(1) this] show ?thesis by (auto simp: grows_def dest: map_eq_imp_length_eq)
next
  case (M_period vf u)
  with assms show ?thesis
    by (auto simp: main_step_def send_period_def Let_def split: main_label.splits if_splits intro!: grows_frame)
next
  case (M_error e)
  with assms show ?thesis by (auto simp: main_step_def send_error_def split: main_label.splits intro!: grows_frame)
next
  case M_over
  with assms show ?thesis by (simp add: main_step_def)
qed

lemma connector_keeps:
  assumes "connector_step k l s = returns s'"
  shows "bidderMap s' = bidderMap s \<and> bidders s' = bidders s \<and> r_periods s' = r_periods s \<and> stopped_ctx s' = stopped_ctx s
    \<and> r_pc s' = r_pc s"
  using assms by (cases l) (auto simp: connector_step_def Let_def split: if_splits connector_pc.splits)

lemma grows_feeds_do: "workers_ok s \<Longrightarrow> feeds_do j f s = returns s' \<Longrightarrow> grows s s'"
  by (auto simp: feeds_do_def intro!: grows_frame)

lemma grows_step:
  fixes s :: "('t, 'f, 'c) relay"
  assumes "workers_ok s" "relay_step fl l s = returns s'"
  shows "grows s s'"
proof (cases l)
  case (Main m)
  with assms show ?thesis by (auto intro: grows_main)
next
  case Stop
  with assms show ?thesis by (auto intro: grows_cancel)
next
  case (Submitted k t)
  with assms(2) have st: "bidders_do (granted s ! k) (bidder_step fl (ReaderTakes t)) (s\<lparr>granted := without k (granted s)\<rparr>) = returns s'"
    by (auto split: if_splits)
  have g: "grows s (s\<lparr>granted := without k (granted s)\<rparr>)" by (rule grows_frame [OF assms(1)]) simp_all
  then have "workers_ok (s\<lparr>granted := without k (granted s)\<rparr>)" by (simp add: grows_def)
  from relay_grows_trans [OF g grows_bidders_do [OF this st]] show ?thesis .
next
  case (Passed i j)
  with assms(2) obtain t s1 where s1: "feeds_do j (loopValidatorInternal fl (FeedTakes t)) s = returns s1"
      "bidders_do i (bidder_step fl TxForwarded) s1 = returns s'"
    by (auto simp: pass_on_def split: option.splits)
  have g: "grows s s1" by (rule grows_feeds_do [OF assms(1) s1(1)])
  then have "workers_ok s1" by (simp add: grows_def)
  from relay_grows_trans [OF g grows_bidders_do [OF this s1(2)]] show ?thesis .
next
  case (OfBidder i m)
  with assms show ?thesis by (auto intro: grows_bidders_do split: if_splits)
next
  case (OfFeed j m)
  with assms show ?thesis by (auto intro: grows_feeds_do split: if_splits)
next
  case (Reported j)
  with assms(2) obtain c where c: "feeds_do j (loopValidatorInternal fl ChangeReported) (s\<lparr>totalTpsC := c\<rparr>) = returns s'"
    by (auto simp: report_change_def split: if_splits feed_pc.splits option.splits)
  then show ?thesis using assms(1) by (auto simp: feeds_do_def intro!: grows_frame)
next
  case (OfConnector k m)
  with assms(2) have "connector_step k m s = returns s'" by simp
  from connector_keeps [OF this] show ?thesis by (intro grows_frame [OF assms(1)]) simp_all
next
  case (OfInserter k m)
  with assms show ?thesis
    by (cases m) (auto simp: inserter_step_def Let_def split: if_splits intro!: grows_frame)
next
  case (EndReached k n)
  with assms show ?thesis by (auto simp: loopDeletePayout_def split: if_splits intro!: grows_frame)
next
  case (BidWatchEnds k e)
  with assms show ?thesis
    by (auto simp: bid_watch_ends_def watch_ends_def split: if_splits option.splits intro!: grows_frame)
next
  case (EndWatchEnds k e)
  with assms show ?thesis
    by (auto simp: end_watch_ends_def watch_ends_def split: if_splits option.splits intro!: grows_frame)
qed

lemma workers_reachable:
  fixes s :: "('t, 'f, 'c) relay"
  assumes "calls (relay_step fl) ls (relay_start fl) = returns s"
  shows "workers_ok s"
proof (rule calls_invariant [where I = workers_ok, OF assms])
  show "workers_ok (relay_start fl :: ('t, 'f, 'c) relay)"
    by (simp add: workers_ok_def relay_start_def table_ok_def periods_ok_def init_period_def generic.create_inv generic.create_seq)
qed (use grows_step in \<open>auto simp: grows_def\<close>)

text \<open>
  C34. In every interleaving of the relay, its bidders, validators and clients: each known user has one
  worker, each worker serves exactly one user, and the bids waiting in the channel of a worker are
  bids of its user.
\<close>

theorem one_worker_per_bidder:
  fixes s :: "('t, 'f, 'c) relay"
  assumes "calls (relay_step fl) ls (relay_start fl) = returns s"
  shows "(\<forall>u i. bidderMap s u = Some i \<longrightarrow> i < length (bidders s))
    \<and> (\<forall>i < length (bidders s). (\<exists>!u. bidderMap s u = Some i)
         \<and> (\<forall>bw \<in> set (cbuf (b_bidC (bidders s ! i))). bidderMap s (User (bw_Bid bw)) = Some i))"
proof -
  have t: "table_ok (bidderMap s) (map b_bidC (bidders s))"
    using workers_reachable [OF assms] by (simp add: workers_ok_def)
  show ?thesis using table_okD [OF t] by fastforce
qed

definition two_statuses :: "(nat, int, nat) relay_label list" where
  "two_statuses = [Main (PayoutMsg (Inr (open_status [])) (pay 10)),
     Main (StatusMsg 0 (open_status [\<lparr>User = ''u'', Deposit = 2, IsBlank = False\<rparr>])), Main (BidMsg False),
     Main (SubmitMsg ''u''), Submitted 0 7, OfBidder 0 TxReceived,
     Main (StatusMsg 0 (open_status [\<lparr>User = ''u'', Deposit = 3, IsBlank = False\<rparr>])), Main (BidMsg False)]"

lemma two_statuses_run:
  "\<exists>s. calls (relay_step int_floats) two_statuses (relay_start int_floats) = returns s \<and> bidderMap s = [''u'' \<mapsto> 0]
     \<and> length (bidders s) = 1 \<and> length (cbuf (b_bidC (bidders s ! 0))) = 1"
  by (simp add: two_statuses_def relay_evals send_bid_def Remove_def Prev_def Let_def)

theorem one_worker_per_bidder_witness:
  "\<exists>s. calls (relay_step int_floats) two_statuses (relay_start int_floats) = returns s \<and> length (bidders s) = 1
     \<and> (\<exists>!u. bidderMap s u = Some 0) \<and> (\<exists>bw. cbuf (b_bidC (bidders s ! 0)) = [bw] \<and> bidderMap s (User (bw_Bid bw)) = Some 0)"
proof -
  obtain s where s: "calls (relay_step int_floats) two_statuses (relay_start int_floats) = returns s" "length (bidders s) = 1"
      "length (cbuf (b_bidC (bidders s ! 0))) = 1"
    using two_statuses_run by blast
  from s(3) obtain bw where "cbuf (b_bidC (bidders s ! 0)) = [bw]" by (auto simp: length_Suc_conv)
  with s show ?thesis using one_worker_per_bidder [OF s(1)] by (intro exI [of _ s]) simp
qed

text \<open>
  A period once known is never dropped: the table in which the main loop looks for the period that
  has ended is never filled, so the list of periods only grows, the context of a payout is never
  cancelled, and a known bidder stays with its worker.
\<close>

theorem periods_never_removed:
  fixes s s' :: "('t, 'f, 'c) relay"
  assumes "calls (relay_step fl) ls (relay_start fl) = returns s" "calls (relay_step fl) ms s = returns s'"
  shows "length (periods_of s) \<le> length (periods_of s') \<and> stopped_ctx s' = [] \<and> bidderMap s \<subseteq>\<^sub>m bidderMap s'"
proof -
  have w: "workers_ok s" by (rule workers_reachable [OF assms(1)])
  have g0: "workers_ok (relay_start fl :: ('t, 'f, 'c) relay)" using workers_reachable [of fl "[]"] by simp
  have up: "grows t t'" if "workers_ok t" "calls (relay_step fl) ks t = returns t'" for ks and t t' :: "('t, 'f, 'c) relay"
  proof (rule calls_invariant [where I = "grows t", OF that(2)])
    show "grows t t" using that(1) by (simp add: grows_def)
    show "grows t r" if "grows t q" "relay_step fl l q = returns r" for l q r
      using that(1) grows_step [OF _ that(2)] by (auto simp: grows_def intro: relay_grows_trans map_le_trans)
  qed
  show ?thesis using up [OF w assms(2)] up [OF g0 assms(1)] by (simp add: grows_def relay_start_def)
qed

lemma end_run:
  "\<exists>s s'. calls (relay_step int_floats) [Main (PayoutMsg (Inr (open_status [])) (pay 10))]
       (relay_start int_floats :: (nat, int, nat) relay) = returns s
     \<and> calls (relay_step int_floats) [EndReached 0 20, Main DeleteMsg] s = returns s' \<and> length (periods_of s) = 1
     \<and> deletePayoutC s' = make_chan 10 \<and> end_watches s' = []"
  by (simp add: relay_evals Let_def loopDeletePayout_def on_delete_payout_def items_def nodes_def List.map_filter_simps)

theorem periods_never_removed_witness:
  "\<exists>s s'. calls (relay_step int_floats) [Main (PayoutMsg (Inr (open_status [])) (pay 10))]
       (relay_start int_floats :: (nat, int, nat) relay) = returns s
     \<and> calls (relay_step int_floats) [EndReached 0 20, Main DeleteMsg] s = returns s' \<and> 1 \<le> length (periods_of s')"
proof -
  obtain s s' :: "(nat, int, nat) relay" where s: "calls (relay_step int_floats) [Main (PayoutMsg (Inr (open_status [])) (pay 10))]
       (relay_start int_floats) = returns s"
      "calls (relay_step int_floats) [EndReached 0 20, Main DeleteMsg] s = returns s'" "length (periods_of s) = 1"
    using end_run by blast
  then show ?thesis using periods_never_removed [OF s(1,2)] by (intro exI conjI) (rule s(1), rule s(2), simp)
qed

section \<open>A relay that waits for ever\<close>

text \<open>
  The main loop waits for room in the channel of a bidder whose worker waits for a validator, and no
  validator is there. Only the main loop can add one.
\<close>

definition worker_for :: "payoutWithBidStatus \<Rightarrow> bid \<Rightarrow> (pubkey \<rightharpoonup> nat) \<Rightarrow> nat option" where
  "worker_for v b m = (case bi_m v (User b) of Some n \<Rightarrow> Value n (bi_list v) | None \<Rightarrow> m (User b))"

definition bidder_waits :: "('t, 'f) bidder \<Rightarrow> bool" where
  "bidder_waits b \<longleftrightarrow> (\<exists>t. b_pc b = B_forward t) \<and> \<not> b_cancelled b \<and> length (cbuf (b_bidC b)) = ccap (b_bidC b)"

definition blocked :: "nat \<Rightarrow> ('t, 'f, 'c) relay \<Rightarrow> bool" where
  "blocked i s \<longleftrightarrow> feeds s = [] \<and> \<not> r_cancelled s \<and> i < length (bidders s) \<and> bidder_waits (bidders s ! i)
     \<and> (\<exists>a b bs st nl v. r_pc s = M_bids a (b # bs) st nl \<and> Value a (pi_list (r_periods s)) = Some v \<and> worker_for v b (bidderMap s) = Some i)"

lemma blocked_frame:
  "blocked i s \<Longrightarrow> feeds s' = feeds s \<Longrightarrow> r_cancelled s' = r_cancelled s \<Longrightarrow> length (bidders s') = length (bidders s) \<Longrightarrow>
     bidder_waits (bidders s' ! i) \<Longrightarrow> r_pc s' = r_pc s \<Longrightarrow> r_periods s' = r_periods s \<Longrightarrow> bidderMap s' = bidderMap s \<Longrightarrow> blocked i s'"
  unfolding blocked_def by metis

lemma bidder_waits_step:
  assumes "bidder_waits b" "loopBidderInternal fl l b = Some b'" "l \<noteq> Cancelled" "l \<noteq> TxForwarded"
  shows "bidder_waits b'"
proof (cases l)
  case ReaderSignalled
  with assms show ?thesis by (auto simp: bidder_waits_def read_signal_def bind_eq_Some_conv)
qed (use assms in \<open>auto simp: bidder_waits_def\<close>)

lemma blocked_bid:
  assumes "blocked i s"
  shows "next_bid fl g s \<noteq> returns s'"
proof
  assume "next_bid fl g s = returns s'"
  then show False
  proof (rule next_bidE)
    fix a b bs st nl v k fr old n1 s1 s2
    assume pc: "r_pc s = M_bids a (b # bs) st nl" "Value a (pi_list (r_periods s)) = Some v"
      and w: "worker_of_bid fl v b st nl s = returns (k, fr, old, n1, s1)"
      and d: "s2 = s1 \<and> fr \<or> \<not> fr \<and> send_bid g k (bid_with_total v b st) s1 = returns s2"
    have "worker_for v b (bidderMap s) = Some i" using assms pc by (auto simp: blocked_def)
    then have "k = i \<and> \<not> fr \<and> s1 = s"
      using w by (auto simp: worker_for_def worker_of_bid_def Let_def split: option.splits)
    with d assms show False
      by (auto simp: send_bid_def blocked_def bidder_waits_def chan_send_def split: if_splits)
  qed
qed

lemma blocked_bidders_do:
  assumes "blocked i s" "bidders_do k (bidder_step fl l) s = returns s'" "l \<noteq> Cancelled" "l \<noteq> TxForwarded"
  shows "blocked i s' \<and> r_pc s' = r_pc s"
proof -
  obtain b where b: "k < length (bidders s)" "loopBidderInternal fl l (bidders s ! k) = Some b" "s' = s\<lparr>bidders := (bidders s)[k := b]\<rparr>"
    using assms(2) by (auto simp: bidders_do_def at_index_returns)
  have i: "bidder_waits (bidders s ! i)" "i < length (bidders s)" using assms(1) by (auto simp: blocked_def)
  have "bidder_waits ((bidders s)[k := b] ! i)"
    using i b bidder_waits_step [OF _ _ assms(3,4), of "bidders s ! i" fl b] by (cases "k = i") auto
  with b(3) show ?thesis by (auto intro!: blocked_frame [OF assms(1)])
qed

lemma blocked_step:
  assumes "blocked i s" "relay_step fl l s = returns s'" "l \<noteq> Stop"
  shows "blocked i s' \<and> r_pc s' = r_pc s"
proof (cases l)
  case (Main m)
  obtain a b bs st nl where "r_pc s = M_bids a (b # bs) st nl" using assms(1) by (auto simp: blocked_def)
  with Main assms(2) blocked_bid [OF assms(1)] show ?thesis by (auto simp: main_step_def split: main_label.splits)
next
  case (Submitted k t)
  have g: "blocked i (s\<lparr>granted := without k (granted s)\<rparr>)" using assms(1) by (auto simp: blocked_def intro!: blocked_frame [OF assms(1)])
  have "bidders_do (granted s ! k) (bidder_step fl (ReaderTakes t)) (s\<lparr>granted := without k (granted s)\<rparr>) = returns s'"
    using Submitted assms(2) by (auto split: if_splits)
  from blocked_bidders_do [OF g this] show ?thesis by simp
next
  case (OfBidder k m)
  with assms(2) have m: "bidders_do k (bidder_step fl m) s = returns s'" "own_bidder_label m" by (auto split: if_splits)
  from m(2) have "m \<noteq> Cancelled" "m \<noteq> TxForwarded" by auto
  from blocked_bidders_do [OF assms(1) m(1) this] show ?thesis .
next
  case (Passed k j)
  with assms(1,2) show ?thesis by (auto simp: pass_on_def feeds_do_def at_index_def blocked_def split: option.splits)
next
  case (OfFeed j m)
  with assms(1,2) show ?thesis by (auto simp: feeds_do_def at_index_def blocked_def split: if_splits)
next
  case (Reported j)
  with assms(1,2) show ?thesis by (auto simp: report_change_def blocked_def)
next
  case (OfConnector k m)
  then show ?thesis using assms(1,2)
    by (cases m) (auto simp: connector_step_def Let_def blocked_def split: if_splits connector_pc.splits intro!: blocked_frame [OF assms(1)])
next
  case (OfInserter k m)
  then show ?thesis using assms(1,2)
    by (cases m) (auto simp: inserter_step_def Let_def blocked_def split: if_splits intro!: blocked_frame [OF assms(1)])
next
  case (EndReached k n)
  with assms(1,2) show ?thesis by (auto simp: loopDeletePayout_def blocked_def split: if_splits intro!: blocked_frame [OF assms(1)])
next
  case (BidWatchEnds k e)
  with assms(1,2) show ?thesis
    by (auto simp: bid_watch_ends_def watch_ends_def blocked_def split: if_splits option.splits intro!: blocked_frame [OF assms(1)])
next
  case (EndWatchEnds k e)
  with assms(1,2) show ?thesis
    by (auto simp: end_watch_ends_def watch_ends_def blocked_def split: if_splits option.splits intro!: blocked_frame [OF assms(1)])
qed (use assms(3) in simp)

text \<open>
  C40. The relay can wait for ever. If the main loop has a bid for a bidder whose channel is full, whose
  worker holds a transaction for a validator, and no validator has joined yet, then nothing but the end
  of the relay changes this: the main loop stays where it is, so no validator is ever added.
\<close>

theorem relay_waits_for_ever:
  fixes s s' :: "('t, 'f, 'c) relay"
  assumes "blocked i s" "calls (relay_step fl) ls s = returns s'" "Stop \<notin> set ls"
  shows "blocked i s' \<and> r_pc s' = r_pc s \<and> feeds s' = []"
proof -
  have "blocked i s' \<and> r_pc s' = r_pc s"
  proof (rule calls_invariant [where I = "\<lambda>t. blocked i t \<and> r_pc t = r_pc s", OF assms(2)])
    show "blocked i s \<and> r_pc s = r_pc s" using assms(1) by simp
    fix l t t' assume l: "l \<in> set ls" and t: "blocked i t \<and> r_pc t = r_pc s" and st: "relay_step fl l t = returns t'"
    from l assms(3) have "l \<noteq> Stop" by auto
    from blocked_step [OF conjunct1 [OF t] st this] t show "blocked i t' \<and> r_pc t' = r_pc s" by simp
  qed
  moreover from this have "feeds s' = []" by (simp add: blocked_def)
  ultimately show ?thesis by simp
qed

text \<open>A run into that state: the bidder submits a transaction, and its bid is changed twice.\<close>

definition stuck_run :: "(nat, int, nat) relay_label list" where
  "stuck_run = two_statuses @ [Main (StatusMsg 0 (open_status [\<lparr>User = ''u'', Deposit = 4, IsBlank = False\<rparr>]))]"

lemma stuck_reached:
  "\<exists>s s'. calls (relay_step int_floats) stuck_run (relay_start int_floats) = returns s \<and> blocked 0 s
     \<and> calls (relay_step int_floats) [EndReached 0 20] s = returns s'"
  by (simp add: stuck_run_def two_statuses_def relay_evals send_bid_def Remove_def Prev_def Let_def blocked_def bidder_waits_def
      worker_for_def loopDeletePayout_def)

theorem relay_waits_for_ever_witness:
  "\<exists>s s'. calls (relay_step int_floats) stuck_run (relay_start int_floats) = returns s \<and> blocked 0 s
     \<and> calls (relay_step int_floats) [EndReached 0 20] s = returns s'
     \<and> blocked 0 s' \<and> r_pc s' = r_pc s \<and> feeds s' = []"
proof -
  obtain s s' where s: "calls (relay_step int_floats) stuck_run (relay_start int_floats) = returns s" "blocked 0 s"
      "calls (relay_step int_floats) [EndReached 0 20] s = returns s'"
    using stuck_reached by blast
  have "blocked 0 s' \<and> r_pc s' = r_pc s \<and> feeds s' = []" by (rule relay_waits_for_ever [OF s(2,3)]) simp
  with s show ?thesis by blast
qed

section \<open>Joining and leaving\<close>

text \<open>
  The goroutine of a validator that joins. The history of its labels says when it sent what.
\<close>

definition inserter_inv :: "inserter \<Rightarrow> bool" where
  "inserter_inv i \<longleftrightarrow> (in_pc i = I_insert \<longrightarrow> hasStarted i \<and> in_start i \<le> in_slot i)
     \<and> (in_pc i = I_delete \<longrightarrow> in_finish i + 10 < in_slot i)"

lemma loop_top_simps [simp]:
  "in_slot (loop_top i) = in_slot i" "in_start (loop_top i) = in_start i" "in_finish (loop_top i) = in_finish i"
  "in_pc (loop_top i) \<noteq> I_delete" "in_pc (loop_top i) = I_insert \<longleftrightarrow> \<not> hasStarted i \<and> in_start i \<le> in_slot i"
  "hasStarted (loop_top i) \<longleftrightarrow> hasStarted i \<or> in_start i \<le> in_slot i"
  by (auto simp: loop_top_def)

lemma inserter_inv_step:
  assumes "inserter_inv i" "loopInsertDeleteValidator l i = Some i'"
  shows "inserter_inv i'"
  using assms by (cases l) (auto simp: inserter_inv_def on_insert_slot_def Let_def split: if_splits)

lemma started_step:
  assumes "loopInsertDeleteValidator l i = Some i'" "hasStarted i"
  shows "hasStarted i' \<and> (in_pc i' = I_insert \<longrightarrow> in_pc i = I_insert)"
  using assms by (cases l) (auto simp: on_insert_slot_def Let_def split: if_splits)

lemma no_second_insert:
  assumes "run_steps loopInsertDeleteValidator ls i = Some i'" "hasStarted i" "in_pc i \<noteq> I_insert"
  shows "InsertSent \<notin> set ls"
  using assms
proof (induction ls arbitrary: i)
  case (Cons l ls)
  then obtain j where j: "loopInsertDeleteValidator l i = Some j" "run_steps loopInsertDeleteValidator ls j = Some i'"
    by (auto split: option.splits)
  with started_step [OF j(1) Cons.prems(2)] Cons.prems(3) Cons.IH [OF j(2)] show ?case by auto
qed simp

text \<open>
  The goroutine that follows a validator inserts it at most once and not before the start of its
  period, and deletes it only when more than ten slots have passed since the end of the period.
\<close>

theorem validator_inserted_once:
  assumes "run_steps loopInsertDeleteValidator ls (new_inserter k vote a f) = Some i"
  shows "(\<forall>xs ys. ls = xs @ InsertSent # ys \<longrightarrow> InsertSent \<notin> set ys)
    \<and> (\<forall>j. loopInsertDeleteValidator InsertSent i = Some j \<longrightarrow> in_start i \<le> in_slot i)
    \<and> (\<forall>j. loopInsertDeleteValidator DeleteSent i = Some j \<longrightarrow> in_finish i + 10 < in_slot i)"
proof -
  have z: "inserter_inv (new_inserter k vote a f)" by (auto simp: inserter_inv_def new_inserter_def)
  have inv: "inserter_inv q" if "run_steps loopInsertDeleteValidator xs (new_inserter k vote a f) = Some q" for xs q
    by (rule run_steps_invariant [where I = inserter_inv, OF that z]) (rule inserter_inv_step)
  have "InsertSent \<notin> set ys" if ls: "ls = xs @ InsertSent # ys" for xs ys
  proof -
    obtain p q where p: "run_steps loopInsertDeleteValidator xs (new_inserter k vote a f) = Some p"
        "loopInsertDeleteValidator InsertSent p = Some q" "run_steps loopInsertDeleteValidator ys q = Some i"
      using assms ls by (auto simp: run_steps_append split: option.splits)
    have "hasStarted q" "in_pc q \<noteq> I_insert" using inv [OF p(1)] p(2) by (auto simp: inserter_inv_def split: if_splits)
    then show ?thesis by (rule no_second_insert [OF p(3)])
  qed
  with inv [OF assms] show ?thesis by (auto simp: inserter_inv_def split: if_splits)
qed

lemma join_run:
  "\<exists>i. run_steps loopInsertDeleteValidator [InsertSlot 20, InsertSent, InsertSlot 45] (new_inserter ''V'' ''w'' 20 30) = Some i
     \<and> loopInsertDeleteValidator DeleteSent i \<noteq> None \<and> in_finish i = 30"
  by (simp add: new_inserter_def loop_top_def on_insert_slot_def)

theorem validator_inserted_once_witness:
  "\<exists>i. run_steps loopInsertDeleteValidator [InsertSlot 20, InsertSent, InsertSlot 45] (new_inserter ''V'' ''w'' 20 30) = Some i
     \<and> in_finish i + 10 < in_slot i"
proof -
  obtain i where i: "run_steps loopInsertDeleteValidator [InsertSlot 20, InsertSent, InsertSlot 45] (new_inserter ''V'' ''w'' 20 30) = Some i"
      "loopInsertDeleteValidator DeleteSent i \<noteq> None"
    using join_run by blast
  then show ?thesis using validator_inserted_once [OF i(1)] by blast
qed

section \<open>The answer to a call of Submit\<close>

text \<open>
  A transaction that the validator has accepted is never acknowledged: the goroutine that sends it
  writes no signature, and the call waits for one without looking at its context.
\<close>

lemma accepted_submit_never_returns:
  assumes "loopSendTx submit (new_submit tx) = Some si" "submit tx = None"
  shows "Submit False True False si = None"
  using assms by (auto simp: loopSendTx_def new_submit_def make_chan_def chan_send_def chan_recv_def Submit_def)

lemma refused_submit_returns:
  assumes "loopSendTx submit (new_submit tx) = Some si" "submit tx = Some e"
  shows "Submit False True False si = returns (Inl e)"
  using assms by (auto simp: loopSendTx_def new_submit_def make_chan_def chan_send_def chan_recv_def Submit_def)

end
