(* ===== verification/Spec2Isabelle.thy ===== *)
theory Spec2Isabelle
  imports LinkedList RingBuffer ListIndex Subscription PayoutClock PayoutSchedule PipelineSchedule
    ReceiptSchedule StakerSchedule ValidatorSchedule Router PayoutState PipelineState SlotClock
    AccountState AccountFeed TxScript TxWrapper Cranker PipelineAgent PipelineAdmin
    ValidatorAgent RelayPipeline RelayRuns
begin

text \<open>
  Solpipe sells the transaction bandwidth of Solana validators through pipelines. A pipeline
  appends periods; every period has a payout, for which users bid, validators provide receipts and
  stakers back the validators. The on-chain program (the Go package cba, not part of the repository)
  holds the accounts; this repository follows them, keeps an object for each, decides when the next
  instruction is due, and proxies transactions.

  \<^bold>\<open>The parts and how they meet.\<close> Accounts arrive over a websocket and are handed to the router
  (state/router), which creates an object per account and tells the objects about each other. Each
  object (state/payout, state/pipeline, state/validator, state/staker, state/receipt) is a goroutine
  that owns its data and answers requests; it tells others about changes through subscription homes
  (ds/sub). The slot clock (state/slot) announces slots. The schedules (scheduler) listen to the
  objects and the clock and announce events; the agents act on these. The relay of a pipeline passes
  the transactions of bidders on to validators. All of them use the containers
  of ds: a doubly linked list, a ring buffer and a radix tree.

  \<^bold>\<open>Theories.\<close>
  \<^item> Prelude: names of the Go types, panics as values, bounded queues and channels as a locale, runs
    of labelled systems.
  \<^item> LinkedList (ds/list/list.go), RingBuffer (ds/ring/ring.go), Radix (ds/radix/radix.go) and
    ListIndex (RadixIndex): the containers. The list lives in a heap of nodes and is shown to refine a
    sequence; the ring is a bounded queue; the radix tree refines a finite map, and its walks, its
    longest prefix, its minimum and maximum select what they should. Shown as well: Prepend ties the
    head to itself, DeletePrefix can break Minimum, GetById finds elements only while the ring has
    not moved, RadixIndex fails on every non-empty list.
  \<^item> SharedLists: two lists on one heap, and calls that may panic or not return.
  \<^item> Subscription (ds/sub/sub.go): the broadcaster; its home never blocks, no value is lost without an
    error, and the order in which Go walks over the subscribers does not matter.
  \<^item> Scheduler (scheduler/event.go, scheduler.go), PayoutClock and PayoutSchedule (scheduler/payout),
    PipelineSchedule, ReceiptSchedule, StakerSchedule, ValidatorSchedule (the packages of these names
    under scheduler): when instructions are due. Cranking, closing bids, closing a payout, appending a
    period, approving and withdrawing happen when their conditions hold and once; late subscribers get
    the history. Shown as well: waits that never end and events that are missed.
  \<^item> Router (state/router): whatever the order of arrival, payouts reach their pipeline and receipts
    their payout and validator; stakers that come before their receipt are lost, and AllValidator
    counts pipelines.
  \<^item> PayoutState (state/payout): the bid book with the aliasing of its loop variable, the state after
    the auction, the receipts.
  \<^item> PipelineState (state/pipeline): the list of payouts ordered by period, the table of its nodes, the
    claims, the stake, the ring.
  \<^item> SlotClock (state/slot): which slots are broadcast.
  \<^item> AccountState (state/validator, state/staker, state/receipt): tables kept in step, stated once in a
    locale and interpreted for validator and staker.
  \<^item> AccountFeed (state/sub, state/router/internal.go): the download of all accounts, the stream of
    their changes and the start of the router on both. The tables of the download and the
    announcements are functions of the accounts received; composed with the router, every downloaded
    or announced payout and receipt finds its counterparts. Bid lists that existed at the start are
    never delivered.
  \<^item> TxScript (script): the transaction builder and every function that adds an instruction, as
    actions on the record Script; a finished transaction holds the keys of its payer and of every
    account that was given with its key. TxWrapper (script/wrap.go): the sender with its retries,
    which ends after a bounded number of tries and waits.
  \<^item> Cranker (agent/cranker): the loop of the crank agent, its two goroutines with their channels, and
    the crank of one payout. Requests for one pipeline are spaced, a crank never comes before the end
    of the period; shown as well: the two goroutines block each other when four pipelines are due.
  \<^item> ConfigFile (the files that the agents keep): writing and reading of settings, with the JSON codec
    as a parameter; what was saved is what the next start loads.
  \<^item> PipelineAgent (agent/pipeline): the agent of one pipeline, with its table of running jobs and the
    instruction of every event. One payout gets one instruction of each kind, an appended period
    follows the settings. PipelineAdmin (agent/pipeline/admin): the requests of the administrator;
    settings survive a restart.
  \<^item> ValidatorAgent (agent/validator): the agent of a validator with its listeners, one for each
    pipeline it follows, and the requests that change its settings. There is one running listener per
    pipeline in every interleaving, the settings choose the pipeline; shown as well: the settings sent
    twice block the agent, and a payout offered late selects a pipeline again that had been
    deselected.
  \<^item> RateLimit (proxy/relay/pipeline, bidder.go and validator.go): the workers of bidders and validators
    with their throttled readers. The contract that a worker hands on what it gets, in order and with at
    most two transactions inside, is a locale interpreted for both. A bidder over its rate sends at most
    one more transaction; shown as well: it can jam its worker for ever.
  \<^item> RelayPipeline (the rest of the package): the periods, the table of bidders, the connections, the
    goroutines of validators that join and leave, the main loop and Submit, composed into one system.
    RelayRuns: its runs. One worker for each bidder, payouts in order are found, a validator is
    inserted once; shown as well: no validator is ever connected, a late payout is never found, ended
    periods stay, an accepted Submit does not return, and the relay can wait for ever for a validator.

  \<^bold>\<open>Correspondence.\<close> A Go struct is a record with the fields of the source; a method is a definition of
  the same name, and where several packages have a method of one name the theory tells them apart. A
  goroutine is its record of local variables together with one function per case of its select
  statement, and a run is a list of messages or labels, so a theorem about all runs is a theorem about
  all interleavings. Unsigned integers are words of their width and wrap. A nil dereference, a division
  by zero and an index out of range are the outcome Panic; an error is the left side of a sum. A send
  that cannot proceed for ever makes the step undefined. Keys are strings in the form in which the
  source uses them as map keys. Where Go leaves an order open (maps, select), the order is a parameter
  or the theorem does not depend on it. Loop variables follow Go 1.18, the version in go.mod.

  \<^bold>\<open>Parameters.\<close> What a client library returns (creating a pipeline, the Borsh decoders and
  discriminators of cba, instruction builders, address derivation, signatures, RPC answers,
  the operations on floating point numbers) is an argument of the definitions. The account types of
  the package cba are records with the fields that the code reads.

  \<^bold>\<open>Termination.\<close> Loops along node pointers are partial functions, whose value None means that the loop
  does not end; that they end on well-formed lists is proved. Recursion in the radix tree descends to
  children. No fuel is used except for reading off the nodes of a list, which follows at most as many
  pointers as there are allocated nodes. Bounds of 2 to the 32 on the length of a list are the width of
  the field Size, bounds of 2 to the 16 on a ring the width of its indices.

  \<^bold>\<open>Not modelled.\<close> Code generated by protoc; commands, shell, web client, logger, test drivers;
  the proxy servers and clients with gRPC, TLS and Tor and the relay of a validator; the agents of
  bidder and staker, which only wait for their end; the controller, which only
  forwards an RPC subscription; the network statistics and the pricing, which rest on floating point;
  the SQLite store, whose behaviour is that of SQL statements. Functions that only make channels and
  start goroutines are left out of the modelled packages, as noted with each component.
\<close>

end
